(* ===== verification/Prelude.thy ===== *)
theory Prelude
  imports Main "HOL-Library.Word"
begin

text \<open>
  Shared vocabulary of the development.

  Go's \<^verbatim>\<open>time.Time\<close> is an absolute instant; its zero value is the instant
  \<^verbatim>\<open>0001-01-01T00:00:00Z\<close>. The model counts nanoseconds from that instant, so the zero
  \<^verbatim>\<open>time.Time{}\<close> is the integer 0 and \<^verbatim>\<open>IsZero\<close> is a comparison with 0. A
  \<^verbatim>\<open>time.Duration\<close> is a signed 64-bit count of nanoseconds; \<^verbatim>\<open>Time.Sub\<close>
  saturates at the ends of that range. Go's \<^verbatim>\<open>int\<close> is 64 bits wide: where a component
  computes with values that can leave the range, the wrap-around is written out with
  \<open>wrap64\<close>.
\<close>

unbundle bit_operations_syntax

named_theorems time_defs \<open>definitions of the time arithmetic\<close>

subsection \<open>Time and durations\<close>

type_synonym gotime = int
type_synonym duration = int

abbreviation (input) zero_time :: gotime where
  "zero_time \<equiv> 0"

definition time_Nanosecond :: duration where
  "time_Nanosecond = 1"

definition time_Millisecond :: duration where
  "time_Millisecond = 1000000"

definition time_Second :: duration where
  "time_Second = 1000000000"

definition time_Minute :: duration where
  "time_Minute = 60 * time_Second"

definition time_Hour :: duration where
  "time_Hour = 60 * time_Minute"

definition max_duration :: duration where
  "max_duration = 9223372036854775807"

definition min_duration :: duration where
  "min_duration = - 9223372036854775808"

lemmas duration_units [time_defs] =
  time_Nanosecond_def time_Millisecond_def time_Second_def time_Minute_def time_Hour_def
  max_duration_def min_duration_def

definition time_sub :: "gotime \<Rightarrow> gotime \<Rightarrow> duration" where
  "time_sub t u = max min_duration (min max_duration (t - u))"

definition time_trunc :: "gotime \<Rightarrow> duration \<Rightarrow> gotime" where
  "time_trunc t d = (if d \<le> 0 then t else t - t mod d)"

lemma time_sub_less_iff:
  "d \<le> max_duration \<Longrightarrow> min_duration < d \<Longrightarrow> time_sub t u < d \<longleftrightarrow> t - u < d"
  by (auto simp: time_sub_def)

lemma time_sub_ge_iff:
  "d \<le> max_duration \<Longrightarrow> min_duration < d \<Longrightarrow> d \<le> time_sub t u \<longleftrightarrow> d \<le> t - u"
  by (auto simp: time_sub_def)

lemma time_trunc_le: "0 < d \<Longrightarrow> time_trunc t d \<le> t"
  by (simp add: time_trunc_def)

lemma time_trunc_gt: "0 < d \<Longrightarrow> t < time_trunc t d + d"
  using pos_mod_bound [of d t] by (simp add: time_trunc_def)

lemma time_trunc_dvd: "0 < d \<Longrightarrow> d dvd time_trunc t d"
  by (simp add: time_trunc_def dvd_minus_mod)

subsection \<open>Integer division by a positive number\<close>

lemma div_bounds:
  fixes x k :: int
  assumes "0 < k"
  shows "k * (x div k) \<le> x" "x < k * (x div k) + k"
  using mult_div_mod_eq [of k x] pos_mod_bound [OF assms, of x] pos_mod_sign [OF assms, of x] by linarith+

lemma div_less_iff_mult:
  fixes x k q :: int
  assumes "0 < k"
  shows "x div k < q \<longleftrightarrow> x < q * k"
proof
  assume "x div k < q"
  then have "k * (x div k + 1) \<le> k * q" using assms by (intro mult_left_mono) auto
  then show "x < q * k" using div_bounds(2) [OF assms, of x] by (simp add: algebra_simps)
next
  assume "x < q * k"
  show "x div k < q"
  proof (rule ccontr)
    assume "\<not> x div k < q"
    then have "k * q \<le> k * (x div k)" using assms by (intro mult_left_mono) auto
    with div_bounds(1) [OF assms, of x] \<open>x < q * k\<close> show False by (simp add: mult.commute)
  qed
qed

subsection \<open>Signed 64-bit wrap-around\<close>

definition max_int :: int where
  "max_int = 9223372036854775807"

definition min_int :: int where
  "min_int = - 9223372036854775808"

definition wrap64 :: "int \<Rightarrow> int" where
  "wrap64 x = (x + 9223372036854775808) mod 18446744073709551616 - 9223372036854775808"

lemma wrap64_id: "min_int \<le> x \<Longrightarrow> x \<le> max_int \<Longrightarrow> wrap64 x = x"
  by (simp add: wrap64_def min_int_def max_int_def)

lemma wrap64_over: "max_int < x \<Longrightarrow> x < max_int + 18446744073709551616 \<Longrightarrow> wrap64 x = x - 18446744073709551616"
  unfolding wrap64_def max_int_def
  using mod_pos_pos_trivial [of "x + 9223372036854775808 - 18446744073709551616" 18446744073709551616]
  by (simp add: mod_pos_geq)

lemma wrap64_range: "min_int \<le> wrap64 x \<and> wrap64 x \<le> max_int"
proof -
  have "0 \<le> (x + 9223372036854775808) mod 18446744073709551616"
    and "(x + 9223372036854775808) mod 18446744073709551616 < 18446744073709551616"
    by simp_all
  then show ?thesis by (simp add: wrap64_def min_int_def max_int_def)
qed

text \<open>Go's integer division and remainder truncate towards zero.\<close>

definition go_div :: "int \<Rightarrow> int \<Rightarrow> int" where
  "go_div a b = sgn a * sgn b * (\<bar>a\<bar> div \<bar>b\<bar>)"

definition go_rem :: "int \<Rightarrow> int \<Rightarrow> int" where
  "go_rem a b = a - b * go_div a b"

lemma go_div_nonneg: "0 \<le> a \<Longrightarrow> 0 < b \<Longrightarrow> go_div a b = a div b"
  by (cases "a = 0") (auto simp: go_div_def sgn_if)

lemma go_rem_nonneg: "0 \<le> a \<Longrightarrow> 0 < b \<Longrightarrow> go_rem a b = a mod b"
  by (simp add: go_rem_def go_div_nonneg minus_mult_div_eq_mod)

end
