(* ===== verification/CronBits.thy ===== *)
theory CronBits
  imports Prelude
begin

text \<open>
  The 64-bit field masks of \<^verbatim>\<open>pkg/cron\<close> (the helpers at the end of
  \<^verbatim>\<open>parser.go\<close>): value \<open>v\<close> of a cron field is allowed when bit \<open>v\<close> of the mask is
  set. A Go shift by 64 or more gives 0, and \<^verbatim>\<open>uint(v)\<close> of a negative \<open>v\<close> is such a count.
\<close>

type_synonym mask = "64 word"

definition shl1 :: "int \<Rightarrow> mask" where
  "shl1 v = (if v < 0 then 0 else push_bit (nat v) 1)"

definition bitFor :: "int \<Rightarrow> mask" where
  "bitFor v = shl1 v"

definition bitMatch :: "mask \<Rightarrow> int \<Rightarrow> bool" where
  "bitMatch m v \<longleftrightarrow> m AND shl1 v \<noteq> 0"

definition allBits :: "int \<Rightarrow> int \<Rightarrow> mask" where
  "allBits lo hi =
     (if lo > hi \<or> hi - lo + 1 \<ge> 64 then NOT 0
      else push_bit (nat lo) (shl1 (hi - lo + 1) - 1))"

text \<open>\<^verbatim>\<open>bits.TrailingZeros64\<close>: the number of zero bits below the lowest set bit, 64 for 0.\<close>

definition TrailingZeros64 :: "mask \<Rightarrow> int" where
  "TrailingZeros64 m = int (length (takeWhile (\<lambda>i. \<not> bit m i) [0..<64]))"

definition nextSetBit :: "mask \<Rightarrow> int \<Rightarrow> int \<Rightarrow> int option" where
  "nextSetBit m from maxVal =
     (if from > maxVal then None
      else let shifted = drop_bit (nat from) m in
        if shifted = 0 then None
        else let value = from + TrailingZeros64 shifted in
          if value > maxVal then None else Some value)"

subsection \<open>What the masks mean\<close>

definition mem :: "int \<Rightarrow> mask \<Rightarrow> bool" where
  "mem v m \<longleftrightarrow> 0 \<le> v \<and> bit m (nat v)"

lemma mask_nonzero_bit: "(m :: mask) \<noteq> 0 \<Longrightarrow> \<exists>n. bit m n"
  by (auto simp: bit_eq_iff)

lemma bit_shl1: "bit (shl1 v) n \<longleftrightarrow> 0 \<le> v \<and> n = nat v \<and> n < 64"
  by (auto simp: shl1_def bit_simps)

lemma mem_bitFor [simp]: "mem u (bitFor v) \<longleftrightarrow> u = v \<and> 0 \<le> v \<and> v < 64"
  by (auto simp: mem_def bitFor_def bit_shl1)

lemma mem_or [simp]: "mem v (a OR b) \<longleftrightarrow> mem v a \<or> mem v b"
  by (auto simp: mem_def bit_simps)

lemma mem_zero [simp]: "\<not> mem v 0"
  by (simp add: mem_def)

lemma mem_bound: "mem v m \<Longrightarrow> 0 \<le> v \<and> v < 64"
  by (auto simp: mem_def dest: bit_imp_le_length)

lemma mask_nonzero_iff: "m \<noteq> 0 \<longleftrightarrow> (\<exists>v. mem v m)"
proof
  assume "m \<noteq> 0"
  then obtain n where "bit m n" using mask_nonzero_bit by blast
  then have "mem (int n) m" by (simp add: mem_def)
  then show "\<exists>v. mem v m" ..
qed auto

lemma bitMatch_mem: "bitMatch m v \<longleftrightarrow> mem v m"
proof -
  have "mem u (m AND shl1 v) \<longleftrightarrow> u = v \<and> mem v m" for u
    by (auto simp: mem_def bit_simps bit_shl1 nat_eq_iff dest: bit_imp_le_length)
  then show ?thesis
    by (simp add: bitMatch_def mask_nonzero_iff)
qed

lemma mem_allBits:
  assumes "0 \<le> lo" "lo \<le> hi" "hi < 64" "hi - lo < 63"
  shows "mem v (allBits lo hi) \<longleftrightarrow> lo \<le> v \<and> v \<le> hi"
proof -
  have "shl1 (hi - lo + 1) - 1 = (Bit_Operations.mask (nat (hi - lo + 1)) :: mask)"
    using assms by (simp add: shl1_def mask_eq_exp_minus_1 push_bit_eq_mult)
  then show ?thesis
    using assms by (auto simp: mem_def allBits_def bit_simps; arith)
qed

lemma allBits_nonzero: "0 \<le> lo \<Longrightarrow> lo \<le> hi \<Longrightarrow> hi < 64 \<Longrightarrow> hi - lo < 63 \<Longrightarrow> allBits lo hi \<noteq> 0"
  by (metis mask_nonzero_iff mem_allBits order_refl)

lemma takeWhile_upt_least:
  "\<exists>k<n. P k \<Longrightarrow> length (takeWhile (\<lambda>i. \<not> P i) [0..<n]) = (LEAST k. P k)"
proof -
  assume ex: "\<exists>k<n. P k"
  define l where "l = (LEAST k. P k)"
  from ex obtain k where k: "k < n" "P k" by blast
  have Pl: "P l" and ln: "l < n"
    using k LeastI [of P k] Least_le [of P k] by (auto simp: l_def)
  have low: "\<not> P i" if "i < l" for i
    using that not_less_Least [of i P] by (simp add: l_def)
  have split: "[0..<n] = [0..<l] @ l # [Suc l..<n]"
    using ln upt_add_eq_append [of 0 l "n - l"] by (simp add: upt_conv_Cons)
  have "takeWhile (\<lambda>i. \<not> P i) [0..<n] = [0..<l]"
    unfolding split using low Pl by (subst takeWhile_append2) auto
  then show ?thesis by (simp add: l_def)
qed

lemma TrailingZeros64_Least: "m \<noteq> 0 \<Longrightarrow> TrailingZeros64 m = int (LEAST k. bit m k)"
proof -
  assume "m \<noteq> 0"
  then obtain n where n: "bit m n" using mask_nonzero_bit by blast
  then have "n < 64" using bit_imp_le_length [OF n] by simp
  with n show ?thesis unfolding TrailingZeros64_def by (subst takeWhile_upt_least) auto
qed

lemma TrailingZeros64_mem:
  assumes "m \<noteq> 0"
  shows "mem (TrailingZeros64 m) m" and "mem v m \<Longrightarrow> TrailingZeros64 m \<le> v"
proof -
  from assms obtain n where n: "bit m n" using mask_nonzero_bit by blast
  show "mem (TrailingZeros64 m) m"
    using LeastI [of "bit m", OF n] by (simp add: TrailingZeros64_Least assms mem_def)
  show "TrailingZeros64 m \<le> v" if "mem v m"
    using that Least_le [of "bit m" "nat v"] by (simp add: TrailingZeros64_Least assms mem_def) linarith
qed

lemma mem_drop_bit: "0 \<le> k \<Longrightarrow> mem v (drop_bit (nat k) m) \<longleftrightarrow> 0 \<le> v \<and> mem (k + v) m"
  by (auto simp: mem_def bit_simps nat_add_distrib)

text \<open>
  \<open>nextSetBit\<close> finds the least allowed value of a field that is not below \<open>from\<close>: the step every
  search of \<^verbatim>\<open>specSchedule.Next\<close> takes.
\<close>

lemma nextSetBit_Some:
  assumes "0 \<le> from" "nextSetBit m from hi = Some v"
  shows "from \<le> v" "v \<le> hi" "mem v m" "\<And>u. from \<le> u \<Longrightarrow> u < v \<Longrightarrow> \<not> mem u m"
proof -
  let ?s = "drop_bit (nat from) m"
  from assms have s: "?s \<noteq> 0" and v: "v = from + TrailingZeros64 ?s" and "v \<le> hi"
    by (auto simp: nextSetBit_def Let_def split: if_splits)
  show "v \<le> hi" by fact
  have t: "mem (TrailingZeros64 ?s) ?s" by (rule TrailingZeros64_mem [OF s])
  with v assms(1) show "from \<le> v" "mem v m"
    by (auto simp: mem_drop_bit)
  show "\<not> mem u m" if "from \<le> u" "u < v" for u
  proof
    assume "mem u m"
    with that assms(1) have "mem (u - from) ?s" by (simp add: mem_drop_bit)
    from TrailingZeros64_mem(2) [OF s this] v that show False by simp
  qed
qed

lemma nextSetBit_None:
  assumes "0 \<le> from" "nextSetBit m from hi = None" "from \<le> u" "u \<le> hi"
  shows "\<not> mem u m"
proof
  assume "mem u m"
  let ?s = "drop_bit (nat from) m"
  from \<open>mem u m\<close> assms have ms: "mem (u - from) ?s" by (simp add: mem_drop_bit)
  then have s: "?s \<noteq> 0" by (auto simp: mask_nonzero_iff)
  from TrailingZeros64_mem(2) [OF s ms] assms s show False
    by (auto simp: nextSetBit_def Let_def split: if_splits)
qed

end
