(* ===== verification/GoStrings.thy ===== *)
theory GoStrings
  imports Prelude
begin

text \<open>
  The functions of Go's \<^verbatim>\<open>strings\<close> and \<^verbatim>\<open>strconv\<close> packages that the modelled
  code calls. A Go string is a sequence of bytes, here a \<open>string\<close> (a list of 8-bit characters).
  The case and white-space functions are modelled on ASCII text: the Unicode spaces and case
  pairs outside ASCII are left alone.
\<close>

definition is_space :: "char \<Rightarrow> bool" where
  "is_space c \<longleftrightarrow> (of_char c :: nat) = 32 \<or> 9 \<le> (of_char c :: nat) \<and> (of_char c :: nat) \<le> 13"

definition TrimSpace :: "string \<Rightarrow> string" where
  "TrimSpace s = rev (dropWhile is_space (rev (dropWhile is_space s)))"

definition HasPrefix :: "string \<Rightarrow> string \<Rightarrow> bool" where
  "HasPrefix s p \<longleftrightarrow> take (length p) s = p"

definition TrimPrefix :: "string \<Rightarrow> string \<Rightarrow> string" where
  "TrimPrefix s p = (if HasPrefix s p then drop (length p) s else s)"

definition upper_char :: "char \<Rightarrow> char" where
  "upper_char c = (let n = (of_char c :: nat) in if 97 \<le> n \<and> n \<le> 122 then char_of (n - 32) else c)"

definition lower_char :: "char \<Rightarrow> char" where
  "lower_char c = (let n = (of_char c :: nat) in if 65 \<le> n \<and> n \<le> 90 then char_of (n + 32) else c)"

definition ToUpper :: "string \<Rightarrow> string" where
  "ToUpper s = map upper_char s"

definition ToLower :: "string \<Rightarrow> string" where
  "ToLower s = map lower_char s"

definition ContainsAny :: "string \<Rightarrow> string \<Rightarrow> bool" where
  "ContainsAny s cs \<longleftrightarrow> list_ex (\<lambda>c. c \<in> set cs) s"

fun split_pred :: "(char \<Rightarrow> bool) \<Rightarrow> string \<Rightarrow> string list" where
  "split_pred p [] = [[]]"
| "split_pred p (x # xs) =
     (if p x then [] # split_pred p xs
      else case split_pred p xs of [] \<Rightarrow> [[x]] | y # ys \<Rightarrow> (x # y) # ys)"

text \<open>\<^verbatim>\<open>strings.Split\<close> with a one-character separator, and \<^verbatim>\<open>strings.Fields\<close>.\<close>

definition Split :: "string \<Rightarrow> char \<Rightarrow> string list" where
  "Split s c = split_pred (\<lambda>x. x = c) s"

definition Fields :: "string \<Rightarrow> string list" where
  "Fields s = filter (\<lambda>f. f \<noteq> []) (split_pred is_space s)"

text \<open>\<^verbatim>\<open>strings.SplitN(s, sep, 2)\<close>: the part before the first separator, and the rest if there is one.\<close>

definition SplitN2 :: "string \<Rightarrow> char \<Rightarrow> string \<times> string option" where
  "SplitN2 s c =
     (takeWhile (\<lambda>x. x \<noteq> c) s,
      case dropWhile (\<lambda>x. x \<noteq> c) s of [] \<Rightarrow> None | _ # r \<Rightarrow> Some r)"

fun Join :: "string list \<Rightarrow> string \<Rightarrow> string" where
  "Join [] sep = []"
| "Join [x] sep = x"
| "Join (x # xs) sep = x @ sep @ Join xs sep"

subsection \<open>strconv.Atoi\<close>

definition digit_val :: "char \<Rightarrow> int option" where
  "digit_val c =
     (let n = (of_char c :: nat) in if 48 \<le> n \<and> n \<le> 57 then Some (int n - 48) else None)"

fun parse_digits :: "int \<Rightarrow> string \<Rightarrow> int option" where
  "parse_digits acc [] = Some acc"
| "parse_digits acc (c # cs) =
     (case digit_val c of None \<Rightarrow> None | Some d \<Rightarrow> parse_digits (10 * acc + d) cs)"

definition in_int_range :: "int \<Rightarrow> bool" where
  "in_int_range n \<longleftrightarrow> min_int \<le> n \<and> n \<le> max_int"

definition Atoi :: "string \<Rightarrow> int option" where
  "Atoi s =
     (let neg = (s \<noteq> [] \<and> hd s = CHR ''-'');
          ds = (if s \<noteq> [] \<and> (hd s = CHR ''-'' \<or> hd s = CHR ''+'') then tl s else s)
      in if ds = [] then None
         else case parse_digits 0 ds of
                None \<Rightarrow> None
              | Some n \<Rightarrow> (let v = (if neg then - n else n) in if in_int_range v then Some v else None))"

lemma Atoi_range: "Atoi s = Some n \<Longrightarrow> min_int \<le> n \<and> n \<le> max_int"
  by (auto simp: Atoi_def Let_def in_int_range_def split: option.splits if_splits)

lemma split_pred_nonempty [simp]: "split_pred p s \<noteq> []"
  by (induction s) (auto split: list.splits)

lemma Split_nonempty [simp]: "Split s c \<noteq> []"
  by (simp add: Split_def)

lemma HasPrefix_iff: "HasPrefix s p \<longleftrightarrow> (\<exists>r. s = p @ r)"
  unfolding HasPrefix_def by (metis append_eq_conv_conj append_take_drop_id)

lemma split_pred_no_sep: "\<forall>x\<in>set s. \<not> p x \<Longrightarrow> split_pred p s = [s]"
  by (induction s) auto

lemma split_pred_append_sep:
  "p x \<Longrightarrow> \<forall>y\<in>set s. \<not> p y \<Longrightarrow> split_pred p (s @ x # r) = s # split_pred p r"
  by (induction s) auto

lemma Fields_nonempty: "f \<in> set (Fields s) \<Longrightarrow> f \<noteq> []"
  by (simp add: Fields_def)

text \<open>Splitting what was joined gives the pieces back, when no piece holds the separator.\<close>

lemma Split_Join:
  "xs \<noteq> [] \<Longrightarrow> \<forall>x\<in>set xs. c \<notin> set x \<Longrightarrow> Split (Join xs [c]) c = xs"
proof (induction xs "[c]" rule: Join.induct)
  case (2 x)
  then have "\<forall>y\<in>set x. y \<noteq> c" by auto
  then show ?case by (simp add: Split_def split_pred_no_sep)
next
  case (3 x y xs)
  then have "\<forall>z\<in>set x. z \<noteq> c" by auto
  with 3 show ?case by (simp add: Split_def split_pred_append_sep)
qed simp

subsection \<open>strconv.FormatInt\<close>

definition digit_char :: "int \<Rightarrow> char" where
  "digit_char d = char_of (nat d + 48)"

function decimal :: "int \<Rightarrow> string" where
  "decimal n = (if n < 10 then [digit_char n] else decimal (n div 10) @ [digit_char (n mod 10)])"
  by pat_completeness auto
termination by (relation "measure nat") auto

declare decimal.simps [simp del]

definition FormatInt :: "int \<Rightarrow> string" where
  "FormatInt n = (if n < 0 then CHR ''-'' # decimal (- n) else decimal n)"

lemma digit_val_char: "0 \<le> d \<Longrightarrow> d < 10 \<Longrightarrow> digit_val (digit_char d) = Some d"
  by (simp add: digit_val_def digit_char_def Let_def of_char_of nat_less_iff)

lemma parse_digits_append:
  "parse_digits acc (xs @ ys) = Option.bind (parse_digits acc xs) (\<lambda>a. parse_digits a ys)"
  by (induction acc xs rule: parse_digits.induct) (auto split: option.splits)

lemma parse_decimal: "0 \<le> n \<Longrightarrow> parse_digits 0 (decimal n) = Some n"
proof (induction n rule: decimal.induct)
  case (1 n)
  show ?case
  proof (cases "n < 10")
    case True
    with 1(2) show ?thesis by (simp add: decimal.simps [of n] digit_val_char)
  next
    case False
    with 1 show ?thesis by (simp add: decimal.simps [of n] parse_digits_append digit_val_char)
  qed
qed

lemma decimal_hd: "0 \<le> n \<Longrightarrow> decimal n \<noteq> [] \<and> hd (decimal n) \<noteq> CHR ''-'' \<and> hd (decimal n) \<noteq> CHR ''+''"
proof (induction n rule: decimal.induct)
  case (1 n)
  have d: "digit_char m \<noteq> CHR ''-'' \<and> digit_char m \<noteq> CHR ''+''" if "0 \<le> m" "m < 10" for m
    using digit_val_char [OF that] by (auto simp: digit_val_def Let_def)
  show ?case
  proof (cases "n < 10")
    case True
    with 1(2) d show ?thesis by (simp add: decimal.simps [of n])
  next
    case False
    with 1 show ?thesis by (simp add: decimal.simps [of n])
  qed
qed

lemma Atoi_FormatInt: "min_int \<le> n \<Longrightarrow> n \<le> max_int \<Longrightarrow> Atoi (FormatInt n) = Some n"
  using decimal_hd [of n] decimal_hd [of "- n"] parse_decimal [of n] parse_decimal [of "- n"]
  by (cases "n < 0") (auto simp: Atoi_def FormatInt_def Let_def in_int_range_def)

lemma FormatInt_inj: "FormatInt a = FormatInt b \<longleftrightarrow> a = b"
proof
  assume eq: "FormatInt a = FormatInt b"
  have "decimal m \<noteq> CHR ''-'' # xs" if "0 \<le> m" for m xs using decimal_hd [OF that] by auto
  then have sign: "(a < 0) = (b < 0)" using eq by (cases "a < 0"; cases "b < 0") (simp_all add: FormatInt_def, metis linorder_not_less)
  have inj: "x = y" if "decimal x = decimal y" "0 \<le> x" "0 \<le> y" for x y
    using parse_decimal [OF that(2), unfolded that(1)] parse_decimal [OF that(3)] by (simp only: option.inject)
  show "a = b" using eq sign inj [of a b] inj [of "- a" "- b"] by (cases "a < 0") (simp_all add: FormatInt_def)
qed simp

subsection \<open>strconv.ParseInt\<close>

text \<open>
  The value that \<^verbatim>\<open>strconv.ParseInt\<close> returns beside its error, which the callers ignore: 0 for a
  malformed string, the nearest bound for a number out of range.
\<close>

fun ParseUint_value :: "int \<Rightarrow> string \<Rightarrow> int" where
  "ParseUint_value n [] = n"
| "ParseUint_value n (c # cs) =
     (case digit_val c of
        None \<Rightarrow> 0
      | Some d \<Rightarrow>
          if n \<ge> 1844674407370955162 then 18446744073709551615
          else if n * 10 + d > 18446744073709551615 then 18446744073709551615
          else ParseUint_value (n * 10 + d) cs)"

definition ParseInt_value :: "string \<Rightarrow> int" where
  "ParseInt_value s =
     (let neg = (s \<noteq> [] \<and> hd s = CHR ''-'');
          ds = (if s \<noteq> [] \<and> (hd s = CHR ''-'' \<or> hd s = CHR ''+'') then tl s else s);
          un = ParseUint_value 0 ds
      in if \<not> neg \<and> un > max_int then max_int
         else if neg \<and> un > max_int + 1 then min_int
         else if neg then - un else un)"

lemma parse_digits_grows: "parse_digits n ds = Some m \<Longrightarrow> 0 \<le> n \<Longrightarrow> n \<le> m"
proof (induction n ds rule: parse_digits.induct)
  case (2 n c cs)
  then obtain d where d: "digit_val c = Some d" by (cases "digit_val c") auto
  then have "0 \<le> d" by (auto simp: digit_val_def Let_def split: if_splits)
  with 2 d show ?case by simp
qed simp

lemma ParseUint_digits: "parse_digits n ds = Some m \<Longrightarrow> 0 \<le> n \<Longrightarrow> m \<le> 18446744073709551615 \<Longrightarrow> ParseUint_value n ds = m"
proof (induction n ds rule: parse_digits.induct)
  case (2 n c cs)
  then obtain d where d: "digit_val c = Some d" by (cases "digit_val c") auto
  then have "0 \<le> d" by (auto simp: digit_val_def Let_def split: if_splits)
  moreover have p: "parse_digits (10 * n + d) cs = Some m" using 2(2) d by simp
  ultimately have "10 * n + d \<le> m" using parse_digits_grows [OF p] 2(3) by simp
  with 2(1) [OF d p] 2(3,4) d \<open>0 \<le> d\<close> show ?case by (simp add: mult.commute)
qed simp

lemma ParseInt_FormatInt [simp]: "min_int \<le> n \<Longrightarrow> n \<le> max_int \<Longrightarrow> ParseInt_value (FormatInt n) = n"
  using decimal_hd [of n] decimal_hd [of "- n"] ParseUint_digits [OF parse_decimal, of n] ParseUint_digits [OF parse_decimal, of "- n"]
  by (cases "n < 0") (auto simp: ParseInt_value_def FormatInt_def Let_def min_int_def max_int_def)

end
