(* ===== verification/CronParser.thy ===== *)
theory CronParser
  imports CronBits GoStrings
begin

text \<open>
  The cron expression parser, \<^verbatim>\<open>pkg/cron/parser.go\<close>. A \<^verbatim>\<open>*time.Location\<close> is an
  opaque value of type \<open>'loc\<close> here. \<^verbatim>\<open>time.LoadLocation\<close> (the time-zone database of the
  host), \<^verbatim>\<open>time.Local\<close> and \<^verbatim>\<open>time.ParseDuration\<close> are arguments of the
  definitions: every lemma holds for all of their behaviours. An error return is a value of
  \<open>cron_error\<close>, one constructor per \<^verbatim>\<open>fmt.Errorf\<close>; \<open>IndexPanic\<close> stands for the
  run-time panic of an out-of-range slice access and \<open>Diverges\<close> for a loop that is still running
  after 256 rounds (both are shown not to happen).
\<close>

type_synonym ParseOption = int

definition Second :: ParseOption where "Second = 1"
definition SecondOptional :: ParseOption where "SecondOptional = 2"
definition Minute :: ParseOption where "Minute = 4"
definition Hour :: ParseOption where "Hour = 8"
definition Dom :: ParseOption where "Dom = 16"
definition Month :: ParseOption where "Month = 32"
definition Dow :: ParseOption where "Dow = 64"
definition DowOptional :: ParseOption where "DowOptional = 128"
definition Descriptor :: ParseOption where "Descriptor = 256"

lemmas option_defs = Second_def SecondOptional_def Minute_def Hour_def Dom_def Month_def Dow_def
  DowOptional_def Descriptor_def

datatype cron_error =
    MultipleOptional
  | EmptySpec
  | BadLocation string
  | DescriptorsUnsupported
  | BadFieldCount int int int
  | UnsupportedSyntax string
  | QuestionNotAllowed
  | BothQuestion
  | EmptyField nat
  | BadDuration string
  | UnrecognizedDescriptor string
  | EmptyToken
  | BadStepSyntax string
  | BadStepValue string
  | BadRangeSyntax string
  | RangeOrder string
  | BadNumber string
  | OutOfRange int nat
  | IndexPanic
  | Diverges

record 'loc specSchedule =
  ss_sec :: mask
  ss_min :: mask
  ss_hour :: mask
  ss_dom :: mask
  ss_month :: mask
  ss_dow :: mask
  ss_domStar :: bool
  ss_dowStar :: bool
  ss_loc :: "'loc option"

datatype 'loc Schedule =
    SpecSchedule "'loc specSchedule"
  | ConstantDelaySchedule duration
  | ImmediateSchedule

record Parser =
  options :: ParseOption

definition monthNames :: "(string \<times> int) list" where
  "monthNames =
     [(''JAN'', 1), (''FEB'', 2), (''MAR'', 3), (''APR'', 4), (''MAY'', 5), (''JUN'', 6),
      (''JUL'', 7), (''AUG'', 8), (''SEP'', 9), (''OCT'', 10), (''NOV'', 11), (''DEC'', 12)]"

definition weekdayNames :: "(string \<times> int) list" where
  "weekdayNames =
     [(''SUN'', 0), (''MON'', 1), (''TUE'', 2), (''WED'', 3), (''THU'', 4), (''FRI'', 5), (''SAT'', 6)]"

text \<open>\<open>fieldBounds\<close>, \<open>fieldPlaces\<close> and \<open>fieldDefaults\<close>, in the order of the fields.\<close>

definition fieldBounds :: "(int \<times> int) list" where
  "fieldBounds = [(0, 59), (0, 59), (0, 23), (1, 31), (1, 12), (0, 7)]"

definition fieldPlaces :: "ParseOption list" where
  "fieldPlaces = [Second, Minute, Hour, Dom, Month, Dow]"

definition fieldDefaults :: "string list" where
  "fieldDefaults = [''0'', ''0'', ''0'', ''*'', ''*'', ''*'']"

definition has_option :: "ParseOption \<Rightarrow> ParseOption \<Rightarrow> bool" where
  "has_option os p \<longleftrightarrow> os AND p > 0"

definition NewParser :: "ParseOption \<Rightarrow> cron_error + Parser" where
  "NewParser os =
     (let optionals = (if has_option os DowOptional then 1 else 0) +
                      (if has_option os SecondOptional then 1 else 0) :: nat
      in if optionals > 1 then Inl MultipleOptional else Inr \<lparr>options = os\<rparr>)"

definition initDefaultParser :: "cron_error + Parser" where
  "initDefaultParser =
     NewParser (SecondOptional OR Minute OR Hour OR Dom OR Month OR Dow OR Descriptor)"

subsection \<open>One field: values, ranges, steps\<close>

definition parseValue :: "string \<Rightarrow> int \<Rightarrow> int \<Rightarrow> nat \<Rightarrow> cron_error + int" where
  "parseValue tok minVal maxVal index =
     (let token = TrimSpace (ToUpper tok) in
      if token = ''*'' \<or> token = ''?'' then Inr minVal
      else case (if index = 4 then map_of monthNames token else None) of
        Some v \<Rightarrow> Inr v
      | None \<Rightarrow>
        (case (if index = 5 then map_of weekdayNames token else None) of
           Some v \<Rightarrow> Inr v
         | None \<Rightarrow>
           if index = 5 \<and> token = ''7'' then Inr 0
           else case Atoi token of
             None \<Rightarrow> Inl (BadNumber token)
           | Some value \<Rightarrow>
               if index = 5 \<and> value = 7 then Inr 0
               else if value < minVal \<or> value > maxVal then Inl (OutOfRange value index)
               else Inr value))"

definition parseStep :: "string \<Rightarrow> cron_error + string \<times> int \<times> bool" where
  "parseStep part =
     (if CHR ''/'' \<notin> set part then Inr (part, 1, False)
      else case Split part (CHR ''/'') of
        [l, r] \<Rightarrow>
          (let rangePart = (if TrimSpace l = [] then ''*'' else TrimSpace l) in
           case Atoi r of
             None \<Rightarrow> Inl (BadStepValue r)
           | Some stepValue \<Rightarrow>
               if stepValue \<le> 0 then Inl (BadStepValue r) else Inr (rangePart, stepValue, True))
      | _ \<Rightarrow> Inl (BadStepSyntax part))"

text \<open>\<open>parseBounds\<close> returns the inclusive range and whether it wraps around the week.\<close>

definition parseBounds :: "string \<Rightarrow> int \<Rightarrow> int \<Rightarrow> nat \<Rightarrow> bool \<Rightarrow> cron_error + int \<times> int \<times> bool" where
  "parseBounds part minVal maxVal index hasStep =
     (if part = ''*'' \<or> part = ''?'' then Inr (minVal, maxVal, False)
      else if CHR ''-'' \<in> set part then
        (case Split part (CHR ''-'') of
           [l, r] \<Rightarrow>
             (case parseValue l minVal maxVal index of
                Inl e \<Rightarrow> Inl e
              | Inr start \<Rightarrow>
                  (case parseValue r minVal maxVal index of
                     Inl e \<Rightarrow> Inl e
                   | Inr stop \<Rightarrow>
                       if start > stop then
                         (if index = 5 then Inr (start, stop, True) else Inl (RangeOrder part))
                       else Inr (start, stop, False)))
         | _ \<Rightarrow> Inl (BadRangeSyntax part))
      else case parseValue part minVal maxVal index of
        Inl e \<Rightarrow> Inl e
      | Inr value \<Rightarrow> if hasStep then Inr (value, maxVal, False) else Inr (value, value, False))"

text \<open>
  \<open>fillRange\<close>: \<^verbatim>\<open>for value := start; value <= end; value += step\<close>. The counter is a
  64-bit \<^verbatim>\<open>int\<close>, so \<^verbatim>\<open>value += step\<close> wraps. The loop is cut off after 256
  rounds; \<open>fillRange_total\<close> below shows that it has always stopped by then.
\<close>

fun fillRange_loop :: "nat \<Rightarrow> mask \<Rightarrow> int \<Rightarrow> int \<Rightarrow> int \<Rightarrow> mask option" where
  "fillRange_loop fuel m value stop step =
     (if value > stop then Some m
      else case fuel of
        0 \<Rightarrow> None
      | Suc f \<Rightarrow> fillRange_loop f (m OR bitFor value) (wrap64 (value + step)) stop step)"

declare fillRange_loop.simps [simp del]

definition fillRange :: "mask \<Rightarrow> int \<Rightarrow> int \<Rightarrow> int \<Rightarrow> mask option" where
  "fillRange m start stop step = fillRange_loop 256 m start stop step"

definition parsePart :: "mask \<Rightarrow> string \<Rightarrow> int \<Rightarrow> int \<Rightarrow> nat \<Rightarrow> cron_error + mask" where
  "parsePart m p minVal maxVal index =
     (let part = TrimSpace p in
      if part = [] then Inl EmptyToken
      else case parseStep part of
        Inl e \<Rightarrow> Inl e
      | Inr (rangePart, step, hasStep) \<Rightarrow>
        (case parseBounds rangePart minVal maxVal index hasStep of
           Inl e \<Rightarrow> Inl e
         | Inr (start, stop, wrapped) \<Rightarrow>
           (if wrapped then
              (case fillRange m start maxVal step of
                 None \<Rightarrow> Inl Diverges
               | Some m1 \<Rightarrow>
                   (case fillRange m1 minVal stop step of None \<Rightarrow> Inl Diverges | Some m2 \<Rightarrow> Inr m2))
            else
              (case fillRange m start stop step of None \<Rightarrow> Inl Diverges | Some m1 \<Rightarrow> Inr m1))))"

fun parseParts :: "mask \<Rightarrow> string list \<Rightarrow> int \<Rightarrow> int \<Rightarrow> nat \<Rightarrow> cron_error + mask" where
  "parseParts m [] minVal maxVal index = Inr m"
| "parseParts m (p # ps) minVal maxVal index =
     (case parsePart m p minVal maxVal index of
        Inl e \<Rightarrow> Inl e
      | Inr m' \<Rightarrow> parseParts m' ps minVal maxVal index)"

definition parseField :: "string \<Rightarrow> int \<Rightarrow> int \<Rightarrow> nat \<Rightarrow> cron_error + mask" where
  "parseField tok minVal maxVal index =
     (let token = TrimSpace tok in
      if token = ''*'' \<or> token = ''?'' then Inr (allBits minVal maxVal)
      else parseParts 0 (Split token (CHR '','')) minVal maxVal index)"

subsection \<open>The six fields\<close>

definition fieldCount :: "Parser \<Rightarrow> int \<times> int" where
  "fieldCount p =
     (let n = int (length (filter (has_option (options p)) fieldPlaces))
      in (n, n + (if has_option (options p) SecondOptional then 1 else 0)
               + (if has_option (options p) DowOptional then 1 else 0)))"

definition pickToken ::
  "Parser \<Rightarrow> nat \<Rightarrow> ParseOption \<Rightarrow> string list \<Rightarrow> nat \<Rightarrow> int \<Rightarrow> (string \<times> nat \<times> int) option" where
  "pickToken p i place toks fieldIndex extraFields =
     (if has_option (options p) place then
        (if fieldIndex < length toks then Some (toks ! fieldIndex, fieldIndex + 1, extraFields)
         else None)
      else if (place = Second \<and> has_option (options p) SecondOptional) \<or>
              (place = Dow \<and> has_option (options p) DowOptional) then
        (if extraFields > 0 then
           (if fieldIndex < length toks
            then Some (toks ! fieldIndex, fieldIndex + 1, extraFields - 1)
            else None)
         else Some (fieldDefaults ! i, fieldIndex, extraFields))
      else Some (fieldDefaults ! i, fieldIndex, extraFields))"

definition checkToken :: "string \<Rightarrow> nat \<Rightarrow> cron_error + bool \<times> bool" where
  "checkToken token i =
     (if ContainsAny (ToUpper token) ''LW#'' then Inl (UnsupportedSyntax token)
      else if token = ''?'' \<and> i \<noteq> 3 \<and> i \<noteq> 5 then Inl QuestionNotAllowed
      else Inr (token = ''?'' \<and> i = 3, token = ''?'' \<and> i = 5))"

definition applyFieldMask :: "'loc specSchedule \<Rightarrow> string \<Rightarrow> nat \<Rightarrow> mask \<Rightarrow> 'loc specSchedule" where
  "applyFieldMask sched token i m =
     (if i = 0 then sched\<lparr>ss_sec := m\<rparr>
      else if i = 1 then sched\<lparr>ss_min := m\<rparr>
      else if i = 2 then sched\<lparr>ss_hour := m\<rparr>
      else if i = 3 then
        (let s = sched\<lparr>ss_dom := m\<rparr> in
         if token = ''*'' \<or> token = ''?'' then s\<lparr>ss_domStar := True\<rparr> else s)
      else if i = 4 then sched\<lparr>ss_month := m\<rparr>
      else if i = 5 then
        (let s = sched\<lparr>ss_dow := m\<rparr> in
         if token = ''*'' \<or> token = ''?'' then s\<lparr>ss_dowStar := True\<rparr> else s)
      else sched)"

definition validateScheduleMasks :: "'loc specSchedule \<Rightarrow> cron_error option" where
  "validateScheduleMasks s =
     (if ss_sec s = 0 then Some (EmptyField 0)
      else if ss_min s = 0 then Some (EmptyField 1)
      else if ss_hour s = 0 then Some (EmptyField 2)
      else if ss_dom s = 0 then Some (EmptyField 3)
      else if ss_month s = 0 then Some (EmptyField 4)
      else if ss_dow s = 0 then Some (EmptyField 5)
      else None)"

text \<open>The loop of \<open>parseSpecFields\<close> over the places, from place \<open>i\<close> on.\<close>

fun parseFields_loop ::
  "Parser \<Rightarrow> string list \<Rightarrow> (nat \<times> ParseOption) list \<Rightarrow> nat \<Rightarrow> int \<Rightarrow> bool \<Rightarrow> bool \<Rightarrow>
   'loc specSchedule \<Rightarrow> cron_error + 'loc specSchedule \<times> bool \<times> bool" where
  "parseFields_loop p toks [] fieldIndex extraFields domQ dowQ sched = Inr (sched, domQ, dowQ)"
| "parseFields_loop p toks ((i, place) # rest) fieldIndex extraFields domQ dowQ sched =
     (case pickToken p i place toks fieldIndex extraFields of
        None \<Rightarrow> Inl IndexPanic
      | Some (token, fieldIndex', extraFields') \<Rightarrow>
        (case checkToken token i of
           Inl e \<Rightarrow> Inl e
         | Inr (d, w) \<Rightarrow>
           (case parseField token (fst (fieldBounds ! i)) (snd (fieldBounds ! i)) i of
              Inl e \<Rightarrow> Inl e
            | Inr m \<Rightarrow>
                parseFields_loop p toks rest fieldIndex' extraFields' (domQ \<or> d) (dowQ \<or> w)
                  (applyFieldMask sched token i m))))"

definition empty_spec :: "'loc \<Rightarrow> 'loc specSchedule" where
  "empty_spec loc =
     \<lparr>ss_sec = 0, ss_min = 0, ss_hour = 0, ss_dom = 0, ss_month = 0, ss_dow = 0,
      ss_domStar = False, ss_dowStar = False, ss_loc = Some loc\<rparr>"

definition parseSpecFields :: "Parser \<Rightarrow> string list \<Rightarrow> 'loc \<Rightarrow> cron_error + 'loc specSchedule" where
  "parseSpecFields p toks loc =
     (case parseFields_loop p toks (zip [0..<6] fieldPlaces) 0
             (int (length toks) - fst (fieldCount p)) False False (empty_spec loc) of
        Inl e \<Rightarrow> Inl e
      | Inr (sched, domQ, dowQ) \<Rightarrow>
          if domQ \<and> dowQ then Inl BothQuestion
          else case validateScheduleMasks sched of Some e \<Rightarrow> Inl e | None \<Rightarrow> Inr sched)"

subsection \<open>Descriptors, time zones and the entry point\<close>

definition Every :: "duration \<Rightarrow> 'loc Schedule" where
  "Every d = (let d1 = max d time_Second in ConstantDelaySchedule (d1 - d1 mod time_Second))"

definition at_midnight :: "mask \<Rightarrow> mask \<Rightarrow> mask \<Rightarrow> bool \<Rightarrow> bool \<Rightarrow> 'loc \<Rightarrow> 'loc specSchedule" where
  "at_midnight domM monthM dowM dStar wStar loc =
     \<lparr>ss_sec = 1, ss_min = 1, ss_hour = 1, ss_dom = domM, ss_month = monthM, ss_dow = dowM,
      ss_domStar = dStar, ss_dowStar = wStar, ss_loc = Some loc\<rparr>"

definition parseDescriptor ::
  "(string \<Rightarrow> duration option) \<Rightarrow> string \<Rightarrow> 'loc \<Rightarrow> cron_error + 'loc Schedule" where
  "parseDescriptor ParseDuration spec loc =
     (let lower = ToLower spec in
      if HasPrefix lower ''@every '' then
        (case ParseDuration (drop 7 spec) of
           None \<Rightarrow> Inl (BadDuration (drop 7 spec))
         | Some d \<Rightarrow> Inr (Every d))
      else if lower = ''@yearly'' \<or> lower = ''@annually'' then
        Inr (SpecSchedule (at_midnight 2 2 (allBits 0 7) False True loc))
      else if lower = ''@monthly'' then
        Inr (SpecSchedule (at_midnight 2 (allBits 1 12) (allBits 0 7) False True loc))
      else if lower = ''@weekly'' then
        Inr (SpecSchedule (at_midnight (allBits 1 31) (allBits 1 12) 1 True False loc))
      else if lower = ''@daily'' \<or> lower = ''@midnight'' then
        Inr (SpecSchedule (at_midnight (allBits 1 31) (allBits 1 12) (allBits 0 7) True True loc))
      else if lower = ''@hourly'' then
        Inr (SpecSchedule ((at_midnight (allBits 1 31) (allBits 1 12) (allBits 0 7) True True loc)
               \<lparr>ss_hour := allBits 0 23\<rparr>))
      else if lower = ''@reboot'' then Inr ImmediateSchedule
      else Inl (UnrecognizedDescriptor spec))"

definition extractTimezone ::
  "(string \<Rightarrow> 'loc option) \<Rightarrow> 'loc \<Rightarrow> string \<Rightarrow> cron_error + string \<times> 'loc" where
  "extractTimezone LoadLocation Local spec =
     (if \<not> HasPrefix spec ''TZ='' \<and> \<not> HasPrefix spec ''CRON_TZ='' then Inr (spec, Local)
      else
        let (part0, rest) = SplitN2 spec (CHR '' '');
            tzStr = (if HasPrefix part0 ''TZ='' then TrimPrefix part0 ''TZ=''
                     else TrimPrefix part0 ''CRON_TZ='')
        in case LoadLocation tzStr of
             None \<Rightarrow> Inl (BadLocation tzStr)
           | Some loc \<Rightarrow> Inr (case rest of Some r \<Rightarrow> r | None \<Rightarrow> [], loc))"

definition Parser_Parse ::
  "(string \<Rightarrow> 'loc option) \<Rightarrow> 'loc \<Rightarrow> (string \<Rightarrow> duration option) \<Rightarrow> Parser \<Rightarrow> string \<Rightarrow>
   cron_error + 'loc Schedule" where
  "Parser_Parse LoadLocation Local ParseDuration p s =
     (let spec = TrimSpace s in
      if spec = [] then Inl EmptySpec
      else case extractTimezone LoadLocation Local spec of
        Inl e \<Rightarrow> Inl e
      | Inr (spec, loc) \<Rightarrow>
          if HasPrefix spec ''@'' then
            (if options p AND Descriptor = 0
             then Inl DescriptorsUnsupported
             else parseDescriptor ParseDuration spec loc)
          else
            let toks = Fields spec; (minF, maxF) = fieldCount p in
            if int (length toks) < minF \<or> int (length toks) > maxF
            then Inl (BadFieldCount minF maxF (int (length toks)))
            else case parseSpecFields p toks loc of
                   Inl e \<Rightarrow> Inl e
                 | Inr sched \<Rightarrow> Inr (SpecSchedule sched))"

definition Parse ::
  "(string \<Rightarrow> 'loc option) \<Rightarrow> 'loc \<Rightarrow> (string \<Rightarrow> duration option) \<Rightarrow> string \<Rightarrow>
   cron_error + 'loc Schedule" where
  "Parse LoadLocation Local ParseDuration expr =
     (case initDefaultParser of
        Inl e \<Rightarrow> Inl e
      | Inr p \<Rightarrow> Parser_Parse LoadLocation Local ParseDuration p expr)"

subsection \<open>Ready-made schedules\<close>

text \<open>The constructors of \<^verbatim>\<open>schedule.go\<close>; their comments name an equivalent expression.\<close>

definition Minutely :: "'loc \<Rightarrow> 'loc Schedule" where
  "Minutely Local = SpecSchedule
     \<lparr>ss_sec = 1, ss_min = allBits 0 59, ss_hour = allBits 0 23, ss_dom = allBits 1 31,
      ss_month = allBits 1 12, ss_dow = allBits 0 7, ss_domStar = True, ss_dowStar = True,
      ss_loc = Some Local\<rparr>"

definition Hourly :: "'loc \<Rightarrow> 'loc Schedule" where
  "Hourly Local = SpecSchedule
     \<lparr>ss_sec = 1, ss_min = 1, ss_hour = allBits 0 23, ss_dom = allBits 1 31,
      ss_month = allBits 1 12, ss_dow = allBits 0 7, ss_domStar = True, ss_dowStar = True,
      ss_loc = Some Local\<rparr>"

definition Daily :: "'loc \<Rightarrow> 'loc Schedule" where
  "Daily Local = SpecSchedule
     \<lparr>ss_sec = 1, ss_min = 1, ss_hour = 1, ss_dom = allBits 1 31,
      ss_month = allBits 1 12, ss_dow = allBits 0 7, ss_domStar = True, ss_dowStar = True,
      ss_loc = Some Local\<rparr>"

definition Weekly :: "'loc \<Rightarrow> 'loc Schedule" where
  "Weekly Local = SpecSchedule
     \<lparr>ss_sec = 1, ss_min = 1, ss_hour = 1, ss_dom = allBits 1 31,
      ss_month = allBits 1 12, ss_dow = 1, ss_domStar = True, ss_dowStar = False,
      ss_loc = Some Local\<rparr>"

definition Monthly :: "'loc \<Rightarrow> 'loc Schedule" where
  "Monthly Local = SpecSchedule
     \<lparr>ss_sec = 1, ss_min = 1, ss_hour = 1, ss_dom = 2,
      ss_month = allBits 1 12, ss_dow = allBits 0 7, ss_domStar = False, ss_dowStar = True,
      ss_loc = Some Local\<rparr>"

definition Yearly :: "'loc \<Rightarrow> 'loc Schedule" where
  "Yearly Local = SpecSchedule
     \<lparr>ss_sec = 1, ss_min = 1, ss_hour = 1, ss_dom = 2,
      ss_month = 2, ss_dow = allBits 0 7, ss_domStar = False, ss_dowStar = True,
      ss_loc = Some Local\<rparr>"


lemma fillRange_loop_stop [simp]: "stop < v \<Longrightarrow> fillRange_loop f m v stop step = Some m"
  by (simp add: fillRange_loop.simps)

lemma fillRange_loop_step [simp]:
  "v \<le> stop \<Longrightarrow> fillRange_loop (Suc f) m v stop step =
     fillRange_loop f (m OR bitFor v) (wrap64 (v + step)) stop step"
  by (subst fillRange_loop.simps) simp

definition progression :: "int \<Rightarrow> int \<Rightarrow> int \<Rightarrow> int \<Rightarrow> bool" where
  "progression start stop step u \<longleftrightarrow> start \<le> u \<and> u \<le> stop \<and> step dvd (u - start)"

lemma progression_unfold:
  assumes "start \<le> stop" "0 < step"
  shows "progression start stop step u \<longleftrightarrow> u = start \<or> progression (start + step) stop step u"
proof -
  have "u = start \<or> start + step \<le> u" if "start \<le> u" "step dvd u - start"
    using that assms(2) zdvd_imp_le [of step "u - start"] by (cases "u = start") auto
  moreover have "step dvd u - start \<longleftrightarrow> step dvd u - (start + step)"
    by (metis diff_diff_eq dvd_diff_right_iff dvd_refl dvd_minus_iff minus_diff_eq)
  ultimately show ?thesis
    using assms by (auto simp: progression_def)
qed

lemma fillRange_loop_no_overflow:
  assumes "0 < step" "stop + step \<le> max_int" "stop < 64" "nat (stop + 1 - v) \<le> fuel" "0 \<le> v"
  shows "\<exists>m'. fillRange_loop fuel m v stop step = Some m' \<and>
              (\<forall>u. mem u m' \<longleftrightarrow> mem u m \<or> progression v stop step u)"
  using assms
proof (induction fuel arbitrary: m v)
  case 0
  then show ?case by (auto simp: progression_def)
next
  case (Suc fuel)
  show ?case
  proof (cases "stop < v")
    case True
    then show ?thesis by (auto simp: progression_def)
  next
    case False
    with Suc.prems have w: "wrap64 (v + step) = v + step"
      by (intro wrap64_id) (auto simp: min_int_def)
    have "nat (stop + 1 - (v + step)) \<le> fuel" "0 \<le> v + step"
      using Suc.prems by linarith+
    from Suc.IH [OF Suc.prems(1-3) this, of "m OR bitFor v"] obtain m' where
      "fillRange_loop fuel (m OR bitFor v) (v + step) stop step = Some m'"
      "\<forall>u. mem u m' \<longleftrightarrow> mem u (m OR bitFor v) \<or> progression (v + step) stop step u"
      by blast
    with False w Suc.prems show ?thesis
      by (auto simp: progression_unfold [of v stop step])
  qed
qed

lemma fillRange_loop_overflow:
  assumes "max_int < stop + step" "step \<le> max_int" "stop < 64"
    "- 64 < v" "v < 64" "nat (v + 66) \<le> fuel"
  shows "\<exists>m'. fillRange_loop fuel m v stop step = Some m'"
  using assms
proof (induction "nat (v + 64)" arbitrary: m v fuel rule: less_induct)
  case less
  show ?case
  proof (cases "stop < v")
    case True
    then show ?thesis by simp
  next
    case False
    from less.prems have "2 \<le> fuel" by linarith
    then obtain f where f: "fuel = Suc (Suc f)" by (metis add_2_eq_Suc le_Suc_ex)
    let ?w = "wrap64 (v + step)"
    have step: "fillRange_loop fuel m v stop step = fillRange_loop (Suc f) (m OR bitFor v) ?w stop step"
      using False f by simp
    show ?thesis
    proof (cases "v + step \<le> max_int")
      case True
      then have "?w = v + step" using less.prems by (intro wrap64_id) (auto simp: min_int_def max_int_def)
      moreover have "stop < v + step" using less.prems by (auto simp: max_int_def)
      ultimately show ?thesis using step by simp
    next
      case over: False
      then have w: "?w = v + step - 18446744073709551616"
        using less.prems by (intro wrap64_over) (auto simp: max_int_def)
      have w2: "wrap64 (?w + step) = v + 2 * step - 18446744073709551616"
        using less.prems over w by (simp add: wrap64_id min_int_def max_int_def)
      let ?v = "v + 2 * step - 18446744073709551616"
      have "nat (?v + 64) < nat (v + 64)" "- 64 < ?v" "?v < 64" "nat (?v + 66) \<le> f"
        using less.prems over f by (auto simp: max_int_def)
      from less.hyps [OF this(1) less.prems(1-3) this(2-4)]
      have "\<exists>m'. fillRange_loop f (m OR bitFor v OR bitFor ?w) ?v stop step = Some m'" .
      moreover have "?w \<le> stop" using less.prems w by (simp add: max_int_def)
      ultimately show ?thesis using step w2 by (simp add: or.assoc)
    qed
  qed
qed

lemma fillRange_total:
  assumes "0 \<le> start" "start < 64" "stop < 64" "0 < step" "step \<le> max_int"
  shows "\<exists>m'. fillRange m start stop step = Some m'"
proof (cases "stop + step \<le> max_int")
  case True
  have "nat (stop + 1 - start) \<le> 256" using assms by linarith
  from fillRange_loop_no_overflow [OF assms(4) True assms(3) this assms(1), of m] show ?thesis
    by (auto simp: fillRange_def)
next
  case False
  then show ?thesis
    using fillRange_loop_overflow [of stop step start 256 m] assms by (simp add: fillRange_def)
qed

lemma fillRange_progression:
  assumes "0 \<le> start" "stop < 64" "0 < step" "stop + step \<le> max_int"
    "fillRange m start stop step = Some m'"
  shows "mem u m' \<longleftrightarrow> mem u m \<or> progression start stop step u"
proof -
  have "nat (stop + 1 - start) \<le> 256" using assms by linarith
  from fillRange_loop_no_overflow [OF assms(3,4,2) this assms(1), of m] assms(5) show ?thesis
    by (auto simp: fillRange_def)
qed

lemma fillRange_loop_mono: "fillRange_loop f m v stop step = Some m' \<Longrightarrow> mem u m \<Longrightarrow> mem u m'"
proof (induction f arbitrary: m v)
  case 0
  then show ?case by (auto simp: fillRange_loop.simps [of 0] split: if_splits)
next
  case (Suc f)
  then show ?case by (cases "stop < v") auto
qed

lemma fillRange_loop_upper:
  "fillRange_loop f m v stop step = Some m' \<Longrightarrow> mem u m' \<Longrightarrow> mem u m \<or> u \<le> stop"
proof (induction f arbitrary: m v)
  case 0
  then show ?case by (auto simp: fillRange_loop.simps [of 0] split: if_splits)
next
  case (Suc f)
  then show ?case
  proof (cases "stop < v")
    case False
    with Suc.prems Suc.IH [of "m OR bitFor v" "wrap64 (v + step)"] show ?thesis by auto
  qed auto
qed

lemma fillRange_start:
  assumes "fillRange m start stop step = Some m'" "start \<le> stop" "0 \<le> start" "start < 64"
  shows "mem start m'"
proof -
  from assms have "fillRange_loop 255 (m OR bitFor start) (wrap64 (start + step)) stop step = Some m'"
    using fillRange_loop_step [of start stop 255 m step] by (simp add: fillRange_def)
  then show ?thesis by (rule fillRange_loop_mono) (use assms in simp)
qed

lemmas fillRange_mono = fillRange_loop_mono [of 256, folded fillRange_def]
lemmas fillRange_upper = fillRange_loop_upper [of 256, folded fillRange_def]

text \<open>
  A field mask is well formed for the bounds \<open>lo\<close>, \<open>hi\<close> when it allows a value of the field and
  nothing above \<open>hi\<close>.
\<close>

definition wf_mask :: "int \<Rightarrow> int \<Rightarrow> mask \<Rightarrow> bool" where
  "wf_mask lo hi m \<longleftrightarrow> (\<exists>u. lo \<le> u \<and> u \<le> hi \<and> mem u m) \<and> (\<forall>u. mem u m \<longrightarrow> u \<le> hi)"

definition field_ok :: "nat \<Rightarrow> int \<Rightarrow> int \<Rightarrow> bool" where
  "field_ok i lo hi \<longleftrightarrow> i < 6 \<and> (lo, hi) = fieldBounds ! i"

lemma field_okD: "field_ok i lo hi \<Longrightarrow> 0 \<le> lo \<and> lo \<le> hi \<and> hi < 60"
  by (auto simp: field_ok_def fieldBounds_def less_Suc_eq numeral_eq_Suc)

lemma map_of_range: "map_of xs k = Some v \<Longrightarrow> \<forall>x\<in>set xs. P (snd x) \<Longrightarrow> P v"
  by (induction xs) (auto split: if_splits)

lemma parseValue_range:
  assumes "field_ok i lo hi" "parseValue tok lo hi i = Inr v"
  shows "lo \<le> v \<and> v \<le> hi"
proof -
  have m: "1 \<le> v \<and> v \<le> 12" if "map_of monthNames t = Some v" for t v
    using map_of_range [OF that, of "\<lambda>v. 1 \<le> v \<and> v \<le> 12"] by (simp add: monthNames_def)
  have w: "0 \<le> v \<and> v \<le> 7" if "map_of weekdayNames t = Some v" for t v
    using map_of_range [OF that, of "\<lambda>v. 0 \<le> v \<and> v \<le> 7"] by (simp add: weekdayNames_def)
  have i4: "lo = 1 \<and> hi = 12" if "i = 4" using assms(1) that by (simp add: field_ok_def fieldBounds_def)
  have i5: "lo = 0 \<and> hi = 7" if "i = 5" using assms(1) that by (simp add: field_ok_def fieldBounds_def)
  from assms field_okD [OF assms(1)] i4 i5 show ?thesis
    by (auto simp: parseValue_def Let_def dest: m w split: if_splits option.splits)
qed

lemma parseStep_range: "parseStep p = Inr (r, s, h) \<Longrightarrow> 0 < s \<and> s \<le> max_int"
  by (auto simp: parseStep_def Let_def max_int_def [symmetric] dest: Atoi_range split: if_splits list.splits option.splits)
     (simp add: max_int_def)

lemma parseBounds_range:
  assumes "field_ok i lo hi" "parseBounds p lo hi i h = Inr (a, b, w)"
  shows "lo \<le> a \<and> a \<le> hi \<and> lo \<le> b \<and> b \<le> hi \<and> (w \<or> a \<le> b)"
  using assms field_okD [OF assms(1)]
  by (auto simp: parseBounds_def Let_def dest: parseValue_range
           split: if_splits list.splits sum.splits)


definition internal :: "cron_error \<Rightarrow> bool" where
  "internal e \<longleftrightarrow> e = IndexPanic \<or> e = Diverges"

lemma parseValue_err: "parseValue t lo hi i = Inl e \<Longrightarrow> \<not> internal e"
  by (auto simp: parseValue_def Let_def internal_def split: if_splits option.splits)

lemma parseStep_err: "parseStep t = Inl e \<Longrightarrow> \<not> internal e"
  by (auto simp: parseStep_def Let_def internal_def split: if_splits option.splits list.splits)

lemma parseBounds_err: "parseBounds t lo hi i h = Inl e \<Longrightarrow> \<not> internal e"
  by (auto simp: parseBounds_def Let_def dest: parseValue_err split: if_splits sum.splits list.splits)
     (auto simp: internal_def)

lemma parsePart_Inr:
  assumes "parsePart m p lo hi i = Inr m'"
  obtains r s h a b w where "parseStep (TrimSpace p) = Inr (r, s, h)"
    "parseBounds r lo hi i h = Inr (a, b, w)"
    "if w then \<exists>m1. fillRange m a hi s = Some m1 \<and> fillRange m1 lo b s = Some m'
     else fillRange m a b s = Some m'"
  using assms that
  by (auto simp: parsePart_def Let_def split: if_splits sum.splits option.splits)

lemma parsePart_err:
  assumes "field_ok i lo hi" "parsePart m p lo hi i = Inl e"
  shows "\<not> internal e"
proof (cases "parseStep (TrimSpace p)")
  case (Inl e')
  with assms show ?thesis
    by (auto simp: parsePart_def Let_def internal_def dest: parseStep_err split: if_splits)
next
  case (Inr rsh)
  obtain r s h where st: "parseStep (TrimSpace p) = Inr (r, s, h)" using Inr by (cases rsh) auto
  note s = parseStep_range [OF st] and b = field_okD [OF assms(1)]
  show ?thesis
  proof (cases "parseBounds r lo hi i h")
    case (Inl e')
    with assms st parseBounds_err [OF Inl] show ?thesis
      by (auto simp: parsePart_def Let_def internal_def split: if_splits)
  next
    case (Inr abw)
    obtain x y w where bd: "parseBounds r lo hi i h = Inr (x, y, w)" using Inr by (cases abw) auto
    have tot: False if "fillRange n x' y' s = None" "lo \<le> x'" "x' \<le> hi" "y' \<le> hi" for n x' y'
      using fillRange_total [of x' y' s n] that s b by auto
    show ?thesis
      using assms st bd parseBounds_range [OF assms(1) bd] b
      by (auto simp: parsePart_def Let_def internal_def dest: tot split: if_splits option.splits)
  qed
qed

lemma parsePart_mono: "parsePart m p lo hi i = Inr m' \<Longrightarrow> mem u m \<Longrightarrow> mem u m'"
  by (erule parsePart_Inr) (auto dest: fillRange_mono split: if_splits)

lemma parsePart_wf:
  assumes ok: "field_ok i lo hi" and "parsePart m p lo hi i = Inr m'" and up: "\<forall>u. mem u m \<longrightarrow> u \<le> hi"
  shows "wf_mask lo hi m'"
  using assms(2)
proof (rule parsePart_Inr)
  fix r s h a b w
  assume st: "parseStep (TrimSpace p) = Inr (r, s, h)" and bd: "parseBounds r lo hi i h = Inr (a, b, w)"
    and fill: "if w then \<exists>m1. fillRange m a hi s = Some m1 \<and> fillRange m1 lo b s = Some m'
               else fillRange m a b s = Some m'"
  note rng = parseBounds_range [OF ok bd] field_okD [OF ok]
  obtain m1 c where 1: "fillRange m a c s = Some m1" "a \<le> c" "c \<le> hi" "mem a m1 \<longrightarrow> mem a m'"
    "\<And>u. mem u m' \<Longrightarrow> mem u m1 \<or> u \<le> hi"
    using fill rng by (cases w) (force dest: fillRange_mono fillRange_upper)+
  have "mem a m1" using fillRange_start [OF 1(1)] 1 rng by simp
  moreover have "u \<le> hi" if "mem u m'" for u
    using 1(5) [OF that] fillRange_upper [OF 1(1)] up 1(3) by fastforce
  ultimately show ?thesis using 1(4) rng by (auto simp: wf_mask_def)
qed

lemma parseParts_err: "field_ok i lo hi \<Longrightarrow> parseParts m ps lo hi i = Inl e \<Longrightarrow> \<not> internal e"
  by (induction m ps lo hi i rule: parseParts.induct) (auto dest: parsePart_err split: sum.splits)

lemma parseParts_wf:
  "field_ok i lo hi \<Longrightarrow> parseParts m ps lo hi i = Inr m' \<Longrightarrow> \<forall>u. mem u m \<longrightarrow> u \<le> hi \<Longrightarrow>
   ps \<noteq> [] \<or> wf_mask lo hi m \<Longrightarrow> wf_mask lo hi m'"
proof (induction m ps lo hi i rule: parseParts.induct)
  case (2 m p ps lo hi i)
  then obtain m1 where m1: "parsePart m p lo hi i = Inr m1" "parseParts m1 ps lo hi i = Inr m'"
    by (auto split: sum.splits)
  from parsePart_wf [OF 2(2) m1(1)] 2 have "wf_mask lo hi m1" by blast
  with 2 m1 show ?case by (auto simp: wf_mask_def)
qed auto

lemma parseField_err: "field_ok i lo hi \<Longrightarrow> parseField t lo hi i = Inl e \<Longrightarrow> \<not> internal e"
  by (auto simp: parseField_def Let_def dest: parseParts_err split: if_splits)

lemma wf_mask_allBits: "0 \<le> lo \<Longrightarrow> lo \<le> hi \<Longrightarrow> hi < 60 \<Longrightarrow> wf_mask lo hi (allBits lo hi)"
  by (auto simp: wf_mask_def mem_allBits)

lemma parseField_wf:
  assumes "field_ok i lo hi" "parseField t lo hi i = Inr m"
  shows "wf_mask lo hi m"
  using assms parseParts_wf [OF assms(1), of 0 "Split (TrimSpace t) (CHR '','')" m] field_okD [OF assms(1)]
  by (auto simp: parseField_def Let_def wf_mask_allBits split: if_splits)

subsection \<open>The whole expression\<close>

definition field_mask :: "'loc specSchedule \<Rightarrow> nat \<Rightarrow> mask" where
  "field_mask s i = [ss_sec s, ss_min s, ss_hour s, ss_dom s, ss_month s, ss_dow s] ! i"

definition masks_ok :: "nat set \<Rightarrow> 'loc specSchedule \<Rightarrow> bool" where
  "masks_ok I s \<longleftrightarrow> (\<forall>i\<in>I. wf_mask (fst (fieldBounds ! i)) (snd (fieldBounds ! i)) (field_mask s i))"

definition wf_spec :: "'loc specSchedule \<Rightarrow> bool" where
  "wf_spec s \<longleftrightarrow>
     wf_mask 0 59 (ss_sec s) \<and> wf_mask 0 59 (ss_min s) \<and> wf_mask 0 23 (ss_hour s) \<and>
     wf_mask 1 31 (ss_dom s) \<and> wf_mask 1 12 (ss_month s) \<and> wf_mask 0 7 (ss_dow s) \<and>
     ss_loc s \<noteq> None"

definition wf_schedule :: "'loc Schedule \<Rightarrow> bool" where
  "wf_schedule sch =
     (case sch of
        SpecSchedule s \<Rightarrow> wf_spec s
      | ConstantDelaySchedule d \<Rightarrow> time_Second \<le> d \<and> time_Second dvd d
      | ImmediateSchedule \<Rightarrow> True)"

lemma less_6_cases: "(i::nat) < 6 \<Longrightarrow> i = 0 \<or> i = 1 \<or> i = 2 \<or> i = 3 \<or> i = 4 \<or> i = 5"
  by linarith

lemma field_mask_apply:
  assumes "i < 6" "j < 6"
  shows "field_mask (applyFieldMask s t i m) j = (if j = i then m else field_mask s j)"
  using less_6_cases [OF assms(1)] less_6_cases [OF assms(2)]
  by (elim disjE) (simp_all add: field_mask_def applyFieldMask_def Let_def)

lemma ss_loc_apply [simp]: "ss_loc (applyFieldMask s t i m) = ss_loc s"
  by (simp add: applyFieldMask_def Let_def)

lemma field_ok_nth: "i < 6 \<Longrightarrow> field_ok i (fst (fieldBounds ! i)) (snd (fieldBounds ! i))"
  by (simp add: field_ok_def)

lemma checkToken_err: "checkToken t i = Inl e \<Longrightarrow> \<not> internal e"
  by (auto simp: checkToken_def internal_def split: if_splits)

lemma parseFields_loop_wf:
  "parseFields_loop p toks rest k x d w s = Inr (s', d', w') \<Longrightarrow>
   \<forall>(i, pl)\<in>set rest. i < 6 \<Longrightarrow> I \<subseteq> {..<6} \<Longrightarrow> masks_ok I s \<Longrightarrow>
   masks_ok (I \<union> fst ` set rest) s' \<and> ss_loc s' = ss_loc s"
proof (induction p toks rest k x d w s arbitrary: I rule: parseFields_loop.induct)
  case (2 p toks i place rest k x d w s)
  then obtain token k' x' d1 w1 m where
    pick: "pickToken p i place toks k x = Some (token, k', x')" and
    chk: "checkToken token i = Inr (d1, w1)" and
    fld: "parseField token (fst (fieldBounds ! i)) (snd (fieldBounds ! i)) i = Inr m" and
    rec: "parseFields_loop p toks rest k' x' (d \<or> d1) (w \<or> w1) (applyFieldMask s token i m)
          = Inr (s', d', w')"
    by (auto split: option.splits sum.splits)
  from 2 have i: "i < 6" by simp
  have "masks_ok (insert i I) (applyFieldMask s token i m)"
    using 2(4,5) i parseField_wf [OF field_ok_nth [OF i] fld]
    by (auto simp: masks_ok_def field_mask_apply subset_iff)
  with 2(1) [OF pick refl refl chk refl fld rec, of "insert i I"] 2(3,4) i show ?case
    by auto
qed simp

lemma pickToken_inv:
  assumes "0 \<le> x" "0 \<le> n"
    and len: "int k + (if has_option (options p) place then 1 else 0) + n + x \<le> int (length toks)"
  shows "\<exists>token k' x'. pickToken p i place toks k x = Some (token, k', x') \<and>
     0 \<le> x' \<and> int k' + n + x' \<le> int (length toks)"
proof (cases "has_option (options p) place \<or> 0 < x")
  case True
  with assms have "k < length toks" by (auto split: if_splits)
  then show ?thesis using assms by (auto simp: pickToken_def split: if_splits)
next
  case False
  with assms show ?thesis by (auto simp: pickToken_def)
qed

lemma parseFields_loop_err:
  "parseFields_loop p toks rest k x d w s = Inl e \<Longrightarrow>
   \<forall>(i, pl)\<in>set rest. i < 6 \<Longrightarrow> 0 \<le> x \<Longrightarrow>
   int k + int (length (filter (has_option (options p)) (map snd rest))) + x \<le> int (length toks) \<Longrightarrow>
   \<not> internal e"
proof (induction p toks rest k x d w s rule: parseFields_loop.induct)
  case (2 p toks i place rest k x d w s)
  obtain token k' x' where pick: "pickToken p i place toks k x = Some (token, k', x')"
    and inv: "0 \<le> x'"
      "int k' + int (length (filter (has_option (options p)) (map snd rest))) + x' \<le> int (length toks)"
    using pickToken_inv [of x "int (length (filter (has_option (options p)) (map snd rest)))" k p place toks i] 2(4,5)
    by (auto split: if_splits)
  from 2(3) have i: "i < 6" by simp
  show ?case
  proof (cases "checkToken token i")
    case (Inl e')
    with 2(2) pick checkToken_err [OF Inl] show ?thesis by simp
  next
    case (Inr dw)
    then obtain d1 w1 where chk: "checkToken token i = Inr (d1, w1)" by (cases dw) auto
    show ?thesis
    proof (cases "parseField token (fst (fieldBounds ! i)) (snd (fieldBounds ! i)) i")
      case (Inl e')
      with 2(2) pick chk parseField_err [OF field_ok_nth [OF i] Inl] show ?thesis by simp
    next
      case fld: (Inr m)
      with 2(1) [OF pick refl refl chk refl fld _ _ inv] 2(2,3) pick chk show ?thesis by auto
    qed
  qed
qed simp

lemma places: "zip [0..<6] fieldPlaces =
    [(0, Second), (1, Minute), (2, Hour), (3, Dom), (4, Month), (5, Dow)]"
  by (simp add: fieldPlaces_def upt_rec)

lemma parseSpecFields_wf: "parseSpecFields p toks loc = Inr s \<Longrightarrow> wf_spec s"
proof -
  assume "parseSpecFields p toks loc = Inr s"
  then obtain d w where
    "parseFields_loop p toks (zip [0..<6] fieldPlaces) 0 (int (length toks) - fst (fieldCount p))
       False False (empty_spec loc) = Inr (s, d, w)"
    by (auto simp: parseSpecFields_def split: sum.splits if_splits option.splits)
  from parseFields_loop_wf [OF this, of "{}"]
  have "masks_ok {0, 1, 2, 3, 4, 5} s" "ss_loc s = Some loc"
    by (auto simp: masks_ok_def places empty_spec_def)
  then show ?thesis by (simp add: masks_ok_def wf_spec_def field_mask_def fieldBounds_def)
qed

lemma parseSpecFields_err:
  assumes "fst (fieldCount p) \<le> int (length toks)" "parseSpecFields p toks loc = Inl e"
  shows "\<not> internal e"
proof -
  have "map snd (zip [0..<6] fieldPlaces) = fieldPlaces" by (simp add: fieldPlaces_def)
  then show ?thesis
    using assms parseFields_loop_err [of p toks "zip [0..<6] fieldPlaces" 0
      "int (length toks) - fst (fieldCount p)" False False "empty_spec loc" e]
    by (auto simp: parseSpecFields_def fieldCount_def Let_def places internal_def validateScheduleMasks_def
             split: sum.splits if_splits option.splits)
qed

lemma parseSpecFields_err':
  "parseSpecFields p toks loc = Inl e \<Longrightarrow> fieldCount p = (a, b) \<Longrightarrow> \<not> int (length toks) < a \<Longrightarrow> \<not> internal e"
  by (rule parseSpecFields_err) auto

lemma wf_mask_1: "wf_mask 0 hi 1" if "0 \<le> hi"
  using that by (auto simp: wf_mask_def mem_def bit_simps intro!: exI [of _ 0])

lemma wf_mask_2: "wf_mask 1 hi 2" if "1 \<le> hi"
proof -
  have "mem u 2 \<longleftrightarrow> u = 1" for u using mem_bitFor [of u 1] by (simp add: bitFor_def shl1_def)
  with that show ?thesis by (auto simp: wf_mask_def)
qed

lemmas wf_mask_consts = wf_mask_1 wf_mask_2 wf_mask_allBits

lemma wf_Every: "wf_schedule (Every d)"
proof -
  define m where "m = max d time_Second"
  have "time_Second * 1 \<le> time_Second * (m div time_Second)"
    by (rule mult_left_mono) (auto simp: m_def time_Second_def zdiv_mono1 [of 1000000000 _ 1000000000, simplified])
  then have "time_Second \<le> m - m mod time_Second"
    by (simp add: minus_mod_eq_mult_div)
  then show ?thesis
    by (simp add: wf_schedule_def Every_def Let_def m_def [symmetric] dvd_minus_mod)
qed

lemma parseDescriptor_wf: "parseDescriptor pd spec loc = Inr sch \<Longrightarrow> wf_schedule sch"
  by (auto simp: parseDescriptor_def Let_def wf_Every split: if_splits option.splits)
     (auto simp: wf_schedule_def wf_spec_def at_midnight_def wf_mask_consts)

lemma parseDescriptor_err: "parseDescriptor pd spec loc = Inl e \<Longrightarrow> \<not> internal e"
  by (auto simp: parseDescriptor_def Let_def internal_def split: if_splits option.splits)

lemma Parser_Parse_wf: "Parser_Parse ll lc pd p s = Inr sch \<Longrightarrow> wf_schedule sch"
  by (auto simp: Parser_Parse_def Let_def dest: parseDescriptor_wf parseSpecFields_wf
           split: if_splits sum.splits prod.splits)
     (auto simp: wf_schedule_def dest: parseSpecFields_wf)

lemma extractTimezone_err: "extractTimezone ll lc s = Inl e \<Longrightarrow> \<not> internal e"
  by (auto simp: extractTimezone_def Let_def internal_def split: if_splits option.splits prod.splits)

lemma Parser_Parse_err: "Parser_Parse ll lc pd p s = Inl e \<Longrightarrow> \<not> internal e"
  by (auto simp: Parser_Parse_def Let_def dest: parseDescriptor_err extractTimezone_err parseSpecFields_err'
           split: if_splits sum.splits prod.splits)
     (auto simp: internal_def)

lemma initDefaultParser_eq: "initDefaultParser = Inr \<lparr>options = 382\<rparr>"
  by (simp add: initDefaultParser_def NewParser_def has_option_def option_defs Let_def)

text \<open>
  How the default parser puts six well-formed tokens together: each token's mask lands in its own
  field and the star flags record the two day tokens.
\<close>

lemma has_option_default:
  "\<not> has_option 382 Second" "has_option 382 SecondOptional" "has_option 382 Minute" "has_option 382 Hour"
  "has_option 382 Dom" "has_option 382 Month" "has_option 382 Dow" "\<not> has_option 382 DowOptional"
  by (simp_all add: has_option_def option_defs)

lemma fieldCount_default: "fieldCount \<lparr>options = 382\<rparr> = (5, 6)"
  by (simp add: fieldCount_def fieldPlaces_def has_option_default)

lemma Parse_six:
  assumes "TrimSpace s = s" "s \<noteq> []" "\<not> HasPrefix s ''TZ=''" "\<not> HasPrefix s ''CRON_TZ=''"
    "\<not> HasPrefix s ''@''" "Fields s = [ta, tb, tc, td, te, tf]"
    "checkToken ta 0 = Inr (False, False)" "checkToken tb (Suc 0) = Inr (False, False)"
    "checkToken tc 2 = Inr (False, False)" "checkToken td 3 = Inr (False, False)"
    "checkToken te 4 = Inr (False, False)" "checkToken tf 5 = Inr (False, False)"
    "parseField ta 0 59 0 = Inr ma" "parseField tb 0 59 (Suc 0) = Inr mb" "parseField tc 0 23 2 = Inr mc"
    "parseField td 1 31 3 = Inr md" "parseField te 1 12 4 = Inr me" "parseField tf 0 7 5 = Inr mf"
    "ma \<noteq> 0" "mb \<noteq> 0" "mc \<noteq> 0" "md \<noteq> 0" "me \<noteq> 0" "mf \<noteq> 0"
  shows "Parse ll lc pd s = Inr (SpecSchedule
    \<lparr>ss_sec = ma, ss_min = mb, ss_hour = mc, ss_dom = md, ss_month = me, ss_dow = mf,
     ss_domStar = (td = ''*'' \<or> td = ''?''), ss_dowStar = (tf = ''*'' \<or> tf = ''?''), ss_loc = Some lc\<rparr>)"
proof -
  have "parseSpecFields \<lparr>options = 382\<rparr> [ta, tb, tc, td, te, tf] lc = Inr
    \<lparr>ss_sec = ma, ss_min = mb, ss_hour = mc, ss_dom = md, ss_month = me, ss_dow = mf,
     ss_domStar = (td = ''*'' \<or> td = ''?''), ss_dowStar = (tf = ''*'' \<or> tf = ''?''), ss_loc = Some lc\<rparr>"
    unfolding parseSpecFields_def fieldCount_default places
    by (simp add: pickToken_def has_option_default assms(7-18) assms(19-24) fieldBounds_def
        applyFieldMask_def empty_spec_def validateScheduleMasks_def Let_def)
  then show ?thesis
    using assms(1-6)
    by (simp add: Parse_def initDefaultParser_eq Parser_Parse_def extractTimezone_def fieldCount_default)
qed

text \<open>The literal expressions of the comments of \<^verbatim>\<open>schedule.go\<close>.\<close>

lemma parse_minutely: "Parse ll lc pd ''0 * * * * *'' = Inr (Minutely lc)"
  by (rule Parse_six [where ta = "''0''" and tb = "''*''" and tc = "''*''" and td = "''*''" and te = "''*''" and tf = "''*''"
        and ma = "1" and mb = "allBits 0 59" and mc = "allBits 0 23" and md = "allBits 1 31" and me = "allBits 1 12" and mf = "allBits 0 7", THEN trans])
     ((simp add: Minutely_def; fail) | code_simp)+

lemma parse_hourly: "Parse ll lc pd ''0 0 * * * *'' = Inr (Hourly lc)"
  by (rule Parse_six [where ta = "''0''" and tb = "''0''" and tc = "''*''" and td = "''*''" and te = "''*''" and tf = "''*''"
        and ma = "1" and mb = "1" and mc = "allBits 0 23" and md = "allBits 1 31" and me = "allBits 1 12" and mf = "allBits 0 7", THEN trans])
     ((simp add: Hourly_def; fail) | code_simp)+

lemma parse_daily: "Parse ll lc pd ''0 0 0 * * *'' = Inr (Daily lc)"
  by (rule Parse_six [where ta = "''0''" and tb = "''0''" and tc = "''0''" and td = "''*''" and te = "''*''" and tf = "''*''"
        and ma = "1" and mb = "1" and mc = "1" and md = "allBits 1 31" and me = "allBits 1 12" and mf = "allBits 0 7", THEN trans])
     ((simp add: Daily_def; fail) | code_simp)+

lemma parse_weekly: "Parse ll lc pd ''0 0 0 * * 0'' = Inr (Weekly lc)"
  by (rule Parse_six [where ta = "''0''" and tb = "''0''" and tc = "''0''" and td = "''*''" and te = "''*''" and tf = "''0''"
        and ma = "1" and mb = "1" and mc = "1" and md = "allBits 1 31" and me = "allBits 1 12" and mf = "1", THEN trans])
     ((simp add: Weekly_def; fail) | code_simp)+

lemma parse_monthly: "Parse ll lc pd ''0 0 0 1 * *'' = Inr (Monthly lc)"
  by (rule Parse_six [where ta = "''0''" and tb = "''0''" and tc = "''0''" and td = "''1''" and te = "''*''" and tf = "''*''"
        and ma = "1" and mb = "1" and mc = "1" and md = "2" and me = "allBits 1 12" and mf = "allBits 0 7", THEN trans])
     ((simp add: Monthly_def; fail) | code_simp)+

lemma parse_yearly: "Parse ll lc pd ''0 0 0 1 1 *'' = Inr (Yearly lc)"
  by (rule Parse_six [where ta = "''0''" and tb = "''0''" and tc = "''0''" and td = "''1''" and te = "''1''" and tf = "''*''"
        and ma = "1" and mb = "1" and mc = "1" and md = "2" and me = "2" and mf = "allBits 0 7", THEN trans])
     ((simp add: Yearly_def; fail) | code_simp)+

lemma Parse_descriptor:
  "TrimSpace s = s \<Longrightarrow> HasPrefix s ''@'' \<Longrightarrow> Parse ll lc pd s = parseDescriptor pd s lc"
  by (auto simp: Parse_def initDefaultParser_eq Parser_Parse_def extractTimezone_def HasPrefix_iff Descriptor_def)

lemma parse_at:
  "Parse ll lc pd ''@hourly'' = Inr (Hourly lc)" "Parse ll lc pd ''@daily'' = Inr (Daily lc)"
  "Parse ll lc pd ''@midnight'' = Inr (Daily lc)" "Parse ll lc pd ''@weekly'' = Inr (Weekly lc)"
  "Parse ll lc pd ''@monthly'' = Inr (Monthly lc)" "Parse ll lc pd ''@yearly'' = Inr (Yearly lc)"
  "Parse ll lc pd ''@annually'' = Inr (Yearly lc)"
proof -
  have d: "ToLower ''@hourly'' = ''@hourly''" "ToLower ''@daily'' = ''@daily''" "ToLower ''@midnight'' = ''@midnight''"
    "ToLower ''@weekly'' = ''@weekly''" "ToLower ''@monthly'' = ''@monthly''" "ToLower ''@yearly'' = ''@yearly''"
    "ToLower ''@annually'' = ''@annually''"
    by code_simp+
  note D = Parse_descriptor parseDescriptor_def d at_midnight_def HasPrefix_def
    Hourly_def Daily_def Weekly_def Monthly_def Yearly_def
  show "Parse ll lc pd ''@hourly'' = Inr (Hourly lc)" by (subst Parse_descriptor, code_simp, code_simp) (simp add: D)
  show "Parse ll lc pd ''@daily'' = Inr (Daily lc)" by (subst Parse_descriptor, code_simp, code_simp) (simp add: D)
  show "Parse ll lc pd ''@midnight'' = Inr (Daily lc)" by (subst Parse_descriptor, code_simp, code_simp) (simp add: D)
  show "Parse ll lc pd ''@weekly'' = Inr (Weekly lc)" by (subst Parse_descriptor, code_simp, code_simp) (simp add: D)
  show "Parse ll lc pd ''@monthly'' = Inr (Monthly lc)" by (subst Parse_descriptor, code_simp, code_simp) (simp add: D)
  show "Parse ll lc pd ''@yearly'' = Inr (Yearly lc)" by (subst Parse_descriptor, code_simp, code_simp) (simp add: D)
  show "Parse ll lc pd ''@annually'' = Inr (Yearly lc)" by (subst Parse_descriptor, code_simp, code_simp) (simp add: D)
qed

subsection \<open>Properties\<close>

text \<open>
  C3. Whatever the expression, the host's zone database and its duration parser: a schedule that
  \<^verbatim>\<open>Parse\<close> returns is well formed. A field schedule has six masks, each allowing at
  least one value inside its field's bounds and none above the upper bound, and a location; an
  \<^verbatim>\<open>@every\<close> schedule has a period of a positive whole number of seconds.
\<close>

theorem Parse_well_formed: "Parse ll lc pd expr = Inr sch \<Longrightarrow> wf_schedule sch"
  by (auto simp: Parse_def initDefaultParser_eq dest: Parser_Parse_wf)

theorem Parse_well_formed_witness:
  "wf_schedule (Weekly (7::int))"
proof -
  have "Parse (\<lambda>_. None) (7::int) (\<lambda>_. None) ''0 0 0 * * 0'' = Inr (Weekly 7)"
    by (rule parse_weekly)
  then show ?thesis by (rule Parse_well_formed)
qed

text \<open>
  C4. Parsing always comes back with a schedule or one of the documented errors, on every input and
  for every parser the options can build: no token is read past the end of the field list, and the
  mask-filling loop stops within 256 rounds even where the 64-bit counter wraps around.
\<close>

theorem Parser_Parse_no_panic:
  "Parser_Parse ll lc pd p expr \<noteq> Inl IndexPanic \<and> Parser_Parse ll lc pd p expr \<noteq> Inl Diverges"
  by (auto simp: internal_def dest: Parser_Parse_err)

text \<open>
  As long as the counter cannot overflow, \<^verbatim>\<open>fillRange\<close> adds exactly the values
  \<open>start\<close>, \<open>start + step\<close>, \<open>start + 2 step\<close>, \<dots> up to \<open>stop\<close> to the mask, and it always returns.
\<close>

theorem fillRange_exact:
  assumes "0 \<le> start" "stop < 64" "0 < step" "stop + step \<le> max_int"
  shows "\<exists>m'. fillRange m start stop step = Some m' \<and>
    (\<forall>u. mem u m' \<longleftrightarrow> mem u m \<or> (start \<le> u \<and> u \<le> stop \<and> step dvd (u - start)))"
proof -
  have "nat (stop + 1 - start) \<le> 256" using assms by linarith
  from fillRange_loop_no_overflow [OF assms(3,4,2) this assms(1), of m] show ?thesis
    by (simp add: fillRange_def progression_def)
qed

theorem fillRange_exact_witness:
  "(0::int) \<le> 3 \<and> (59::int) < 64 \<and> (0::int) < 15 \<and> 59 + 15 \<le> max_int \<and>
   (\<exists>m'. fillRange 0 3 59 15 = Some m' \<and>
      (\<forall>u. mem u m' \<longleftrightarrow> mem u 0 \<or> (3 \<le> u \<and> u \<le> 59 \<and> 15 dvd (u - 3))))"
  using fillRange_exact [of 3 59 15 0] by (simp add: max_int_def)

text \<open>
  Every named schedule is what its comment says: the constructors of \<^verbatim>\<open>schedule.go\<close>,
  the \<^verbatim>\<open>@\<close> descriptors and the six-field expressions they are documented as give the
  same schedule.
\<close>

theorem named_schedules_agree:
  "Parse ll lc pd ''0 * * * * *'' = Inr (Minutely lc) \<and>
   Parse ll lc pd ''0 0 * * * *'' = Inr (Hourly lc) \<and> Parse ll lc pd ''@hourly'' = Inr (Hourly lc) \<and>
   Parse ll lc pd ''0 0 0 * * *'' = Inr (Daily lc) \<and> Parse ll lc pd ''@daily'' = Inr (Daily lc) \<and>
   Parse ll lc pd ''@midnight'' = Inr (Daily lc) \<and>
   Parse ll lc pd ''0 0 0 * * 0'' = Inr (Weekly lc) \<and> Parse ll lc pd ''@weekly'' = Inr (Weekly lc) \<and>
   Parse ll lc pd ''0 0 0 1 * *'' = Inr (Monthly lc) \<and> Parse ll lc pd ''@monthly'' = Inr (Monthly lc) \<and>
   Parse ll lc pd ''0 0 0 1 1 *'' = Inr (Yearly lc) \<and> Parse ll lc pd ''@yearly'' = Inr (Yearly lc) \<and>
   Parse ll lc pd ''@annually'' = Inr (Yearly lc)"
  by (intro conjI parse_minutely parse_hourly parse_daily parse_weekly parse_monthly parse_yearly parse_at)

text \<open>
  A day-of-week range that ends in 7 is not always the week it looks like: 7 is read as Sunday,
  0, before the range is formed, so \<^verbatim>\<open>0-7\<close> is the range from 0 to 0 and allows Sunday
  only, while \<^verbatim>\<open>1-7\<close> wraps around and allows every day. A step near the largest
  64-bit integer makes the counter wrap as well: the day-of-month field
  \<^verbatim>\<open>4/9223372036854775807\<close> allows the days 4, 2 and 0.
\<close>

theorem parseField_surprises:
  "parseField ''0-7'' 0 7 5 = Inr (bitFor 0) \<and> parseField ''1-7'' 0 7 5 = Inr (allBits 0 7) \<and>
   parseField ''4/9223372036854775807'' 1 31 3 = Inr (bitFor 4 OR bitFor 2 OR bitFor 0)"
  by code_simp

end
