(* ===== verification/GoCalendar.thy ===== *)
theory GoCalendar
  imports Prelude
begin

text \<open>
  The part of Go's \<^verbatim>\<open>time\<close> package that \<^verbatim>\<open>specSchedule.Next\<close> uses: the
  proleptic Gregorian calendar and locations.

  Days are counted from 0001-01-01 (day 0, a Monday), seconds from its midnight; an instant is in
  nanoseconds from that midnight in UTC. A location is what \<^verbatim>\<open>Location.lookup\<close> answers
  for a UTC second: the zone's offset in seconds and the first and last second of the period in
  which that offset is in force. \<^verbatim>\<open>time.Date\<close> follows the standard library: it looks the
  offset up at the wall-clock second read as UTC and, if the corrected instant falls outside that
  period, once more at the corrected instant. The calendar functions are used on days from 0 on
  (no date before year 1 occurs).
\<close>

type_synonym location = "int \<Rightarrow> int \<times> int \<times> int"

definition FixedZone :: "int \<Rightarrow> location" where
  "FixedZone offset = (\<lambda>_. (offset, min_int, max_int))"

definition is_leap :: "int \<Rightarrow> bool" where
  "is_leap y \<longleftrightarrow> y mod 4 = 0 \<and> (y mod 100 \<noteq> 0 \<or> y mod 400 = 0)"

definition days_before_year :: "int \<Rightarrow> int" where
  "days_before_year y = 365 * (y - 1) + (y - 1) div 4 - (y - 1) div 100 + (y - 1) div 400"

definition days_before_month :: "bool \<Rightarrow> int \<Rightarrow> int" where
  "days_before_month leap m =
     [0, 31, 59, 90, 120, 151, 181, 212, 243, 273, 304, 334] ! nat (m - 1) +
     (if leap \<and> 2 < m then 1 else 0)"

lemma div_pred:
  fixes y k :: int
  assumes "0 < k"
  shows "y div k = (y - 1) div k + (if y mod k = 0 then 1 else 0)"
proof (cases "y mod k = 0")
  case True
  then have "y - 1 = k * (y div k - 1) + (k - 1)"
    using mult_div_mod_eq [of k y] by (simp add: algebra_simps)
  then have "(y - 1) div k = y div k - 1" by (rule int_div_pos_eq) (use assms in auto)
  with True show ?thesis by simp
next
  case False
  have "y - 1 = k * (y div k) + (y mod k - 1)" using mult_div_mod_eq [of k y] by simp
  then have "(y - 1) div k = y div k"
    by (rule int_div_pos_eq) (use assms False pos_mod_sign [of k y] pos_mod_bound [of k y] in linarith)+
  with False show ?thesis by simp
qed

lemma leap_count:
  fixes y q4 q100 q400 q4' q100' q400' :: int
  assumes "q4' = q4 + (if A then 1 else 0)" "q100' = q100 + (if B then 1 else 0)"
    "q400' = q400 + (if C then 1 else 0)" "B \<Longrightarrow> A" "C \<Longrightarrow> B"
  shows "365 * y + q4' - q100' + q400' =
    365 * (y - 1) + q4 - q100 + q400 + (if A \<and> (\<not> B \<or> C) then 366 else 365)"
proof (cases C)
  case True
  with assms have A B by simp_all
  with True show ?thesis unfolding assms(1-3) by simp
next
  case False
  show ?thesis
  proof (cases B)
    case True
    with assms(4) have A by simp
    with True False show ?thesis unfolding assms(1-3) by simp
  next
    case nB: False
    show ?thesis using False nB unfolding assms(1-3) by (cases A) simp_all
  qed
qed

lemma year_step: "days_before_year (y + 1) = days_before_year y + (if is_leap y then 366 else 365)"
proof -
  have d: "(4::int) dvd 100" "(100::int) dvd 400" by simp_all
  have a: "y mod 100 = 0 \<Longrightarrow> y mod 4 = 0" unfolding mod_eq_0_iff_dvd by (rule dvd_trans [OF d(1)])
  have b: "y mod 400 = 0 \<Longrightarrow> y mod 100 = 0" unfolding mod_eq_0_iff_dvd by (rule dvd_trans [OF d(2)])
  show ?thesis
    unfolding days_before_year_def is_leap_def add_diff_cancel_right'
    by (rule leap_count [OF div_pred div_pred div_pred a b]) (rule zero_less_numeral | assumption)+
qed

lemma year_step_less: "days_before_year y < days_before_year (y + 1)"
  by (simp add: year_step)

function year_search :: "int \<Rightarrow> int \<Rightarrow> int" where
  "year_search n y = (if n < days_before_year (y + 1) then y else year_search n (y + 1))"
  by pat_completeness auto
termination
  by (relation "measure (\<lambda>(n, y). nat (n - days_before_year y))") (simp, simp add: zless_nat_conj order.strict_trans2 [OF year_step_less] year_step_less)

declare year_search.simps [simp del]

text \<open>The year of a day: the search starts at a lower estimate and takes a few steps.\<close>

definition year_of :: "int \<Rightarrow> int" where
  "year_of n = year_search n (n div 366 + 1)"

definition yday :: "int \<Rightarrow> int" where
  "yday n = n - days_before_year (year_of n)"

definition month_of_yday :: "bool \<Rightarrow> int \<Rightarrow> int" where
  "month_of_yday leap d =
     (if d < days_before_month leap 2 then 1 else if d < days_before_month leap 3 then 2
      else if d < days_before_month leap 4 then 3 else if d < days_before_month leap 5 then 4
      else if d < days_before_month leap 6 then 5 else if d < days_before_month leap 7 then 6
      else if d < days_before_month leap 8 then 7 else if d < days_before_month leap 9 then 8
      else if d < days_before_month leap 10 then 9 else if d < days_before_month leap 11 then 10
      else if d < days_before_month leap 12 then 11 else 12)"

definition month_of :: "int \<Rightarrow> int" where
  "month_of n = month_of_yday (is_leap (year_of n)) (yday n)"

definition day_of :: "int \<Rightarrow> int" where
  "day_of n = yday n - days_before_month (is_leap (year_of n)) (month_of n) + 1"

definition weekday_of :: "int \<Rightarrow> int" where
  "weekday_of n = (n + 1) mod 7"

definition day_number :: "int \<Rightarrow> int \<Rightarrow> int \<Rightarrow> int" where
  "day_number y m d = days_before_year y + days_before_month (is_leap y) m + (d - 1)"

subsection \<open>Instants and locations\<close>

definition local_second :: "location \<Rightarrow> gotime \<Rightarrow> int" where
  "local_second loc t = (let s = t div 1000000000 in s + fst (loc s))"

definition t_day :: "location \<Rightarrow> gotime \<Rightarrow> int" where
  "t_day loc t = local_second loc t div 86400"

definition Time_Year :: "location \<Rightarrow> gotime \<Rightarrow> int" where "Time_Year loc t = year_of (t_day loc t)"
definition Time_Month :: "location \<Rightarrow> gotime \<Rightarrow> int" where "Time_Month loc t = month_of (t_day loc t)"
definition Time_Day :: "location \<Rightarrow> gotime \<Rightarrow> int" where "Time_Day loc t = day_of (t_day loc t)"
definition Time_Weekday :: "location \<Rightarrow> gotime \<Rightarrow> int" where "Time_Weekday loc t = weekday_of (t_day loc t)"
definition Time_Hour :: "location \<Rightarrow> gotime \<Rightarrow> int" where "Time_Hour loc t = local_second loc t mod 86400 div 3600"
definition Time_Minute :: "location \<Rightarrow> gotime \<Rightarrow> int" where "Time_Minute loc t = local_second loc t mod 3600 div 60"
definition Time_Second :: "location \<Rightarrow> gotime \<Rightarrow> int" where "Time_Second loc t = local_second loc t mod 60"

lemmas time_fields = Time_Year_def Time_Month_def Time_Day_def Time_Weekday_def Time_Hour_def
  Time_Minute_def Time_Second_def t_day_def

definition from_local :: "location \<Rightarrow> int \<Rightarrow> gotime" where
  "from_local loc wall =
     (let (offset, start, stop) = loc wall;
          utc = wall - offset;
          offset' = (if offset \<noteq> 0 \<and> (utc < start \<or> utc \<ge> stop) then fst (loc utc) else offset)
      in (wall - offset') * 1000000000)"

definition Time_Date :: "location \<Rightarrow> int \<Rightarrow> int \<Rightarrow> int \<Rightarrow> int \<Rightarrow> int \<Rightarrow> int \<Rightarrow> gotime" where
  "Time_Date loc y m d h mi s =
     from_local loc (day_number y m d * 86400 + h * 3600 + mi * 60 + s)"

text \<open>\<^verbatim>\<open>t.AddDate(0, 0, 1)\<close>: the same wall clock on the next day.\<close>

definition AddDay :: "location \<Rightarrow> gotime \<Rightarrow> gotime" where
  "AddDay loc t =
     Time_Date loc (Time_Year loc t) (Time_Month loc t) (Time_Day loc t + 1)
       (Time_Hour loc t) (Time_Minute loc t) (Time_Second loc t) + t mod 1000000000"

subsection \<open>The calendar is correct\<close>

lemma year_search_bounds:
  "days_before_year y \<le> n \<Longrightarrow>
   days_before_year (year_search n y) \<le> n \<and> n < days_before_year (year_search n y + 1)"
proof (induction n y rule: year_search.induct)
  case (1 n y)
  show ?case
  proof (cases "n < days_before_year (y + 1)")
    case True
    with 1(2) show ?thesis by (simp add: year_search.simps [of n y])
  next
    case False
    with 1(1) show ?thesis by (simp add: year_search.simps [of n y])
  qed
qed

lemma days_before_year_le: "0 \<le> k \<Longrightarrow> days_before_year (k + 1) \<le> 366 * k"
proof (induction k rule: int_ge_induct)
  case base
  then show ?case by (simp add: days_before_year_def)
next
  case (step i)
  then show ?case using year_step [of "i + 1"] by (auto split: if_splits)
qed

lemma year_of_bounds:
  assumes "0 \<le> n"
  shows "days_before_year (year_of n) \<le> n" and "n < days_before_year (year_of n + 1)"
proof -
  have "days_before_year (n div 366 + 1) \<le> 366 * (n div 366)"
    using assms by (intro days_before_year_le) (simp add: pos_imp_zdiv_nonneg_iff)
  also have "\<dots> \<le> n" using mult_div_mod_eq [of 366 n] pos_mod_sign [of 366 n] by linarith
  finally show "days_before_year (year_of n) \<le> n" "n < days_before_year (year_of n + 1)"
    using year_search_bounds by (auto simp: year_of_def)
qed

lemma days_before_year_mono: "y \<le> y' \<Longrightarrow> days_before_year y \<le> days_before_year y'"
proof (induction y' rule: int_ge_induct)
  case (step i)
  then show ?case using year_step [of i] by (auto split: if_splits)
qed simp

lemma year_of_unique:
  assumes "0 \<le> n" "days_before_year y \<le> n" "n < days_before_year (y + 1)"
  shows "year_of n = y"
proof (rule ccontr)
  assume "year_of n \<noteq> y"
  then consider "year_of n + 1 \<le> y" | "y + 1 \<le> year_of n" by linarith
  then show False
    using assms year_of_bounds [OF assms(1)] days_before_year_mono by cases fastforce+
qed

lemma year_of_mono: "0 \<le> n \<Longrightarrow> n \<le> n' \<Longrightarrow> year_of n \<le> year_of n'"
proof (rule ccontr)
  assume "0 \<le> n" "n \<le> n'" "\<not> year_of n \<le> year_of n'"
  then have "days_before_year (year_of n' + 1) \<le> days_before_year (year_of n)"
    by (intro days_before_year_mono) simp
  with year_of_bounds [of n] year_of_bounds [of n'] \<open>0 \<le> n\<close> \<open>n \<le> n'\<close> show False by simp
qed

lemma yday_nonneg: "0 \<le> n \<Longrightarrow> 0 \<le> yday n"
  using year_of_bounds by (simp add: yday_def)

lemma month_cases:
  assumes "1 \<le> m" "m \<le> (12::int)"
  shows "m = 1 \<or> m = 2 \<or> m = 3 \<or> m = 4 \<or> m = 5 \<or> m = 6 \<or> m = 7 \<or> m = 8 \<or> m = 9 \<or> m = 10 \<or> m = 11 \<or> m = 12"
  using assms by presburger

lemma month_of_yday_range: "1 \<le> month_of_yday l d \<and> month_of_yday l d \<le> 12"
  by (simp add: month_of_yday_def)

lemma month_of_yday_ge:
  assumes "1 \<le> m" "m \<le> 12" "0 \<le> d"
  shows "m \<le> month_of_yday l d \<longleftrightarrow> days_before_month l m \<le> d"
  using month_cases [OF assms(1,2)] assms(3)
  by (elim disjE) (auto simp: month_of_yday_def days_before_month_def)

lemma month_of_range: "1 \<le> month_of n \<and> month_of n \<le> 12"
  by (simp add: month_of_def month_of_yday_range)

lemma day_number_round: "0 \<le> n \<Longrightarrow> day_number (year_of n) (month_of n) (day_of n) = n"
  by (simp add: day_number_def day_of_def yday_def)

lemma month_of_ge:
  assumes "0 \<le> n" "1 \<le> m" "m \<le> 12"
  shows "m \<le> month_of n \<longleftrightarrow> day_number (year_of n) m 1 \<le> n"
  using month_of_yday_ge [OF assms(2,3) yday_nonneg [OF assms(1)], of "is_leap (year_of n)"]
  by (simp add: month_of_def day_number_def yday_def) linarith

lemma month_of_mono: "0 \<le> n \<Longrightarrow> n \<le> n' \<Longrightarrow> year_of n = year_of n' \<Longrightarrow> month_of n \<le> month_of n'"
  using month_of_ge [of n' "month_of n"] month_of_ge [of n "month_of n"] month_of_range [of n] by simp

lemma day_number_jan: "day_number y 1 1 = days_before_year y"
  by (simp add: day_number_def days_before_month_def)

lemma month_first:
  assumes "1 \<le> y" "1 \<le> m" "m \<le> 12"
  shows "0 \<le> day_number y m 1" and "year_of (day_number y m 1) = y" and "month_of (day_number y m 1) = m"
proof -
  have dm: "0 \<le> days_before_month (is_leap y) m" "days_before_month (is_leap y) m < 365"
    using month_cases [OF assms(2,3)] by (auto simp: days_before_month_def)
  have "0 \<le> days_before_year y" using days_before_year_mono [OF assms(1)] by (simp add: days_before_year_def)
  with dm show n: "0 \<le> day_number y m 1" by (simp add: day_number_def)
  show y: "year_of (day_number y m 1) = y"
    using n dm year_step [of y] by (intro year_of_unique) (auto simp: day_number_def split: if_splits)
  have "m \<le> month_of (day_number y m 1)" using month_of_ge [OF n assms(2,3)] y by simp
  moreover have "\<not> m + 1 \<le> month_of (day_number y m 1)"
  proof (cases "m = 12")
    case True
    then show ?thesis using month_of_range by (metis zle_add1_eq_le not_le)
  next
    case False
    have "days_before_month (is_leap y) m < days_before_month (is_leap y) (m + 1)"
      using month_cases [OF assms(2,3)] False by (elim disjE) (auto simp: days_before_month_def)
    then show ?thesis using month_of_ge [OF n, of "m + 1"] assms False y by (simp add: day_number_def)
  qed
  ultimately show "month_of (day_number y m 1) = m" by linarith
qed

end
