(* ===== verification/CronSchedule.thy ===== *)
theory CronSchedule
  imports CronParser GoCalendar
begin

text \<open>
  The schedules of \<^verbatim>\<open>pkg/cron/schedule.go\<close>: when does a cron entry fire next?

  \<open>Next_step\<close> is one round of the search loop of \<^verbatim>\<open>specSchedule.Next\<close> (\<open>Inl\<close>: go
  on from there, \<open>Inr\<close>: found), \<open>Next_loop\<close> the loop with its two limits (1000 rounds, five years) and
  \<open>spec_Next\<close> the method. The zero time stands for "no further run", as in the code.
\<close>

definition matchesDay :: "location \<Rightarrow> location specSchedule \<Rightarrow> gotime \<Rightarrow> bool" where
  "matchesDay loc ss t =
     (let day = Time_Day loc t; weekday = Time_Weekday loc t;
          domMatch = bitMatch (ss_dom ss) day;
          dowMatch = (bitMatch (ss_dow ss) weekday \<or> (weekday = 0 \<and> bitMatch (ss_dow ss) 7))
      in if ss_domStar ss \<and> ss_dowStar ss then True
         else if ss_domStar ss then dowMatch
         else if ss_dowStar ss then domMatch
         else domMatch \<or> dowMatch)"

definition next_midnight :: "location \<Rightarrow> gotime \<Rightarrow> gotime" where
  "next_midnight loc t =
     (let t' = AddDay loc t
      in Time_Date loc (Time_Year loc t') (Time_Month loc t') (Time_Day loc t') 0 0 0)"

text \<open>The round, from its last search (the second) up to its first (the month).\<close>

definition Next_second :: "location \<Rightarrow> location specSchedule \<Rightarrow> gotime \<Rightarrow> gotime + gotime" where
  "Next_second loc ss cur =
     (case nextSetBit (ss_sec ss) (Time_Second loc cur) 59 of
        None \<Rightarrow> Inl (time_trunc (cur + (60 - Time_Second loc cur) * time_Second) time_Minute)
      | Some s \<Rightarrow>
          let cur = (if s \<noteq> Time_Second loc cur
                     then Time_Date loc (Time_Year loc cur) (Time_Month loc cur) (Time_Day loc cur)
                            (Time_Hour loc cur) (Time_Minute loc cur) s
                     else cur) in
          if matchesDay loc ss cur \<and> bitMatch (ss_month ss) (Time_Month loc cur) then Inr cur
          else Inl (cur + time_Second))"

definition Next_minute :: "location \<Rightarrow> location specSchedule \<Rightarrow> gotime \<Rightarrow> gotime + gotime" where
  "Next_minute loc ss cur =
     (case nextSetBit (ss_min ss) (Time_Minute loc cur) 59 of
        None \<Rightarrow> Inl (time_trunc (cur + (60 - Time_Minute loc cur) * time_Minute) time_Hour)
      | Some mi \<Rightarrow>
          Next_second loc ss
            (if mi \<noteq> Time_Minute loc cur
             then Time_Date loc (Time_Year loc cur) (Time_Month loc cur) (Time_Day loc cur)
                    (Time_Hour loc cur) mi 0
             else cur))"

definition Next_hour :: "location \<Rightarrow> location specSchedule \<Rightarrow> gotime \<Rightarrow> gotime + gotime" where
  "Next_hour loc ss cur =
     (case nextSetBit (ss_hour ss) (Time_Hour loc cur) 23 of
        None \<Rightarrow> Inl (next_midnight loc cur)
      | Some h \<Rightarrow>
          Next_minute loc ss
            (if h \<noteq> Time_Hour loc cur
             then Time_Date loc (Time_Year loc cur) (Time_Month loc cur) (Time_Day loc cur) h 0 0
             else cur))"

definition Next_day :: "location \<Rightarrow> location specSchedule \<Rightarrow> gotime \<Rightarrow> gotime + gotime" where
  "Next_day loc ss cur =
     (if \<not> matchesDay loc ss cur then Inl (next_midnight loc cur) else Next_hour loc ss cur)"

definition Next_step :: "location \<Rightarrow> location specSchedule \<Rightarrow> gotime \<Rightarrow> gotime + gotime" where
  "Next_step loc ss cur =
     (case nextSetBit (ss_month ss) (Time_Month loc cur) 12 of
        None \<Rightarrow> Inl (Time_Date loc (Time_Year loc cur + 1) 1 1 0 0 0)
      | Some month \<Rightarrow>
          Next_day loc ss
            (if month \<noteq> Time_Month loc cur
             then Time_Date loc (Time_Year loc cur) month 1 0 0 0 else cur))"

fun Next_loop :: "nat \<Rightarrow> location \<Rightarrow> location specSchedule \<Rightarrow> int \<Rightarrow> gotime \<Rightarrow> gotime" where
  "Next_loop rounds loc ss maxYears cur =
     (if Time_Year loc cur > maxYears then zero_time
      else case rounds of
        0 \<Rightarrow> zero_time
      | Suc r \<Rightarrow>
          (case Next_step loc ss cur of
             Inr t \<Rightarrow> t
           | Inl cur' \<Rightarrow> Next_loop r loc ss maxYears cur'))"

declare Next_loop.simps [simp del]

definition spec_Next :: "location \<Rightarrow> location specSchedule \<Rightarrow> gotime \<Rightarrow> gotime" where
  "spec_Next Local ss from =
     (let loc = (case ss_loc ss of None \<Rightarrow> Local | Some l \<Rightarrow> l);
          cur = time_trunc (from + time_Second) time_Second
      in Next_loop 1000 loc ss (Time_Year loc cur + 5) cur)"

definition constantDelay_Next :: "duration \<Rightarrow> gotime \<Rightarrow> gotime" where
  "constantDelay_Next delay t =
     (let n = time_trunc t delay + delay in if \<not> n > t then n + delay else n)"

definition Schedule_Next :: "location \<Rightarrow> location Schedule \<Rightarrow> gotime \<Rightarrow> gotime" where
  "Schedule_Next Local sch from =
     (case sch of
        SpecSchedule ss \<Rightarrow> spec_Next Local ss from
      | ConstantDelaySchedule d \<Rightarrow> constantDelay_Next d from
      | ImmediateSchedule \<Rightarrow> zero_time)"

subsection \<open>Fixed-offset zones: local seconds\<close>

text \<open>
  In a zone with a fixed offset an instant on a whole second is its local second \<open>L\<close> and the search
  can be followed on \<open>L\<close> alone.
\<close>

definition inst :: "int \<Rightarrow> int \<Rightarrow> gotime" where
  "inst off L = (L - off) * 1000000000"

lemma local_second_inst [simp]: "local_second (FixedZone off) (inst off L) = L"
  by (simp add: local_second_def FixedZone_def inst_def)

lemma from_local_fixed: "from_local (FixedZone off) w = inst off w"
  by (simp add: from_local_def FixedZone_def inst_def Let_def)

definition lday :: "int \<Rightarrow> int" where
  "lday L = L div 86400"

definition lmidnight :: "int \<Rightarrow> int" where
  "lmidnight n = n * 86400"

lemma Time_Date_fixed:
  "Time_Date (FixedZone off) y m d h mi s = inst off (lmidnight (day_number y m d) + h * 3600 + mi * 60 + s)"
  by (simp add: Time_Date_def from_local_fixed lmidnight_def)

definition lmatchDay :: "location specSchedule \<Rightarrow> int \<Rightarrow> bool" where
  "lmatchDay ss n =
     (let domMatch = mem (day_of n) (ss_dom ss);
          dowMatch = (mem (weekday_of n) (ss_dow ss) \<or> weekday_of n = 0 \<and> mem 7 (ss_dow ss))
      in if ss_domStar ss \<and> ss_dowStar ss then True
         else if ss_domStar ss then dowMatch
         else if ss_dowStar ss then domMatch
         else domMatch \<or> dowMatch)"

lemma matchesDay_fixed [simp]: "matchesDay (FixedZone off) ss (inst off L) = lmatchDay ss (lday L)"
  by (simp add: matchesDay_def lmatchDay_def time_fields lday_def bitMatch_mem Let_def)



text \<open>Day, hour and minute numbers of a local second, and the fields they determine.\<close>

definition lhour :: "int \<Rightarrow> int" where
  "lhour L = L div 3600"

definition lmin :: "int \<Rightarrow> int" where
  "lmin L = L div 60"

lemma clock_bounds:
  "24 * lday L \<le> lhour L" "lhour L < 24 * lday L + 24"
  "60 * lhour L \<le> lmin L" "lmin L < 60 * lhour L + 60"
  "60 * lmin L \<le> L" "L < 60 * lmin L + 60"
proof -
  have d: "lday L = lhour L div 24" "lhour L = lmin L div 60"
    unfolding lday_def lhour_def lmin_def by (simp_all add: zdiv_zmult2_eq [of 24 L 3600, simplified] zdiv_zmult2_eq [of 60 L 60, simplified])
  show "24 * lday L \<le> lhour L" "lhour L < 24 * lday L + 24" using div_bounds [of 24 "lhour L"] d by auto
  show "60 * lhour L \<le> lmin L" "lmin L < 60 * lhour L + 60" using div_bounds [of 60 "lmin L"] d by auto
  show "60 * lmin L \<le> L" "L < 60 * lmin L + 60" using div_bounds [of 60 L] by (auto simp: lmin_def)
qed

lemma clock_fields:
  "L mod 86400 div 3600 = lhour L - 24 * lday L" "L mod 3600 div 60 = lmin L - 60 * lhour L"
  "L mod 60 = L - 60 * lmin L"
proof -
  note b = clock_bounds [of L]
  have "L mod 86400 = L - 86400 * lday L" by (simp add: lday_def minus_mult_div_eq_mod)
  also have "\<dots> = 3600 * (lhour L - 24 * lday L) + (L - 3600 * lhour L)" by simp
  finally show "L mod 86400 div 3600 = lhour L - 24 * lday L"
    by (rule int_div_pos_eq) (use b in linarith)+
  have "L mod 3600 = L - 3600 * lhour L" by (simp add: lhour_def minus_mult_div_eq_mod)
  also have "\<dots> = 60 * (lmin L - 60 * lhour L) + (L - 60 * lmin L)" by simp
  finally show "L mod 3600 div 60 = lmin L - 60 * lhour L"
    by (rule int_div_pos_eq) (use b in linarith)+
  show "L mod 60 = L - 60 * lmin L" by (simp add: lmin_def minus_mult_div_eq_mod)
qed

lemma lday_eqI: "86400 * n \<le> L \<Longrightarrow> L < 86400 * n + 86400 \<Longrightarrow> lday L = n"
  unfolding lday_def by (rule int_div_pos_eq [of _ _ _ "L - 86400 * n"]) auto

lemma lhour_eqI: "3600 * n \<le> L \<Longrightarrow> L < 3600 * n + 3600 \<Longrightarrow> lhour L = n"
  unfolding lhour_def by (rule int_div_pos_eq [of _ _ _ "L - 3600 * n"]) auto

lemma lmin_eqI: "60 * n \<le> L \<Longrightarrow> L < 60 * n + 60 \<Longrightarrow> lmin L = n"
  unfolding lmin_def by (rule int_div_pos_eq [of _ _ _ "L - 60 * n"]) auto

lemma clock_mono: "x \<le> y \<Longrightarrow> lday x \<le> lday y" "x \<le> y \<Longrightarrow> lhour x \<le> lhour y" "x \<le> y \<Longrightarrow> lmin x \<le> lmin y"
  by (simp_all add: lday_def lhour_def lmin_def zdiv_mono1)

lemma lday_nonneg: "0 \<le> L \<Longrightarrow> 0 \<le> lday L"
  by (simp add: lday_def pos_imp_zdiv_nonneg_iff)

text \<open>What it means that the schedule fires at local second \<open>L\<close>.\<close>

definition lfires :: "location specSchedule \<Rightarrow> int \<Rightarrow> bool" where
  "lfires ss L \<longleftrightarrow>
     mem (month_of (lday L)) (ss_month ss) \<and> lmatchDay ss (lday L) \<and>
     mem (lhour L - 24 * lday L) (ss_hour ss) \<and> mem (lmin L - 60 * lhour L) (ss_min ss) \<and>
     mem (L - 60 * lmin L) (ss_sec ss)"

text \<open>The round of the search, on local seconds.\<close>

definition lsecond :: "location specSchedule \<Rightarrow> int \<Rightarrow> int + int" where
  "lsecond ss L =
     (case nextSetBit (ss_sec ss) (L - 60 * lmin L) 59 of
        None \<Rightarrow> Inl (60 * (lmin L + 1))
      | Some s \<Rightarrow>
          let L = (if s \<noteq> L - 60 * lmin L then 60 * lmin L + s else L) in
          if lmatchDay ss (lday L) \<and> mem (month_of (lday L)) (ss_month ss) then Inr L else Inl (L + 1))"

definition lminute :: "location specSchedule \<Rightarrow> int \<Rightarrow> int + int" where
  "lminute ss L =
     (case nextSetBit (ss_min ss) (lmin L - 60 * lhour L) 59 of
        None \<Rightarrow> Inl (3600 * (lhour L + 1))
      | Some mi \<Rightarrow> lsecond ss (if mi \<noteq> lmin L - 60 * lhour L then 60 * (60 * lhour L + mi) else L))"

definition lhourly :: "location specSchedule \<Rightarrow> int \<Rightarrow> int + int" where
  "lhourly ss L =
     (case nextSetBit (ss_hour ss) (lhour L - 24 * lday L) 23 of
        None \<Rightarrow> Inl (86400 * (lday L + 1))
      | Some h \<Rightarrow> lminute ss (if h \<noteq> lhour L - 24 * lday L then 3600 * (24 * lday L + h) else L))"

definition ldaily :: "location specSchedule \<Rightarrow> int \<Rightarrow> int + int" where
  "ldaily ss L = (if \<not> lmatchDay ss (lday L) then Inl (86400 * (lday L + 1)) else lhourly ss L)"

definition lstep :: "location specSchedule \<Rightarrow> int \<Rightarrow> int + int" where
  "lstep ss L =
     (case nextSetBit (ss_month ss) (month_of (lday L)) 12 of
        None \<Rightarrow> Inl (86400 * days_before_year (year_of (lday L) + 1))
      | Some month \<Rightarrow>
          ldaily ss (if month \<noteq> month_of (lday L) then 86400 * day_number (year_of (lday L)) month 1 else L))"

lemma time_fields_fixed [simp]:
  "Time_Year (FixedZone off) (inst off L) = year_of (lday L)"
  "Time_Month (FixedZone off) (inst off L) = month_of (lday L)"
  "Time_Day (FixedZone off) (inst off L) = day_of (lday L)"
  "Time_Hour (FixedZone off) (inst off L) = lhour L - 24 * lday L"
  "Time_Minute (FixedZone off) (inst off L) = lmin L - 60 * lhour L"
  "Time_Second (FixedZone off) (inst off L) = L - 60 * lmin L"
  by (simp_all add: time_fields clock_fields) (simp_all add: lday_def)

lemma Date_same_day:
  assumes "0 \<le> L"
  shows "Time_Date (FixedZone off) (year_of (lday L)) (month_of (lday L)) (day_of (lday L)) h mi s
    = inst off (86400 * lday L + h * 3600 + mi * 60 + s)"
  by (simp add: Time_Date_fixed lmidnight_def day_number_round [OF lday_nonneg [OF assms]] mult.commute)

lemma next_midnight_fixed:
  assumes "0 \<le> L"
  shows "next_midnight (FixedZone off) (inst off L) = inst off (86400 * (lday L + 1))"
proof -
  have "day_number (year_of (lday L)) (month_of (lday L)) (day_of (lday L) + 1) = lday L + 1"
    using day_number_round [OF lday_nonneg [OF assms]] by (simp add: day_number_def)
  then have a: "AddDay (FixedZone off) (inst off L) = inst off (L + 86400)"
    by (simp add: AddDay_def Time_Date_fixed lmidnight_def) (simp add: inst_def)
  have "lday (L + 86400) = lday L + 1" by (simp add: lday_def)
  then show ?thesis
    using Date_same_day [of "L + 86400" off 0 0 0] assms by (simp add: next_midnight_def a Let_def)
qed

lemma trunc_fixed:
  assumes "k dvd off" "0 < k"
  shows "time_trunc (inst off L) (k * 1000000000) = inst off (L - L mod k)"
proof -
  have "(L - off) mod k = L mod k" using assms(1) by (metis diff_zero dvd_imp_mod_0 mod_diff_right_eq)
  moreover have "inst off L mod (k * 1000000000) = (L - off) mod k * 1000000000"
    by (simp add: inst_def mult_mod_left)
  ultimately show ?thesis using assms(2) by (simp add: time_trunc_def inst_def algebra_simps)
qed

lemma trunc_hour_fixed:
  assumes "3600 dvd off"
  shows "time_trunc (inst off L + (60 - (lmin L - 60 * lhour L)) * time_Minute) time_Hour = inst off (3600 * (lhour L + 1))"
proof -
  let ?X = "L + (60 - (lmin L - 60 * lhour L)) * 60"
  have "lhour ?X = lhour L + 1" using clock_bounds [of L] by (intro lhour_eqI) auto
  then have "?X - ?X mod 3600 = 3600 * (lhour L + 1)" by (simp add: lhour_def minus_mod_eq_mult_div)
  then show ?thesis using trunc_fixed [OF assms, of ?X] by (simp add: time_defs inst_def algebra_simps)
qed

lemma trunc_minute_fixed:
  assumes "60 dvd off"
  shows "time_trunc (inst off L + (60 - (L - 60 * lmin L)) * time_Second) time_Minute = inst off (60 * (lmin L + 1))"
proof -
  have "lmin (60 * (lmin L + 1)) = lmin L + 1" by (intro lmin_eqI) auto
  then have "60 * (lmin L + 1) mod 60 = 0" by simp
  then show ?thesis using trunc_fixed [OF assms, of "60 * (lmin L + 1)"] by (simp add: time_defs inst_def algebra_simps)
qed


lemma Date_first: "Time_Date (FixedZone off) y m 1 0 0 0 = inst off (86400 * day_number y m 1)"
  by (simp add: Time_Date_fixed lmidnight_def mult.commute)

lemma lhour_set: "0 \<le> h \<Longrightarrow> h < 24 \<Longrightarrow> lday (3600 * (24 * n + h)) = n" "lhour (3600 * k) = k"
  "lmin (3600 * k) = 60 * k"
  by (intro lday_eqI lhour_eqI lmin_eqI; simp)+

lemma lmin_set: "0 \<le> m \<Longrightarrow> m < 60 \<Longrightarrow> lhour (60 * (60 * k + m)) = k" "lmin (60 * k) = k"
  by (intro lhour_eqI lmin_eqI; simp)+

lemma lday_set [simp]: "lday (86400 * n) = n" "lhour (86400 * n) = 24 * n" "lmin (86400 * n) = 1440 * n"
  by (intro lday_eqI lhour_eqI lmin_eqI; simp)+

lemma field_nonneg: "0 \<le> lhour L - 24 * lday L" "0 \<le> lmin L - 60 * lhour L" "0 \<le> L - 60 * lmin L"
  using clock_bounds [of L] by simp_all

lemma month_pos: "0 \<le> month_of n"
  using month_of_range [of n] by simp

lemmas next_second_Some = nextSetBit_Some [OF field_nonneg(3)]
lemmas next_minute_Some = nextSetBit_Some [OF field_nonneg(2)]
lemmas next_hour_Some = nextSetBit_Some [OF field_nonneg(1)]
lemmas next_month_Some = nextSetBit_Some [OF month_pos]

lemma year_pos: "0 \<le> n \<Longrightarrow> 1 \<le> year_of n"
  using year_of_bounds(2) [of n] days_before_year_mono [of "year_of n + 1" 1]
  by (force simp: days_before_year_def)

lemma Date_fields:
  assumes "0 \<le> L"
  shows "Time_Date (FixedZone off) (year_of (lday L)) (month_of (lday L)) (day_of (lday L))
      (lhour L - 24 * lday L) (lmin L - 60 * lhour L) s = inst off (60 * lmin L + s)"
    "Time_Date (FixedZone off) (year_of (lday L)) (month_of (lday L)) (day_of (lday L))
      (lhour L - 24 * lday L) mi 0 = inst off (60 * (60 * lhour L + mi))"
    "Time_Date (FixedZone off) (year_of (lday L)) (month_of (lday L)) (day_of (lday L)) h 0 0
      = inst off (3600 * (24 * lday L + h))"
  unfolding Date_same_day [OF assms] by (rule arg_cong [of _ _ "inst off"], simp)+

lemma clock_nonneg:
  assumes "0 \<le> L"
  shows "0 \<le> lhour L" "0 \<le> lmin L"
  using clock_mono(2,3) [OF assms] by (simp_all add: lhour_def lmin_def)

lemma Next_second_fixed:
  assumes "0 \<le> L" "60 dvd off"
  shows "Next_second (FixedZone off) ss (inst off L) = map_sum (inst off) (inst off) (lsecond ss L)"
proof (cases "nextSetBit (ss_sec ss) (L - 60 * lmin L) 59")
  case None
  then show ?thesis by (simp add: Next_second_def lsecond_def trunc_minute_fixed [OF assms(2)])
next
  case (Some s)
  have "inst off x + time_Second = inst off (x + 1)" for x by (simp add: inst_def time_Second_def algebra_simps)
  then show ?thesis
    using Some by (simp add: Next_second_def lsecond_def Date_fields [OF assms(1)] bitMatch_mem Let_def)
qed

lemma Next_minute_fixed:
  assumes "0 \<le> L" "3600 dvd off"
  shows "Next_minute (FixedZone off) ss (inst off L) = map_sum (inst off) (inst off) (lminute ss L)"
proof (cases "nextSetBit (ss_min ss) (lmin L - 60 * lhour L) 59")
  case None
  then show ?thesis by (simp add: Next_minute_def lminute_def trunc_hour_fixed [OF assms(2)])
next
  case (Some mi)
  have d: "60 dvd off" using assms(2) by (rule dvd_trans [rotated]) simp
  have "0 \<le> 60 * (60 * lhour L + mi)"
    using order.trans [OF field_nonneg(2) next_minute_Some(1) [OF Some]] clock_nonneg [OF assms(1)] by simp
  then show ?thesis
    using Some assms d by (simp add: Next_minute_def lminute_def Date_fields [OF assms(1)] Next_second_fixed)
qed

lemma Next_hour_fixed:
  assumes "0 \<le> L" "3600 dvd off"
  shows "Next_hour (FixedZone off) ss (inst off L) = map_sum (inst off) (inst off) (lhourly ss L)"
proof (cases "nextSetBit (ss_hour ss) (lhour L - 24 * lday L) 23")
  case None
  then show ?thesis by (simp add: Next_hour_def lhourly_def next_midnight_fixed [OF assms(1)])
next
  case (Some h)
  have "0 \<le> 3600 * (24 * lday L + h)"
    using order.trans [OF field_nonneg(1) next_hour_Some(1) [OF Some]] lday_nonneg [OF assms(1)] by simp
  then show ?thesis
    using Some assms by (simp add: Next_hour_def lhourly_def Date_fields [OF assms(1)] Next_minute_fixed)
qed

lemma Next_day_fixed:
  "0 \<le> L \<Longrightarrow> 3600 dvd off \<Longrightarrow>
   Next_day (FixedZone off) ss (inst off L) = map_sum (inst off) (inst off) (ldaily ss L)"
  by (simp add: Next_day_def ldaily_def next_midnight_fixed Next_hour_fixed)

lemma Next_step_fixed:
  assumes "0 \<le> L" "3600 dvd off"
  shows "Next_step (FixedZone off) ss (inst off L) = map_sum (inst off) (inst off) (lstep ss L)"
proof (cases "nextSetBit (ss_month ss) (month_of (lday L)) 12")
  case None
  then show ?thesis by (simp add: Next_step_def lstep_def Date_first day_number_jan)
next
  case (Some mo)
  have "1 \<le> mo" "mo \<le> 12" using next_month_Some [OF Some] month_of_range [of "lday L"] by auto
  then have "0 \<le> day_number (year_of (lday L)) mo 1"
    using month_first(1) year_pos [OF lday_nonneg [OF assms(1)]] by blast
  with Some assms show ?thesis by (simp add: Next_step_def lstep_def Date_first Next_day_fixed)
qed

end
