(* ===== verification/CronNext.thy ===== *)
theory CronNext
  imports CronSchedule
begin

text \<open>
  The correctness of \<^verbatim>\<open>specSchedule.Next\<close> (\<^verbatim>\<open>pkg/cron/schedule.go\<close>) in zones with a
  fixed whole-hour offset. \<open>good_step\<close> is the contract of one round: it either finds a firing time
  that nothing precedes or moves forward over seconds that are not firing times. \<open>nearer\<close> is the
  progress measure that bounds the number of rounds.
\<close>

subsection \<open>No firing time is skipped\<close>

definition quiet :: "location specSchedule \<Rightarrow> int \<Rightarrow> int \<Rightarrow> bool" where
  "quiet ss a b \<longleftrightarrow> (\<forall>x. a \<le> x \<and> x < b \<longrightarrow> \<not> lfires ss x)"

definition good_step :: "location specSchedule \<Rightarrow> int \<Rightarrow> int + int \<Rightarrow> bool" where
  "good_step ss L r =
     (case r of Inl L' \<Rightarrow> L < L' \<and> quiet ss L L' | Inr R \<Rightarrow> L \<le> R \<and> quiet ss L R \<and> lfires ss R)"

lemma quietI: "(\<And>x. a \<le> x \<Longrightarrow> x < b \<Longrightarrow> \<not> lfires ss x) \<Longrightarrow> quiet ss a b"
  by (auto simp: quiet_def)

lemma quiet_trans: "quiet ss a b \<Longrightarrow> quiet ss b c \<Longrightarrow> quiet ss a c"
  unfolding quiet_def by (metis not_le)

lemma good_step_after: "L \<le> L1 \<Longrightarrow> quiet ss L L1 \<Longrightarrow> good_step ss L1 r \<Longrightarrow> good_step ss L r"
  by (auto simp: good_step_def intro: quiet_trans split: sum.splits)

lemma lfiresD:
  assumes "lfires ss x"
  shows "mem (x - 60 * lmin x) (ss_sec ss)" "mem (lmin x - 60 * lhour x) (ss_min ss)"
    "mem (lhour x - 24 * lday x) (ss_hour ss)" "lmatchDay ss (lday x)" "mem (month_of (lday x)) (ss_month ss)"
  using assms by (simp_all add: lfires_def)

text \<open>Seconds of the same minute, hour and day share the coarser numbers.\<close>

lemma same_minute:
  assumes "60 * lmin L \<le> x" "x < 60 * lmin L + 60"
  shows "lmin x = lmin L" "lhour x = lhour L" "lday x = lday L"
  using assms clock_bounds [of L] by (intro lday_eqI lhour_eqI lmin_eqI; linarith)+

lemma same_hour:
  assumes "3600 * lhour L \<le> x" "x < 3600 * lhour L + 3600"
  shows "lhour x = lhour L" "lday x = lday L"
  using assms clock_bounds [of L] by (intro lday_eqI lhour_eqI; linarith)+

lemma same_day:
  assumes "86400 * lday L \<le> x" "x < 86400 * lday L + 86400"
  shows "lday x = lday L"
  using assms by (intro lday_eqI; linarith)

lemma clock_lower: "60 * lmin L \<le> L" "3600 * lhour L \<le> L" "86400 * lday L \<le> L"
  "L < 60 * lmin L + 60" "L < 3600 * lhour L + 3600" "L < 86400 * lday L + 86400"
  using clock_bounds [of L] by linarith+

lemma good_lsecond:
  assumes "lmatchDay ss (lday L)" "mem (month_of (lday L)) (ss_month ss)"
    "mem (lhour L - 24 * lday L) (ss_hour ss)" "mem (lmin L - 60 * lhour L) (ss_min ss)"
  shows "good_step ss L (lsecond ss L)"
proof (cases "nextSetBit (ss_sec ss) (L - 60 * lmin L) 59")
  case None
  have "quiet ss L (60 * (lmin L + 1))"
  proof (rule quietI)
    fix x assume x: "L \<le> x" "x < 60 * (lmin L + 1)"
    then have "lmin x = lmin L" using clock_lower [of L] by (intro same_minute) auto
    moreover have "\<not> mem (x - 60 * lmin L) (ss_sec ss)"
      using x by (intro nextSetBit_None [OF field_nonneg(3) None]) auto
    ultimately show "\<not> lfires ss x" using lfiresD(1) [of ss x] by auto
  qed
  moreover have "L < 60 * (lmin L + 1)" using clock_lower(4) [of L] by simp
  ultimately show ?thesis using None by (simp add: lsecond_def good_step_def)
next
  case (Some s)
  note n = next_second_Some [OF Some]
  define R where "R = 60 * lmin L + s"
  have R: "(if s \<noteq> L - 60 * lmin L then 60 * lmin L + s else L) = R" by (simp add: R_def)
  have rr: "60 * lmin L \<le> R" "R < 60 * lmin L + 60" "L \<le> R"
    using n(1,2) clock_lower(1) [of L] by (simp_all add: R_def)
  have "lfires ss R" using assms n(3) same_minute [OF rr(1,2)] by (simp add: lfires_def R_def)
  moreover have "quiet ss L R"
  proof (rule quietI)
    fix x assume x: "L \<le> x" "x < R"
    then have "lmin x = lmin L" using clock_lower(1) [of L] rr by (intro same_minute) linarith+
    moreover have "\<not> mem (x - 60 * lmin L) (ss_sec ss)" using x by (intro n(4)) (simp_all add: R_def)
    ultimately show "\<not> lfires ss x" using lfiresD(1) [of ss x] by auto
  qed
  ultimately show ?thesis
    using assms Some rr same_minute [OF rr(1,2)] by (simp add: lsecond_def R good_step_def)
qed

lemma good_lminute:
  assumes "lmatchDay ss (lday L)" "mem (month_of (lday L)) (ss_month ss)"
    "mem (lhour L - 24 * lday L) (ss_hour ss)"
  shows "good_step ss L (lminute ss L)"
proof (cases "nextSetBit (ss_min ss) (lmin L - 60 * lhour L) 59")
  case None
  have "quiet ss L (3600 * (lhour L + 1))"
  proof (rule quietI)
    fix x assume x: "L \<le> x" "x < 3600 * (lhour L + 1)"
    then have h: "lhour x = lhour L" using clock_lower [of L] by (intro same_hour) auto
    have "\<not> mem (lmin x - 60 * lhour L) (ss_min ss)"
      using clock_mono(3) [OF x(1)] clock_bounds(4) [of x] h
      by (intro nextSetBit_None [OF field_nonneg(2) None]) linarith+
    with h show "\<not> lfires ss x" using lfiresD(2) [of ss x] by auto
  qed
  moreover have "L < 3600 * (lhour L + 1)" using clock_lower(5) [of L] by simp
  ultimately show ?thesis using None by (simp add: lminute_def good_step_def)
next
  case (Some mi)
  note n = next_minute_Some [OF Some]
  define L1 where "L1 = (if mi \<noteq> lmin L - 60 * lhour L then 60 * (60 * lhour L + mi) else L)"
  have r: "3600 * lhour L \<le> L1" "L1 < 3600 * lhour L + 3600" "L \<le> L1"
    using n(1,2) clock_bounds [of L] by (auto simp: L1_def)
  have m1: "lmin L1 = 60 * lhour L + mi" by (simp only: L1_def lmin_set split: if_split) simp
  have "quiet ss L L1"
  proof (rule quietI)
    fix x assume x: "L \<le> x" "x < L1"
    then have c: "L1 = 60 * (60 * lhour L + mi)" by (auto simp: L1_def split: if_splits)
    have h: "lhour x = lhour L" using x r clock_lower(2) [of L] by (intro same_hour) linarith+
    have "\<not> mem (lmin x - 60 * lhour L) (ss_min ss)"
      using x c clock_mono(3) [OF x(1)] clock_lower(1) [of x] by (intro n(4)) auto
    with h show "\<not> lfires ss x" using lfiresD(2) [of ss x] by auto
  qed
  moreover have "good_step ss L1 (lsecond ss L1)"
    using assms n(3) same_hour [OF r(1,2)] m1 by (intro good_lsecond) auto
  ultimately show ?thesis
    using Some r(3) by (simp add: lminute_def L1_def [symmetric] good_step_after)
qed

lemma good_lhourly:
  assumes "lmatchDay ss (lday L)" "mem (month_of (lday L)) (ss_month ss)"
  shows "good_step ss L (lhourly ss L)"
proof (cases "nextSetBit (ss_hour ss) (lhour L - 24 * lday L) 23")
  case None
  have "quiet ss L (86400 * (lday L + 1))"
  proof (rule quietI)
    fix x assume x: "L \<le> x" "x < 86400 * (lday L + 1)"
    then have h: "lday x = lday L" using clock_lower [of L] by (intro same_day) auto
    have "\<not> mem (lhour x - 24 * lday L) (ss_hour ss)"
      using clock_mono(2) [OF x(1)] clock_bounds(2) [of x] h
      by (intro nextSetBit_None [OF field_nonneg(1) None]) linarith+
    with h show "\<not> lfires ss x" using lfiresD(3) [of ss x] by auto
  qed
  moreover have "L < 86400 * (lday L + 1)" using clock_lower(6) [of L] by simp
  ultimately show ?thesis using None by (simp add: lhourly_def good_step_def)
next
  case (Some h)
  note n = next_hour_Some [OF Some]
  define L1 where "L1 = (if h \<noteq> lhour L - 24 * lday L then 3600 * (24 * lday L + h) else L)"
  have r: "86400 * lday L \<le> L1" "L1 < 86400 * lday L + 86400" "L \<le> L1"
    using n(1,2) clock_bounds [of L] by (auto simp: L1_def)
  have h1: "lhour L1 = 24 * lday L + h" by (simp only: L1_def lhour_set split: if_split) simp
  have "quiet ss L L1"
  proof (rule quietI)
    fix x assume x: "L \<le> x" "x < L1"
    then have c: "L1 = 3600 * (24 * lday L + h)" by (auto simp: L1_def split: if_splits)
    have d: "lday x = lday L" using x r clock_lower(3) [of L] by (intro same_day) linarith+
    have "\<not> mem (lhour x - 24 * lday L) (ss_hour ss)"
      using x c clock_mono(2) [OF x(1)] clock_lower(2) [of x] by (intro n(4)) auto
    with d show "\<not> lfires ss x" using lfiresD(3) [of ss x] by auto
  qed
  moreover have "good_step ss L1 (lminute ss L1)"
    using assms n(3) same_day [OF r(1,2)] h1 by (intro good_lminute) auto
  ultimately show ?thesis
    using Some r(3) by (simp add: lhourly_def L1_def [symmetric] good_step_after)
qed

lemma good_ldaily:
  assumes "mem (month_of (lday L)) (ss_month ss)"
  shows "good_step ss L (ldaily ss L)"
proof (cases "lmatchDay ss (lday L)")
  case True
  then show ?thesis using assms by (simp add: ldaily_def good_lhourly)
next
  case False
  have "quiet ss L (86400 * (lday L + 1))"
  proof (rule quietI)
    fix x assume x: "L \<le> x" "x < 86400 * (lday L + 1)"
    then have h: "lday x = lday L" using clock_lower [of L] by (intro same_day) auto
    with False show "\<not> lfires ss x" using lfiresD(4) [of ss x] by auto
  qed
  moreover have "L < 86400 * (lday L + 1)" using clock_lower(6) [of L] by simp
  ultimately show ?thesis using False by (simp add: ldaily_def good_step_def)
qed

lemma lday_less: "x < 86400 * n \<longleftrightarrow> lday x < n"
  using clock_lower(3,6) [of x] by (intro iffI) linarith+

lemma good_lstep:
  assumes "0 \<le> L"
  shows "good_step ss L (lstep ss L)"
proof -
  let ?n = "lday L"
  have n0: "0 \<le> ?n" using assms by (rule lday_nonneg)
  note y = year_of_bounds [OF n0]
  have yr: "year_of k = year_of ?n" if "?n \<le> k" "k < days_before_year (year_of ?n + 1)" for k
    using that n0 y by (intro year_of_unique) auto
  show ?thesis
  proof (cases "nextSetBit (ss_month ss) (month_of ?n) 12")
    case None
    have "quiet ss L (86400 * days_before_year (year_of ?n + 1))"
    proof (rule quietI)
      fix x assume x: "L \<le> x" "x < 86400 * days_before_year (year_of ?n + 1)"
      have k: "?n \<le> lday x" "lday x < days_before_year (year_of ?n + 1)"
        using clock_mono(1) [OF x(1)] x(2) by (simp_all add: lday_less)
      have "\<not> mem (month_of (lday x)) (ss_month ss)"
        using month_of_mono [OF n0 k(1)] yr [OF k] month_of_range [of "lday x"]
        by (intro nextSetBit_None [OF month_pos None]) auto
      then show "\<not> lfires ss x" using lfiresD(5) [of ss x] by auto
    qed
    with None y(2) show ?thesis by (simp add: lstep_def good_step_def lday_less)
  next
    case (Some mo)
    note m = next_month_Some [OF Some]
    have mo: "1 \<le> mo" using m(1) month_of_range [of ?n] by linarith
    note f = month_first [OF year_pos [OF n0] mo m(2)]
    define L1 where "L1 = (if mo \<noteq> month_of ?n then 86400 * day_number (year_of ?n) mo 1 else L)"
    have m1: "month_of (lday L1) = mo" using f by (simp add: L1_def)
    have q: "L \<le> L1 \<and> quiet ss L L1"
    proof (cases "mo = month_of ?n")
      case True
      then show ?thesis by (auto simp: L1_def quiet_def)
    next
      case False
      let ?F = "day_number (year_of ?n) mo 1"
      have nF: "?n < ?F" using month_of_ge [OF n0 mo m(2)] False m(1) by auto
      have "quiet ss L (86400 * ?F)"
      proof (rule quietI)
        fix x assume x: "L \<le> x" "x < 86400 * ?F"
        have k: "?n \<le> lday x" "lday x < ?F"
          using clock_mono(1) [OF x(1)] x(2) by (simp_all add: lday_less)
        have F: "?F < days_before_year (year_of ?n + 1)" using year_of_bounds(2) [OF f(1)] f(2) by simp
        have ye: "year_of (lday x) = year_of ?n" using k F by (intro yr) auto
        have "month_of (lday x) < mo" using month_of_ge [of "lday x" mo] mo m(2) k n0 ye by auto
        then have "\<not> mem (month_of (lday x)) (ss_month ss)"
          using month_of_mono [OF n0 k(1)] ye by (intro m(4)) auto
        then show "\<not> lfires ss x" using lfiresD(5) [of ss x] by auto
      qed
      moreover have "L < 86400 * ?F" using nF by (simp add: lday_less)
      ultimately show ?thesis using False by (simp add: L1_def)
    qed
    have "good_step ss L1 (ldaily ss L1)" using m(3) m1 by (intro good_ldaily) simp
    with q Some show ?thesis by (auto simp: lstep_def L1_def [symmetric] intro: good_step_after)
  qed
qed


subsection \<open>The loop\<close>

lemma Next_loop_unfold:
  "Next_loop (Suc r) loc ss my cur =
     (if Time_Year loc cur > my then 0
      else case Next_step loc ss cur of Inr t \<Rightarrow> t | Inl cur' \<Rightarrow> Next_loop r loc ss my cur')"
  "Next_loop 0 loc ss my cur = 0"
  by (simp_all add: Next_loop.simps [of "Suc r"] Next_loop.simps [of 0])

lemma Next_loop_sound:
  assumes "3600 dvd off" "0 \<le> L" "Next_loop r (FixedZone off) ss my (inst off L) = t" "t \<noteq> 0"
  shows "\<exists>R. t = inst off R \<and> L \<le> R \<and> lfires ss R \<and> quiet ss L R"
  using assms(2,3)
proof (induction r arbitrary: L)
  case 0
  then show ?case using assms(4) by (simp add: Next_loop_unfold)
next
  case (Suc r)
  note g = good_lstep [OF Suc.prems(1), of ss]
  have run: "(case map_sum (inst off) (inst off) (lstep ss L) of Inr t \<Rightarrow> t
      | Inl c \<Rightarrow> Next_loop r (FixedZone off) ss my c) = t"
    using Suc.prems assms(1,4) by (simp add: Next_loop_unfold Next_step_fixed split: if_splits)
  show ?case
  proof (cases "lstep ss L")
    case (Inr R)
    with run g show ?thesis by (auto simp: good_step_def)
  next
    case (Inl L')
    with g have "L < L'" "quiet ss L L'" by (simp_all add: good_step_def)
    moreover obtain R where "t = inst off R" "L' \<le> R" "lfires ss R" "quiet ss L' R"
      using Suc.IH [of L'] run Inl \<open>L < L'\<close> Suc.prems(1) by auto
    ultimately show ?thesis by (auto intro: quiet_trans)
  qed
qed

text \<open>
  How many rounds the search needs: a round that does not find the result moves to a midnight, or
  to a full hour or a full minute that is closer to one; from a midnight it moves to a later one.
\<close>

definition rank :: "int \<Rightarrow> nat" where
  "rank L = (if 86400 dvd L then 0 else if 3600 dvd L then 1 else if 60 dvd L then 2 else 3)"

lemma dvd_chain: "86400 dvd (L::int) \<Longrightarrow> 3600 dvd L" "3600 dvd (L::int) \<Longrightarrow> 60 dvd L"
proof -
  have d: "(3600::int) dvd 86400" "(60::int) dvd 3600" by simp_all
  show "86400 dvd L \<Longrightarrow> 3600 dvd L" by (rule dvd_trans [OF d(1)])
  show "3600 dvd L \<Longrightarrow> 60 dvd L" by (rule dvd_trans [OF d(2)])
qed

lemma rank_simps:
  "86400 dvd L \<Longrightarrow> rank L = 0" "3600 dvd L \<Longrightarrow> rank L \<le> 1" "60 dvd L \<Longrightarrow> rank L \<le> 2"
  "\<not> 60 dvd L \<Longrightarrow> rank L = 3" "\<not> 3600 dvd L \<Longrightarrow> 2 \<le> rank L" "rank L \<le> 3"
  using dvd_chain [of L] by (auto simp: rank_def)

lemma wf_mask_next: "wf_mask 0 hi m \<Longrightarrow> nextSetBit m 0 hi \<noteq> None"
  unfolding wf_mask_def by (metis nextSetBit_None order_refl)

lemma dvd_fields:
  "60 dvd L \<Longrightarrow> L - 60 * lmin L = 0" "3600 dvd L \<Longrightarrow> lmin L - 60 * lhour L = 0"
proof -
  show "60 dvd L \<Longrightarrow> L - 60 * lmin L = 0" by (auto simp: lmin_def)
  show "3600 dvd L \<Longrightarrow> lmin L - 60 * lhour L = 0" by (auto elim!: dvdE simp: lhour_set)
qed

lemma lsecond_Inl:
  assumes "wf_spec ss" "lmatchDay ss (lday L)" "mem (month_of (lday L)) (ss_month ss)" "lsecond ss L = Inl L'"
  shows "rank L' < rank L" "\<not> 60 dvd L"
proof -
  show nd: "\<not> 60 dvd L"
  proof
    assume "60 dvd L"
    then have "nextSetBit (ss_sec ss) (L - 60 * lmin L) 59 \<noteq> None"
      using assms(1) wf_mask_next by (simp add: wf_spec_def dvd_fields)
    then obtain s where s: "nextSetBit (ss_sec ss) (L - 60 * lmin L) 59 = Some s" by blast
    have "lday (60 * lmin L + s) = lday L"
      using next_second_Some(1,2) [OF s] field_nonneg(3) [of L] by (intro same_minute) linarith+
    with s assms(2-4) show False by (auto simp: lsecond_def Let_def split: if_splits)
  qed
  have "nextSetBit (ss_sec ss) (L - 60 * lmin L) 59 = None"
  proof (rule ccontr)
    assume "nextSetBit (ss_sec ss) (L - 60 * lmin L) 59 \<noteq> None"
    then obtain s where s: "nextSetBit (ss_sec ss) (L - 60 * lmin L) 59 = Some s" by blast
    have "lday (60 * lmin L + s) = lday L"
      using next_second_Some(1,2) [OF s] field_nonneg(3) [of L] by (intro same_minute) linarith+
    with s assms(2-4) show False by (auto simp: lsecond_def Let_def split: if_splits)
  qed
  with assms(4) have "L' = 60 * (lmin L + 1)" by (simp add: lsecond_def)
  then have "60 dvd L'" by simp
  then show "rank L' < rank L" using rank_simps(3) [of L'] rank_simps(4) [OF nd] by linarith
qed

lemma lminute_Inl:
  assumes "wf_spec ss" "lmatchDay ss (lday L)" "mem (month_of (lday L)) (ss_month ss)" "lminute ss L = Inl L'"
  shows "rank L' < rank L" "\<not> 3600 dvd L"
proof -
  have "rank L' < rank L \<and> \<not> 3600 dvd L"
  proof (cases "nextSetBit (ss_min ss) (lmin L - 60 * lhour L) 59")
    case None
    then have L': "L' = 3600 * (lhour L + 1)" using assms(4) by (simp add: lminute_def)
    have nd: "\<not> 3600 dvd L"
      using None assms(1) wf_mask_next [of 59 "ss_min ss"] by (auto simp: wf_spec_def dvd_fields)
    with rank_simps(2) [of L'] rank_simps(5) [OF nd] L' show ?thesis by simp
  next
    case (Some mi)
    let ?L1 = "60 * (60 * lhour L + mi)"
    have "lday ?L1 = lday L"
      using next_minute_Some(1,2) [OF Some] field_nonneg(2) [of L] by (intro same_hour) auto
    then have "mi = lmin L - 60 * lhour L"
      using lsecond_Inl(2) [of ss ?L1 L'] assms Some by (auto simp: lminute_def split: if_splits)
    with Some assms lsecond_Inl [of ss L L'] dvd_chain(2) [of L] show ?thesis by (auto simp: lminute_def)
  qed
  then show "rank L' < rank L" "\<not> 3600 dvd L" by blast+
qed

definition nearer :: "int \<Rightarrow> int \<Rightarrow> bool" where
  "nearer L L' \<longleftrightarrow> rank L' = 0 \<and> lday L < lday L' \<or> rank L' < rank L"

lemma nearer_midnight: "lday L < n \<Longrightarrow> nearer L (86400 * n)"
  by (simp add: nearer_def rank_simps)

lemma nearer_tomorrow: "nearer L (86400 * (lday L + 1))"
  by (rule nearer_midnight) simp

lemma lhourly_Inl:
  assumes "wf_spec ss" "lmatchDay ss (lday L)" "mem (month_of (lday L)) (ss_month ss)" "lhourly ss L = Inl L'"
  shows "nearer L L'"
proof (cases "nextSetBit (ss_hour ss) (lhour L - 24 * lday L) 23")
  case None
  then show ?thesis using assms(4) nearer_tomorrow [of L] by (simp add: lhourly_def)
next
  case (Some h)
  let ?L1 = "3600 * (24 * lday L + h)"
  have "lday ?L1 = lday L"
    using next_hour_Some(1,2) [OF Some] field_nonneg(1) [of L] by (intro same_day) auto
  then have "h = lhour L - 24 * lday L"
    using lminute_Inl(2) [of ss ?L1 L'] assms Some by (auto simp: lhourly_def split: if_splits)
  with Some assms lminute_Inl [of ss L L'] show ?thesis by (auto simp: lhourly_def nearer_def)
qed

lemma ldaily_Inl:
  "wf_spec ss \<Longrightarrow> mem (month_of (lday L)) (ss_month ss) \<Longrightarrow> ldaily ss L = Inl L' \<Longrightarrow> nearer L L'"
  using nearer_tomorrow [of L] by (auto simp: ldaily_def intro: lhourly_Inl split: if_splits)

lemma lstep_Inl:
  assumes "wf_spec ss" "0 \<le> L" "lstep ss L = Inl L'"
  shows "nearer L L'"
proof (cases "nextSetBit (ss_month ss) (month_of (lday L)) 12")
  case None
  with assms year_of_bounds(2) [OF lday_nonneg [OF assms(2)]] show ?thesis
    by (auto simp: lstep_def intro: nearer_midnight)
next
  case (Some mo)
  note m = next_month_Some [OF Some] and n0 = lday_nonneg [OF assms(2)]
  have mo: "1 \<le> mo" using m(1) month_of_range [of "lday L"] by linarith
  let ?F = "day_number (year_of (lday L)) mo 1"
  note f = month_first [OF year_pos [OF n0] mo m(2)]
  show ?thesis
  proof (cases "mo = month_of (lday L)")
    case True
    with Some assms m(3) show ?thesis by (auto simp: lstep_def intro: ldaily_Inl)
  next
    case False
    then have F: "lday L < ?F" using month_of_ge [OF n0 mo m(2)] m(1) by auto
    have "nearer (86400 * ?F) L'"
      using False Some assms m(3) f by (intro ldaily_Inl [OF assms(1)]) (auto simp: lstep_def)
    with F show ?thesis by (auto simp: nearer_def rank_simps)
  qed
qed

lemma Next_loop_complete:
  assumes "3600 dvd off" "wf_spec ss" "0 \<le> L" "lfires ss M" "L \<le> M"
    "int (rank L) + (lday M - lday L) < int r" "year_of (lday M) \<le> my"
  shows "\<exists>R. Next_loop r (FixedZone off) ss my (inst off L) = inst off R \<and> lfires ss R \<and> L \<le> R \<and> quiet ss L R"
  using assms(3,5,6)
proof (induction r arbitrary: L)
  case 0
  then show ?case using clock_mono(1) [of L M] by simp
next
  case (Suc r)
  note g = good_lstep [OF Suc.prems(1), of ss]
  have y: "\<not> year_of (lday L) > my"
    using year_of_mono [OF lday_nonneg [OF Suc.prems(1)] clock_mono(1) [OF Suc.prems(2)]] assms(7) by simp
  show ?case
  proof (cases "lstep ss L")
    case (Inr R)
    with g y Suc.prems assms(1) show ?thesis
      by (auto simp: Next_loop_unfold Next_step_fixed good_step_def)
  next
    case (Inl L')
    with g have L': "L < L'" "quiet ss L L'" by (simp_all add: good_step_def)
    have "L' \<le> M" using L'(2) Suc.prems(2) assms(4) by (force simp: quiet_def)
    moreover have "int (rank L') + (lday M - lday L') < int r"
      using lstep_Inl [OF assms(2) Suc.prems(1) Inl] clock_mono(1) [of L L'] L'(1) Suc.prems(3)
      by (auto simp: nearer_def)
    ultimately obtain R where
      "Next_loop r (FixedZone off) ss my (inst off L') = inst off R" "lfires ss R" "L' \<le> R" "quiet ss L' R"
      using Suc.IH [of L'] L'(1) Suc.prems(1) by auto
    with L' Inl y Suc.prems assms(1) show ?thesis
      by (auto simp: Next_loop_unfold Next_step_fixed intro: quiet_trans)
  qed
qed


subsection \<open>Firing times as instants\<close>

text \<open>
  An instant is a firing time of a field schedule in a location when it is a whole second, its month
  is allowed, its day matches the day rules, and its hour, minute and second are allowed.
\<close>

definition fires :: "location \<Rightarrow> location specSchedule \<Rightarrow> gotime \<Rightarrow> bool" where
  "fires loc ss t \<longleftrightarrow>
     t mod time_Second = 0 \<and> bitMatch (ss_month ss) (Time_Month loc t) \<and> matchesDay loc ss t \<and>
     bitMatch (ss_hour ss) (Time_Hour loc t) \<and> bitMatch (ss_min ss) (Time_Minute loc t) \<and>
     bitMatch (ss_sec ss) (Time_Second loc t)"

lemma fires_inst: "fires (FixedZone off) ss (inst off L) \<longleftrightarrow> lfires ss L"
  by (auto simp: fires_def lfires_def bitMatch_mem) (simp add: inst_def time_Second_def)

lemma firesE:
  assumes "fires (FixedZone off) ss t"
  obtains L where "t = inst off L" "lfires ss L"
proof -
  from assms have "t mod 1000000000 = 0" by (simp add: fires_def time_Second_def)
  then have t: "t = inst off (t div 1000000000 + off)"
    using mult_div_mod_eq [of 1000000000 t] by (simp add: inst_def)
  with assms fires_inst [of off ss "t div 1000000000 + off"] have "lfires ss (t div 1000000000 + off)" by simp
  with t that show ?thesis by blast
qed

lemma inst_less [simp]: "inst off a < inst off b \<longleftrightarrow> a < b" "inst off a \<le> inst off b \<longleftrightarrow> a \<le> b"
  by (simp_all add: inst_def)

lemma start_inst:
  "time_trunc (from + time_Second) time_Second = inst off (from div 1000000000 + 1 + off)"
proof -
  have "from - from mod 1000000000 = 1000000000 * (from div 1000000000)"
    by (simp add: minus_mod_eq_mult_div)
  then show ?thesis by (simp add: time_trunc_def time_Second_def inst_def algebra_simps)
qed

lemma after_start: "from < inst off M \<longleftrightarrow> from div 1000000000 + 1 + off \<le> M"
proof -
  have "from < (M - off) * 1000000000 \<longleftrightarrow> from div 1000000000 < M - off"
    by (simp add: div_less_iff_mult)
  then show ?thesis unfolding inst_def by linarith
qed

lemma quiet_fires:
  assumes "quiet ss (from div 1000000000 + 1 + off) R" "from < u" "u < inst off R"
  shows "\<not> fires (FixedZone off) ss u"
proof
  assume "fires (FixedZone off) ss u"
  then obtain L where "u = inst off L" "lfires ss L" by (rule firesE)
  moreover from assms(2) \<open>u = inst off L\<close> have "from div 1000000000 + 1 + off \<le> L" by (simp only: after_start)
  ultimately show False using assms(1,3) by (simp add: quiet_def)
qed

lemma year_of_within:
  assumes "0 \<le> n" "n \<le> m" "m \<le> n + 1800"
  shows "year_of m \<le> year_of n + 5"
proof (rule ccontr)
  assume "\<not> year_of m \<le> year_of n + 5"
  then have "days_before_year (year_of n + 1 + 1 + 1 + 1 + 1 + 1) \<le> days_before_year (year_of m)"
    by (intro days_before_year_mono) simp
  then have "days_before_year (year_of n + 1) + 1825 \<le> days_before_year (year_of m)"
    using year_step [of "year_of n + 1"] year_step [of "year_of n + 1 + 1"] year_step [of "year_of n + 1 + 1 + 1"]
      year_step [of "year_of n + 1 + 1 + 1 + 1"] year_step [of "year_of n + 1 + 1 + 1 + 1 + 1"]
    by (auto split: if_splits)
  with year_of_bounds [OF assms(1)] year_of_bounds [of m] assms show False by linarith
qed

definition zone_of :: "location \<Rightarrow> location specSchedule \<Rightarrow> location" where
  "zone_of Local ss = (case ss_loc ss of None \<Rightarrow> Local | Some l \<Rightarrow> l)"

lemma spec_Next_fixed:
  "zone_of Local ss = FixedZone off \<Longrightarrow>
   spec_Next Local ss from =
     (let L = from div 1000000000 + 1 + off
      in Next_loop 1000 (FixedZone off) ss (year_of (lday L) + 5) (inst off L))"
  by (simp add: spec_Next_def zone_of_def start_inst [of "from" off] Let_def)

lemma Next_loop_stuck: "Next_step loc ss c = Inl c \<Longrightarrow> Next_loop r loc ss my c = 0"
  by (induction r) (simp_all add: Next_loop_unfold)

lemma spec_Next_sound:
  assumes "zone_of Local ss = FixedZone off" "3600 dvd off" "0 \<le> from + off * time_Second"
    and "spec_Next Local ss from \<noteq> 0"
  shows "\<exists>R. spec_Next Local ss from = inst off R \<and> from div 1000000000 + 1 + off \<le> R \<and> lfires ss R \<and>
    quiet ss (from div 1000000000 + 1 + off) R"
proof -
  let ?L = "from div 1000000000 + 1 + off"
  have "0 \<le> (from + off * 1000000000) div 1000000000"
    using assms(3) by (intro pos_imp_zdiv_nonneg_iff [THEN iffD2]) (simp_all add: time_Second_def)
  then have L: "0 \<le> ?L" by simp
  then show ?thesis
    using Next_loop_sound [OF assms(2) L refl] assms(4) unfolding spec_Next_fixed [OF assms(1)] Let_def
    by blast
qed

lemma spec_Next_later:
  assumes "zone_of Local ss = FixedZone off" "3600 dvd off" "0 \<le> from + off * time_Second"
  shows "spec_Next Local ss from = 0 \<or> from < spec_Next Local ss from"
proof (cases "spec_Next Local ss from = 0")
  case False
  from spec_Next_sound [OF assms this] show ?thesis by (metis after_start)
qed simp

lemma spec_Next_exact:
  assumes "zone_of Local ss = FixedZone off" "3600 dvd off" "0 \<le> from + off * time_Second"
    and "spec_Next Local ss from \<noteq> 0"
  shows "from < spec_Next Local ss from \<and> fires (FixedZone off) ss (spec_Next Local ss from) \<and>
    (\<forall>u. from < u \<and> u < spec_Next Local ss from \<longrightarrow> \<not> fires (FixedZone off) ss u)"
proof -
  obtain R where R: "spec_Next Local ss from = inst off R" "from div 1000000000 + 1 + off \<le> R" "lfires ss R"
      "quiet ss (from div 1000000000 + 1 + off) R"
    using spec_Next_sound [OF assms] by blast
  have "\<forall>u. from < u \<and> u < inst off R \<longrightarrow> \<not> fires (FixedZone off) ss u"
    using quiet_fires [OF R(4)] by blast
  then show ?thesis unfolding R(1) by (simp add: after_start R(2,3) fires_inst)
qed

lemma constantDelay_Next_later: "0 < d \<Longrightarrow> t < constantDelay_Next d t"
  using time_trunc_gt [of d t] by (auto simp: constantDelay_Next_def Let_def)

subsection \<open>Properties\<close>

text \<open>
  C1. In a zone with a fixed whole-hour offset (UTC among them), an activation time that
  \<^verbatim>\<open>specSchedule.Next\<close> returns is right: it lies after the given moment, every field of
  its wall clock is allowed by the schedule, and no firing time between the two is skipped.
\<close>

theorem spec_Next_least:
  assumes "zone_of Local ss = FixedZone off" "3600 dvd off" "0 \<le> from + off * time_Second"
    and "spec_Next Local ss from \<noteq> 0"
  shows "from < spec_Next Local ss from \<and> fires (FixedZone off) ss (spec_Next Local ss from) \<and>
    (\<forall>u. from < u \<and> u < spec_Next Local ss from \<longrightarrow> \<not> fires (FixedZone off) ss u)"
  by (rule spec_Next_exact [OF assms])

definition five_past :: "location \<Rightarrow> location specSchedule" where
  "five_past loc = \<lparr>ss_sec = 1, ss_min = bitFor 5, ss_hour = allBits 0 23, ss_dom = allBits 1 31,
     ss_month = allBits 1 12, ss_dow = allBits 0 7, ss_domStar = True, ss_dowStar = True,
     ss_loc = Some loc\<rparr>"

lemma wf_mask_bitFor: "0 \<le> lo \<Longrightarrow> lo \<le> v \<Longrightarrow> v \<le> hi \<Longrightarrow> hi < 60 \<Longrightarrow> wf_mask lo hi (bitFor v)"
  by (auto simp: wf_mask_def intro!: exI [of _ v])

lemma wf_five_past: "wf_spec (five_past loc)"
  by (simp add: wf_spec_def five_past_def wf_mask_consts wf_mask_bitFor)

text \<open>\<^verbatim>\<open>5 * * * *\<close> at 2024-01-15 10:10:00 fires next at 11:05:00.\<close>

lemma five_past_utc:
  "spec_Next (FixedZone 0) (five_past (FixedZone 0)) (Time_Date (FixedZone 0) 2024 1 15 10 10 0)
     = Time_Date (FixedZone 0) 2024 1 15 11 5 0"
  by code_simp

lemma zone_five_past: "zone_of Local (five_past loc) = loc"
  by (simp add: zone_of_def five_past_def)

theorem spec_Next_least_witness:
  "Time_Date (FixedZone 0) 2024 1 15 10 10 0 < Time_Date (FixedZone 0) 2024 1 15 11 5 0 \<and>
   fires (FixedZone 0) (five_past (FixedZone 0)) (Time_Date (FixedZone 0) 2024 1 15 11 5 0) \<and>
   \<not> fires (FixedZone 0) (five_past (FixedZone 0)) (Time_Date (FixedZone 0) 2024 1 15 10 30 0)"
proof -
  let ?f = "Time_Date (FixedZone 0) 2024 1 15 10 10 0" and ?u = "Time_Date (FixedZone 0) 2024 1 15 10 30 0"
  have "0 \<le> ?f + 0 * time_Second" "Time_Date (FixedZone 0) 2024 1 15 11 5 0 \<noteq> 0" "?f < ?u"
    "?u < Time_Date (FixedZone 0) 2024 1 15 11 5 0"
    by (simp_all add: Time_Date_fixed inst_def lmidnight_def day_number_def days_before_year_def days_before_month_def is_leap_def)
  then show ?thesis
    using spec_Next_least [OF zone_five_past dvd_0_right, of ?f "FixedZone 0"] by (simp add: five_past_utc)
qed

text \<open>
  C2. The search does not give up too early: in such a zone, if a well-formed schedule (any schedule
  the parser returns) has a firing time within the next 990 days, \<^verbatim>\<open>specSchedule.Next\<close>
  returns the first one, within its limits of 1000 rounds and five years.
\<close>

theorem spec_Next_finds:
  assumes "zone_of Local ss = FixedZone off" "3600 dvd off" "0 \<le> from + off * time_Second" "0 \<le> from"
    and "wf_spec ss" "fires (FixedZone off) ss u" "from < u" "u \<le> from + 990 * 24 * time_Hour"
  shows "spec_Next Local ss from \<noteq> 0 \<and> spec_Next Local ss from \<le> u \<and> from < spec_Next Local ss from \<and>
    fires (FixedZone off) ss (spec_Next Local ss from)"
proof -
  let ?L = "from div 1000000000 + 1 + off"
  have "0 \<le> (from + off * 1000000000) div 1000000000"
    using assms(3) by (intro pos_imp_zdiv_nonneg_iff [THEN iffD2]) (simp_all add: time_Second_def)
  then have L: "0 \<le> ?L" by simp
  from assms(6) obtain M where M: "u = inst off M" "lfires ss M" by (rule firesE)
  have LM: "?L \<le> M" using assms(7) unfolding M(1) after_start .
  have "M \<le> ?L + 990 * 86400"
    using assms(8) div_bounds [of 1000000000 "from"] unfolding M(1) inst_def time_defs by simp
  then have d: "lday M \<le> lday ?L + 991"
    using clock_lower(3) [of M] clock_lower(6) [of ?L] by linarith
  have "int (rank ?L) + (lday M - lday ?L) < int 1000" using d rank_simps(6) [of ?L] by simp
  moreover have "year_of (lday M) \<le> year_of (lday ?L) + 5"
    using d clock_mono(1) [OF LM] by (intro year_of_within lday_nonneg L) auto
  ultimately obtain R where R: "spec_Next Local ss from = inst off R" "?L \<le> R" "lfires ss R" "quiet ss ?L R"
    using Next_loop_complete [OF assms(2,5) L M(2) LM, of 1000] unfolding spec_Next_fixed [OF assms(1)] Let_def
    by blast
  have "R \<le> M" using R(4) M(2) LM by (force simp: quiet_def)
  moreover have "from < inst off R" using R(2) by (simp only: after_start)
  ultimately show ?thesis using R assms(4) M(1) by (simp add: fires_inst)
qed

theorem spec_Next_finds_witness:
  "spec_Next (FixedZone 0) (five_past (FixedZone 0)) (Time_Date (FixedZone 0) 2024 1 15 10 10 0) \<noteq> 0"
proof -
  let ?f = "Time_Date (FixedZone 0) 2024 1 15 10 10 0" and ?u = "Time_Date (FixedZone 0) 2024 1 15 11 5 0"
  have "0 \<le> ?f + 0 * time_Second" "0 \<le> ?f" "?f < ?u" "?u \<le> ?f + 990 * 24 * time_Hour"
    by (simp_all add: Time_Date_fixed inst_def lmidnight_def day_number_def days_before_year_def
        days_before_month_def is_leap_def time_defs)
  moreover have "fires (FixedZone 0) (five_past (FixedZone 0)) ?u" by code_simp
  ultimately show ?thesis
    using spec_Next_finds [OF zone_five_past dvd_0_right _ _ wf_five_past, of ?f ?u "FixedZone 0"] by blast
qed

text \<open>
  A schedule with a constant delay (\<^verbatim>\<open>@every\<close>) fires at the multiples of its period: the
  next activation is the first multiple strictly after the given moment, hence at most one period away.
\<close>

theorem constantDelay_Next_aligned:
  assumes "0 < d"
  shows "t < constantDelay_Next d t \<and> constantDelay_Next d t \<le> t + d \<and> d dvd constantDelay_Next d t"
  using time_trunc_le [OF assms, of t] time_trunc_gt [OF assms, of t] time_trunc_dvd [OF assms, of t]
  by (auto simp: constantDelay_Next_def Let_def)

theorem constantDelay_Next_aligned_witness:
  "(0::int) < 5 * time_Second \<and> 7 * time_Second < constantDelay_Next (5 * time_Second) (7 * time_Second) \<and>
   constantDelay_Next (5 * time_Second) (7 * time_Second) \<le> 7 * time_Second + 5 * time_Second \<and>
   5 * time_Second dvd constantDelay_Next (5 * time_Second) (7 * time_Second)"
  using constantDelay_Next_aligned [of "5 * time_Second" "7 * time_Second"] by (simp add: time_Second_def)


text \<open>
  A location with a change of offset: US Eastern time around 2024-11-03 06:00 UTC, when the wall clock
  is set back from 02:00 to 01:00.
\<close>

definition fallback :: int where
  "fallback = day_number 2024 11 3 * 86400 + 6 * 3600"

definition Eastern2024 :: location where
  "Eastern2024 = (\<lambda>s. if s < fallback then (- 14400, min_int, fallback) else (- 18000, fallback, max_int))"

definition quarter_to :: "location \<Rightarrow> location specSchedule" where
  "quarter_to loc = (five_past loc)\<lparr>ss_min := bitFor 45\<rparr>"

text \<open>
  Where the wall clock is set back, \<^verbatim>\<open>specSchedule.Next\<close> can return the very moment it was
  given: asked at 01:45 EDT for the run after it, \<^verbatim>\<open>45 * * * *\<close> searches on from 01:00 EST,
  builds 01:45 with \<^verbatim>\<open>time.Date\<close>, which picks the first of the two instants with that wall
  clock, and returns it.
\<close>

theorem fallback_returns_the_same_instant:
  "spec_Next Eastern2024 (quarter_to Eastern2024) (Time_Date Eastern2024 2024 11 3 1 45 0)
     = Time_Date Eastern2024 2024 11 3 1 45 0 \<and>
   Time_Date Eastern2024 2024 11 3 1 45 0 = (fallback - 900) * time_Second"
  by code_simp

end
