(* ===== verification/GoHeap.thy ===== *)
theory GoHeap
  imports Prelude "HOL-Library.Multiset"
begin

text \<open>
  Go's \<^verbatim>\<open>container/heap\<close> on a slice whose elements know their position, as
  \<^verbatim>\<open>entryHeap\<close> of \<^verbatim>\<open>pkg/cron/cron.go\<close> uses it: \<open>key\<close> gives what
  \<^verbatim>\<open>Less\<close> compares, \<open>hp\<close> is the slice and \<open>ix\<close> the \<^verbatim>\<open>index\<close> field
  that \<^verbatim>\<open>Swap\<close> and \<^verbatim>\<open>Push\<close> keep up to date.
\<close>

record 'a heap_state =
  hp :: "'a list"
  ix :: "'a \<Rightarrow> nat"

definition heap_Less :: "('a \<Rightarrow> 'k :: linorder) \<Rightarrow> 'a heap_state \<Rightarrow> nat \<Rightarrow> nat \<Rightarrow> bool" where
  "heap_Less key h i j \<longleftrightarrow> key (hp h ! i) < key (hp h ! j)"

definition heap_Swap :: "nat \<Rightarrow> nat \<Rightarrow> 'a heap_state \<Rightarrow> 'a heap_state" where
  "heap_Swap i j h =
     (let a = hp h ! i; b = hp h ! j
      in h\<lparr>hp := (hp h)[i := b, j := a], ix := (ix h)(b := i, a := j)\<rparr>)"

function heap_up :: "('a \<Rightarrow> 'k :: linorder) \<Rightarrow> nat \<Rightarrow> 'a heap_state \<Rightarrow> 'a heap_state" where
  "heap_up key j h =
     (let i = (j - 1) div 2 in
      if i = j \<or> \<not> heap_Less key h j i then h else heap_up key i (heap_Swap i j h))"
  by pat_completeness auto
termination by (relation "measure (\<lambda>(key, j, h). j)") auto

definition heap_child :: "('a \<Rightarrow> 'k :: linorder) \<Rightarrow> nat \<Rightarrow> nat \<Rightarrow> 'a heap_state \<Rightarrow> nat" where
  "heap_child key i n h =
     (if 2 * i + 2 < n \<and> heap_Less key h (2 * i + 2) (2 * i + 1) then 2 * i + 2 else 2 * i + 1)"

function heap_down :: "('a \<Rightarrow> 'k :: linorder) \<Rightarrow> nat \<Rightarrow> nat \<Rightarrow> 'a heap_state \<Rightarrow> 'a heap_state" where
  "heap_down key i n h =
     (if 2 * i + 1 \<ge> n \<or> \<not> heap_Less key h (heap_child key i n h) i then h
      else heap_down key (heap_child key i n h) n (heap_Swap i (heap_child key i n h) h))"
  by pat_completeness auto
termination by (relation "measure (\<lambda>(key, i, n, h). n - i)") (auto simp: heap_child_def)

declare heap_up.simps [simp del] heap_down.simps [simp del]

definition entry_Push :: "'a \<Rightarrow> 'a heap_state \<Rightarrow> 'a heap_state" where
  "entry_Push x h = h\<lparr>hp := hp h @ [x], ix := (ix h)(x := length (hp h))\<rparr>"

definition entry_Pop :: "'a heap_state \<Rightarrow> 'a \<times> 'a heap_state" where
  "entry_Pop h = (last (hp h), h\<lparr>hp := butlast (hp h)\<rparr>)"

definition heap_Push :: "('a \<Rightarrow> 'k :: linorder) \<Rightarrow> 'a \<Rightarrow> 'a heap_state \<Rightarrow> 'a heap_state" where
  "heap_Push key x h = (let h = entry_Push x h in heap_up key (length (hp h) - 1) h)"

text \<open>\<^verbatim>\<open>heap.Pop\<close> and \<^verbatim>\<open>heap.Remove\<close> are called on a non-empty heap and an index inside it.\<close>

definition heap_Pop :: "('a \<Rightarrow> 'k :: linorder) \<Rightarrow> 'a heap_state \<Rightarrow> 'a \<times> 'a heap_state" where
  "heap_Pop key h =
     (let n = length (hp h) - 1 in entry_Pop (heap_down key 0 n (heap_Swap 0 n h)))"

text \<open>\<^verbatim>\<open>down\<close> reports whether it moved the element: its position then lies below \<open>i\<close>.\<close>

definition down_moved :: "('a \<Rightarrow> 'k :: linorder) \<Rightarrow> nat \<Rightarrow> nat \<Rightarrow> 'a heap_state \<Rightarrow> bool" where
  "down_moved key i n h \<longleftrightarrow> 2 * i + 1 < n \<and> heap_Less key h (heap_child key i n h) i"

definition heap_Remove :: "('a \<Rightarrow> 'k :: linorder) \<Rightarrow> nat \<Rightarrow> 'a heap_state \<Rightarrow> 'a \<times> 'a heap_state" where
  "heap_Remove key i h =
     (let n = length (hp h) - 1 in
      entry_Pop
        (if n \<noteq> i then
           let h = heap_Swap i n h
           in if down_moved key i n h then heap_down key i n h else heap_up key i h
         else h))"

subsection \<open>Invariants\<close>

definition ix_ok :: "'a heap_state \<Rightarrow> bool" where
  "ix_ok h \<longleftrightarrow> (\<forall>i<length (hp h). ix h (hp h ! i) = i)"

definition heap_upto :: "('a \<Rightarrow> 'k :: linorder) \<Rightarrow> nat \<Rightarrow> 'a list \<Rightarrow> bool" where
  "heap_upto key n xs \<longleftrightarrow> (\<forall>k. 0 < k \<and> k < n \<longrightarrow> key (xs ! ((k - 1) div 2)) \<le> key (xs ! k))"

text \<open>The heap order except around position \<open>i\<close>, whose children are still above its parent.\<close>

definition hole_at :: "('a \<Rightarrow> 'k :: linorder) \<Rightarrow> nat \<Rightarrow> nat \<Rightarrow> 'a list \<Rightarrow> bool" where
  "hole_at key i n xs \<longleftrightarrow>
     (\<forall>k. 0 < k \<and> k < n \<and> k \<noteq> i \<and> (k - 1) div 2 \<noteq> i \<longrightarrow> key (xs ! ((k - 1) div 2)) \<le> key (xs ! k)) \<and>
     (\<forall>k. 0 < k \<and> k < n \<and> (k - 1) div 2 = i \<and> 0 < i \<longrightarrow> key (xs ! ((i - 1) div 2)) \<le> key (xs ! k))"

definition above_ok :: "('a \<Rightarrow> 'k :: linorder) \<Rightarrow> nat \<Rightarrow> 'a list \<Rightarrow> bool" where
  "above_ok key i xs \<longleftrightarrow> (0 < i \<longrightarrow> key (xs ! ((i - 1) div 2)) \<le> key (xs ! i))"

definition below_ok :: "('a \<Rightarrow> 'k :: linorder) \<Rightarrow> nat \<Rightarrow> nat \<Rightarrow> 'a list \<Rightarrow> bool" where
  "below_ok key i n xs \<longleftrightarrow> (\<forall>k. 0 < k \<and> k < n \<and> (k - 1) div 2 = i \<longrightarrow> key (xs ! i) \<le> key (xs ! k))"

lemma parent_less [simp]: "k < n \<Longrightarrow> (k - Suc 0) div 2 < n"
  by linarith

lemma hole_filled:
  assumes "hole_at key i n xs" "above_ok key i xs" "below_ok key i n xs"
  shows "heap_upto key n xs"
  unfolding heap_upto_def
proof (intro allI impI)
  fix k assume k: "0 < k \<and> k < n"
  show "key (xs ! ((k - 1) div 2)) \<le> key (xs ! k)"
  proof (cases "k = i \<or> (k - 1) div 2 = i")
    case True
    with assms(2,3) k show ?thesis by (auto simp: above_ok_def below_ok_def)
  next
    case False
    with assms(1) k show ?thesis by (simp add: hole_at_def)
  qed
qed

lemma ix_ok_inj: "ix_ok h \<Longrightarrow> i < length (hp h) \<Longrightarrow> j < length (hp h) \<Longrightarrow> hp h ! i = hp h ! j \<Longrightarrow> i = j"
  unfolding ix_ok_def by metis

lemma ix_ok_distinct: "ix_ok h \<Longrightarrow> distinct (hp h)"
  by (auto simp: distinct_conv_nth dest: ix_ok_inj)

lemma swap_hp [simp]: "hp (heap_Swap i j h) = (hp h)[i := hp h ! j, j := hp h ! i]"
  by (simp add: heap_Swap_def Let_def)

lemma swap_ix_ok:
  assumes "ix_ok h" "i < length (hp h)" "j < length (hp h)"
  shows "ix_ok (heap_Swap i j h)"
  using assms ix_ok_inj [OF assms(1)]
  by (auto simp: ix_ok_def heap_Swap_def Let_def nth_list_update split: if_splits)

lemma swap_mset: "i < length (hp h) \<Longrightarrow> j < length (hp h) \<Longrightarrow> mset (hp (heap_Swap i j h)) = mset (hp h)"
  by (simp add: mset_swap)

lemma up_stop: "(j - 1) div 2 = j \<or> \<not> heap_Less key h j ((j - 1) div 2) \<Longrightarrow> heap_up key j h = h"
  by (simp add: heap_up.simps [of key j h] Let_def)

lemma up_go:
  "\<not> ((j - 1) div 2 = j \<or> \<not> heap_Less key h j ((j - 1) div 2)) \<Longrightarrow>
   heap_up key j h = heap_up key ((j - 1) div 2) (heap_Swap ((j - 1) div 2) j h)"
  by (simp add: heap_up.simps [of key j h] Let_def)

lemma down_stop: "\<not> down_moved key i n h \<Longrightarrow> heap_down key i n h = h"
  by (subst heap_down.simps) (auto simp: down_moved_def)

lemma down_go:
  "down_moved key i n h \<Longrightarrow>
   heap_down key i n h = heap_down key (heap_child key i n h) n (heap_Swap i (heap_child key i n h) h)"
  by (subst heap_down.simps) (auto simp: down_moved_def)

lemma child_cases:
  assumes "2 * i + 1 < n"
  shows "heap_child key i n h < n" "i < heap_child key i n h" "0 < heap_child key i n h"
    "(heap_child key i n h - 1) div 2 = i"
  using assms by (auto simp: heap_child_def)

lemma child_least:
  assumes "0 < k" "k < n" "(k - 1) div 2 = i"
  shows "key (hp h ! heap_child key i n h) \<le> key (hp h ! k)"
proof -
  have "k = 2 * i + 1 \<or> k = 2 * i + 2" using assms by linarith
  with assms(2) show ?thesis by (auto simp: heap_child_def heap_Less_def)
qed

lemma up_preserves:
  assumes "j < length (hp h)"
  shows "mset (hp (heap_up key j h)) = mset (hp h)" "length (hp (heap_up key j h)) = length (hp h)"
    "ix_ok h \<Longrightarrow> ix_ok (heap_up key j h)"
proof -
  have "mset (hp (heap_up key j h)) = mset (hp h) \<and> (ix_ok h \<longrightarrow> ix_ok (heap_up key j h))"
    using assms
  proof (induction key j h rule: heap_up.induct)
    case (1 key j h)
    let ?i = "(j - 1) div 2"
    show ?case
    proof (cases "?i = j \<or> \<not> heap_Less key h j ?i")
      case True
      then show ?thesis by (simp add: up_stop)
    next
      case False
      have i: "?i < length (hp h)" using "1.prems" by linarith
      show ?thesis
        using "1.IH" [OF refl False] i "1.prems" swap_mset [OF i "1.prems"] swap_ix_ok [OF _ i "1.prems"]
        by (simp add: up_go [OF False])
    qed
  qed
  then show "mset (hp (heap_up key j h)) = mset (hp h)" "ix_ok h \<Longrightarrow> ix_ok (heap_up key j h)" by auto
  then show "length (hp (heap_up key j h)) = length (hp h)" by (metis size_mset)
qed

lemma down_preserves:
  assumes "n \<le> length (hp h)"
  shows "mset (hp (heap_down key i n h)) = mset (hp h)" "length (hp (heap_down key i n h)) = length (hp h)"
    "ix_ok h \<Longrightarrow> ix_ok (heap_down key i n h)" "drop n (hp (heap_down key i n h)) = drop n (hp h)"
proof -
  have "mset (hp (heap_down key i n h)) = mset (hp h) \<and> (ix_ok h \<longrightarrow> ix_ok (heap_down key i n h)) \<and>
        drop n (hp (heap_down key i n h)) = drop n (hp h)"
    using assms
  proof (induction key i n h rule: heap_down.induct)
    case (1 key i n h)
    show ?case
    proof (cases "down_moved key i n h")
      case False
      then show ?thesis by (simp add: down_stop)
    next
      case True
      let ?c = "heap_child key i n h"
      have m: "2 * i + 1 < n" "\<not> (n \<le> 2 * i + 1 \<or> \<not> heap_Less key h ?c i)"
        using True by (auto simp: down_moved_def)
      note c = child_cases [OF m(1), of key h]
      have l: "i < length (hp h)" "?c < length (hp h)" using c m "1.prems" by linarith+
      show ?thesis
        using "1.IH" [OF m(2)] "1.prems" c m swap_mset [OF l] swap_ix_ok [OF _ l]
        by (simp add: down_go [OF True] drop_update_cancel)
    qed
  qed
  then show "mset (hp (heap_down key i n h)) = mset (hp h)" "ix_ok h \<Longrightarrow> ix_ok (heap_down key i n h)"
    "drop n (hp (heap_down key i n h)) = drop n (hp h)" by auto
  then show "length (hp (heap_down key i n h)) = length (hp h)" by (metis size_mset)
qed

subsection \<open>Sifting restores the heap order\<close>

lemma swap_nth:
  "i < length xs \<Longrightarrow> j < length xs \<Longrightarrow>
   xs[i := xs ! j, j := xs ! i] ! k = (if k = j then xs ! i else if k = i then xs ! j else xs ! k)"
  by (auto simp: nth_list_update)

lemma up_step:
  assumes "hole_at key j n xs" "below_ok key j n xs" "0 < j" "j < n" "n \<le> length xs"
    "key (xs ! j) < key (xs ! ((j - 1) div 2))"
  defines "i \<equiv> (j - 1) div 2"
  shows "hole_at key i n (xs[i := xs ! j, j := xs ! i])" "below_ok key i n (xs[i := xs ! j, j := xs ! i])"
proof -
  let ?xs = "xs[i := xs ! j, j := xs ! i]"
  have ij: "i < j" "i < length xs" "j < length xs" using assms by (auto simp: i_def)
  note nth = swap_nth [OF ij(2,3)]
  have e: "key (xs ! ((k - 1) div 2)) \<le> key (xs ! k)" if "0 < k" "k < n" "k \<noteq> j" "(k - 1) div 2 \<noteq> j" for k
    using assms(1) that by (simp add: hole_at_def)
  have g: "key (xs ! i) \<le> key (xs ! k)" if "0 < k" "k < n" "(k - 1) div 2 = j" for k
    using assms(1,3) that by (simp add: hole_at_def i_def)
  have sib: "key (xs ! i) \<le> key (xs ! k)" if "0 < k" "k < n" "(k - 1) div 2 = i" "k \<noteq> j" for k
    using e [of k] that ij(1) by simp
  show "below_ok key i n ?xs"
    unfolding below_ok_def
  proof (intro allI impI)
    fix k assume k: "0 < k \<and> k < n \<and> (k - 1) div 2 = i"
    show "key (?xs ! i) \<le> key (?xs ! k)"
    proof (cases "k = j")
      case True
      with assms(6) [folded i_def] ij(1) show ?thesis by (simp add: nth)
    next
      case False
      then have "k \<noteq> i" "key (xs ! i) \<le> key (xs ! k)" using k sib [of k] by auto
      with False assms(6) [folded i_def] ij(1) show ?thesis by (simp add: nth)
    qed
  qed
  have 1: "key (?xs ! ((k - 1) div 2)) \<le> key (?xs ! k)" if k: "0 < k" "k < n" "k \<noteq> i" "(k - 1) div 2 \<noteq> i" for k
  proof -
    have "k \<noteq> j" using k by (auto simp: i_def)
    then show ?thesis using k e [of k] g [of k] by (auto simp: nth)
  qed
  have 2: "key (?xs ! ((i - 1) div 2)) \<le> key (?xs ! k)" if k: "0 < k" "k < n" "(k - 1) div 2 = i" "0 < i" for k
  proof -
    have p: "(i - 1) div 2 \<noteq> i" "(i - 1) div 2 \<noteq> j" using k(4) ij(1) by linarith+
    have "key (xs ! ((i - 1) div 2)) \<le> key (xs ! i)" using e [of i] k(4) ij assms(4) p by simp
    then show ?thesis using sib [of k] k p ij(1) by (auto simp: nth)
  qed
  show "hole_at key i n ?xs" unfolding hole_at_def using 1 2 by blast
qed

lemma up_heap:
  "hole_at key j n (hp h) \<Longrightarrow> below_ok key j n (hp h) \<Longrightarrow> j < n \<Longrightarrow> n \<le> length (hp h) \<Longrightarrow>
   heap_upto key n (hp (heap_up key j h)) \<and> drop n (hp (heap_up key j h)) = drop n (hp h)"
proof (induction key j h rule: heap_up.induct)
  case (1 key j h)
  let ?i = "(j - 1) div 2"
  show ?case
  proof (cases "?i = j \<or> \<not> heap_Less key h j ?i")
    case True
    then have "above_ok key j (hp h)" by (auto simp: above_ok_def heap_Less_def)
    with 1 True show ?thesis by (simp add: up_stop hole_filled)
  next
    case False
    then have j: "0 < j" "key (hp h ! j) < key (hp h ! ?i)" by (auto simp: heap_Less_def intro: Nat.gr0I)
    from up_step [OF "1.prems"(1,2) j(1) "1.prems"(3,4) j(2)] "1.IH" [OF refl False] "1.prems" j
    show ?thesis by (simp add: up_go [OF False] drop_update_cancel)
  qed
qed

lemma down_step:
  assumes "hole_at key i n (hp h)" "down_moved key i n h" "n \<le> length (hp h)"
  defines "c \<equiv> heap_child key i n h"
  shows "hole_at key c n (hp (heap_Swap i c h))" "above_ok key c (hp (heap_Swap i c h))"
proof -
  let ?xs = "hp h"
  have m: "2 * i + 1 < n" "key (?xs ! c) < key (?xs ! i)"
    using assms(2) by (auto simp: down_moved_def heap_Less_def c_def)
  have c: "c < n" "i < c" "0 < c" "(c - 1) div 2 = i" using child_cases [OF m(1)] by (auto simp: c_def)
  have l: "i < length ?xs" "c < length ?xs" using c assms(3) by linarith+
  note nth = swap_nth [OF l]
  have e: "key (?xs ! ((k - 1) div 2)) \<le> key (?xs ! k)" if "0 < k" "k < n" "k \<noteq> i" "(k - 1) div 2 \<noteq> i" for k
    using assms(1) that by (simp add: hole_at_def)
  have g: "key (?xs ! ((i - 1) div 2)) \<le> key (?xs ! c)" if "0 < i"
    using assms(1) that c by (simp add: hole_at_def)
  have lst: "key (?xs ! c) \<le> key (?xs ! k)" if "0 < k" "k < n" "(k - 1) div 2 = i" for k
    unfolding c_def using that by (rule child_least)
  show "above_ok key c (hp (heap_Swap i c h))"
    using m c by (simp add: above_ok_def nth)
  have 1: "key (hp (heap_Swap i c h) ! ((k - 1) div 2)) \<le> key (hp (heap_Swap i c h) ! k)"
    if k: "0 < k" "k < n" "k \<noteq> c" "(k - 1) div 2 \<noteq> c" for k
  proof (cases "k = i")
    case True
    have "(i - 1) div 2 < i" using k True by linarith
    then show ?thesis using True g k c by (simp add: nth)
  next
    case False
    then show ?thesis using e [of k] lst [of k] k c by (auto simp: nth)
  qed
  have 2: "key (hp (heap_Swap i c h) ! ((c - 1) div 2)) \<le> key (hp (heap_Swap i c h) ! k)"
    if k: "0 < k" "k < n" "(k - 1) div 2 = c" for k
  proof -
    have "c < k" using k by linarith
    then show ?thesis using e [of k] k c by (simp add: nth)
  qed
  show "hole_at key c n (hp (heap_Swap i c h))" unfolding hole_at_def using 1 2 by blast
qed

lemma not_moved_below:
  assumes "\<not> down_moved key i n h"
  shows "below_ok key i n (hp h)"
  unfolding below_ok_def
proof (intro allI impI)
  fix k assume k: "0 < k \<and> k < n \<and> (k - 1) div 2 = i"
  then have "2 * i + 1 < n" by linarith
  with assms have "key (hp h ! i) \<le> key (hp h ! heap_child key i n h)"
    by (auto simp: down_moved_def heap_Less_def)
  with child_least [of k n i key h] k show "key (hp h ! i) \<le> key (hp h ! k)" by auto
qed

lemma down_heap:
  "hole_at key i n (hp h) \<Longrightarrow> above_ok key i (hp h) \<or> down_moved key i n h \<Longrightarrow> n \<le> length (hp h) \<Longrightarrow>
   heap_upto key n (hp (heap_down key i n h))"
proof (induction key i n h rule: heap_down.induct)
  case (1 key i n h)
  show ?case
  proof (cases "down_moved key i n h")
    case False
    with 1 show ?thesis by (auto simp: down_stop intro: hole_filled not_moved_below)
  next
    case True
    then have "\<not> (n \<le> 2 * i + 1 \<or> \<not> heap_Less key h (heap_child key i n h) i)"
      by (auto simp: down_moved_def)
    from "1.IH" [OF this] down_step [OF "1.prems"(1) True "1.prems"(3)] "1.prems"(3) show ?thesis
      by (simp add: down_go [OF True])
  qed
qed

subsection \<open>The three operations\<close>

definition heap_ok :: "('a \<Rightarrow> 'k :: linorder) \<Rightarrow> 'a heap_state \<Rightarrow> bool" where
  "heap_ok key h \<longleftrightarrow> ix_ok h \<and> heap_upto key (length (hp h)) (hp h)"

lemma heap_root_least: "heap_upto key n xs \<Longrightarrow> k < n \<Longrightarrow> key (xs ! 0) \<le> key (xs ! k)"
proof (induction k rule: less_induct)
  case (less k)
  show ?case
  proof (cases "k = 0")
    case False
    then have "key (xs ! 0) \<le> key (xs ! ((k - 1) div 2))" using less by (intro less.IH) auto
    also have "\<dots> \<le> key (xs ! k)" using less.prems False by (simp add: heap_upto_def)
    finally show ?thesis .
  qed simp
qed

lemma heap_min: "heap_ok key h \<Longrightarrow> x \<in> set (hp h) \<Longrightarrow> key (hp h ! 0) \<le> key x"
  by (auto simp: heap_ok_def in_set_conv_nth intro: heap_root_least)

lemma heap_Push_ok:
  assumes "heap_ok key h" "x \<notin> set (hp h)"
  shows "heap_ok key (heap_Push key x h)" "mset (hp (heap_Push key x h)) = add_mset x (mset (hp h))"
proof -
  let ?h = "entry_Push x h" and ?n = "length (hp h)"
  have l: "length (hp ?h) = Suc ?n" by (simp add: entry_Push_def)
  have ixo: "ix_ok ?h"
    using assms by (auto simp: heap_ok_def ix_ok_def entry_Push_def nth_append less_Suc_eq)
  have "key (hp ?h ! ((k - 1) div 2)) \<le> key (hp ?h ! k)" if "0 < k" "k < ?n" for k
    using assms(1) that by (simp add: heap_ok_def heap_upto_def entry_Push_def nth_append)
  moreover have leaf: "(k - 1) div 2 \<noteq> ?n" if "0 < k" "k < Suc ?n" for k using that by linarith
  ultimately have hole: "hole_at key ?n (Suc ?n) (hp ?h)" unfolding hole_at_def by (metis less_SucE)
  have "below_ok key ?n (Suc ?n) (hp ?h)" using leaf by (auto simp: below_ok_def)
  from up_heap [OF hole this] l have "heap_upto key (Suc ?n) (hp (heap_up key ?n ?h))" by simp
  with up_preserves [of ?n ?h key] ixo l
  show "heap_ok key (heap_Push key x h)" by (simp add: heap_Push_def heap_ok_def Let_def)
  show "mset (hp (heap_Push key x h)) = add_mset x (mset (hp h))"
    using up_preserves(1) [of ?n ?h key] l by (simp add: heap_Push_def Let_def entry_Push_def)
qed

text \<open>Dropping the last element of a slice whose first \<open>n\<close> elements are in heap order.\<close>

lemma entry_Pop_ok:
  assumes "length (hp h) = Suc n" "ix_ok h" "heap_upto key n (hp h)" "drop n (hp h) = [x]" "entry_Pop h = (y, h')"
  shows "y = x \<and> heap_ok key h' \<and> mset (hp h) = add_mset x (mset (hp h'))"
proof -
  have hp: "hp h = take n (hp h) @ [x]" using assms(4) by (metis append_take_drop_id)
  have h': "hp h' = take n (hp h)" "ix h' = ix h" "y = last (hp h)"
    using assms(1,5) by (auto simp: entry_Pop_def butlast_conv_take)
  have "y = x" using h'(3) hp by (metis last_snoc)
  moreover have "heap_ok key h'"
    using assms(1-3) h' by (simp add: heap_ok_def ix_ok_def heap_upto_def)
  moreover have "mset (hp h) = add_mset x (mset (hp h'))" by (subst hp) (simp add: h')
  ultimately show ?thesis by blast
qed

lemma hole_after_swap:
  assumes "heap_upto key (Suc n) xs" "length xs = Suc n" "i < n"
  shows "hole_at key i n (xs[i := xs ! n, n := xs ! i])"
proof -
  have nth: "xs[i := xs ! n, n := xs ! i] ! k = (if k = n then xs ! i else if k = i then xs ! n else xs ! k)" for k
    using assms by (intro swap_nth) auto
  have e: "key (xs ! ((k - 1) div 2)) \<le> key (xs ! k)" if "0 < k" "k < n" for k
    using assms(1) that by (simp add: heap_upto_def)
  have p: "(k - 1) div 2 < n" if "k < n" for k using that by linarith
  have q: "(i - 1) div 2 \<noteq> i" if "0 < i" using that by linarith
  show ?thesis
    unfolding hole_at_def nth using e p q assms(3) by (auto dest: order.trans)
qed

lemma heap_Remove_ok:
  assumes "heap_ok key h" "i < length (hp h)" "heap_Remove key i h = (y, h')"
  shows "y = hp h ! i \<and> heap_ok key h' \<and> mset (hp h) = add_mset y (mset (hp h'))"
proof -
  define n where "n = length (hp h) - 1"
  have n: "length (hp h) = Suc n" using assms(2) by (simp add: n_def)
  have io: "ix_ok h" and ho: "heap_upto key (Suc n) (hp h)" using assms(1) n by (auto simp: heap_ok_def)
  show ?thesis
  proof (cases "n = i")
    case True
    have "drop n (hp h) = [hp h ! i]" using n True by (metis Cons_nth_drop_Suc assms(2) drop_all order_refl)
    from entry_Pop_ok [OF n io _ this, of key] ho assms(3) True show ?thesis
      by (simp add: heap_Remove_def heap_upto_def n)
  next
    case False
    let ?s = "heap_Swap i n h"
    have i: "i < n" using False assms(2) n by linarith
    have s: "length (hp ?s) = Suc n" "ix_ok ?s" "mset (hp ?s) = mset (hp h)" "drop n (hp ?s) = [hp h ! i]"
      using n i io swap_ix_ok [OF io, of i n] swap_mset [of i h n]
      by (auto simp: Cons_nth_drop_Suc [symmetric])
    have hole: "hole_at key i n (hp ?s)" using hole_after_swap [OF ho n i] by simp
    define t where "t = (if down_moved key i n ?s then heap_down key i n ?s else heap_up key i ?s)"
    have "length (hp t) = Suc n \<and> ix_ok t \<and> mset (hp t) = mset (hp h) \<and> drop n (hp t) = [hp h ! i] \<and> heap_upto key n (hp t)"
    proof (cases "down_moved key i n ?s")
      case True
      then show ?thesis using down_preserves [of n ?s key i] down_heap [OF hole] s by (simp add: t_def)
    next
      case nm: False
      then show ?thesis
        using up_preserves [of i ?s key] up_heap [OF hole not_moved_below [OF nm] i] s i by (simp add: t_def)
    qed
    moreover have "entry_Pop t = (y, h')" using assms(3) False by (simp add: heap_Remove_def n t_def Let_def)
    ultimately show ?thesis using entry_Pop_ok [of t n key "hp h ! i" y h'] by auto
  qed
qed

lemma heap_Pop_ok:
  assumes "heap_ok key h" "hp h \<noteq> []" "heap_Pop key h = (y, h')"
  shows "y = hp h ! 0 \<and> heap_ok key h' \<and> mset (hp h) = add_mset y (mset (hp h'))"
proof -
  define n where "n = length (hp h) - 1"
  have n: "length (hp h) = Suc n" using assms(2) by (simp add: n_def)
  have io: "ix_ok h" and ho: "heap_upto key (Suc n) (hp h)" using assms(1) n by (auto simp: heap_ok_def)
  let ?s = "heap_Swap 0 n h"
  have s: "length (hp ?s) = Suc n" "ix_ok ?s" "mset (hp ?s) = mset (hp h)" "drop n (hp ?s) = [hp h ! 0]"
    using n io swap_ix_ok [OF io, of 0 n] swap_mset [of 0 h n]
    by (auto simp: Cons_nth_drop_Suc [symmetric])
  have "heap_upto key n (hp (heap_down key 0 n ?s))"
  proof (cases "n = 0")
    case False
    then show ?thesis using hole_after_swap [OF ho n, of 0] s
      by (intro down_heap) (auto simp: above_ok_def)
  qed (simp add: heap_upto_def)
  moreover have "entry_Pop (heap_down key 0 n ?s) = (y, h')"
    using assms(3) by (simp add: heap_Pop_def n Let_def)
  ultimately show ?thesis
    using entry_Pop_ok [of "heap_down key 0 n ?s" n key "hp h ! 0" y h'] down_preserves [of n ?s key 0] s by simp
qed

end
