(* ===== verification/Crontab.thy ===== *)
theory Crontab
  imports CronNext GoHeap
begin

text \<open>
  The cron manager, \<^verbatim>\<open>pkg/cron/cron.go\<close>: entries by ID, a min-heap of them by next fire
  time, a timer, and the loop that runs what is due. An \<^verbatim>\<open>*Entry\<close> is named by its ID (at
  most one entry with a given ID is live: \<^verbatim>\<open>Add\<close> removes the old one first); its
  \<^verbatim>\<open>index\<close> field is the \<open>ix\<close> of the heap. Every method holds the mutex from start to end,
  so the methods are functions on the state; \<^verbatim>\<open>time.Now()\<close> is an argument. The goroutines
  of the worker pool and the channel sends of the dispatch are represented by \<open>dispatch\<close>, whose
  environment says for each send whether the queue had room, whether a stop was signalled and which
  of two ready cases \<^verbatim>\<open>select\<close> picked.
\<close>

record ('s, 'j) Entry =
  en_sched :: 's
  en_job :: 'j
  en_next :: gotime

datatype timer = NoTimer | StoppedTimer | Armed gotime

record ('s, 'j) Crontab =
  entries :: "int \<rightharpoonup> ('s, 'j) Entry"
  cheap :: "int heap_state"
  ctimer :: timer
  cwake :: bool
  cdone :: bool
  running :: bool
  workerSize :: int

datatype COption = WithWorkerSize int | WithContext | WithLogger

fun apply_option :: "COption \<Rightarrow> int \<Rightarrow> int" where
  "apply_option (WithWorkerSize n) w = n"
| "apply_option _ w = w"

definition next_key :: "(int \<rightharpoonup> ('s, 'j) Entry) \<Rightarrow> int \<Rightarrow> gotime" where
  "next_key es i = (case es i of None \<Rightarrow> 0 | Some e \<Rightarrow> en_next e)"

text \<open>\<open>rescheduleTimer\<close>: arm the timer for the root of the heap and leave a token in \<^verbatim>\<open>wake\<close>.\<close>

definition rescheduleTimer :: "gotime \<Rightarrow> ('s, 'j) Crontab \<Rightarrow> ('s, 'j) Crontab" where
  "rescheduleTimer now c =
     (if \<not> running c then c
      else case hp (cheap c) of
        [] \<Rightarrow> (case ctimer c of NoTimer \<Rightarrow> c | _ \<Rightarrow> c\<lparr>ctimer := StoppedTimer\<rparr>)
      | r # _ \<Rightarrow>
          c\<lparr>ctimer := Armed (now + max (time_sub (next_key (entries c) r) now) 0), cwake := True\<rparr>)"

definition start :: "gotime \<Rightarrow> ('s, 'j) Crontab \<Rightarrow> ('s, 'j) Crontab" where
  "start now c = (if running c then c else rescheduleTimer now (c\<lparr>running := True\<rparr>))"

definition New_Crontab :: "gotime \<Rightarrow> COption list \<Rightarrow> ('s, 'j) Crontab" where
  "New_Crontab now opts =
     start now
       \<lparr>entries = Map.empty, cheap = \<lparr>hp = [], ix = (\<lambda>_. 0)\<rparr>, ctimer = NoTimer, cwake = False,
        cdone = False, running = False, workerSize = max (fold apply_option opts 16) 1\<rparr>"

definition removeJob :: "int \<Rightarrow> ('s, 'j) Crontab \<Rightarrow> ('s, 'j) Crontab" where
  "removeJob eid c =
     (case entries c eid of
        None \<Rightarrow> c
      | Some e \<Rightarrow>
          c\<lparr>entries := (entries c)(eid := None),
            cheap := snd (heap_Remove (next_key (entries c)) (ix (cheap c) eid) (cheap c))\<rparr>)"

datatype cron_op_error = AlreadyStopped

definition Crontab_Add ::
  "('s \<Rightarrow> gotime \<Rightarrow> gotime) \<Rightarrow> gotime \<Rightarrow> gotime \<Rightarrow> int \<Rightarrow> 's \<Rightarrow> 'j \<Rightarrow> ('s, 'j) Crontab \<Rightarrow>
   cron_op_error + ('s, 'j) Crontab" where
  "Crontab_Add Next now now' eid sched job c =
     (if \<not> running c then Inl AlreadyStopped
      else
        let c = (if entries c eid \<noteq> None then removeJob eid c else c);
            e = \<lparr>en_sched = sched, en_job = job, en_next = Next sched now\<rparr>;
            es = (entries c)(eid \<mapsto> e);
            c = c\<lparr>entries := es, cheap := heap_Push (next_key es) eid (cheap c)\<rparr>
        in Inr (rescheduleTimer now' c))"

definition Crontab_Remove :: "gotime \<Rightarrow> int \<Rightarrow> ('s, 'j) Crontab \<Rightarrow> ('s, 'j) Crontab" where
  "Crontab_Remove now eid c = rescheduleTimer now (removeJob eid c)"

text \<open>
  One round of the loop of \<^verbatim>\<open>runDueJobs\<close> on a non-empty heap whose root \<open>r\<close> is due. The
  loop itself has no bound in the code: \<open>due_loop\<close> returns \<open>None\<close> when it is still running after
  \<open>fuel\<close> rounds.
\<close>

definition run_root ::
  "('s \<Rightarrow> gotime \<Rightarrow> gotime) \<Rightarrow> gotime \<Rightarrow> int \<Rightarrow> ('s, 'j) Entry \<Rightarrow> ('s, 'j) Crontab \<Rightarrow> ('s, 'j) Crontab" where
  "run_root Next now r e c =
     (let h = snd (heap_Pop (next_key (entries c)) (cheap c));
          n = Next (en_sched e) now
      in if n \<noteq> 0 then
           let es = (entries c)(r \<mapsto> e\<lparr>en_next := n\<rparr>)
           in c\<lparr>entries := es, cheap := heap_Push (next_key es) r h\<rparr>
         else c\<lparr>entries := (entries c)(r := None), cheap := h\<rparr>)"

fun due_loop ::
  "('s \<Rightarrow> gotime \<Rightarrow> gotime) \<Rightarrow> gotime \<Rightarrow> nat \<Rightarrow> ('s, 'j) Crontab \<Rightarrow> 'j list \<Rightarrow>
   (('s, 'j) Crontab \<times> 'j list) option" where
  "due_loop Next now fuel c due =
     (case hp (cheap c) of
        [] \<Rightarrow> Some (c, due)
      | r # _ \<Rightarrow>
          (case entries c r of
             None \<Rightarrow> Some (c, due)
           | Some e \<Rightarrow>
               if en_next e > now then Some (c, due)
               else case fuel of
                 0 \<Rightarrow> None
               | Suc f \<Rightarrow> due_loop Next now f (run_root Next now r e c) (due @ [en_job e])))"

declare due_loop.simps [simp del]

definition runDueJobs ::
  "('s \<Rightarrow> gotime \<Rightarrow> gotime) \<Rightarrow> gotime \<Rightarrow> gotime \<Rightarrow> nat \<Rightarrow> ('s, 'j) Crontab \<Rightarrow>
   (('s, 'j) Crontab \<times> 'j list) option" where
  "runDueJobs Next now now' fuel c =
     (case due_loop Next now fuel c [] of
        None \<Rightarrow> None
      | Some (c', due) \<Rightarrow> Some (rescheduleTimer now' c', due))"

text \<open>The hand-over of the due jobs to the workers: what went to the queue and what ran inline.\<close>

fun dispatch :: "(bool \<times> bool \<times> bool) list \<Rightarrow> 'j list \<Rightarrow> 'j list \<times> 'j list" where
  "dispatch ((room, stop, pick) # env) (j # js) =
     (if room \<and> (\<not> stop \<or> pick) then (let (s, i) = dispatch env js in (j # s, i))
      else if stop then ([], [])
      else (let (s, i) = dispatch env js in (s, j # i)))"
| "dispatch _ _ = ([], [])"

definition Crontab_Stop :: "('s, 'j) Crontab \<Rightarrow> ('s, 'j) Crontab" where
  "Crontab_Stop c = (if \<not> running c then c else c\<lparr>running := False, cdone := True, ctimer := NoTimer\<rparr>)"

subsection \<open>The invariant\<close>

definition crontab_inv :: "('s, 'j) Crontab \<Rightarrow> bool" where
  "crontab_inv c \<longleftrightarrow> heap_ok (next_key (entries c)) (cheap c) \<and> set (hp (cheap c)) = dom (entries c)"

lemma heap_ok_cong:
  assumes "\<And>x. x \<in> set (hp h) \<Longrightarrow> key x = key' x"
  shows "heap_ok key h = heap_ok key' h"
proof -
  have "key (hp h ! ((k - 1) div 2)) \<le> key (hp h ! k) \<longleftrightarrow> key' (hp h ! ((k - 1) div 2)) \<le> key' (hp h ! k)"
    if "k < length (hp h)" for k
    using assms that by simp
  then show ?thesis unfolding heap_ok_def heap_upto_def by blast
qed

lemma next_key_upd [simp]: "next_key (es(r := x)) i = (if i = r then (case x of None \<Rightarrow> 0 | Some e \<Rightarrow> en_next e) else next_key es i)"
  by (simp add: next_key_def)

lemma resched_frame [simp]:
  "entries (rescheduleTimer now c) = entries c" "cheap (rescheduleTimer now c) = cheap c"
  "running (rescheduleTimer now c) = running c" "cdone (rescheduleTimer now c) = cdone c"
  "workerSize (rescheduleTimer now c) = workerSize c"
  by (auto simp: rescheduleTimer_def split: list.splits timer.splits)

lemma resched_inv [simp]: "crontab_inv (rescheduleTimer now c) = crontab_inv c"
  by (simp add: crontab_inv_def)

lemma inv_ix:
  assumes "crontab_inv c" "entries c eid = Some e"
  shows "ix (cheap c) eid < length (hp (cheap c))" "hp (cheap c) ! ix (cheap c) eid = eid"
proof -
  from assms obtain k where "k < length (hp (cheap c))" "hp (cheap c) ! k = eid"
    by (metis crontab_inv_def domI in_set_conv_nth)
  with assms(1) show "ix (cheap c) eid < length (hp (cheap c))" "hp (cheap c) ! ix (cheap c) eid = eid"
    by (auto simp: crontab_inv_def heap_ok_def ix_ok_def)
qed

lemma mset_remove_set:
  assumes "mset xs = add_mset y (mset ys)" "distinct xs"
  shows "set ys = set xs - {y}" "y \<notin> set ys"
proof -
  have d: "distinct (y # ys)" using assms by (metis mset.simps(2) mset_eq_imp_distinct_iff)
  then show "y \<notin> set ys" by simp
  have "set xs = insert y (set ys)" using assms(1) by (metis mset.simps(2) mset_eq_setD list.simps(15))
  with d show "set ys = set xs - {y}" by auto
qed

lemma removeJob_inv:
  assumes "crontab_inv c"
  shows "crontab_inv (removeJob eid c)"
proof (cases "entries c eid")
  case None
  then show ?thesis using assms by (simp add: removeJob_def)
next
  case (Some e)
  obtain y h where rem: "heap_Remove (next_key (entries c)) (ix (cheap c) eid) (cheap c) = (y, h)"
    by (cases "heap_Remove (next_key (entries c)) (ix (cheap c) eid) (cheap c)")
  have ok: "heap_ok (next_key (entries c)) (cheap c)" using assms by (simp add: crontab_inv_def)
  from heap_Remove_ok [OF ok inv_ix(1) [OF assms Some] rem] inv_ix(2) [OF assms Some]
  have r: "y = eid" "heap_ok (next_key (entries c)) h" "mset (hp (cheap c)) = add_mset eid (mset (hp h))" by auto
  have d: "distinct (hp (cheap c))" using ok by (simp add: heap_ok_def ix_ok_distinct)
  note s = mset_remove_set [OF r(3) d]
  have "heap_ok (next_key ((entries c)(eid := None))) h"
    using r(2) s(2) by (subst heap_ok_cong [of h _ "next_key (entries c)"]) auto
  with s assms show ?thesis by (auto simp: removeJob_def Some rem crontab_inv_def)
qed

lemma removeJob_entries: "entries (removeJob eid c) = (entries c)(eid := None)"
  by (auto simp: removeJob_def split: option.splits)

lemma push_inv:
  assumes "heap_ok (next_key es) h" "set (hp h) = dom es - {r}"
  shows "heap_ok (next_key (es(r \<mapsto> e))) (heap_Push (next_key (es(r \<mapsto> e))) r h)"
    "set (hp (heap_Push (next_key (es(r \<mapsto> e))) r h)) = insert r (dom es)"
    "mset (hp (heap_Push (next_key (es(r \<mapsto> e))) r h)) = add_mset r (mset (hp h))"
proof -
  have "heap_ok (next_key (es(r \<mapsto> e))) h"
    using assms by (subst heap_ok_cong [of h _ "next_key es"]) auto
  note p = heap_Push_ok [OF this, of r]
  show "heap_ok (next_key (es(r \<mapsto> e))) (heap_Push (next_key (es(r \<mapsto> e))) r h)"
    "mset (hp (heap_Push (next_key (es(r \<mapsto> e))) r h)) = add_mset r (mset (hp h))"
    using p assms(2) by auto
  then show "set (hp (heap_Push (next_key (es(r \<mapsto> e))) r h)) = insert r (dom es)"
    using assms(2) by (metis insert_Diff_single mset.simps(2) mset_eq_setD list.simps(15))
qed

lemma Add_inv:
  assumes "crontab_inv c" "Crontab_Add Next now now' eid s j c = Inr c'"
  shows "crontab_inv c'"
    "entries c' = (entries c)(eid \<mapsto> \<lparr>en_sched = s, en_job = j, en_next = Next s now\<rparr>)"
proof -
  define c1 where "c1 = removeJob eid c"
  have same: "(if entries c eid \<noteq> None then removeJob eid c else c) = c1"
    by (simp add: c1_def removeJob_def)
  have c1: "crontab_inv c1" "entries c1 = (entries c)(eid := None)"
    using assms(1) removeJob_inv by (auto simp: c1_def removeJob_entries)
  then have "set (hp (cheap c1)) = dom (entries c1) - {eid}" by (auto simp: crontab_inv_def)
  with c1 have p: "crontab_inv (c1\<lparr>entries := (entries c1)(eid \<mapsto> e), cheap := heap_Push (next_key ((entries c1)(eid \<mapsto> e))) eid (cheap c1)\<rparr>)" for e
    using push_inv [of "entries c1" "cheap c1" eid e] by (auto simp: crontab_inv_def)
  have c': "c' = rescheduleTimer now' (let e = \<lparr>en_sched = s, en_job = j, en_next = Next s now\<rparr> in
      c1\<lparr>entries := (entries c1)(eid \<mapsto> e), cheap := heap_Push (next_key ((entries c1)(eid \<mapsto> e))) eid (cheap c1)\<rparr>)"
    using assms(2) unfolding Crontab_Add_def same Let_def by (simp split: if_splits)
  show "crontab_inv c'" using p by (simp add: c' Let_def)
  show "entries c' = (entries c)(eid \<mapsto> \<lparr>en_sched = s, en_job = j, en_next = Next s now\<rparr>)"
    by (simp add: c' Let_def c1(2))
qed

lemma run_root_inv:
  assumes inv: "crontab_inv c" and r: "hp (cheap c) = r # xs" and e: "entries c r = Some e"
  shows "crontab_inv (run_root Next now r e c)"
    "entries (run_root Next now r e c) =
       (entries c)(r := if Next (en_sched e) now \<noteq> 0 then Some (e\<lparr>en_next := Next (en_sched e) now\<rparr>) else None)"
    "running (run_root Next now r e c) = running c"
proof -
  obtain y h where pop: "heap_Pop (next_key (entries c)) (cheap c) = (y, h)"
    by (cases "heap_Pop (next_key (entries c)) (cheap c)")
  have ok: "heap_ok (next_key (entries c)) (cheap c)" using inv by (simp add: crontab_inv_def)
  from heap_Pop_ok [OF ok _ pop] r have p: "heap_ok (next_key (entries c)) h" "mset (hp (cheap c)) = add_mset r (mset (hp h))"
    by auto
  have "distinct (hp (cheap c))" using ok by (simp add: heap_ok_def ix_ok_distinct)
  note m = mset_remove_set [OF p(2) this]
  have dm: "set (hp h) = dom (entries c) - {r}" using m inv by (auto simp: crontab_inv_def)
  have gone: "heap_ok (next_key ((entries c)(r := None))) h"
    using p(1) m(2) by (subst heap_ok_cong [of h _ "next_key (entries c)"]) auto
  show "crontab_inv (run_root Next now r e c)"
    using push_inv [OF p(1) dm, of "e\<lparr>en_next := Next (en_sched e) now\<rparr>"] gone dm
    by (auto simp: run_root_def pop Let_def crontab_inv_def)
  show "entries (run_root Next now r e c) =
       (entries c)(r := if Next (en_sched e) now \<noteq> 0 then Some (e\<lparr>en_next := Next (en_sched e) now\<rparr>) else None)"
    "running (run_root Next now r e c) = running c"
    by (simp_all add: run_root_def pop Let_def)
qed

lemma root_least:
  assumes "crontab_inv c" "hp (cheap c) = r # xs"
  shows "\<exists>e. entries c r = Some e \<and> (\<forall>i e'. entries c i = Some e' \<longrightarrow> en_next e \<le> en_next e')"
proof -
  have ok: "heap_ok (next_key (entries c)) (cheap c)" and d: "set (hp (cheap c)) = dom (entries c)"
    using assms(1) by (auto simp: crontab_inv_def)
  then obtain e where e: "entries c r = Some e" using assms(2) by (metis domD list.set_intros(1))
  have "en_next e \<le> en_next e'" if "entries c i = Some e'" for i e'
  proof -
    have "i \<in> dom (entries c)" using that by (rule domI)
    then show ?thesis using heap_min [OF ok, of i] that e assms(2) unfolding d by (simp add: next_key_def)
  qed
  with e show ?thesis by blast
qed

subsection \<open>What a run of the due jobs achieves\<close>

text \<open>
  The intended effect on the entries: those not due stay, the others get their next time or, with a
  schedule that has none, go.
\<close>

definition advance :: "('s \<Rightarrow> gotime \<Rightarrow> gotime) \<Rightarrow> gotime \<Rightarrow> (int \<rightharpoonup> ('s, 'j) Entry) \<Rightarrow> (int \<rightharpoonup> ('s, 'j) Entry)" where
  "advance Next now es i =
     (case es i of
        None \<Rightarrow> None
      | Some e \<Rightarrow>
          if en_next e > now then Some e
          else if Next (en_sched e) now \<noteq> 0 then Some (e\<lparr>en_next := Next (en_sched e) now\<rparr>) else None)"

definition due_ids :: "gotime \<Rightarrow> (int \<rightharpoonup> ('s, 'j) Entry) \<Rightarrow> int set" where
  "due_ids now es = {i. \<exists>e. es i = Some e \<and> en_next e \<le> now}"

definition due_jobs :: "gotime \<Rightarrow> (int \<rightharpoonup> ('s, 'j) Entry) \<Rightarrow> 'j multiset" where
  "due_jobs now es = image_mset (\<lambda>i. en_job (the (es i))) (mset_set (due_ids now es))"

lemma finite_due: "crontab_inv c \<Longrightarrow> finite (due_ids now (entries c))"
proof -
  assume "crontab_inv c"
  then have "finite (dom (entries c))" by (metis crontab_inv_def finite_set)
  then show ?thesis by (rule rev_finite_subset) (auto simp: due_ids_def)
qed

lemma due_jobs_remove:
  assumes "finite (due_ids now es)" "es r = Some e" "en_next e \<le> now" "due_ids now (es(r := x)) = due_ids now es - {r}"
  shows "due_jobs now es = add_mset (en_job e) (due_jobs now (es(r := x)))"
proof -
  have r: "r \<in> due_ids now es" using assms by (auto simp: due_ids_def)
  have "mset_set (due_ids now es) = add_mset r (mset_set (due_ids now es - {r}))"
    using assms(1) r by (rule mset_set.remove)
  moreover have "image_mset (\<lambda>i. en_job (the ((es(r := x)) i))) (mset_set (due_ids now es - {r}))
      = image_mset (\<lambda>i. en_job (the (es i))) (mset_set (due_ids now es - {r}))"
    using assms(1) by (intro image_mset_cong) auto
  ultimately show ?thesis by (simp add: due_jobs_def assms(2,4))
qed

lemma no_due:
  assumes "due_ids now (entries c) = {}"
  shows "due_loop Next now fuel c due = Some (c, due)" "advance Next now (entries c) = entries c"
    "due_jobs now (entries c) = {#}"
proof -
  have late: "now < en_next e" if "entries c i = Some e" for i e
    using assms that by (force simp: due_ids_def)
  show "due_loop Next now fuel c due = Some (c, due)"
    by (subst due_loop.simps) (auto dest: late split: list.splits option.splits)
  show "advance Next now (entries c) = entries c"
    by (auto simp: advance_def fun_eq_iff dest: late split: option.splits)
  show "due_jobs now (entries c) = {#}" by (simp add: due_jobs_def assms)
qed

text \<open>
  What the manager relies on in a \<^verbatim>\<open>Schedule\<close>: from a usable moment on, the next activation is the
  zero time or lies strictly later.
\<close>

locale progressing_schedule =
  fixes Next :: "'s \<Rightarrow> gotime \<Rightarrow> gotime"
    and usable :: "'s \<Rightarrow> gotime \<Rightarrow> bool"
  assumes later: "usable s t \<Longrightarrow> Next s t = 0 \<or> t < Next s t"
begin

definition all_usable :: "gotime \<Rightarrow> (int \<rightharpoonup> ('s, 'j) Entry) \<Rightarrow> bool" where
  "all_usable now es \<longleftrightarrow> (\<forall>i e. es i = Some e \<and> en_next e \<le> now \<longrightarrow> usable (en_sched e) now)"

lemma due_loop_correct:
  assumes "crontab_inv c" "all_usable now (entries c)" "card (due_ids now (entries c)) \<le> fuel"
  shows "\<exists>c' due'. due_loop Next now fuel c due = Some (c', due') \<and> crontab_inv c' \<and>
    entries c' = advance Next now (entries c) \<and> mset due' = mset due + due_jobs now (entries c) \<and>
    running c' = running c"
  using assms
proof (induction fuel arbitrary: c due)
  case (0 c due)
  then have "due_ids now (entries c) = {}" using finite_due by fastforce
  with 0 show ?case by (simp add: no_due)
next
  case (Suc fuel c due)
  note ih = Suc.IH and prem = Suc.prems
  show ?case
  proof (cases "due_ids now (entries c) = {}")
    case True
    with prem show ?thesis by (simp add: no_due)
  next
    case False
    then obtain i ei where i: "entries c i = Some ei" "en_next ei \<le> now" by (auto simp: due_ids_def)
    then have "hp (cheap c) \<noteq> []" using prem(1) by (auto simp: crontab_inv_def)
    then obtain r xs where r: "hp (cheap c) = r # xs" by (cases "hp (cheap c)") auto
    obtain e where e: "entries c r = Some e" "en_next e \<le> en_next ei"
      using root_least [OF prem(1) r] i by blast
    let ?c = "run_root Next now r e c"
    note rr = run_root_inv [OF prem(1) r e(1), of Next now]
    have due: "en_next e \<le> now" using e i by simp
    then have l: "Next (en_sched e) now = 0 \<or> now < Next (en_sched e) now"
      using prem(2) e(1) unfolding all_usable_def by (intro later) blast
    then have ids: "due_ids now (entries ?c) = due_ids now (entries c) - {r}"
      by (auto simp: rr(2) due_ids_def)
    then have "card (due_ids now (entries ?c)) \<le> fuel"
      using prem(3) finite_due [OF prem(1), of now] e due by (simp add: card_Diff_singleton_if due_ids_def)
    moreover have "all_usable now (entries ?c)" using prem(2) l by (auto simp: rr(2) all_usable_def)
    ultimately obtain c' due' where ih': "due_loop Next now fuel ?c (due @ [en_job e]) = Some (c', due')" "crontab_inv c'"
        "entries c' = advance Next now (entries ?c)" "mset due' = mset (due @ [en_job e]) + due_jobs now (entries ?c)"
        "running c' = running ?c"
      using ih [OF rr(1)] by blast
    have "advance Next now (entries ?c) = advance Next now (entries c)"
      using l due e(1) by (auto simp: rr(2) advance_def fun_eq_iff)
    moreover have "due_jobs now (entries c) = add_mset (en_job e) (due_jobs now (entries ?c))"
      using due_jobs_remove [OF finite_due [OF prem(1)] e(1) due] ids unfolding rr(2) by blast
    moreover have "due_loop Next now (Suc fuel) c due = due_loop Next now fuel ?c (due @ [en_job e])"
      using r e(1) due by (subst due_loop.simps) simp
    ultimately show ?thesis using ih' rr(3) by (intro exI [of _ c'] exI [of _ due']) simp
  qed
qed

lemma runDueJobs_sound:
  assumes "crontab_inv c" "all_usable now (entries c)" "card (dom (entries c)) \<le> fuel"
  shows "\<exists>c' due. runDueJobs Next now now' fuel c = Some (c', due) \<and> crontab_inv c' \<and>
    entries c' = advance Next now (entries c) \<and> mset due = due_jobs now (entries c)"
proof -
  have "finite (dom (entries c))" using assms(1) by (metis crontab_inv_def finite_set)
  then have "card (due_ids now (entries c)) \<le> card (dom (entries c))"
    by (rule card_mono) (auto simp: due_ids_def)
  with assms(3) have "card (due_ids now (entries c)) \<le> fuel" by simp
  from due_loop_correct [OF assms(1,2) this, of "[]"] show ?thesis by (auto simp: runDueJobs_def)
qed

end

text \<open>The schedules of this repository are such schedules in the zones where \<^verbatim>\<open>Next\<close> is right.\<close>

definition usable_schedule :: "location \<Rightarrow> location Schedule \<Rightarrow> gotime \<Rightarrow> bool" where
  "usable_schedule Local s t \<longleftrightarrow>
     (case s of
        SpecSchedule ss \<Rightarrow> \<exists>off. zone_of Local ss = FixedZone off \<and> 3600 dvd off \<and> 0 \<le> t + off * time_Second
      | ConstantDelaySchedule d \<Rightarrow> 0 < d
      | ImmediateSchedule \<Rightarrow> True)"

interpretation cs: progressing_schedule "Schedule_Next Local" "usable_schedule Local" for Local
proof unfold_locales
  fix s t
  assume "usable_schedule Local s t"
  then show "Schedule_Next Local s t = 0 \<or> t < Schedule_Next Local s t"
    using spec_Next_later by (cases s) (auto simp: Schedule_Next_def usable_schedule_def constantDelay_Next_later)
qed

subsection \<open>Reachable managers\<close>

text \<open>
  The steps of a manager, one per critical section. The index is the largest clock reading so far;
  \<^verbatim>\<open>runDueJobs\<close> reads the clock before it takes the lock, so its \<open>now\<close> may be older.
\<close>

inductive crontab_reach :: "('s \<Rightarrow> gotime \<Rightarrow> gotime) \<Rightarrow> gotime \<Rightarrow> ('s, 'j) Crontab \<Rightarrow> bool"
  for Next where
  reach_New: "crontab_reach Next t (New_Crontab t opts)"
| reach_Add: "crontab_reach Next t c \<Longrightarrow> t \<le> now \<Longrightarrow> now \<le> now' \<Longrightarrow>
    Crontab_Add Next now now' eid s j c = Inr c' \<Longrightarrow> crontab_reach Next now' c'"
| reach_Remove: "crontab_reach Next t c \<Longrightarrow> t \<le> now \<Longrightarrow> crontab_reach Next now (Crontab_Remove now eid c)"
| reach_Fire: "crontab_reach Next t c \<Longrightarrow> t \<le> now' \<Longrightarrow> now \<le> now' \<Longrightarrow>
    runDueJobs Next now now' fuel c = Some (c', due) \<Longrightarrow> crontab_reach Next now' c'"
| reach_Stop: "crontab_reach Next t c \<Longrightarrow> crontab_reach Next t (Crontab_Stop c)"

text \<open>No entry is overslept: the timer is set for a moment no later than any entry is due.\<close>

definition timer_inv :: "gotime \<Rightarrow> ('s, 'j) Crontab \<Rightarrow> bool" where
  "timer_inv t c \<longleftrightarrow>
     (if running c then
        (\<forall>i e. entries c i = Some e \<longrightarrow> (\<exists>w. ctimer c = Armed w \<and> w \<le> max t (en_next e)))
      else ctimer c = NoTimer \<and> cdone c)"

lemma until_le: "now + max (time_sub nx now) 0 \<le> max now nx"
  by (simp add: time_sub_def min_duration_def max_duration_def max_def min_def)

lemma resched_timer:
  assumes "crontab_inv c" "running c"
  shows "timer_inv now (rescheduleTimer now c)"
proof (cases "hp (cheap c)")
  case Nil
  then have "entries c = Map.empty" using assms(1) by (auto simp: crontab_inv_def)
  then show ?thesis using assms(2) by (simp add: timer_inv_def)
next
  case (Cons r xs)
  from root_least [OF assms(1) Cons] obtain e where e: "entries c r = Some e"
      "\<forall>i e'. entries c i = Some e' \<longrightarrow> en_next e \<le> en_next e'" by blast
  have "now + max (time_sub (en_next e) now) 0 \<le> max now (en_next e')" if "entries c i = Some e'" for i e'
    using until_le [of now "en_next e"] e(2) that by fastforce
  then show ?thesis using assms(2) e(1) Cons by (auto simp: timer_inv_def rescheduleTimer_def next_key_def)
qed

lemma resched_not_running: "\<not> running c \<Longrightarrow> rescheduleTimer now c = c"
  by (simp add: rescheduleTimer_def)

lemma due_loop_inv:
  "crontab_inv c \<Longrightarrow> due_loop Next now fuel c due = Some (c', due') \<Longrightarrow>
   crontab_inv c' \<and> running c' = running c \<and> ctimer c' = ctimer c \<and> cdone c' = cdone c"
proof (induction fuel arbitrary: c due)
  case 0
  then show ?case by (auto simp: due_loop.simps [of _ _ 0] split: list.splits option.splits if_splits)
next
  case (Suc fuel)
  show ?case
  proof (cases "due_loop Next now (Suc fuel) c due = Some (c, due)")
    case False
    with Suc.prems obtain r xs e where r: "hp (cheap c) = r # xs" "entries c r = Some e"
        and l: "due_loop Next now fuel (run_root Next now r e c) (due @ [en_job e]) = Some (c', due')"
      by (auto simp: due_loop.simps [of _ _ "Suc fuel"] split: list.splits option.splits if_splits)
    have "ctimer (run_root Next now r e c) = ctimer c" "cdone (run_root Next now r e c) = cdone c"
      by (simp_all add: run_root_def Let_def)
    with Suc.IH [OF _ l] run_root_inv [OF Suc.prems(1) r, of Next now] show ?thesis by simp
  qed (use Suc.prems in simp)
qed

lemma removeJob_frame [simp]:
  "running (removeJob eid c) = running c" "ctimer (removeJob eid c) = ctimer c" "cdone (removeJob eid c) = cdone c"
  by (simp_all add: removeJob_def split: option.splits)

lemma timer_inv_resched:
  assumes "crontab_inv c" "running c \<or> ctimer c = NoTimer \<and> cdone c"
  shows "timer_inv now (rescheduleTimer now c)"
proof (cases "running c")
  case True
  with assms(1) show ?thesis by (rule resched_timer)
qed (use assms(2) in \<open>simp add: resched_not_running timer_inv_def\<close>)

lemma Add_ex:
  assumes "crontab_inv c" "Crontab_Add Next now now' eid s j c = Inr c'"
  shows "\<exists>c1. crontab_inv c1 \<and> running c1 \<and> c' = rescheduleTimer now' c1"
proof -
  obtain c1 where "c' = rescheduleTimer now' c1" "running c1"
    using assms(2) by (auto simp: Crontab_Add_def Let_def split: if_splits)
  then show ?thesis using Add_inv(1) [OF assms] by auto
qed

lemma reach_invs: "crontab_reach Next t c \<Longrightarrow> crontab_inv c \<and> timer_inv t c"
proof (induction rule: crontab_reach.induct)
  case (reach_New t opts)
  show ?case by (simp add: New_Crontab_def start_def rescheduleTimer_def crontab_inv_def timer_inv_def
      heap_ok_def ix_ok_def heap_upto_def)
next
  case (reach_Add t c now now' eid s j c')
  then show ?case using Add_ex [OF _ reach_Add(4)] resched_timer by fastforce
next
  case (reach_Remove t c now eid)
  then show ?case
    by (auto simp: Crontab_Remove_def removeJob_inv intro!: timer_inv_resched) (auto simp: timer_inv_def)
next
  case (reach_Fire t c now' now fuel c' due)
  then obtain c1 where c1: "due_loop Next now fuel c [] = Some (c1, due)" "c' = rescheduleTimer now' c1"
    by (auto simp: runDueJobs_def split: option.splits)
  from due_loop_inv [OF _ c1(1)] reach_Fire(5) show ?case
    by (auto simp: c1(2) intro!: timer_inv_resched) (auto simp: timer_inv_def)
next
  case (reach_Stop t c)
  then show ?case by (auto simp: Crontab_Stop_def crontab_inv_def timer_inv_def)
qed

lemma dispatch_all:
  "length env = length js \<Longrightarrow> \<forall>(room, stop, pick)\<in>set env. \<not> stop \<Longrightarrow>
   mset (fst (dispatch env js)) + mset (snd (dispatch env js)) = mset js"
  by (induction env js rule: dispatch.induct) (auto simp: case_prod_beta Let_def)

text \<open>A manager with one entry.\<close>

lemma single_entry:
  fixes s :: 's and j :: 'j
  assumes "t \<le> now" "now \<le> now'"
  shows "\<exists>c. crontab_reach Next now' c \<and> entries c = [eid \<mapsto> \<lparr>en_sched = s, en_job = j, en_next = Next s now\<rparr>]"
proof -
  let ?n = "New_Crontab t [] :: ('s, 'j) Crontab"
  have n: "running ?n" "entries ?n = Map.empty" by (simp_all add: New_Crontab_def start_def)
  then obtain c where c: "Crontab_Add Next now now' eid s j ?n = Inr c" by (simp add: Crontab_Add_def Let_def)
  have "crontab_reach Next now' c" by (rule reach_Add [OF reach_New assms c])
  moreover have "entries c = [eid \<mapsto> \<lparr>en_sched = s, en_job = j, en_next = Next s now\<rparr>]"
    using Add_inv(2) [OF reach_invs [OF reach_New, THEN conjunct1] c] n(2) by simp
  ultimately show ?thesis by blast
qed

lemma due_loop_hangs:
  assumes "crontab_inv c" "entries c i = Some e" "en_next e \<le> now" "Next (en_sched e) now \<noteq> 0" "Next (en_sched e) now \<le> now"
    and "\<forall>k. entries c k \<noteq> None \<longrightarrow> k = i"
  shows "due_loop Next now fuel c due = None"
  using assms
proof (induction fuel arbitrary: c e due)
  case (0 c e due)
  then have "hp (cheap c) \<noteq> []" by (auto simp: crontab_inv_def)
  then obtain r xs where r: "hp (cheap c) = r # xs" by (cases "hp (cheap c)") auto
  then have "r = i" using 0 root_least [OF 0(1) r] by auto
  with 0 r show ?case by (subst due_loop.simps) simp
next
  case (Suc fuel c e due)
  then have "hp (cheap c) \<noteq> []" by (auto simp: crontab_inv_def)
  then obtain r xs where r: "hp (cheap c) = r # xs" by (cases "hp (cheap c)") auto
  then have i: "r = i" using Suc.prems root_least [OF Suc.prems(1) r] by auto
  note rr = run_root_inv [OF Suc.prems(1) r, unfolded i, OF Suc.prems(2), of Next now]
  have "due_loop Next now fuel (run_root Next now i e c) (due @ [en_job e]) = None"
    using Suc.prems by (intro Suc.IH [OF rr(1), of "e\<lparr>en_next := Next (en_sched e) now\<rparr>"]) (auto simp: rr(2) split: if_splits)
  then show ?case using r i Suc.prems by (subst due_loop.simps) simp
qed

subsection \<open>Properties\<close>

text \<open>
  C6. Whatever sequence of additions, removals, timer runs and stops a manager goes through, its
  heap holds exactly the registered entries, is ordered by next fire time with every index in place,
  and while it runs its timer is set for a moment no later than any entry is due; after a stop the
  timer is gone and the stop signal given.
\<close>

theorem crontab_reach_invariant:
  assumes "crontab_reach (Schedule_Next Local) t c"
  shows "crontab_inv c \<and> timer_inv t c"
  using assms by (rule reach_invs)

definition nightly :: "location Schedule" where
  "nightly = ConstantDelaySchedule (3600 * time_Second)"

theorem crontab_reach_invariant_witness:
  "\<exists>c :: (location Schedule, string) Crontab. entries c 7 \<noteq> None \<and> crontab_inv c \<and> timer_inv 10 c"
proof -
  obtain c where c: "crontab_reach (Schedule_Next (FixedZone 0)) 10 c"
    "entries c = [7 \<mapsto> \<lparr>en_sched = nightly, en_job = ''backup'', en_next = Schedule_Next (FixedZone 0) nightly 6\<rparr>]"
    using single_entry [of 5 6 10 "Schedule_Next (FixedZone 0)" 7 nightly "''backup''"] by auto
  from crontab_reach_invariant [OF c(1)] c(2) show ?thesis by (intro exI [of _ c]) simp
qed



text \<open>
  With a schedule whose \<^verbatim>\<open>Next\<close> returns a moment that is not later, the loop of
  \<^verbatim>\<open>runDueJobs\<close> never ends, and it runs with the lock held: at 01:45 of the night the clocks go
  back, a manager with the entry \<^verbatim>\<open>45 * * * *\<close> in US Eastern time hangs.
\<close>

theorem runDueJobs_hangs:
  "\<exists>c :: (location Schedule, string) Crontab.
     crontab_reach (Schedule_Next Eastern2024) (Time_Date Eastern2024 2024 11 3 1 0 0) c \<and>
     (\<forall>fuel. runDueJobs (Schedule_Next Eastern2024) (Time_Date Eastern2024 2024 11 3 1 45 0)
        (Time_Date Eastern2024 2024 11 3 1 45 0) fuel c = None)"
proof -
  let ?N = "Schedule_Next Eastern2024" and ?s = "SpecSchedule (quarter_to Eastern2024)"
    and ?t = "Time_Date Eastern2024 2024 11 3 1 0 0" and ?now = "Time_Date Eastern2024 2024 11 3 1 45 0"
  have n: "?N ?s ?t = ?now" "?N ?s ?now = ?now" "?now \<noteq> 0" by code_simp+
  obtain c where reach: "crontab_reach ?N ?t c" and es: "entries c = [1 \<mapsto> \<lparr>en_sched = ?s, en_job = ''job'', en_next = ?N ?s ?t\<rparr>]"
    using single_entry [of ?t ?t ?t ?N 1 ?s "''job''"] by auto
  have "due_loop ?N ?now fuel c [] = None" for fuel
    by (rule due_loop_hangs [OF reach_invs [OF reach, THEN conjunct1], of 1]) (auto simp: es n split: if_splits)
  with reach show ?thesis by (auto simp: runDueJobs_def)
qed

end
