(* ===== verification/Pool.thy ===== *)
theory Pool
  imports Prelude
begin

text \<open>
  The worker pool, \<^verbatim>\<open>pkg/pool\<close>: its options, \<^verbatim>\<open>New\<close>, \<^verbatim>\<open>NewIOPool\<close>, and as
  a step relation \<^verbatim>\<open>Submit\<close>, \<^verbatim>\<open>handleRejection\<close>, \<^verbatim>\<open>tryGrowWorker\<close>,
  \<^verbatim>\<open>worker\<close>, \<^verbatim>\<open>execute\<close> and \<^verbatim>\<open>Shutdown\<close>. A step is one channel operation or
  atomic operation together with the counter updates that follow it directly. A \<^verbatim>\<open>Submit\<close> in
  flight is a job with the place in the code where it stands. A send on a closed channel panics, as in
  Go, and a closed channel counts as ready in a \<^verbatim>\<open>select\<close>, which takes any ready case.
\<close>

subsection \<open>Configuration\<close>

datatype RejectionPolicy = RejectionAbort | RejectionCallerRuns | RejectionDiscardOldest

record pool_config =
  workers :: int
  queueSize :: int
  rejectionPolicy :: RejectionPolicy
  stallThreshold :: duration

datatype pool_option =
    WithWorkers int
  | WithQueueSize int
  | WithErrorHandler
  | WithPanicHandler
  | WithRejectionPolicy RejectionPolicy
  | WithStallDetection duration

fun pool_apply :: "pool_option \<Rightarrow> pool_config \<Rightarrow> pool_config" where
  "pool_apply (WithWorkers n) c = c\<lparr>workers := n\<rparr>"
| "pool_apply (WithQueueSize n) c = c\<lparr>queueSize := n\<rparr>"
| "pool_apply WithErrorHandler c = c"
| "pool_apply WithPanicHandler c = c"
| "pool_apply (WithRejectionPolicy p) c = c\<lparr>rejectionPolicy := p\<rparr>"
| "pool_apply (WithStallDetection d) c = c\<lparr>stallThreshold := d\<rparr>"

subsection \<open>State\<close>

record Stats =
  Submitted :: int
  Completed :: int
  Failed :: int
  Discarded :: int
  Pending :: int
  Active :: int

datatype shutdown_state = Open | SignalClosed | QueueClosed | Graceful | Forced

record 'j pool =
  pcfg :: pool_config
  jobCh :: "'j list"
  idle :: nat
  busy :: "'j list"
  currentWorkers :: int
  runCancelled :: bool
  shut :: shutdown_state
  stats :: Stats

definition closedCh :: "'j pool \<Rightarrow> bool" where
  "closedCh p \<longleftrightarrow> shut p \<noteq> Open"

definition jobClosed :: "'j pool \<Rightarrow> bool" where
  "jobClosed p \<longleftrightarrow> shut p \<notin> {Open, SignalClosed}"

datatype pool_error = WorkersNotPositive int | QueueSizeNotPositive int

definition defaultQueueSize :: int where "defaultQueueSize = 1024"

definition defaultWarmup :: int where "defaultWarmup = 4"

definition New_pool :: "int \<Rightarrow> pool_option list \<Rightarrow> pool_error + 'j pool" where
  "New_pool NumCPU opts =
     (let cfg = fold pool_apply opts
            \<lparr>workers = NumCPU, queueSize = defaultQueueSize, rejectionPolicy = RejectionAbort, stallThreshold = 0\<rparr>;
          warmup = min defaultWarmup (workers cfg)
      in if workers cfg \<le> 0 then Inl (WorkersNotPositive (workers cfg))
         else if queueSize cfg \<le> 0 then Inl (QueueSizeNotPositive (queueSize cfg))
         else Inr \<lparr>pcfg = cfg, jobCh = [], idle = nat warmup, busy = [], currentWorkers = warmup,
                   runCancelled = False, shut = Open,
                   stats = \<lparr>Submitted = 0, Completed = 0, Failed = 0, Discarded = 0, Pending = 0, Active = 0\<rparr>\<rparr>)"

definition defaultSize :: "int \<Rightarrow> int \<Rightarrow> int" where
  "defaultSize NumCPU n = (if n \<le> 0 then NumCPU else n)"

definition NewIOPool :: "int \<Rightarrow> int \<Rightarrow> pool_error + 'j pool" where
  "NewIOPool NumCPU sz =
     (let sz = defaultSize NumCPU sz
      in New_pool NumCPU [WithWorkers sz, WithQueueSize (wrap64 (sz * 8)),
           WithRejectionPolicy RejectionCallerRuns, WithStallDetection (5 * time_Minute)])"

subsection \<open>Counters\<close>

definition accept_job :: "Stats \<Rightarrow> Stats" where
  "accept_job s = s\<lparr>Submitted := Submitted s + 1, Pending := Pending s + 1\<rparr>"

definition start_job :: "Stats \<Rightarrow> Stats" where
  "start_job s = s\<lparr>Pending := Pending s - 1, Active := Active s + 1\<rparr>"

definition caller_job :: "Stats \<Rightarrow> Stats" where
  "caller_job s = s\<lparr>Submitted := Submitted s + 1, Active := Active s + 1\<rparr>"

definition discard_job :: "Stats \<Rightarrow> Stats" where
  "discard_job s = s\<lparr>Pending := Pending s - 1, Discarded := Discarded s + 1\<rparr>"

text \<open>The end of \<open>execute\<close>: a panic and an error count as failed, exactly one counter moves.\<close>

datatype run_result = RunOk | RunError | RunPanic

definition finish_job :: "run_result \<Rightarrow> Stats \<Rightarrow> Stats" where
  "finish_job r s =
     (let s = (case r of
                 RunPanic \<Rightarrow> s\<lparr>Failed := Failed s + 1\<rparr>
               | RunError \<Rightarrow> s\<lparr>Failed := Failed s + 1\<rparr>
               | RunOk \<Rightarrow> s\<lparr>Completed := Completed s + 1\<rparr>)
      in s\<lparr>Active := Active s - 1\<rparr>)"

lemmas stats_defs = accept_job_def start_job_def caller_job_def discard_job_def finish_job_def Let_def

subsection \<open>Submit\<close>

datatype submit_result = SubmitOk | ErrClosed | ErrQueueFull | CtxErr | SubmitPanic

datatype submit_pc = PcCheck | PcTry | PcGrow | PcTryGrow | PcRetry | PcReject | PcEnqueue | PcRunning

datatype select_case = CaseSend | CaseClosed | CaseCtx | CaseDefault

definition send_ready :: "'j pool \<Rightarrow> bool" where
  "send_ready p \<longleftrightarrow> jobClosed p \<or> int (length (jobCh p)) < queueSize (pcfg p)"

definition send_job :: "'j \<Rightarrow> 'j pool \<Rightarrow> 'j pool \<times> submit_result" where
  "send_job j p =
     (if jobClosed p then (p, SubmitPanic)
      else (p\<lparr>jobCh := jobCh p @ [j], stats := accept_job (stats p)\<rparr>, SubmitOk))"

text \<open>
  The \<^verbatim>\<open>select\<close> over the queue, \<^verbatim>\<open>closedCh\<close> and the caller's context: \<open>None\<close> when
  the named case is not ready, \<open>Some None\<close> for the default case.
\<close>

definition submit_select :: "'j \<Rightarrow> bool \<Rightarrow> select_case \<Rightarrow> 'j pool \<Rightarrow> (('j pool \<times> submit_result) option) option" where
  "submit_select j ctx_done ch p =
     (case ch of
        CaseSend \<Rightarrow> if send_ready p then Some (Some (send_job j p)) else None
      | CaseClosed \<Rightarrow> if closedCh p then Some (Some (p, ErrClosed)) else None
      | CaseCtx \<Rightarrow> if ctx_done then Some (Some (p, CtxErr)) else None
      | CaseDefault \<Rightarrow> if \<not> send_ready p \<and> \<not> closedCh p \<and> \<not> ctx_done then Some None else None)"

definition tryGrowWorker :: "'j pool \<Rightarrow> 'j pool" where
  "tryGrowWorker p =
     (if currentWorkers p \<ge> workers (pcfg p) then p
      else p\<lparr>currentWorkers := currentWorkers p + 1, idle := Suc (idle p)\<rparr>)"

text \<open>
  One step of a \<^verbatim>\<open>Submit\<close> in flight: the new pool and either the next place or the result;
  \<open>None\<close> when the choice is not possible there. \<open>r\<close> is how a job run by the caller ends.
\<close>

definition select_step ::
  "submit_pc option \<Rightarrow> 'j \<Rightarrow> bool \<Rightarrow> select_case \<Rightarrow> 'j pool \<Rightarrow> ('j pool \<times> (submit_pc + submit_result)) option" where
  "select_step dflt j ctx_done ch p =
     (case submit_select j ctx_done ch p of
        None \<Rightarrow> None
      | Some (Some (p', res)) \<Rightarrow> Some (p', Inr res)
      | Some None \<Rightarrow> (case dflt of None \<Rightarrow> None | Some pc \<Rightarrow> Some (p, Inl pc)))"

definition handleRejection ::
  "'j \<Rightarrow> bool \<Rightarrow> select_case \<Rightarrow> 'j pool \<Rightarrow> ('j pool \<times> (submit_pc + submit_result)) option" where
  "handleRejection j ctx_done ch p =
     (case rejectionPolicy (pcfg p) of
        RejectionCallerRuns \<Rightarrow> Some (p\<lparr>stats := caller_job (stats p)\<rparr>, Inl PcRunning)
      | RejectionDiscardOldest \<Rightarrow>
          (case jobCh p of
             _ # q \<Rightarrow> Some (p\<lparr>jobCh := q, stats := discard_job (stats p)\<rparr>, Inl PcEnqueue)
           | [] \<Rightarrow> if jobClosed p then Some (p\<lparr>stats := discard_job (stats p)\<rparr>, Inl PcEnqueue)
                   else Some (p, Inr ErrQueueFull))
      | RejectionAbort \<Rightarrow> select_step None j ctx_done ch p)"

definition Submit ::
  "'j \<Rightarrow> bool \<Rightarrow> select_case \<Rightarrow> run_result \<Rightarrow> submit_pc \<Rightarrow> 'j pool \<Rightarrow> ('j pool \<times> (submit_pc + submit_result)) option" where
  "Submit j ctx_done ch r pc p =
     (case pc of
        PcCheck \<Rightarrow> if closedCh p then Some (p, Inr ErrClosed) else Some (p, Inl PcTry)
      | PcTry \<Rightarrow> select_step (Some PcGrow) j ctx_done ch p
      | PcGrow \<Rightarrow> if currentWorkers p < workers (pcfg p) then Some (p, Inl PcTryGrow) else Some (p, Inl PcReject)
      | PcTryGrow \<Rightarrow> Some (tryGrowWorker p, Inl PcRetry)
      | PcRetry \<Rightarrow> select_step (Some PcReject) j ctx_done ch p
      | PcReject \<Rightarrow> handleRejection j ctx_done ch p
      | PcEnqueue \<Rightarrow> select_step None j ctx_done ch p
      | PcRunning \<Rightarrow> Some (p\<lparr>stats := finish_job r (stats p)\<rparr>, Inr SubmitOk))"

subsection \<open>Workers and shutdown\<close>

definition worker_take :: "'j pool \<Rightarrow> 'j pool option" where
  "worker_take p =
     (case (idle p, jobCh p) of
        (Suc n, j # q) \<Rightarrow> Some (p\<lparr>idle := n, jobCh := q, busy := j # busy p, stats := start_job (stats p)\<rparr>)
      | _ \<Rightarrow> None)"

definition execute_end :: "nat \<Rightarrow> run_result \<Rightarrow> 'j pool \<Rightarrow> 'j pool option" where
  "execute_end i r p =
     (if i < length (busy p) then
        Some (p\<lparr>busy := take i (busy p) @ drop (Suc i) (busy p), idle := Suc (idle p), stats := finish_job r (stats p)\<rparr>)
      else None)"

definition worker_exit :: "'j pool \<Rightarrow> 'j pool option" where
  "worker_exit p =
     (case idle p of
        0 \<Rightarrow> None
      | Suc n \<Rightarrow> if runCancelled p \<or> jobClosed p \<and> jobCh p = [] then
                   Some (p\<lparr>idle := n, currentWorkers := currentWorkers p - 1\<rparr>)
                 else None)"

text \<open>\<open>ctx_case\<close>: the caller's context has ended and its case of the \<^verbatim>\<open>select\<close> is taken.\<close>

definition Shutdown :: "bool \<Rightarrow> 'j pool \<Rightarrow> 'j pool option" where
  "Shutdown ctx_case p =
     (case shut p of
        Open \<Rightarrow> Some (p\<lparr>shut := SignalClosed\<rparr>)
      | SignalClosed \<Rightarrow> Some (p\<lparr>shut := QueueClosed\<rparr>)
      | QueueClosed \<Rightarrow>
          if ctx_case then Some (p\<lparr>shut := Forced, runCancelled := True\<rparr>)
          else if currentWorkers p = 0 then Some (p\<lparr>shut := Graceful, runCancelled := True\<rparr>)
          else None
      | _ \<Rightarrow> None)"

text \<open>The whole system: the pool, the submissions in flight and the results returned so far.\<close>

record 'j system =
  sys_pool :: "'j pool"
  flight :: "nat \<rightharpoonup> 'j \<times> submit_pc"
  returned :: "nat \<rightharpoonup> submit_result"

inductive pool_step :: "'j system \<Rightarrow> 'j system \<Rightarrow> bool" where
  step_call: "flight s t = None \<Longrightarrow> returned s t = None \<Longrightarrow>
    pool_step s (s\<lparr>flight := (flight s)(t \<mapsto> (j, PcCheck))\<rparr>)"
| step_submit: "flight s t = Some (j, pc) \<Longrightarrow> Submit j ctx_done ch r pc (sys_pool s) = Some (p, Inl pc') \<Longrightarrow>
    pool_step s (s\<lparr>sys_pool := p, flight := (flight s)(t \<mapsto> (j, pc'))\<rparr>)"
| step_return: "flight s t = Some (j, pc) \<Longrightarrow> Submit j ctx_done ch r pc (sys_pool s) = Some (p, Inr res) \<Longrightarrow>
    pool_step s (s\<lparr>sys_pool := p, flight := (flight s)(t := None), returned := (returned s)(t \<mapsto> res)\<rparr>)"
| step_take: "worker_take (sys_pool s) = Some p \<Longrightarrow> pool_step s (s\<lparr>sys_pool := p\<rparr>)"
| step_end: "execute_end i r (sys_pool s) = Some p \<Longrightarrow> pool_step s (s\<lparr>sys_pool := p\<rparr>)"
| step_exit: "worker_exit (sys_pool s) = Some p \<Longrightarrow> pool_step s (s\<lparr>sys_pool := p\<rparr>)"
| step_shutdown: "Shutdown ctx_case (sys_pool s) = Some p \<Longrightarrow> pool_step s (s\<lparr>sys_pool := p\<rparr>)"

definition pool_start :: "'j pool \<Rightarrow> 'j system" where
  "pool_start p = \<lparr>sys_pool = p, flight = Map.empty, returned = Map.empty\<rparr>"

inductive pool_reach :: "'j pool \<Rightarrow> 'j system \<Rightarrow> bool" for p0 where
  reach_start: "pool_reach p0 (pool_start p0)"
| reach_step: "pool_reach p0 s \<Longrightarrow> pool_step s s' \<Longrightarrow> pool_reach p0 s'"

subsection \<open>The invariant\<close>

text \<open>What a step of \<^verbatim>\<open>Submit\<close> can do to the pool.\<close>

lemma Submit_effect:
  assumes "Submit j ctx_done ch r pc p = Some (p', x)"
  shows "(p' = p \<and> x \<noteq> Inl PcRunning \<and> pc \<noteq> PcRunning) \<or>
    (\<not> jobClosed p \<and> int (length (jobCh p)) < queueSize (pcfg p) \<and> pc \<noteq> PcRunning \<and> x = Inr SubmitOk \<and>
      p' = p\<lparr>jobCh := jobCh p @ [j], stats := accept_job (stats p)\<rparr>) \<or>
    (p' = tryGrowWorker p \<and> x = Inl PcRetry \<and> pc \<noteq> PcRunning) \<or>
    (p' = p\<lparr>stats := caller_job (stats p)\<rparr> \<and> x = Inl PcRunning \<and> pc \<noteq> PcRunning) \<or>
    (rejectionPolicy (pcfg p) = RejectionDiscardOldest \<and> x = Inl PcEnqueue \<and> pc \<noteq> PcRunning \<and>
      ((\<exists>i q. jobCh p = i # q \<and> p' = p\<lparr>jobCh := q, stats := discard_job (stats p)\<rparr>) \<or>
       jobClosed p \<and> jobCh p = [] \<and> p' = p\<lparr>stats := discard_job (stats p)\<rparr>)) \<or>
    (pc = PcRunning \<and> p' = p\<lparr>stats := finish_job r (stats p)\<rparr> \<and> x = Inr SubmitOk)"
proof (cases pc)
  case PcReject
  then show ?thesis using assms
    by (cases "rejectionPolicy (pcfg p)"; cases ch)
      (auto simp: Submit_def handleRejection_def select_step_def submit_select_def send_job_def send_ready_def
        split: list.splits if_splits)
qed (use assms in \<open>auto simp: Submit_def select_step_def submit_select_def send_job_def send_ready_def
        split: select_case.splits if_splits\<close>)

definition running_calls :: "'j system \<Rightarrow> nat set" where
  "running_calls s = {t. \<exists>j. flight s t = Some (j, PcRunning)}"

definition ledger :: "int \<Rightarrow> 'j pool \<Rightarrow> bool" where
  "ledger calls p \<longleftrightarrow>
     Pending (stats p) = int (length (jobCh p)) \<and> Active (stats p) = int (length (busy p)) + calls \<and>
     Submitted (stats p) =
       Completed (stats p) + Failed (stats p) + Discarded (stats p) + Pending (stats p) + Active (stats p)"

definition pool_ok :: "'j pool \<Rightarrow> bool" where
  "pool_ok p \<longleftrightarrow>
     int (length (jobCh p)) \<le> queueSize (pcfg p) \<and>
     currentWorkers p = int (idle p) + int (length (busy p)) \<and> currentWorkers p \<le> workers (pcfg p) \<and>
     (runCancelled p \<longleftrightarrow> shut p \<in> {Graceful, Forced}) \<and>
     (\<not> runCancelled p \<and> currentWorkers p = 0 \<longrightarrow> jobClosed p \<and> jobCh p = []) \<and>
     (shut p = Graceful \<longrightarrow> jobCh p = [] \<and> busy p = [])"

definition sys_ok :: "'j system \<Rightarrow> bool" where
  "sys_ok s \<longleftrightarrow> pool_ok (sys_pool s) \<and> finite (dom (flight s)) \<and>
     (rejectionPolicy (pcfg (sys_pool s)) \<noteq> RejectionDiscardOldest \<or> \<not> jobClosed (sys_pool s) \<longrightarrow>
        ledger (int (card (running_calls s))) (sys_pool s))"

lemma finite_running: "finite (dom (flight s)) \<Longrightarrow> finite (running_calls s)"
  by (rule finite_subset [of _ "dom (flight s)"]) (auto simp: running_calls_def)

lemma running_del:
  "running_calls (s\<lparr>sys_pool := p, flight := (flight s)(t := None), returned := x\<rparr>) = running_calls s - {t}"
  by (auto simp: running_calls_def split: if_splits)

lemma running_same [simp]: "running_calls (s\<lparr>sys_pool := p\<rparr>) = running_calls s"
  by (simp add: running_calls_def)

lemmas closed_defs = jobClosed_def closedCh_def

lemma no_workers [simp]: "int n + int (length xs) = 0 \<longleftrightarrow> n = 0 \<and> xs = []"
  by (cases xs) auto

lemma pool_ok_enqueue:
  "pool_ok p \<Longrightarrow> \<not> jobClosed p \<Longrightarrow> int (length (jobCh p)) < queueSize (pcfg p) \<Longrightarrow>
   pool_ok (p\<lparr>jobCh := jobCh p @ [j]\<rparr>)"
  by (auto simp: pool_ok_def closed_defs)

lemma pool_ok_discard: "pool_ok p \<Longrightarrow> jobCh p = i # q \<Longrightarrow> pool_ok (p\<lparr>jobCh := q\<rparr>)"
  by (auto simp: pool_ok_def closed_defs)

lemma pool_ok_take: "pool_ok p \<Longrightarrow> worker_take p = Some p' \<Longrightarrow> pool_ok p'"
  by (cases "idle p"; cases "jobCh p") (auto simp: worker_take_def pool_ok_def closed_defs)

lemma pool_ok_end: "pool_ok p \<Longrightarrow> execute_end i r p = Some p' \<Longrightarrow> pool_ok p'"
  by (cases "i < length (busy p)") (auto simp: execute_end_def pool_ok_def closed_defs)

lemma pool_ok_exit: "pool_ok p \<Longrightarrow> worker_exit p = Some p' \<Longrightarrow> pool_ok p'"
  by (cases "idle p") (auto simp: worker_exit_def pool_ok_def closed_defs split: if_splits)

lemma pool_ok_grow: "pool_ok p \<Longrightarrow> pool_ok (tryGrowWorker p)"
  by (auto simp: tryGrowWorker_def pool_ok_def closed_defs)

lemma pool_ok_stats: "pool_ok (p\<lparr>stats := x\<rparr>) = pool_ok p"
  by (simp add: pool_ok_def closed_defs)

lemma pool_ok_Shutdown:
  assumes "pool_ok p" "Shutdown c p = Some p'"
  shows "pool_ok p'"
proof (cases "shut p")
  case QueueClosed
  with assms have "p' = p\<lparr>shut := Graceful, runCancelled := True\<rparr> \<and> currentWorkers p = 0 \<or>
      p' = p\<lparr>shut := Forced, runCancelled := True\<rparr>"
    by (auto simp: Shutdown_def split: if_splits)
  with assms(1) QueueClosed show ?thesis by (elim disjE) (simp_all add: pool_ok_def closed_defs)
qed (use assms in \<open>auto simp: pool_ok_def Shutdown_def closed_defs\<close>)

lemma pool_ok_Submit:
  assumes "Submit j ctx_done ch r pc p = Some (p', x)" "pool_ok p"
  shows "pool_ok p'"
  using Submit_effect [OF assms(1)]
  by (elim disjE conjE exE)
    (simp_all add: assms(2) pool_ok_grow pool_ok_stats pool_ok_enqueue pool_ok_discard)

lemma Submit_frame:
  assumes "Submit j ctx_done ch r pc p = Some (p', x)"
  shows "pcfg p' = pcfg p" "shut p' = shut p"
  using Submit_effect [OF assms] by (auto simp: tryGrowWorker_def)

lemma worker_frame:
  "worker_take p = Some p' \<Longrightarrow> pcfg p' = pcfg p \<and> shut p' = shut p"
  "execute_end i r p = Some p' \<Longrightarrow> pcfg p' = pcfg p \<and> shut p' = shut p"
  "worker_exit p = Some p' \<Longrightarrow> pcfg p' = pcfg p \<and> shut p' = shut p"
  "Shutdown c p = Some p' \<Longrightarrow> pcfg p' = pcfg p \<and> (jobClosed p \<longrightarrow> jobClosed p')"
  by (auto simp: worker_take_def execute_end_def worker_exit_def Shutdown_def closed_defs
      split: nat.splits list.splits if_splits shutdown_state.splits)

lemma ledger_workers:
  assumes "ledger n p"
  shows "worker_take p = Some p' \<Longrightarrow> ledger n p'" "execute_end i r p = Some p' \<Longrightarrow> ledger n p'"
    "worker_exit p = Some p' \<Longrightarrow> ledger n p'" "Shutdown c p = Some p' \<Longrightarrow> ledger n p'"
    "ledger n (tryGrowWorker p)"
  using assms
  by (auto simp: ledger_def worker_take_def execute_end_def worker_exit_def Shutdown_def tryGrowWorker_def stats_defs
      split: nat.splits list.splits if_splits shutdown_state.splits run_result.splits)

lemma ledger_Submit:
  assumes "Submit j ctx_done ch r pc p = Some (p', x)" "ledger n p"
    and "rejectionPolicy (pcfg p) \<noteq> RejectionDiscardOldest \<or> \<not> jobClosed p"
  shows "ledger (n + (if x = Inl PcRunning then 1 else 0) - (if pc = PcRunning then 1 else 0)) p'"
  using Submit_effect [OF assms(1)]
  by (elim disjE conjE exE)
    (use assms(2,3) ledger_workers(5) [OF assms(2)] in \<open>auto simp: ledger_def stats_defs split: run_result.splits\<close>)

lemma card_running_call:
  assumes "finite (dom (flight s))" "flight s t = Some (j, pc)" "pc = PcRunning \<longrightarrow> pc' \<noteq> PcRunning"
  shows "int (card (if pc' = PcRunning then insert t (running_calls s) else running_calls s - {t})) =
    int (card (running_calls s)) + (if pc' = PcRunning then 1 else 0) - (if pc = PcRunning then 1 else 0)"
proof -
  have f: "finite (running_calls s)" using assms(1) by (rule finite_running)
  have t: "t \<in> running_calls s \<longleftrightarrow> pc = PcRunning" using assms(2) by (auto simp: running_calls_def)
  have "0 < card (running_calls s)" if "pc = PcRunning" using f t that by (auto simp: card_gt_0_iff)
  with f t assms(3) show ?thesis by (auto simp: card_insert_if card_Diff_singleton_if of_nat_diff)
qed

lemma sys_okD: "sys_ok s \<Longrightarrow> pool_ok (sys_pool s)"
  by (simp add: sys_ok_def)

lemma sys_ok_pool:
  assumes "sys_ok s" "pool_ok p" "pcfg p = pcfg (sys_pool s)" "jobClosed (sys_pool s) \<longrightarrow> jobClosed p"
    and "\<And>n. ledger n (sys_pool s) \<Longrightarrow> ledger n p"
  shows "sys_ok (s\<lparr>sys_pool := p\<rparr>)"
  using assms by (auto simp: sys_ok_def)

lemma sys_ok_step:
  assumes "pool_step s s'" "sys_ok s"
  shows "sys_ok s'"
  using assms
proof (induction rule: pool_step.induct)
  case (step_call s t j)
  have "running_calls (s\<lparr>flight := (flight s)(t \<mapsto> (j, PcCheck))\<rparr>) = running_calls s"
    using step_call(1) by (auto simp: running_calls_def)
  with step_call show ?case by (simp add: sys_ok_def)
next
  case (step_submit s t j pc ctx_done ch r p pc')
  have nr: "pc = PcRunning \<longrightarrow> pc' \<noteq> PcRunning" using step_submit(2) by (auto simp: Submit_def)
  have run: "running_calls (s\<lparr>sys_pool := p, flight := (flight s)(t \<mapsto> (j, pc'))\<rparr>) =
      (if pc' = PcRunning then insert t (running_calls s) else running_calls s - {t})"
    by (auto simp: running_calls_def)
  have fin: "finite (dom (flight s))" using step_submit(3) by (simp add: sys_ok_def)
  from step_submit(3) show ?case
    using pool_ok_Submit [OF step_submit(2)] ledger_Submit [OF step_submit(2)] Submit_frame [OF step_submit(2)]
      card_running_call [OF fin step_submit(1) nr]
    by (simp add: sys_ok_def run closed_defs)
next
  case (step_return s t j pc ctx_done ch r p res)
  have fin: "finite (dom (flight s))" using step_return(3) by (simp add: sys_ok_def)
  have "int (card (running_calls s - {t})) = int (card (running_calls s)) - (if pc = PcRunning then 1 else 0)"
    using card_running_call [OF fin step_return(1), of PcCheck] by simp
  with step_return(3) show ?case
    using pool_ok_Submit [OF step_return(2)] ledger_Submit [OF step_return(2)] Submit_frame [OF step_return(2)]
    by (simp add: sys_ok_def running_del closed_defs)
next
  case (step_take s p)
  then show ?case
    using sys_okD pool_ok_take ledger_workers(1) worker_frame(1) [of "sys_pool s"]
    by (intro sys_ok_pool) (auto simp: closed_defs)
next
  case (step_end i r s p)
  then show ?case
    using pool_ok_end [OF sys_okD step_end(1)] ledger_workers(2) worker_frame(2) [OF step_end(1)]
    by (intro sys_ok_pool) (auto simp: closed_defs)
next
  case (step_exit s p)
  then show ?case
    using sys_okD pool_ok_exit ledger_workers(3) worker_frame(3) [of "sys_pool s"]
    by (intro sys_ok_pool) (auto simp: closed_defs)
next
  case (step_shutdown c s p)
  then show ?case
    using sys_okD pool_ok_Shutdown ledger_workers(4) worker_frame(4) [of _ "sys_pool s"]
    by (intro sys_ok_pool) auto
qed

lemma New_pool_ok:
  assumes "New_pool NumCPU opts = Inr p"
  shows "sys_ok (pool_start p)"
proof -
  have "running_calls (pool_start p) = {}" by (simp add: running_calls_def pool_start_def)
  then show ?thesis
    using assms by (auto simp: New_pool_def Let_def sys_ok_def pool_ok_def pool_start_def ledger_def defaultWarmup_def
        split: if_splits)
qed

lemma reach_sys_ok: "pool_reach p0 s \<Longrightarrow> sys_ok (pool_start p0) \<Longrightarrow> sys_ok s"
  by (induction rule: pool_reach.induct) (auto intro: sys_ok_step)

lemma pcfg_step: "pool_step s s' \<Longrightarrow> pcfg (sys_pool s') = pcfg (sys_pool s)"
  by (induction rule: pool_step.induct) (auto dest: Submit_frame worker_frame)

lemma pcfg_reach: "pool_reach p0 s \<Longrightarrow> pcfg (sys_pool s) = pcfg p0"
  by (induction rule: pool_reach.induct) (simp_all add: pool_start_def pcfg_step)

text \<open>\<open>stallLoop\<close>: one tick with the observation whether the queue is full.\<close>

record stall = stalling :: bool  fullSince :: gotime

definition stall_interval :: "duration \<Rightarrow> duration" where
  "stall_interval threshold = max (go_div threshold 4) (50 * time_Millisecond)"

definition stall_tick :: "duration \<Rightarrow> gotime \<Rightarrow> bool \<Rightarrow> stall \<Rightarrow> stall \<times> bool" where
  "stall_tick threshold now full s =
     (if full then
        let s = (if fullSince s = zero_time then s\<lparr>fullSince := now\<rparr> else s)
        in if \<not> stalling s \<and> time_sub now (fullSince s) \<ge> threshold then (s\<lparr>stalling := True\<rparr>, True)
           else (s, False)
      else (s\<lparr>fullSince := zero_time, stalling := False\<rparr>, False))"

fun stall_run :: "duration \<Rightarrow> (gotime \<times> bool) list \<Rightarrow> stall \<Rightarrow> bool list" where
  "stall_run threshold [] s = []"
| "stall_run threshold (ob # obs) s =
     (let r = stall_tick threshold (fst ob) (snd ob) s in snd r # stall_run threshold obs (fst r))"

lemma stall_tick_simps:
  "snd (stall_tick th now full s) \<Longrightarrow> stalling (fst (stall_tick th now full s)) \<and> full"
  "stalling s \<Longrightarrow> full \<Longrightarrow> stalling (fst (stall_tick th now full s)) \<and> \<not> snd (stall_tick th now full s)"
  by (auto simp: stall_tick_def Let_def split: if_splits)

lemma stall_full: "j < length obs \<Longrightarrow> stall_run th obs s ! j \<Longrightarrow> snd (obs ! j)"
proof (induction obs arbitrary: s j)
  case (Cons ob obs)
  then show ?case using stall_tick_simps(1) [of th "fst ob" "snd ob" s] by (cases j) (auto simp: Let_def)
qed simp

lemma stall_quiet:
  "stalling s \<Longrightarrow> j < length obs \<Longrightarrow> \<forall>k\<le>j. snd (obs ! k) \<Longrightarrow> \<not> stall_run th obs s ! j"
proof (induction obs arbitrary: s j)
  case (Cons ob obs)
  have "snd ob" using Cons.prems(3) by force
  note t = stall_tick_simps(2) [OF Cons.prems(1) this, of th "fst ob"]
  show ?case
  proof (cases j)
    case 0
    with t show ?thesis by (simp add: Let_def)
  next
    case (Suc i)
    have "\<forall>k\<le>i. snd (obs ! k)" using Cons.prems(3) Suc by force
    with Cons Suc t show ?thesis by (simp add: Let_def)
  qed
qed simp

lemma stall_between:
  "i < j \<Longrightarrow> j < length obs \<Longrightarrow> stall_run th obs s ! i \<Longrightarrow> stall_run th obs s ! j \<Longrightarrow>
   \<exists>k. i < k \<and> k < j \<and> \<not> snd (obs ! k)"
proof (induction obs arbitrary: s i j)
  case (Cons ob obs)
  let ?s = "fst (stall_tick th (fst ob) (snd ob) s)"
  from Cons.prems(1) obtain j' where j: "j = Suc j'" by (cases j) auto
  have rj: "stall_run th obs ?s ! j'" and lj: "j' < length obs" using Cons.prems j by (simp_all add: Let_def)
  show ?case
  proof (cases i)
    case 0
    then have "stalling ?s" using Cons.prems(3) by (simp add: Let_def stall_tick_simps(1))
    then obtain k where k: "k \<le> j'" "\<not> snd (obs ! k)" using stall_quiet [OF _ lj, of ?s th] rj by blast
    have "k \<noteq> j'" using k(2) stall_full [OF lj rj] by blast
    with k j 0 show ?thesis by (intro exI [of _ "Suc k"]) auto
  next
    case (Suc i')
    have "stall_run th obs ?s ! i'" using Cons.prems(3) Suc by (simp add: Let_def)
    then obtain k where "i' < k" "k < j'" "\<not> snd (obs ! k)"
      using Cons.IH [OF _ lj _ rj, of i'] Cons.prems(1) j Suc by auto
    with j Suc show ?thesis by (intro exI [of _ "Suc k"]) auto
  qed
qed simp

subsection \<open>Properties\<close>


definition small_pool :: "string pool" where
  "small_pool = projr (New_pool 8 [WithWorkers 1, WithQueueSize 1])"

lemma small_pool: "New_pool 8 [WithWorkers 1, WithQueueSize 1] = Inr small_pool"
  by (simp add: small_pool_def New_pool_def Let_def)

text \<open>The small pool after one accepted job.\<close>

definition one_job :: "string system" where
  "one_job = (pool_start small_pool)\<lparr>sys_pool := small_pool\<lparr>jobCh := [''a''], stats := accept_job (stats small_pool)\<rparr>,
     returned := [0 \<mapsto> SubmitOk]\<rparr>"

lemmas small_defs = small_pool_def New_pool_def Let_def defaultWarmup_def one_job_def pool_start_def closed_defs
  Submit_def select_step_def submit_select_def send_job_def send_ready_def

text \<open>A call that has just passed the check of \<^verbatim>\<open>closedCh\<close>.\<close>

definition past_check :: "string system" where
  "past_check = (pool_start small_pool)\<lparr>flight := [0 \<mapsto> (''a'', PcTry)]\<rparr>"

lemma past_check_reach: "pool_reach small_pool past_check"
proof -
  let ?a = "pool_start small_pool"
  let ?b = "?a\<lparr>flight := (flight ?a)(0 \<mapsto> (''a'', PcCheck))\<rparr>"
  have "pool_reach small_pool ?b" by (rule reach_step [OF reach_start step_call]) (simp_all add: pool_start_def)
  then have "pool_reach small_pool (?b\<lparr>sys_pool := small_pool, flight := (flight ?b)(0 \<mapsto> (''a'', PcTry))\<rparr>)"
    by (rule reach_step)
      (rule step_submit [where pc = PcCheck and ctx_done = False and ch = CaseSend and r = RunOk], simp_all add: small_defs)
  then show ?thesis by (simp add: past_check_def pool_start_def)
qed

lemma shutdown_reach:
  assumes "pool_reach p0 s" "shut (sys_pool s) = Open"
  shows "pool_reach p0 (s\<lparr>sys_pool := (sys_pool s)\<lparr>shut := QueueClosed\<rparr>\<rparr>)"
proof -
  let ?s = "s\<lparr>sys_pool := (sys_pool s)\<lparr>shut := SignalClosed\<rparr>\<rparr>"
  have "pool_reach p0 ?s"
    by (rule reach_step [OF assms(1)], rule step_shutdown) (simp add: Shutdown_def assms(2))
  then have "pool_reach p0 (?s\<lparr>sys_pool := (sys_pool ?s)\<lparr>shut := QueueClosed\<rparr>\<rparr>)"
    by (rule reach_step, intro step_shutdown) (simp add: Shutdown_def)
  then show ?thesis by simp
qed

lemma one_job_reach: "pool_reach small_pool one_job"
proof -
  have "pool_reach small_pool
      (past_check\<lparr>sys_pool := small_pool\<lparr>jobCh := [''a''], stats := accept_job (stats small_pool)\<rparr>,
          flight := (flight past_check)(0 := None), returned := (returned past_check)(0 \<mapsto> SubmitOk)\<rparr>)"
    by (rule reach_step [OF past_check_reach],
        rule step_return [where pc = PcTry and ctx_done = False and ch = CaseSend and r = RunOk])
      (simp_all add: past_check_def small_defs)
  then show ?thesis by (simp add: one_job_def past_check_def pool_start_def)
qed




text \<open>
  \<^verbatim>\<open>Submit\<close> can panic: a call that has passed the check of \<^verbatim>\<open>closedCh\<close> when
  \<^verbatim>\<open>Shutdown\<close> closes the queue reaches a \<^verbatim>\<open>select\<close> in which the send on the closed
  channel is ready, and taking it is a panic in the caller's goroutine, where \<^verbatim>\<open>ErrClosed\<close> is
  promised.
\<close>

theorem submit_can_panic:
  "\<exists>s. pool_reach small_pool s \<and> returned s 0 = Some SubmitPanic"
proof -
  let ?e = "past_check\<lparr>sys_pool := (sys_pool past_check)\<lparr>shut := QueueClosed\<rparr>\<rparr>"
  have "pool_reach small_pool ?e"
    by (rule shutdown_reach [OF past_check_reach]) (simp add: past_check_def small_defs)
  then have "pool_reach small_pool
      (?e\<lparr>sys_pool := sys_pool ?e, flight := (flight ?e)(0 := None), returned := (returned ?e)(0 \<mapsto> SubmitPanic)\<rparr>)"
    by (rule reach_step)
      (rule step_return [where pc = PcTry and ctx_done = False and ch = CaseSend and r = RunOk],
        simp_all add: past_check_def small_defs)
  then show ?thesis by (intro exI conjI) auto
qed

text \<open>
  Stall detection calls its handler once per stall: between two calls there is a tick at which
  the queue was not full.
\<close>

theorem stall_handler_once:
  assumes "i < j" "j < length obs" "stall_run threshold obs s ! i" "stall_run threshold obs s ! j"
  shows "\<exists>k. i < k \<and> k < j \<and> \<not> snd (obs ! k)"
  using assms by (rule stall_between)

theorem stall_handler_once_witness:
  "\<exists>k. 1 < k \<and> k < 4 \<and>
     \<not> snd ([(10::int, True), (20, True), (30, False), (40, True), (50, True)] ! k)"
proof (rule stall_handler_once [of 1 4 _ 10 "\<lparr>stalling = False, fullSince = 0\<rparr>"])
  show "stall_run 10 [(10, True), (20, True), (30, False), (40, True), (50, True)] \<lparr>stalling = False, fullSince = 0\<rparr> ! 1"
    "stall_run 10 [(10, True), (20, True), (30, False), (40, True), (50, True)] \<lparr>stalling = False, fullSince = 0\<rparr> ! 4"
    by code_simp+
qed simp_all

end
