(* ===== verification/Timewheel.thy ===== *)
theory Timewheel
  imports Pool "HOL-Library.AList"
begin

text \<open>
  The hierarchical time wheel, \<^verbatim>\<open>pkg/timewheel\<close>: \<open>wheel_New\<close>, \<open>AddAt\<close>,
  \<open>wheel_Remove\<close>, \<open>tick\<close>, \<open>cascade\<close>, \<open>submitCallback\<close>, \<open>wheel_Start\<close> and
  \<open>wheel_Stop\<close>. A slot, in the code a map from entry IDs to entries, is an association list whose
  order stands for the iteration order of the map; the index of IDs is a map. Clock readings are
  arguments. \<^verbatim>\<open>int(d.Seconds())\<close> is the quotient truncated towards zero: Go computes it in
  floating point, which is exact for the delays below \<^verbatim>\<open>2^23\<close> seconds (97 days) that the
  properties consider.
\<close>

definition wheelSize :: int where "wheelSize = 60"

definition secondsPerMin :: int where "secondsPerMin = 60"

record 'cb tentry =
  ent_ID :: int
  Callback :: 'cb
  ExpireAt :: gotime

type_synonym 'cb slot = "(int \<times> 'cb tentry) list"

datatype layer = SecondsLayer | MinutesLayer

record 'cb wheel =
  seconds :: "int \<Rightarrow> 'cb slot"
  minutes :: "int \<Rightarrow> 'cb slot"
  secPtr :: int
  minPtr :: int
  index :: "int \<rightharpoonup> layer \<times> int"

definition int_Seconds :: "duration \<Rightarrow> int" where
  "int_Seconds d = go_div d time_Second"

subsection \<open>Construction\<close>

datatype wheel_option = WithWorkerSize int | WithPool | WithLogger

record wheel_config =
  workerSize :: int
  injected :: bool

fun wheel_apply :: "wheel_option \<Rightarrow> wheel_config \<Rightarrow> wheel_config" where
  "wheel_apply (WithWorkerSize n) c = c\<lparr>workerSize := n\<rparr>"
| "wheel_apply WithPool c = c\<lparr>injected := True\<rparr>"
| "wheel_apply WithLogger c = c"

definition defaultWorkerSize :: int where "defaultWorkerSize = 100"

definition defaultQueueMultiplier :: int where "defaultQueueMultiplier = 4"

definition empty_wheel :: "'cb wheel" where
  "empty_wheel = \<lparr>seconds = (\<lambda>_. []), minutes = (\<lambda>_. []), secPtr = 0, minPtr = 0, index = Map.empty\<rparr>"

text \<open>The wheel and the pool it owns, if it made one.\<close>

definition newHierarchicalWheel ::
  "int \<Rightarrow> wheel_config \<Rightarrow> pool_error + 'cb wheel \<times> 'j pool option" where
  "newHierarchicalWheel NumCPU cfg =
     (let n = (if workerSize cfg \<le> 0 then defaultWorkerSize else workerSize cfg)
      in if injected cfg then Inr (empty_wheel, None)
         else case New_pool NumCPU [WithWorkers n, WithQueueSize (wrap64 (n * defaultQueueMultiplier))] of
           Inl err \<Rightarrow> Inl err
         | Inr p \<Rightarrow> Inr (empty_wheel, Some p))"

definition wheel_New :: "int \<Rightarrow> wheel_option list \<Rightarrow> pool_error + 'cb wheel \<times> 'j pool option" where
  "wheel_New NumCPU opts =
     (let cfg = fold wheel_apply opts \<lparr>workerSize = defaultWorkerSize, injected = False\<rparr>
      in newHierarchicalWheel NumCPU
           (if workerSize cfg \<le> 0 then cfg\<lparr>workerSize := defaultWorkerSize\<rparr> else cfg))"

definition NewWheel :: "int \<Rightarrow> int \<Rightarrow> pool_error + 'cb wheel \<times> 'j pool option" where
  "NewWheel NumCPU n = wheel_New NumCPU [WithWorkerSize n]"

subsection \<open>Operations\<close>

text \<open>Put an entry into a slot of a layer and record it in the index.\<close>

definition place :: "layer \<Rightarrow> int \<Rightarrow> 'cb tentry \<Rightarrow> 'cb wheel \<Rightarrow> 'cb wheel" where
  "place l s e w =
     (case l of
        SecondsLayer \<Rightarrow> w\<lparr>seconds := (seconds w)(s := AList.update (ent_ID e) e (seconds w s)),
                          index := (index w)(ent_ID e \<mapsto> (l, s))\<rparr>
      | MinutesLayer \<Rightarrow> w\<lparr>minutes := (minutes w)(s := AList.update (ent_ID e) e (minutes w s)),
                          index := (index w)(ent_ID e \<mapsto> (l, s))\<rparr>)"

text \<open>
  \<open>AddAt\<close> with a fresh ID: the new wheel, or \<open>None\<close> when the time has passed and the callback is
  dispatched at once.
\<close>

definition AddAt :: "int \<Rightarrow> gotime \<Rightarrow> gotime \<Rightarrow> 'cb \<Rightarrow> 'cb wheel \<Rightarrow> 'cb wheel option" where
  "AddAt eid now fireAt cb w =
     (if \<not> fireAt > now then None
      else
        let e = \<lparr>ent_ID = eid, Callback = cb, ExpireAt = fireAt\<rparr>;
            totalSeconds = max (int_Seconds (time_sub fireAt now)) 1
        in Some (if totalSeconds < secondsPerMin
                 then place SecondsLayer ((secPtr w + totalSeconds) mod wheelSize) e w
                 else place MinutesLayer ((minPtr w + totalSeconds div secondsPerMin) mod wheelSize) e w))"

definition wheel_Add :: "int \<Rightarrow> gotime \<Rightarrow> gotime \<Rightarrow> duration \<Rightarrow> 'cb \<Rightarrow> 'cb wheel \<Rightarrow> 'cb wheel option" where
  "wheel_Add eid now now' d cb w = AddAt eid now' (now + d) cb w"

definition wheel_Remove :: "int \<Rightarrow> 'cb wheel \<Rightarrow> 'cb wheel" where
  "wheel_Remove eid w =
     (case index w eid of
        None \<Rightarrow> w
      | Some (SecondsLayer, s) \<Rightarrow>
          w\<lparr>seconds := (seconds w)(s := AList.delete eid (seconds w s)), index := (index w)(eid := None)\<rparr>
      | Some (MinutesLayer, s) \<Rightarrow>
          w\<lparr>minutes := (minutes w)(s := AList.delete eid (minutes w s)), index := (index w)(eid := None)\<rparr>)"

definition cascade_entry :: "gotime \<Rightarrow> 'cb tentry \<Rightarrow> 'cb wheel \<Rightarrow> 'cb wheel" where
  "cascade_entry now e w =
     (let w = w\<lparr>index := (index w)(ent_ID e := None)\<rparr>;
          remainingSeconds = int_Seconds (time_sub (ExpireAt e) now)
      in if remainingSeconds < 1 then place SecondsLayer (secPtr w) e w
         else if remainingSeconds < secondsPerMin
         then place SecondsLayer ((secPtr w + remainingSeconds) mod wheelSize) e w
         else place MinutesLayer ((minPtr w + remainingSeconds div secondsPerMin) mod wheelSize) e w)"

definition cascade :: "gotime \<Rightarrow> 'cb wheel \<Rightarrow> 'cb wheel" where
  "cascade now w =
     fold (cascade_entry now) (map snd (minutes w (minPtr w))) (w\<lparr>minutes := (minutes w)(minPtr w := [])\<rparr>)"

definition advance_ptr :: "gotime \<Rightarrow> 'cb wheel \<Rightarrow> 'cb wheel" where
  "advance_ptr now w =
     (let w = w\<lparr>secPtr := (secPtr w + 1) mod wheelSize\<rparr>
      in if secPtr w = 0 then cascade now (w\<lparr>minPtr := (minPtr w + 1) mod wheelSize\<rparr>) else w)"

definition collect :: "'cb wheel \<Rightarrow> 'cb wheel \<times> 'cb tentry list" where
  "collect w =
     (w\<lparr>seconds := (seconds w)(secPtr w := []), index := fold (\<lambda>(i, e) ix. ix(i := None)) (seconds w (secPtr w)) (index w)\<rparr>,
      map snd (seconds w (secPtr w)))"

definition tick :: "gotime \<Rightarrow> 'cb wheel \<Rightarrow> 'cb wheel \<times> 'cb tentry list" where
  "tick now w = collect (advance_ptr now w)"

text \<open>
  The dispatch of the expired entries: the pool accepts or rejects each; a rejected callback is only
  logged.
\<close>

definition submitCallback :: "(int \<Rightarrow> bool) \<Rightarrow> 'cb tentry \<Rightarrow> (int \<times> 'cb) option" where
  "submitCallback accepts e = (if accepts (ent_ID e) then Some (ent_ID e, Callback e) else None)"

definition dispatch_expired :: "(int \<Rightarrow> bool) \<Rightarrow> 'cb tentry list \<Rightarrow> (int \<times> 'cb) list" where
  "dispatch_expired accepts es = List.map_filter (submitCallback accepts) es"

text \<open>
  The life cycle: \<open>started\<close> is the flag, the booleans of \<open>wheel_Stop\<close> say whether the tick loop
  ended before the caller's context did, and whether it had ended when \<^verbatim>\<open>Stop\<close> returns.
\<close>

definition wheel_Start :: "bool \<Rightarrow> bool \<times> bool" where
  "wheel_Start started = (if started then (True, False) else (True, True))"

datatype 'e stop_result = StopOk | StopPoolErr 'e | StopCtxErr

definition wheel_Stop :: "bool \<Rightarrow> bool \<Rightarrow> 'e option \<Rightarrow> bool \<Rightarrow> bool \<times> 'e stop_result" where
  "wheel_Stop ownsPool started poolErr loop_ended =
     (False,
      (case (if ownsPool then poolErr else None) of
         Some e \<Rightarrow> StopPoolErr e
       | None \<Rightarrow> if \<not> started then StopOk else if loop_ended then StopOk else StopCtxErr))"

subsection \<open>Where an entry is\<close>

definition at :: "'cb wheel \<Rightarrow> layer \<times> int \<Rightarrow> int \<Rightarrow> 'cb tentry option" where
  "at w p i = map_of (case fst p of SecondsLayer \<Rightarrow> seconds w (snd p) | MinutesLayer \<Rightarrow> minutes w (snd p)) i"

definition next_visit :: "int \<Rightarrow> int \<Rightarrow> int \<Rightarrow> int" where
  "next_visit k mp s = 60 * (k div 60 + (let j = (s - mp) mod 60 in if j = 0 then 60 else j))"

definition expire_tick :: "gotime \<Rightarrow> 'cb tentry \<Rightarrow> int" where
  "expire_tick T0 e = (ExpireAt e - T0) div time_Second"

text \<open>Index and slots agree on an ID, and an entry on the minutes wheel is visited before it is due.\<close>

definition id_ok :: "gotime \<Rightarrow> int \<Rightarrow> 'cb wheel \<Rightarrow> int \<Rightarrow> bool" where
  "id_ok T0 k w i \<longleftrightarrow>
     (case index w i of
        None \<Rightarrow> \<forall>p. at w p i = None
      | Some (l, s) \<Rightarrow> 0 \<le> s \<and> s < 60 \<and> (\<forall>p. p \<noteq> (l, s) \<longrightarrow> at w p i = None) \<and>
          (\<exists>e. at w (l, s) i = Some e \<and> ent_ID e = i \<and>
             (l = MinutesLayer \<longrightarrow> next_visit k (minPtr w) s \<le> expire_tick T0 e)))"

definition slots_distinct :: "'cb wheel \<Rightarrow> bool" where
  "slots_distinct w \<longleftrightarrow> (\<forall>s. distinct (map fst (seconds w s)) \<and> distinct (map fst (minutes w s)))"

definition wheel_mid :: "gotime \<Rightarrow> int \<Rightarrow> 'cb wheel \<Rightarrow> bool" where
  "wheel_mid T0 k w \<longleftrightarrow> secPtr w = k mod 60 \<and> minPtr w = k div 60 mod 60 \<and> slots_distinct w \<and> (\<forall>i. id_ok T0 k w i)"

definition wheel_ok :: "gotime \<Rightarrow> int \<Rightarrow> 'cb wheel \<Rightarrow> bool" where
  "wheel_ok T0 k w \<longleftrightarrow> wheel_mid T0 k w \<and> seconds w (secPtr w) = []"

text \<open>
  The abstraction: the number of the tick at which an entry will fire, with its callback. Tick
  \<open>k\<close> happens at \<open>T0 + k\<close> seconds.
\<close>

definition entry_tick :: "gotime \<Rightarrow> int \<Rightarrow> int \<Rightarrow> layer \<Rightarrow> int \<Rightarrow> 'cb tentry \<Rightarrow> int" where
  "entry_tick T0 k sp l s e = (case l of SecondsLayer \<Rightarrow> k + (s - sp) mod 60 | MinutesLayer \<Rightarrow> expire_tick T0 e)"

definition fire_tick :: "gotime \<Rightarrow> int \<Rightarrow> 'cb wheel \<Rightarrow> int \<rightharpoonup> int \<times> 'cb" where
  "fire_tick T0 k w i =
     (case index w i of
        None \<Rightarrow> None
      | Some (l, s) \<Rightarrow> map_option (\<lambda>e. (entry_tick T0 k (secPtr w) l s e, Callback e)) (at w (l, s) i))"

lemma place_frame [simp]:
  "secPtr (place l s e w) = secPtr w" "minPtr (place l s e w) = minPtr w"
  "index (place l s e w) = (index w)(ent_ID e \<mapsto> (l, s))"
  by (cases l; simp add: place_def)+

lemma id_ok_index: "id_ok T0 k w i \<Longrightarrow> at w p i = Some e \<Longrightarrow> index w i = Some p \<and> ent_ID e = i"
proof -
  assume ok: "id_ok T0 k w i" and at: "at w p i = Some e"
  then obtain l s where ix: "index w i = Some (l, s)" by (cases "index w i"; cases p) (auto simp: id_ok_def)
  with ok have "\<forall>q. q \<noteq> (l, s) \<longrightarrow> at w q i = None" "\<exists>e. at w (l, s) i = Some e \<and> ent_ID e = i"
    by (auto simp: id_ok_def)
  with at ix show ?thesis by (metis option.distinct(1) option.inject)
qed

lemma at_place: "at (place l s e w) p i = (if p = (l, s) \<and> i = ent_ID e then Some e else at w p i)"
  by (cases l; cases p; cases "fst p") (auto simp: at_def place_def update_conv')

lemma distinct_place: "slots_distinct w \<Longrightarrow> slots_distinct (place l s e w)"
  by (cases l) (auto simp: slots_distinct_def place_def distinct_update)

lemma at_secPtr [simp]: "at (w\<lparr>secPtr := x\<rparr>) p i = at w p i"
  by (simp add: at_def split: layer.splits)

lemma at_index [simp]: "at (w\<lparr>index := x\<rparr>) p i = at w p i"
  by (simp add: at_def split: layer.splits)

lemma id_ok_place_other:
  "i \<noteq> ent_ID e \<Longrightarrow> id_ok T0 k (place l s e (w\<lparr>index := (index w)(ent_ID e := x)\<rparr>)) i = id_ok T0 k w i"
  by (auto simp: id_ok_def at_place split: option.splits)

lemma id_ok_place_same:
  assumes "\<forall>p. at w p (ent_ID e) = None" "0 \<le> s" "s < 60"
    and "l = MinutesLayer \<Longrightarrow> next_visit k (minPtr w) s \<le> expire_tick T0 e"
  shows "id_ok T0 k (place l s e w) (ent_ID e)"
  using assms by (auto simp: id_ok_def at_place)

lemma fire_tick_place:
  "fire_tick T0 k (place l s e w) i =
     (if i = ent_ID e
      then Some (entry_tick T0 k (secPtr w) l s e, Callback e)
      else fire_tick T0 k w i)"
  by (cases "index w i") (auto simp: fire_tick_def at_place)

lemma fire_tick_index_other:
  "i \<noteq> j \<Longrightarrow> fire_tick T0 k (w\<lparr>index := (index w)(j := x)\<rparr>) i = fire_tick T0 k w i"
  by (cases "index w i") (auto simp: fire_tick_def)

subsection \<open>Arithmetic of the pointers\<close>

lemma expire_shift: "(x - (T0 + k * time_Second)) div time_Second = (x - T0) div time_Second - k"
  using div_mult_self1 [of time_Second "x - T0" "- k"] by (simp add: time_Second_def algebra_simps)

lemma remaining:
  assumes "k \<le> expire_tick T0 e"
  shows "0 \<le> int_Seconds (time_sub (ExpireAt e) (T0 + k * time_Second))"
    and "int_Seconds (time_sub (ExpireAt e) (T0 + k * time_Second)) \<le> expire_tick T0 e - k"
    and "int_Seconds (time_sub (ExpireAt e) (T0 + k * time_Second)) < 60 \<Longrightarrow>
      int_Seconds (time_sub (ExpireAt e) (T0 + k * time_Second)) = expire_tick T0 e - k"
proof -
  let ?d = "ExpireAt e - (T0 + k * time_Second)"
  have q: "?d div time_Second = expire_tick T0 e - k" by (simp add: expire_shift expire_tick_def)
  with assms have "0 \<le> ?d" by (simp add: time_Second_def pos_imp_zdiv_nonneg_iff [symmetric])
  then have ts: "time_sub (ExpireAt e) (T0 + k * time_Second) = min max_duration ?d"
    by (simp add: time_sub_def min_duration_def max_duration_def)
  have i: "int_Seconds (min max_duration ?d) = min max_duration ?d div time_Second"
    using \<open>0 \<le> ?d\<close> by (simp add: int_Seconds_def go_div_nonneg max_duration_def time_Second_def)
  show "0 \<le> int_Seconds (time_sub (ExpireAt e) (T0 + k * time_Second))"
    unfolding ts i by (rule pos_imp_zdiv_nonneg_iff [THEN iffD2]) (use \<open>0 \<le> ?d\<close> in \<open>simp_all add: max_duration_def time_Second_def\<close>)
  show "int_Seconds (time_sub (ExpireAt e) (T0 + k * time_Second)) \<le> expire_tick T0 e - k"
    unfolding ts i q [symmetric] by (rule zdiv_mono1) (simp_all add: time_Second_def)
  show "int_Seconds (time_sub (ExpireAt e) (T0 + k * time_Second)) = expire_tick T0 e - k"
    if "int_Seconds (time_sub (ExpireAt e) (T0 + k * time_Second)) < 60"
    using that unfolding ts i q [symmetric] by (cases "?d \<le> max_duration") (simp_all add: max_duration_def time_Second_def min_def)
qed

lemma visit_le:
  assumes "1 \<le> n"
  shows "next_visit k mp ((mp + n) mod 60) \<le> 60 * (k div 60) + 60 * n"
proof -
  have "((mp + n) mod 60 - mp) mod 60 = n mod 60" by (simp add: mod_diff_left_eq)
  moreover have "n mod 60 \<le> n" "n mod 60 = 0 \<Longrightarrow> 60 \<le> n" using assms by (auto simp: zmod_le_nonneg_dividend zdvd_imp_le dvd_eq_mod_eq_0)
  ultimately show ?thesis by (simp add: next_visit_def Let_def algebra_simps)
qed

lemma mod_pred:
  fixes x :: int
  assumes "x mod 60 \<noteq> 0"
  shows "(x - 1) mod 60 = x mod 60 - 1"
proof -
  have "x - 1 = (x mod 60 - 1) + 60 * (x div 60)" by simp
  then have "(x - 1) mod 60 = (x mod 60 - 1) mod 60" by (metis mod_mult_self2)
  moreover have "0 \<le> x mod 60" "x mod 60 < 60" by simp_all
  ultimately show ?thesis using assms by simp
qed

lemma sec_offset:
  fixes s r :: int
  assumes "0 \<le> s" "s < 60" "0 \<le> r" "r < 60"
  shows "(s - r) mod 60 = 0 \<longleftrightarrow> s = r"
proof (cases "r \<le> s")
  case False
  have "(s - r) mod 60 = (s - r + 60) mod 60" by simp
  also have "\<dots> = s - r + 60" using assms False by (intro mod_pos_pos_trivial) auto
  finally show ?thesis using assms False by simp
qed (use assms in simp)

subsection \<open>The operations on the abstraction\<close>

lemma place_mid:
  assumes "secPtr w = k mod 60" "minPtr w = k div 60 mod 60" "slots_distinct w"
    and "\<forall>p. at w p (ent_ID e) = None" "\<forall>i. i \<noteq> ent_ID e \<longrightarrow> id_ok T0 k w i"
    and "0 \<le> s" "s < 60" "l = MinutesLayer \<Longrightarrow> next_visit k (minPtr w) s \<le> expire_tick T0 e"
  shows "wheel_mid T0 k (place l s e (w\<lparr>index := (index w)(ent_ID e := x)\<rparr>))"
proof -
  have d: "slots_distinct (w\<lparr>index := (index w)(ent_ID e := x)\<rparr>)" using assms(3) by (simp add: slots_distinct_def)
  have "id_ok T0 k (place l s e (w\<lparr>index := (index w)(ent_ID e := x)\<rparr>)) i" for i
    using id_ok_place_other [of i e] id_ok_place_same [of "w\<lparr>index := (index w)(ent_ID e := x)\<rparr>" e s l k T0] assms
    by (cases "i = ent_ID e") auto
  with distinct_place [OF d] assms show ?thesis by (simp add: wheel_mid_def)
qed

lemma AddAt_mid:
  assumes w: "wheel_ok T0 k w" and fresh: "index w eid = None"
    and now: "T0 + k * time_Second \<le> now" and add: "AddAt eid now fireAt cb w = Some w'"
    and sat: "fireAt - now \<le> max_duration"
  shows "wheel_ok T0 k w'" "index w' = (index w)(eid := index w' eid)"
    "fire_tick T0 k w' = (fire_tick T0 k w)(eid \<mapsto>
       (let n = max ((fireAt - now) div time_Second) 1
        in if n < 60 then k + n else (fireAt - T0) div time_Second, cb))"
proof -
  define e where "e = \<lparr>ent_ID = eid, Callback = cb, ExpireAt = fireAt\<rparr>"
  define n where "n = max ((fireAt - now) div time_Second) 1"
  have late: "now < fireAt" using add by (auto simp: AddAt_def split: if_splits)
  then have ts: "int_Seconds (time_sub fireAt now) = (fireAt - now) div time_Second"
    using sat by (simp add: int_Seconds_def time_sub_def go_div_nonneg min_duration_def max_duration_def time_Second_def)
  have n1: "1 \<le> n" by (simp add: n_def)
  have w': "w' = (if n < 60 then place SecondsLayer ((secPtr w + n) mod 60) e w
      else place MinutesLayer ((minPtr w + n div 60) mod 60) e w)"
    using add late unfolding AddAt_def ts Let_def n_def [symmetric] e_def [symmetric] wheelSize_def secondsPerMin_def by simp
  have mid: "secPtr w = k mod 60" "minPtr w = k div 60 mod 60" "slots_distinct w" "\<forall>i. id_ok T0 k w i"
    using w by (auto simp: wheel_ok_def wheel_mid_def)
  have "id_ok T0 k w eid" using mid(4) by blast
  then have none: "\<forall>p. at w p (ent_ID e) = None" using fresh by (simp add: id_ok_def e_def)
  have same: "w\<lparr>index := (index w)(ent_ID e := None)\<rparr> = w" using fresh by (simp add: e_def fun_upd_idem)
  note pm = place_mid [OF mid(1-3) none, of T0 _ _ None, unfolded same]
  have vis: "next_visit k (minPtr w) ((minPtr w + n div 60) mod 60) \<le> expire_tick T0 e" if "\<not> n < 60"
  proof -
    have nn: "n = (fireAt - now) div time_Second" using that by (simp add: n_def max_def split: if_splits)
    have "k + n = (fireAt - now + k * time_Second) div time_Second"
      by (simp add: nn time_Second_def)
    also have "\<dots> \<le> expire_tick T0 e"
      unfolding expire_tick_def by (rule zdiv_mono1) (use now in \<open>simp_all add: e_def time_Second_def\<close>)
    finally have "k + n \<le> expire_tick T0 e" .
    moreover have "next_visit k (minPtr w) ((minPtr w + n div 60) mod 60) \<le> 60 * (k div 60) + 60 * (n div 60)"
      using that by (intro visit_le) simp
    moreover have "60 * (k div 60) \<le> k" "60 * (n div 60) \<le> n" by simp_all
    ultimately show ?thesis by linarith
  qed
  have "wheel_mid T0 k w'"
    unfolding w' using pm [of _ SecondsLayer] pm [of _ MinutesLayer] mid(4) vis by auto
  moreover have "seconds w' (secPtr w') = []"
  proof -
    have "(k mod 60 + n) mod 60 \<noteq> k mod 60" if "n < 60"
      using sec_offset [of "(k mod 60 + n) mod 60" "k mod 60"] that n1 by (simp add: mod_diff_left_eq)
    then show ?thesis using w mid(1) by (auto simp: w' wheel_ok_def place_def)
  qed
  ultimately show "wheel_ok T0 k w'" by (simp add: wheel_ok_def)
  show "index w' = (index w)(eid := index w' eid)" by (auto simp: w' e_def)
  have "(((secPtr w + n) mod 60) - secPtr w) mod 60 = n mod 60" by (simp add: mod_diff_left_eq)
  then show "fire_tick T0 k w' = (fire_tick T0 k w)(eid \<mapsto>
       (let n = max ((fireAt - now) div time_Second) 1
        in if n < 60 then k + n else (fireAt - T0) div time_Second, cb))"
    using n1 unfolding n_def [symmetric] Let_def
    by (auto simp: w' fire_tick_place fun_eq_iff entry_tick_def expire_tick_def e_def)
qed

lemma at_Remove:
  "index w eid = Some (l, s) \<Longrightarrow> at (wheel_Remove eid w) p i = (if p = (l, s) \<and> i = eid then None else at w p i)"
  by (cases l; cases p; cases "fst p") (auto simp: at_def wheel_Remove_def delete_conv')

lemma Remove_mid:
  assumes "wheel_ok T0 k w"
  shows "wheel_ok T0 k (wheel_Remove eid w)" "fire_tick T0 k (wheel_Remove eid w) = (fire_tick T0 k w)(eid := None)"
proof -
  have id: "id_ok T0 k w eid" and others: "\<And>i. id_ok T0 k w i" and d: "slots_distinct w"
    using assms by (auto simp: wheel_ok_def wheel_mid_def)
  have at': "at (wheel_Remove eid w) p i = (if i = eid then None else at w p i)" for p i
  proof (cases "index w eid")
    case None
    with id show ?thesis by (cases p) (simp add: wheel_Remove_def id_ok_def)
  next
    case (Some q)
    with id show ?thesis by (cases q; cases p) (auto simp: at_Remove id_ok_def)
  qed
  have frame: "secPtr (wheel_Remove eid w) = secPtr w" "minPtr (wheel_Remove eid w) = minPtr w"
      "index (wheel_Remove eid w) = (index w)(eid := None)"
    by (auto simp: wheel_Remove_def fun_upd_idem split: option.splits layer.splits)
  have "slots_distinct (wheel_Remove eid w)"
    using d by (auto simp: wheel_Remove_def slots_distinct_def distinct_delete split: option.splits layer.splits)
  moreover have "id_ok T0 k (wheel_Remove eid w) i" for i
    using others [of i] by (cases "i = eid") (auto simp: id_ok_def at' frame split: option.splits)
  moreover have "seconds (wheel_Remove eid w) (secPtr w) = []"
    using assms by (auto simp: wheel_ok_def wheel_Remove_def split: option.splits layer.splits)
  ultimately show "wheel_ok T0 k (wheel_Remove eid w)" using assms by (simp add: wheel_ok_def wheel_mid_def frame)
  show "fire_tick T0 k (wheel_Remove eid w) = (fire_tick T0 k w)(eid := None)"
    by (auto simp: fire_tick_def frame at' fun_eq_iff split: option.splits)
qed

text \<open>The fold of \<open>cascade\<close>: the pending entries are in no slot any more and are placed one by one.\<close>

lemma cascade_entry_mid:
  assumes w: "secPtr w = k mod 60" "minPtr w = k div 60 mod 60" "slots_distinct w" and k: "k mod 60 = 0"
    and none: "\<forall>p. at w p (ent_ID e) = None" and due: "k \<le> expire_tick T0 e"
  defines "w' \<equiv> cascade_entry (T0 + k * time_Second) e w"
  shows "secPtr w' = secPtr w" "minPtr w' = minPtr w" "slots_distinct w'" "id_ok T0 k w' (ent_ID e)"
    "\<And>i. i \<noteq> ent_ID e \<Longrightarrow> id_ok T0 k w' i = id_ok T0 k w i"
    "\<And>i p. i \<noteq> ent_ID e \<Longrightarrow> at w' p i = at w p i"
    "fire_tick T0 k w' = (fire_tick T0 k w)(ent_ID e \<mapsto> (expire_tick T0 e, Callback e))"
proof -
  define r where "r = int_Seconds (time_sub (ExpireAt e) (T0 + k * time_Second))"
  note rem = remaining [OF due, folded r_def]
  define v where "v = w\<lparr>index := (index w)(ent_ID e := None)\<rparr>"
  obtain l s where pl: "w' = place l s e v" "0 \<le> s" "s < 60" "entry_tick T0 k (secPtr w) l s e = expire_tick T0 e"
      "l = MinutesLayer \<longrightarrow> next_visit k (minPtr w) s \<le> expire_tick T0 e"
  proof (cases "r < 60")
    case True
    then have "w' = place SecondsLayer (r mod 60) e v"
      using rem(1) w(1) k by (cases "r = 0")
        (simp_all add: w'_def cascade_entry_def Let_def r_def [symmetric] v_def wheelSize_def secondsPerMin_def)
    then show ?thesis using that [of SecondsLayer "r mod 60"] rem True w(1) k by (simp add: entry_tick_def)
  next
    case False
    then have "w' = place MinutesLayer ((minPtr w + r div 60) mod 60) e v"
      by (simp add: w'_def cascade_entry_def Let_def r_def [symmetric] v_def wheelSize_def secondsPerMin_def)
    moreover have "next_visit k (minPtr w) ((minPtr w + r div 60) mod 60) \<le> 60 * (k div 60) + 60 * (r div 60)"
      using False by (intro visit_le) simp
    moreover have "60 * (k div 60) \<le> k" "60 * (r div 60) \<le> r" by simp_all
    ultimately show ?thesis using that [of MinutesLayer "(minPtr w + r div 60) mod 60"] rem(2)
      by (simp add: entry_tick_def)
  qed
  have v: "secPtr v = secPtr w" "minPtr v = minPtr w" "slots_distinct v" "at v p i = at w p i" for p i
    using w(3) by (simp_all add: v_def slots_distinct_def)
  show "secPtr w' = secPtr w" "minPtr w' = minPtr w" "slots_distinct w'" by (simp_all add: pl(1) v distinct_place)
  show "id_ok T0 k w' (ent_ID e)" unfolding pl(1) using none pl by (intro id_ok_place_same) (simp_all add: v)
  show "id_ok T0 k w' i = id_ok T0 k w i" if "i \<noteq> ent_ID e" for i
    unfolding pl(1) v_def by (rule id_ok_place_other [OF that])
  show "at w' p i = at w p i" if "i \<noteq> ent_ID e" for i p using that by (simp add: pl(1) at_place v)
  show "fire_tick T0 k w' = (fire_tick T0 k w)(ent_ID e \<mapsto> (expire_tick T0 e, Callback e))"
    by (auto simp: fun_eq_iff pl(1) fire_tick_place v pl(4)) (simp add: v_def fire_tick_index_other)
qed

lemma cascade_fold:
  assumes "secPtr w = k mod 60" "minPtr w = k div 60 mod 60" "slots_distinct w" "k mod 60 = 0"
    and "distinct (map ent_ID es)" "\<forall>e\<in>set es. k \<le> expire_tick T0 e"
    and "\<forall>e\<in>set es. \<forall>p. at w p (ent_ID e) = None" "\<forall>i. i \<notin> ent_ID ` set es \<longrightarrow> id_ok T0 k w i"
  shows "wheel_mid T0 k (fold (cascade_entry (T0 + k * time_Second)) es w) \<and>
    (\<forall>i. i \<notin> ent_ID ` set es \<longrightarrow>
       fire_tick T0 k (fold (cascade_entry (T0 + k * time_Second)) es w) i = fire_tick T0 k w i) \<and>
    (\<forall>e\<in>set es. fire_tick T0 k (fold (cascade_entry (T0 + k * time_Second)) es w) (ent_ID e)
       = Some (expire_tick T0 e, Callback e))"
  using assms
proof (induction es arbitrary: w)
  case Nil
  then show ?case by (simp add: wheel_mid_def)
next
  case (Cons e es)
  let ?w = "cascade_entry (T0 + k * time_Second) e w"
  note c = cascade_entry_mid [OF Cons.prems(1-4), of e T0]
  have e: "\<forall>p. at w p (ent_ID e) = None" "k \<le> expire_tick T0 e" "ent_ID e \<notin> ent_ID ` set es"
    using Cons.prems by auto
  note c' = c [OF e(1,2)]
  have "\<forall>i. i \<notin> ent_ID ` set es \<longrightarrow> id_ok T0 k ?w i"
    using c'(4,5) Cons.prems(8) by (metis image_insert insertE list.simps(15))
  moreover have "\<forall>e'\<in>set es. \<forall>p. at ?w p (ent_ID e') = None"
    using c'(6) Cons.prems(7) e(3) by (metis image_eqI list.set_intros(2))
  ultimately show ?case
    using Cons.IH [of ?w] c'(1,2,3,7) Cons.prems e(3) by (auto simp: image_iff)
qed

lemma next_minute:
  fixes k :: int
  shows "(k + 1) mod 60 = 0 \<Longrightarrow> (k + 1) div 60 = k div 60 + 1 \<and> k + 1 = 60 * (k div 60 + 1)"
    and "(k + 1) mod 60 \<noteq> 0 \<Longrightarrow> (k + 1) div 60 = k div 60"
    and "(k + 1) mod 60 \<noteq> 0 \<Longrightarrow> (k + 1) mod 60 = k mod 60 + 1"
proof -
  define q r where qr: "q = k div 60" "r = k mod 60"
  have k: "k = 60 * q + r" "0 \<le> r" "r < 60" by (simp_all add: qr)
  have "(k + 1) div 60 = q + 1 \<and> (k + 1) mod 60 = 0 \<and> k + 1 = 60 * (q + 1) \<or>
      (k + 1) div 60 = q \<and> (k + 1) mod 60 = r + 1 \<and> 0 < r + 1"
  proof (cases "r = 59")
    case True
    then have k1: "k + 1 = 60 * (q + 1)" using k by simp
    have "(k + 1) div 60 = q + 1" "(k + 1) mod 60 = 0" unfolding k1 by simp_all
    with k1 show ?thesis by blast
  next
    case False
    then have k1: "k + 1 = 60 * q + (r + 1)" "0 \<le> r + 1" "r + 1 < 60" using k by auto
    have "(k + 1) mod 60 = r + 1"
      using mod_mult_self4 [of 60 q "r + 1"] k1(2,3) unfolding k1(1) by simp
    moreover have "(k + 1) div 60 = q"
      using div_mult_self4 [of 60 q "r + 1"] k1(2,3) unfolding k1(1) by simp
    ultimately show ?thesis using k(2) by simp
  qed
  then show "(k + 1) mod 60 = 0 \<Longrightarrow> (k + 1) div 60 = k div 60 + 1 \<and> k + 1 = 60 * (k div 60 + 1)"
    "(k + 1) mod 60 \<noteq> 0 \<Longrightarrow> (k + 1) div 60 = k div 60"
    "(k + 1) mod 60 \<noteq> 0 \<Longrightarrow> (k + 1) mod 60 = k mod 60 + 1"
    unfolding qr by auto
qed

lemma mod_pred_0: "(x::int) mod 60 = 0 \<Longrightarrow> (x - 1) mod 60 = 59"
proof -
  assume "x mod 60 = 0"
  then have x: "x - 1 = 59 + 60 * (x div 60 - 1)" by simp (metis mod_0_imp_dvd dvd_mult_div_cancel)
  show ?thesis unfolding x mod_mult_self2 by simp
qed

lemma visit_next_minute:
  assumes "0 \<le> s" "s < 60" "(k + 1) mod 60 = 0" "s \<noteq> (mp + 1) mod 60"
  shows "next_visit (k + 1) ((mp + 1) mod 60) s = next_visit k mp s"
proof -
  have d: "(s - (mp + 1) mod 60) mod 60 = (s - mp - 1) mod 60" by (simp add: mod_diff_right_eq diff_diff_eq)
  have nz: "(s - (mp + 1) mod 60) mod 60 \<noteq> 0"
    using sec_offset [of s "(mp + 1) mod 60"] assms by simp
  show ?thesis
    using mod_pred [of "s - mp"] mod_pred_0 [of "s - mp"] d nz next_minute(1) [OF assms(3)]
    by (cases "(s - mp) mod 60 = 0") (simp_all add: next_visit_def Let_def)
qed

lemma visit_same_minute: "(k + 1) mod 60 \<noteq> 0 \<Longrightarrow> next_visit (k + 1) mp s = next_visit k mp s"
  by (simp add: next_visit_def next_minute(2))

lemma visit_next:
  assumes "(k + 1) mod 60 = 0"
  shows "next_visit k mp ((mp + 1) mod 60) = k + 1"
proof -
  have "((mp + 1) mod 60 - mp) mod 60 = 1" by (simp add: mod_diff_left_eq)
  then show ?thesis using next_minute(1) [OF assms] by (simp add: next_visit_def)
qed

lemma visit_later: "k < next_visit k mp s"
proof -
  have "1 \<le> (let j = (s - mp) mod 60 in if j = 0 then 60 else j)" by (simp add: Let_def) (metis add.left_neutral linorder_not_less zle_add1_eq_le pos_mod_sign order_le_less zero_less_numeral)
  moreover have "k < 60 * (k div 60) + 60" using div_bounds(2) [of 60 k] by simp
  ultimately show ?thesis unfolding next_visit_def by (simp add: distrib_left)
qed

text \<open>Advancing the pointers by one tick changes no entry's firing tick.\<close>

lemma at_minutes: "at (w\<lparr>minutes := (minutes w)(s := [])\<rparr>) p i = (if p = (MinutesLayer, s) then None else at w p i)"
  by (cases p; cases "fst p") (auto simp: at_def)

lemma entry_tick_next:
  assumes "0 \<le> s" "s < 60" "l = SecondsLayer \<longrightarrow> s \<noteq> k mod 60"
  shows "entry_tick T0 (k + 1) ((k + 1) mod 60) l s e = entry_tick T0 k (k mod 60) l s e"
proof (cases l)
  case SecondsLayer
  have "(s - (k + 1) mod 60) mod 60 = (s - k mod 60 - 1) mod 60"
    by (metis diff_diff_eq mod_add_left_eq mod_diff_right_eq)
  moreover have "(s - k mod 60) mod 60 \<noteq> 0" using sec_offset [of s "k mod 60"] assms SecondsLayer by simp
  ultimately show ?thesis using mod_pred [of "s - k mod 60"] SecondsLayer by (simp add: entry_tick_def)
qed (simp add: entry_tick_def)

lemma not_at_ptr:
  assumes "wheel_ok T0 k w" "index w i = Some (l, s)"
  shows "l = SecondsLayer \<longrightarrow> s \<noteq> k mod 60" "0 \<le> s" "s < 60"
  using assms by (auto simp: wheel_ok_def wheel_mid_def id_ok_def at_def split: option.splits dest!: spec [of _ i])

lemma advance_plain:
  assumes w: "wheel_ok T0 k w" and k: "(k + 1) mod 60 \<noteq> 0"
  shows "wheel_mid T0 (k + 1) (advance_ptr now w) \<and> fire_tick T0 (k + 1) (advance_ptr now w) = fire_tick T0 k w"
proof -
  let ?w = "w\<lparr>secPtr := (secPtr w + 1) mod 60\<rparr>"
  have mid: "secPtr w = k mod 60" "minPtr w = k div 60 mod 60" "slots_distinct w" "\<And>i. id_ok T0 k w i"
    using w by (auto simp: wheel_ok_def wheel_mid_def)
  have sp: "(secPtr w + 1) mod 60 = (k + 1) mod 60" by (simp add: mid(1) mod_add_left_eq)
  then have adv: "advance_ptr now w = ?w" using k by (simp add: advance_ptr_def wheelSize_def)
  have "id_ok T0 (k + 1) ?w i" for i
    using mid(4) [of i] by (auto simp: id_ok_def visit_same_minute [OF k] split: option.splits)
  then have "wheel_mid T0 (k + 1) ?w"
    using mid sp k by (simp add: wheel_mid_def slots_distinct_def next_minute(2))
  moreover have "fire_tick T0 (k + 1) ?w i = fire_tick T0 k w i" for i
  proof (cases "index w i")
    case (Some q)
    then show ?thesis
      using not_at_ptr [OF w, of i] sp mid(1)
      by (cases q) (simp add: fire_tick_def entry_tick_next)
  qed (simp add: fire_tick_def)
  ultimately show ?thesis unfolding adv by blast
qed

lemma advance_minute:
  fixes w :: "'cb wheel"
  assumes w: "wheel_ok T0 k w" and k: "(k + 1) mod 60 = 0"
  shows "wheel_mid T0 (k + 1) (advance_ptr (T0 + (k + 1) * time_Second) w) \<and>
    fire_tick T0 (k + 1) (advance_ptr (T0 + (k + 1) * time_Second) w) = fire_tick T0 k w"
proof -
  have mid: "secPtr w = k mod 60" "minPtr w = k div 60 mod 60" "slots_distinct w" "\<And>i. id_ok T0 k w i"
    using w by (auto simp: wheel_ok_def wheel_mid_def)
  let ?m = "(minPtr w + 1) mod 60" and ?now = "T0 + (k + 1) * time_Second"
  let ?v = "w\<lparr>secPtr := 0, minPtr := (minPtr w + 1) mod 60, minutes := (minutes w)((minPtr w + 1) mod 60 := [])\<rparr>"
  let ?es = "map snd (minutes w ?m)"
  have sp: "(secPtr w + 1) mod 60 = 0" using k by (simp add: mid(1) mod_add_left_eq)
  have mp: "?m = (k + 1) div 60 mod 60" using next_minute(1) [OF k] by (simp add: mid(2) mod_add_left_eq)
  have adv: "advance_ptr ?now w = fold (cascade_entry ?now) ?es ?v"
    by (simp add: advance_ptr_def cascade_def sp wheelSize_def)
  have at: "at ?v p i = (if p = (MinutesLayer, ?m) then None else at w p i)" for p i
    by (cases p; cases "fst p") (auto simp: at_def)
  have dist: "distinct (map fst (minutes w ?m))" using mid(3) by (simp add: slots_distinct_def)
  have es: "index w i = Some (MinutesLayer, ?m) \<and> ent_ID e = i \<and> at w (MinutesLayer, ?m) i = Some e \<and> k + 1 \<le> expire_tick T0 e"
    if "(i, e) \<in> set (minutes w ?m)" for i e
  proof -
    have a: "at w (MinutesLayer, ?m) i = Some e" using that dist by (simp add: at_def)
    with mid(4) [of i] have "index w i = Some (MinutesLayer, ?m)" using id_ok_index by blast
    with a mid(4) [of i] show ?thesis by (auto simp: id_ok_def visit_next [OF k])
  qed
  have ids: "map ent_ID ?es = map fst (minutes w ?m)" using es by (auto simp: comp_def)
  have pend: "i \<in> ent_ID ` set ?es \<longleftrightarrow> index w i = Some (MinutesLayer, ?m)" for i
  proof
    assume "index w i = Some (MinutesLayer, ?m)"
    with mid(4) [of i] obtain e where "at w (MinutesLayer, ?m) i = Some e" by (auto simp: id_ok_def)
    then have "i \<in> set (map fst (minutes w ?m))" by (force simp: at_def dest: map_of_SomeD)
    then show "i \<in> ent_ID ` set ?es" by (metis ids list.set_map)
  qed (use es in force)
  have idv: "id_ok T0 (k + 1) ?v i" if "i \<notin> ent_ID ` set ?es" for i
    using mid(4) [of i] that pend [of i] visit_next_minute [OF _ _ k]
    by (auto simp: id_ok_def at split: option.splits)
  have nowhere: "\<forall>e\<in>set ?es. \<forall>p. at ?v p (ent_ID e) = None"
  proof (intro ballI allI)
    fix e p
    assume "e \<in> set ?es"
    then have "index w (ent_ID e) = Some (MinutesLayer, ?m)" using es by auto
    then show "at ?v p (ent_ID e) = None"
      using id_ok_index [OF mid(4), where p = p] by (cases "at w p (ent_ID e)") (auto simp: at)
  qed
  have due: "\<forall>e\<in>set ?es. k + 1 \<le> expire_tick T0 e" using es by auto
  have v: "secPtr ?v = (k + 1) mod 60" "minPtr ?v = (k + 1) div 60 mod 60" "slots_distinct ?v"
    using mid(3) mp k by (simp_all add: slots_distinct_def)
  have de: "distinct (map ent_ID ?es)" unfolding ids by (rule dist)
  note fold = cascade_fold [OF v k de due nowhere, OF allI [OF impI], OF idv]
  have c: "wheel_mid T0 (k + 1) (advance_ptr ?now w)"
    "\<And>i. i \<notin> ent_ID ` set ?es \<Longrightarrow> fire_tick T0 (k + 1) (advance_ptr ?now w) i = fire_tick T0 (k + 1) ?v i"
    "\<And>e. e \<in> set ?es \<Longrightarrow> fire_tick T0 (k + 1) (advance_ptr ?now w) (ent_ID e) = Some (expire_tick T0 e, Callback e)"
    using fold unfolding adv by blast+
  have "fire_tick T0 (k + 1) (advance_ptr ?now w) i = fire_tick T0 k w i" for i
  proof (cases "i \<in> ent_ID ` set ?es")
    case True
    then obtain e where e: "e \<in> set ?es" "i = ent_ID e" by blast
    then have "(i, e) \<in> set (minutes w ?m)" using es by force
    from es [OF this] have "index w i = Some (MinutesLayer, ?m)" "at w (MinutesLayer, ?m) i = Some e" by simp_all
    then have "fire_tick T0 k w i = Some (expire_tick T0 e, Callback e)" by (simp add: fire_tick_def entry_tick_def)
    with c(3) [OF e(1)] e(2) show ?thesis by simp
  next
    case False
    show ?thesis
    proof (cases "index w i")
      case (Some q)
      then obtain l s where q: "index w i = Some (l, s)" "(l, s) \<noteq> (MinutesLayer, ?m)"
        using False pend [of i] by (cases q) simp
      have "fire_tick T0 (k + 1) ?v i = fire_tick T0 k w i"
      proof -
        have "entry_tick T0 (k + 1) 0 l s e = entry_tick T0 k (secPtr w) l s e" for e :: "'cb tentry"
          using entry_tick_next [of s l k T0 e] not_at_ptr [OF w q(1)] mid(1) k by simp
        then show ?thesis using q by (auto simp: fire_tick_def at)
      qed
      with c(2) [OF False] show ?thesis by simp
    qed (use c(2) [OF False] in \<open>simp add: fire_tick_def\<close>)
  qed
  with c(1) show ?thesis by blast
qed

lemma fold_forget:
  "fold (\<lambda>(i, e) ix. ix(i := None)) xs ix i = (if i \<in> fst ` set xs then None else ix i)"
  by (induction xs arbitrary: ix) auto

lemma collect_index:
  "index (fst (collect w)) i = (if i \<in> fst ` set (seconds w (secPtr w)) then None else index w i)"
  by (simp add: collect_def fold_forget)

lemma at_collect: "at (fst (collect w)) p i = (if p = (SecondsLayer, secPtr w) then None else at w p i)"
  by (cases p; cases "fst p") (auto simp: at_def collect_def)

lemma collect_mid:
  assumes w: "wheel_mid T0 k w"
  shows "wheel_ok T0 k (fst (collect w))"
    "fire_tick T0 k (fst (collect w)) i = (case fire_tick T0 k w i of Some (f, cb) \<Rightarrow> if f = k then None else Some (f, cb) | None \<Rightarrow> None)"
    "(\<exists>e\<in>set (snd (collect w)). ent_ID e = i \<and> Callback e = cb) \<longleftrightarrow> fire_tick T0 k w i = Some (k, cb)"
    "distinct (map ent_ID (snd (collect w)))"
    "fire_tick T0 k w i = Some (f, cb) \<Longrightarrow> k \<le> f"
proof -
  let ?s = "secPtr w" and ?w = "fst (collect w)"
  have mid: "?s = k mod 60" "minPtr w = k div 60 mod 60" "slots_distinct w" "\<And>i. id_ok T0 k w i"
    using w by (auto simp: wheel_mid_def)
  have dist: "distinct (map fst (seconds w ?s))" using mid(3) by (simp add: slots_distinct_def)
  have slot: "(j, e) \<in> set (seconds w ?s) \<longleftrightarrow> at w (SecondsLayer, ?s) j = Some e" for j e
    using dist by (simp add: at_def)
  have mem: "j \<in> fst ` set (seconds w ?s) \<longleftrightarrow> index w j = Some (SecondsLayer, ?s)" for j
  proof
    assume "j \<in> fst ` set (seconds w ?s)"
    then show "index w j = Some (SecondsLayer, ?s)" using slot id_ok_index [OF mid(4)] by fastforce
  next
    assume "index w j = Some (SecondsLayer, ?s)"
    with mid(4) [of j] obtain e where "at w (SecondsLayer, ?s) j = Some e" by (auto simp: id_ok_def)
    then have "(j, e) \<in> set (seconds w ?s)" by (simp add: slot)
    then show "j \<in> fst ` set (seconds w ?s)" by force
  qed
  have ix: "index ?w j = (if index w j = Some (SecondsLayer, ?s) then None else index w j)" for j
    by (simp add: collect_index mem)
  have frame: "secPtr ?w = ?s" "minPtr ?w = minPtr w" "seconds ?w ?s = []" by (simp_all add: collect_def)
  have "id_ok T0 k ?w j" for j
    using mid(4) [of j] by (auto simp: id_ok_def at_collect ix frame split: option.splits)
  moreover have "slots_distinct ?w" using mid(3) by (simp add: slots_distinct_def collect_def)
  ultimately show "wheel_ok T0 k ?w" using mid(1,2) frame by (simp add: wheel_ok_def wheel_mid_def)
  have ft: "fire_tick T0 k w i = Some (f, c) \<longleftrightarrow>
      (\<exists>l s e. index w i = Some (l, s) \<and> at w (l, s) i = Some e \<and> f = entry_tick T0 k ?s l s e \<and> c = Callback e)" for f c
    by (cases "index w i") (auto simp: fire_tick_def)
  have now: "entry_tick T0 k ?s l s e = k \<longleftrightarrow> l = SecondsLayer \<and> s = ?s" "k \<le> entry_tick T0 k ?s l s e"
    if "index w i = Some (l, s)" "at w (l, s) i = Some e" for l s e
    using mid(4) [of i] that visit_later [of k "minPtr w" s] sec_offset [of s ?s]
    by (cases l; auto simp: id_ok_def entry_tick_def mid(1))+
  show "fire_tick T0 k w i = Some (f, cb) \<Longrightarrow> k \<le> f" using now(2) by (auto simp: ft)
  show "fire_tick T0 k ?w i = (case fire_tick T0 k w i of Some (f, cb) \<Rightarrow> if f = k then None else Some (f, cb) | None \<Rightarrow> None)"
  proof (cases "index w i")
    case None
    then show ?thesis by (simp add: fire_tick_def ix)
  next
    case (Some q)
    obtain l s where q: "q = (l, s)" by (cases q)
    then obtain e where e: "at w (l, s) i = Some e" using Some mid(4) [of i] by (auto simp: id_ok_def)
    show ?thesis using now(1) [of l s e] Some q e by (simp add: fire_tick_def ix at_collect frame)
  qed
  have "(\<exists>e\<in>set (snd (collect w)). ent_ID e = i \<and> Callback e = cb) \<longleftrightarrow>
      (\<exists>e. at w (SecondsLayer, ?s) i = Some e \<and> Callback e = cb)"
    using slot id_ok_index [OF mid(4)] by (force simp: collect_def)
  also have "\<dots> \<longleftrightarrow> fire_tick T0 k w i = Some (k, cb)"
  proof
    assume "\<exists>e. at w (SecondsLayer, ?s) i = Some e \<and> Callback e = cb"
    then obtain e where e: "at w (SecondsLayer, ?s) i = Some e" "Callback e = cb" by blast
    then show "fire_tick T0 k w i = Some (k, cb)"
      using id_ok_index [OF mid(4) e(1)] by (simp add: fire_tick_def entry_tick_def)
  next
    assume "fire_tick T0 k w i = Some (k, cb)"
    then obtain l s e where e: "index w i = Some (l, s)" "at w (l, s) i = Some e" "k = entry_tick T0 k ?s l s e" "cb = Callback e"
      unfolding ft by blast
    with now(1) [OF e(1,2)] show "\<exists>e. at w (SecondsLayer, ?s) i = Some e \<and> Callback e = cb" by auto
  qed
  finally show "(\<exists>e\<in>set (snd (collect w)). ent_ID e = i \<and> Callback e = cb) \<longleftrightarrow> fire_tick T0 k w i = Some (k, cb)" .
  have "map ent_ID (snd (collect w)) = map fst (seconds w ?s)"
    using slot id_ok_index [OF mid(4)] by (force simp: collect_def)
  with dist show "distinct (map ent_ID (snd (collect w)))" by simp
qed

lemma tick_mid:
  assumes "wheel_ok T0 k w"
  defines "r \<equiv> tick (T0 + (k + 1) * time_Second) w"
  shows "wheel_ok T0 (k + 1) (fst r)"
    "fire_tick T0 (k + 1) (fst r) i =
       (case fire_tick T0 k w i of Some (f, cb) \<Rightarrow> if f = k + 1 then None else Some (f, cb) | None \<Rightarrow> None)"
    "(\<exists>e\<in>set (snd r). ent_ID e = i \<and> Callback e = cb) \<longleftrightarrow> fire_tick T0 k w i = Some (k + 1, cb)"
    "distinct (map ent_ID (snd r))"
    "fire_tick T0 k w i = Some (f, cb) \<Longrightarrow> k < f"
proof -
  let ?v = "advance_ptr (T0 + (k + 1) * time_Second) w"
  have v: "wheel_mid T0 (k + 1) ?v" "fire_tick T0 (k + 1) ?v = fire_tick T0 k w"
    using advance_plain [OF assms(1)] advance_minute [OF assms(1)] by blast+
  note c = collect_mid [OF v(1), unfolded v(2)]
  show "wheel_ok T0 (k + 1) (fst r)" "distinct (map ent_ID (snd r))" using c(1,4) by (simp_all add: r_def tick_def)
  show "fire_tick T0 (k + 1) (fst r) i =
       (case fire_tick T0 k w i of Some (f, cb) \<Rightarrow> if f = k + 1 then None else Some (f, cb) | None \<Rightarrow> None)"
    using c(2) by (simp add: r_def tick_def)
  show "(\<exists>e\<in>set (snd r). ent_ID e = i \<and> Callback e = cb) \<longleftrightarrow> fire_tick T0 k w i = Some (k + 1, cb)"
    using c(3) by (simp add: r_def tick_def)
  show "fire_tick T0 k w i = Some (f, cb) \<Longrightarrow> k < f" using c(5) [of i f cb] by simp
qed

subsection \<open>The interface: a timer queue\<close>

text \<open>
  What a client of a wheel relies on: a queue of timers, each with the number of the tick at which it
  fires. A tick takes out exactly the timers whose number it has and leaves the others alone.
\<close>

fun ticks :: "(int \<Rightarrow> 'w \<Rightarrow> 'w \<times> 'e list) \<Rightarrow> int \<Rightarrow> nat \<Rightarrow> 'w \<Rightarrow> 'e list list" where
  "ticks step k 0 w = []"
| "ticks step k (Suc n) w = snd (step (k + 1) w) # ticks step (k + 1) n (fst (step (k + 1) w))"

locale timer_queue =
  fixes ok :: "int \<Rightarrow> 'w \<Rightarrow> bool"
    and sched :: "int \<Rightarrow> 'w \<Rightarrow> int \<rightharpoonup> int \<times> 'cb"
    and step :: "int \<Rightarrow> 'w \<Rightarrow> 'w \<times> 'e list"
    and ident :: "'e \<Rightarrow> int"
    and call :: "'e \<Rightarrow> 'cb"
  assumes step_ok: "ok k w \<Longrightarrow> ok (k + 1) (fst (step (k + 1) w))"
    and step_sched: "ok k w \<Longrightarrow> sched (k + 1) (fst (step (k + 1) w)) i =
      (case sched k w i of Some (f, cb) \<Rightarrow> if f = k + 1 then None else Some (f, cb) | None \<Rightarrow> None)"
    and step_fires: "ok k w \<Longrightarrow> (\<exists>e\<in>set (snd (step (k + 1) w)). ident e = i \<and> call e = cb) \<longleftrightarrow> sched k w i = Some (k + 1, cb)"
    and pending: "ok k w \<Longrightarrow> sched k w i = Some (f, cb) \<Longrightarrow> k < f"
begin

lemma none_never_fires:
  "ok k w \<Longrightarrow> sched k w i = None \<Longrightarrow> m < n \<Longrightarrow> e \<in> set (ticks step k n w ! m) \<Longrightarrow> ident e \<noteq> i"
proof (induction n arbitrary: k w m)
  case (Suc n)
  show ?case
  proof (cases m)
    case 0
    with Suc.prems step_fires [OF Suc.prems(1), of i "call e"] show ?thesis by auto
  next
    case (Suc m')
    with Suc.prems Suc.IH [OF step_ok [OF Suc.prems(1)], of m'] step_sched [OF Suc.prems(1), of i] show ?thesis by simp
  qed
qed simp

lemma fires_once:
  "ok k w \<Longrightarrow> sched k w i = Some (f, cb) \<Longrightarrow> m < n \<Longrightarrow>
   (\<exists>e\<in>set (ticks step k n w ! m). ident e = i \<and> call e = c) \<longleftrightarrow> k + 1 + int m = f \<and> c = cb"
proof (induction n arbitrary: k w m)
  case (Suc n)
  note s = step_sched [OF Suc.prems(1), of i] and f = step_fires [OF Suc.prems(1), of i c]
    and ok' = step_ok [OF Suc.prems(1)]
  show ?case
  proof (cases m)
    case 0
    with f Suc.prems(2) show ?thesis by auto
  next
    case (Suc m')
    show ?thesis
    proof (cases "f = k + 1")
      case True
      with s Suc.prems(2) have "sched (k + 1) (fst (step (k + 1) w)) i = None" by simp
      from none_never_fires [OF ok' this, of m' n] Suc Suc.prems(3) True show ?thesis by fastforce
    next
      case False
      with s Suc.prems(2) have "sched (k + 1) (fst (step (k + 1) w)) i = Some (f, cb)" by simp
      from Suc.IH [OF ok' this, of m'] Suc Suc.prems(3) show ?thesis by (simp add: algebra_simps)
    qed
  qed
qed simp

end

text \<open>The wheel, ticking at whole seconds after \<open>T0\<close>, is such a queue.\<close>

definition wheel_step :: "gotime \<Rightarrow> int \<Rightarrow> 'cb wheel \<Rightarrow> 'cb wheel \<times> 'cb tentry list" where
  "wheel_step T0 k w = tick (T0 + k * time_Second) w"

interpretation tw: timer_queue "wheel_ok T0" "fire_tick T0" "wheel_step T0" ent_ID Callback for T0
  unfolding wheel_step_def by unfold_locales (fact tick_mid(1,2,3,5))+

subsection \<open>Reachable wheels\<close>

inductive wheel_reach :: "gotime \<Rightarrow> int \<Rightarrow> 'cb wheel \<Rightarrow> bool" for T0 where
  wheel_init: "wheel_reach T0 0 empty_wheel"
| wheel_add: "wheel_reach T0 k w \<Longrightarrow> index w eid = None \<Longrightarrow> T0 + k * time_Second \<le> now \<Longrightarrow>
    fireAt \<le> now + max_duration \<Longrightarrow> AddAt eid now fireAt cb w = Some w' \<Longrightarrow> wheel_reach T0 k w'"
| wheel_remove: "wheel_reach T0 k w \<Longrightarrow> wheel_reach T0 k (wheel_Remove eid w)"
| wheel_tick: "wheel_reach T0 k w \<Longrightarrow> wheel_reach T0 (k + 1) (fst (wheel_step T0 (k + 1) w))"

lemma wheel_reach_ok: "wheel_reach T0 k w \<Longrightarrow> wheel_ok T0 k w"
proof (induction rule: wheel_reach.induct)
  case wheel_init
  show ?case by (auto simp: wheel_ok_def wheel_mid_def empty_wheel_def slots_distinct_def id_ok_def at_def split: layer.splits)
next
  case (wheel_add k w eid now fireAt cb w')
  then show ?case by (intro AddAt_mid(1) [of T0 k w eid now fireAt cb w']) auto
next
  case (wheel_remove k w eid)
  then show ?case by (simp add: Remove_mid(1))
next
  case (wheel_tick k w)
  then show ?case by (simp add: tw.step_ok)
qed

lemma fires_within:
  assumes "T0 + k * time_Second \<le> now" "now < T0 + (k + 1) * time_Second" "now < fireAt"
  defines "f \<equiv> (let n = max ((fireAt - now) div time_Second) 1 in if n < 60 then k + n else (fireAt - T0) div time_Second)"
  shows "fireAt - 2 * time_Second < T0 + f * time_Second \<and> T0 + f * time_Second < fireAt + time_Second"
proof -
  define d q where dq: "d = (fireAt - now) div time_Second" "q = (fireAt - T0) div time_Second"
  have pos: "0 < time_Second" by (simp add: time_Second_def)
  have d: "time_Second * d \<le> fireAt - now" "fireAt - now < time_Second * d + time_Second"
    and q: "time_Second * q \<le> fireAt - T0" "fireAt - T0 < time_Second * q + time_Second"
    using div_bounds [OF pos] by (simp_all add: dq)
  have "0 \<le> d" unfolding dq using assms(3) pos by (simp add: pos_imp_zdiv_nonneg_iff)
  have f: "f = (if max d 1 < 60 then k + max d 1 else q)" by (simp add: f_def dq Let_def)
  show ?thesis
  proof (cases "max d 1 < 60")
    case True
    then have T: "T0 + f * time_Second = T0 + k * time_Second + time_Second * max d 1" by (simp add: f distrib_right distrib_left mult.commute)
    show ?thesis
    proof (cases "d = 0")
      case True
      with T d assms(1-3) show ?thesis by (simp add: distrib_right)
    next
      case False
      with \<open>0 \<le> d\<close> have "max d 1 = d" by simp
      with T d assms(1-3) show ?thesis by (simp add: distrib_right)
    qed
  next
    case False
    with q show ?thesis by (simp add: f mult.commute time_Second_def)
  qed
qed

subsection \<open>Properties\<close>


text \<open>An entry two minutes ahead, on the minutes wheel.\<close>

definition two_minutes :: "string wheel" where
  "two_minutes = the (AddAt 7 (60 * time_Second) (185 * time_Second) ''cb'' empty_wheel)"

lemma two_minutes:
  "AddAt 7 (60 * time_Second) (185 * time_Second) ''cb'' empty_wheel = Some two_minutes" "index two_minutes 7 = Some (MinutesLayer, 2)"
  by (simp_all add: two_minutes_def AddAt_def int_Seconds_def go_div_nonneg time_sub_def time_defs Let_def secondsPerMin_def
      wheelSize_def empty_wheel_def)

lemma two_minutes_reach: "wheel_reach (60 * time_Second) 0 two_minutes"
  by (rule wheel_add [OF wheel_init _ _ _ two_minutes(1)]) (simp_all add: empty_wheel_def time_defs)




text \<open>
  A callback can fire almost two seconds early: one asked for in 1.99 s, 10 ms before a tick,
  fires at that tick, since the delay is cut down to whole seconds and counted from the last tick.
\<close>

theorem wheel_fires_early:
  "map_option (\<lambda>w. map (map ent_ID) (ticks (wheel_step 0) 0 3 w))
     (AddAt 7 (990 * time_Millisecond) (2980 * time_Millisecond) ''cb'' empty_wheel) = Some [[7], [], []]"
  by code_simp

end
