(* ===== verification/CircuitBreaker.thy ===== *)
theory CircuitBreaker
  imports Prelude
begin

text \<open>
  The three-state circuit breaker, \<^verbatim>\<open>pkg/circuitbreaker\<close>. Every method holds the mutex, so each
  is a function on the state; \<^verbatim>\<open>time.Now()\<close> is an argument.
\<close>

datatype State = StateClosed | StateOpen | StateHalfOpen

definition State_String :: "State \<Rightarrow> string" where
  "State_String s = (case s of StateClosed \<Rightarrow> ''closed'' | StateOpen \<Rightarrow> ''open'' | StateHalfOpen \<Rightarrow> ''half_open'')"

record Config =
  FailureThreshold :: int
  Cooldown :: duration
  HalfOpenMax :: int

record breaker =
  config :: Config
  state :: State
  failureCount :: int
  lastFailureTime :: gotime
  halfOpenPassed :: int

definition New_breaker :: "Config \<Rightarrow> breaker" where
  "New_breaker cfg =
     (let cfg = (if FailureThreshold cfg \<le> 0 then cfg\<lparr>FailureThreshold := 5\<rparr> else cfg);
          cfg = (if Cooldown cfg \<le> 0 then cfg\<lparr>Cooldown := 30 * time_Second\<rparr> else cfg);
          cfg = (if HalfOpenMax cfg \<le> 0 then cfg\<lparr>HalfOpenMax := 1\<rparr> else cfg)
      in \<lparr>config = cfg, state = StateClosed, failureCount = 0, lastFailureTime = zero_time, halfOpenPassed = 0\<rparr>)"

definition Allow :: "gotime \<Rightarrow> breaker \<Rightarrow> bool \<times> breaker" where
  "Allow now cb =
     (case state cb of
        StateClosed \<Rightarrow> (True, cb)
      | StateOpen \<Rightarrow>
          if time_sub now (lastFailureTime cb) \<ge> Cooldown (config cb)
          then (True, cb\<lparr>state := StateHalfOpen, halfOpenPassed := 1\<rparr>)
          else (False, cb)
      | StateHalfOpen \<Rightarrow>
          if halfOpenPassed cb < HalfOpenMax (config cb)
          then (True, cb\<lparr>halfOpenPassed := halfOpenPassed cb + 1\<rparr>)
          else (False, cb))"

definition RecordSuccess :: "breaker \<Rightarrow> breaker" where
  "RecordSuccess cb = cb\<lparr>failureCount := 0, halfOpenPassed := 0, state := StateClosed\<rparr>"

definition RecordFailure :: "gotime \<Rightarrow> breaker \<Rightarrow> breaker" where
  "RecordFailure now cb =
     (let cb = cb\<lparr>lastFailureTime := now\<rparr>
      in case state cb of
           StateHalfOpen \<Rightarrow> cb\<lparr>state := StateOpen, failureCount := FailureThreshold (config cb), halfOpenPassed := 0\<rparr>
         | StateClosed \<Rightarrow>
             let cb = cb\<lparr>failureCount := failureCount cb + 1\<rparr>
             in if failureCount cb \<ge> FailureThreshold (config cb)
                then cb\<lparr>state := StateOpen, halfOpenPassed := 0\<rparr> else cb
         | StateOpen \<Rightarrow> cb)"

subsection \<open>Reachable breakers\<close>

datatype breaker_op = OpAllow gotime | OpSuccess | OpFailure gotime

fun breaker_do :: "breaker_op \<Rightarrow> breaker \<Rightarrow> breaker" where
  "breaker_do (OpAllow now) cb = snd (Allow now cb)"
| "breaker_do OpSuccess cb = RecordSuccess cb"
| "breaker_do (OpFailure now) cb = RecordFailure now cb"

inductive breaker_reach :: "breaker \<Rightarrow> bool" where
  brk_New: "breaker_reach (New_breaker cfg)"
| brk_op: "breaker_reach cb \<Longrightarrow> breaker_reach (breaker_do opn cb)"

definition breaker_ok :: "breaker \<Rightarrow> bool" where
  "breaker_ok cb \<longleftrightarrow>
     0 < FailureThreshold (config cb) \<and> 0 < Cooldown (config cb) \<and> 0 < HalfOpenMax (config cb) \<and>
     (case state cb of
        StateClosed \<Rightarrow> 0 \<le> failureCount cb \<and> failureCount cb < FailureThreshold (config cb) \<and> halfOpenPassed cb = 0
      | StateOpen \<Rightarrow> failureCount cb = FailureThreshold (config cb) \<and> halfOpenPassed cb = 0
      | StateHalfOpen \<Rightarrow> failureCount cb = FailureThreshold (config cb) \<and>
          1 \<le> halfOpenPassed cb \<and> halfOpenPassed cb \<le> HalfOpenMax (config cb))"

lemma breaker_ok_do: "breaker_ok cb \<Longrightarrow> breaker_ok (breaker_do opn cb)"
  by (cases opn; cases "state cb")
    (auto simp: breaker_ok_def Allow_def RecordSuccess_def RecordFailure_def Let_def)

lemma reach_breaker_ok: "breaker_reach cb \<Longrightarrow> breaker_ok cb"
proof (induction rule: breaker_reach.induct)
  case (brk_New cfg)
  show ?case by (auto simp: breaker_ok_def New_breaker_def Let_def time_defs)
qed (rule breaker_ok_do)

text \<open>A sequence of calls of \<open>Allow\<close> with nothing recorded in between: what was admitted.\<close>

fun allows :: "gotime list \<Rightarrow> breaker \<Rightarrow> bool list \<times> breaker" where
  "allows [] cb = ([], cb)"
| "allows (now # ts) cb =
     (let (a, cb1) = Allow now cb; (as, cb2) = allows ts cb1 in (a # as, cb2))"

lemma allows_half_open:
  "state cb = StateHalfOpen \<Longrightarrow> halfOpenPassed cb \<le> HalfOpenMax (config cb) \<Longrightarrow>
   int (length (filter (\<lambda>a. a) (fst (allows ts cb)))) + halfOpenPassed cb \<le> HalfOpenMax (config cb)"
proof (induction ts arbitrary: cb)
  case (Cons now ts)
  show ?case
    using Cons.IH [of "snd (Allow now cb)"] Cons.prems
    by (cases "halfOpenPassed cb < HalfOpenMax (config cb)") (auto simp: Allow_def case_prod_beta Let_def)
qed simp

lemma allows_open:
  "state cb = StateOpen \<Longrightarrow> 0 < HalfOpenMax (config cb) \<Longrightarrow>
   int (length (filter (\<lambda>a. a) (fst (allows ts cb)))) \<le> HalfOpenMax (config cb)"
proof (induction ts arbitrary: cb)
  case (Cons now ts)
  show ?case
  proof (cases "time_sub now (lastFailureTime cb) \<ge> Cooldown (config cb)")
    case True
    let ?cb = "cb\<lparr>state := StateHalfOpen, halfOpenPassed := 1\<rparr>"
    have "int (length (filter (\<lambda>a. a) (fst (allows ts ?cb)))) + 1 \<le> HalfOpenMax (config cb)"
      using allows_half_open [of ?cb ts] Cons.prems by simp
    then show ?thesis using True Cons.prems by (simp add: Allow_def case_prod_beta Let_def)
  next
    case False
    then show ?thesis using Cons by (simp add: Allow_def case_prod_beta Let_def)
  qed
qed simp

lemma allows_cooling:
  "state cb = StateOpen \<Longrightarrow> \<forall>now\<in>set ts. time_sub now (lastFailureTime cb) < Cooldown (config cb) \<Longrightarrow>
   allows ts cb = (replicate (length ts) False, cb)"
  by (induction ts) (auto simp: Allow_def)

lemma allows_exhausted:
  "state cb = StateHalfOpen \<Longrightarrow> HalfOpenMax (config cb) \<le> halfOpenPassed cb \<Longrightarrow>
   allows ts cb = (replicate (length ts) False, cb)"
  by (induction ts) (auto simp: Allow_def)

lemma failures_closed:
  "state cb = StateClosed \<Longrightarrow> failureCount cb + int (length ts) < FailureThreshold (config cb) \<Longrightarrow>
   state (fold RecordFailure ts cb) = StateClosed \<and>
   failureCount (fold RecordFailure ts cb) = failureCount cb + int (length ts) \<and> config (fold RecordFailure ts cb) = config cb"
proof (induction ts arbitrary: cb)
  case (Cons now ts)
  show ?case using Cons.IH [of "RecordFailure now cb"] Cons.prems by (simp add: RecordFailure_def Let_def)
qed simp

subsection \<open>Properties\<close>

text \<open>
  In every breaker that New and any sequence of calls can produce, the configuration is positive,
  a closed breaker has seen fewer consecutive failures than the threshold, an open one exactly the
  threshold, and a half-open one has admitted between one and \<^verbatim>\<open>HalfOpenMax\<close> probes.
\<close>

theorem breaker_invariant:
  assumes "breaker_reach cb"
  shows "breaker_ok cb"
  using assms by (rule reach_breaker_ok)

definition tripped :: breaker where
  "tripped = fold breaker_do [OpFailure 100, OpFailure 200] (New_breaker \<lparr>FailureThreshold = 2, Cooldown = 50, HalfOpenMax = 0\<rparr>)"

lemma tripped:
  "tripped = \<lparr>config = \<lparr>FailureThreshold = 2, Cooldown = 50, HalfOpenMax = 1\<rparr>, state = StateOpen, failureCount = 2,
     lastFailureTime = 200, halfOpenPassed = 0\<rparr>"
  by (simp add: tripped_def New_breaker_def RecordFailure_def Let_def)

lemma tripped_reach: "breaker_reach tripped"
  unfolding tripped_def by (simp add: brk_New brk_op del: breaker_do.simps)

theorem breaker_invariant_witness: "state tripped = StateOpen \<and> breaker_ok tripped"
  using breaker_invariant [OF tripped_reach] by (simp add: tripped)

text \<open>
  An open breaker protects the endpoint: before the cooldown has passed since the last failure
  every request is rejected, and however many requests come before a result is recorded, at most
  \<^verbatim>\<open>HalfOpenMax\<close> are let through.
\<close>

theorem open_breaker_limits:
  assumes "breaker_reach cb" "state cb = StateOpen"
  shows "int (length (filter (\<lambda>a. a) (fst (allows ts cb)))) \<le> HalfOpenMax (config cb) \<and>
    ((\<forall>now\<in>set ts. time_sub now (lastFailureTime cb) < Cooldown (config cb)) \<longrightarrow>
       fst (allows ts cb) = replicate (length ts) False \<and> snd (allows ts cb) = cb)"
  using allows_open [OF assms(2)] reach_breaker_ok [OF assms(1)] allows_cooling [OF assms(2)]
  by (simp add: breaker_ok_def)

theorem open_breaker_limits_witness:
  "int (length (filter (\<lambda>a. a) (fst (allows [210, 300, 400, 500] tripped)))) \<le> 1"
  using open_breaker_limits [OF tripped_reach, of "[210, 300, 400, 500]"] by (simp add: tripped)

text \<open>
  A closed breaker opens at the threshold and not before: with no success in between, fewer
  failures than are missing leave it closed, and the one that completes the threshold opens it.
\<close>

theorem breaker_trips_at_threshold:
  assumes "breaker_reach cb" "state cb = StateClosed" "int (length ts) + failureCount cb + 1 = FailureThreshold (config cb)"
  shows "state (fold RecordFailure ts cb) = StateClosed \<and>
    state (RecordFailure now (fold RecordFailure ts cb)) = StateOpen \<and>
    lastFailureTime (RecordFailure now (fold RecordFailure ts cb)) = now"
  using failures_closed [OF assms(2), of ts] assms(3) by (simp add: RecordFailure_def Let_def)

theorem breaker_trips_at_threshold_witness:
  "state (RecordFailure 9 (fold RecordFailure [1, 2, 3, 4] (New_breaker \<lparr>FailureThreshold = 5, Cooldown = 50, HalfOpenMax = 1\<rparr>))) = StateOpen"
  using breaker_trips_at_threshold [OF brk_New [of "\<lparr>FailureThreshold = 5, Cooldown = 50, HalfOpenMax = 1\<rparr>"], of "[1, 2, 3, 4]" 9]
  by (simp add: New_breaker_def Let_def)

end
