(* ===== verification/Retry.thy ===== *)
theory Retry
  imports Prelude
begin

text \<open>
  Retry with backoff, \<^verbatim>\<open>pkg/retry\<close>. The operation is a function from the number of the call to
  its result. Floating point is a parameter: the float type, its multiplication and its conversions
  from and to durations are arguments of \<open>Exponential_Next\<close>, and so is the random source of the
  jitters. \<open>Do\<close> is the loop of the code; its environment says whether the context has ended at the
  start of an attempt and whether it ends during the wait after one. \<open>scheduleAttempt\<close> is the chain of
  wheel callbacks of \<^verbatim>\<open>DoAsync\<close>; its environment says of each callback whether the wheel
  delivered it.
\<close>

subsection \<open>Backoff\<close>

text \<open>The random draws are arguments; \<^verbatim>\<open>rand.Int64N(n)\<close> returns a number in [0, n).\<close>

definition FullJitter_Apply :: "(int \<Rightarrow> int) \<Rightarrow> duration \<Rightarrow> duration" where
  "FullJitter_Apply Int64N d = (if d \<le> 0 then 0 else Int64N d)"

datatype ('f) exponential_option = WithMultiplier 'f | WithJitter "duration \<Rightarrow> duration"

record 'f Exponential =
  base :: duration
  maxDelay :: duration
  multiplier :: 'f
  jitter :: "(duration \<Rightarrow> duration) option"

fun exp_apply :: "'f exponential_option \<Rightarrow> 'f Exponential \<Rightarrow> 'f Exponential" where
  "exp_apply (WithMultiplier x) e = e\<lparr>multiplier := x\<rparr>"
| "exp_apply (WithJitter j) e = e\<lparr>jitter := Some j\<rparr>"

datatype retry_error = BaseNotPositive | MaxBelowBase | MultiplierNotPositive | MultiplierBelowOne
  | MaxAttemptsNotPositive | NilBackoff | NilWheel | NilOperation

definition New_WithMultiplier :: "'f \<Rightarrow> 'f::linorder \<Rightarrow> retry_error + 'f exponential_option" where
  "New_WithMultiplier one x = (if x < one then Inl MultiplierBelowOne else Inr (WithMultiplier x))"

definition NewExponential ::
  "'f::linorder \<Rightarrow> 'f \<Rightarrow> duration \<Rightarrow> duration \<Rightarrow> 'f exponential_option list \<Rightarrow> retry_error + 'f Exponential" where
  "NewExponential zero two b mx opts =
     (if b \<le> 0 then Inl BaseNotPositive
      else if mx < b then Inl MaxBelowBase
      else
        let e = fold exp_apply opts \<lparr>base = b, maxDelay = mx, multiplier = two, jitter = None\<rparr>
        in if multiplier e \<le> zero then Inl MultiplierNotPositive else Inr e)"

definition withJitter :: "'f Exponential \<Rightarrow> duration \<Rightarrow> duration" where
  "withJitter e d = (case jitter e of Some j \<Rightarrow> j d | None \<Rightarrow> d)"

fun exp_loop :: "('f \<Rightarrow> 'f \<Rightarrow> 'f) \<Rightarrow> 'f::linorder \<Rightarrow> 'f \<Rightarrow> nat \<Rightarrow> 'f \<Rightarrow> 'f option" where
  "exp_loop fmul cap m 0 d = Some d"
| "exp_loop fmul cap m (Suc n) d = (let d = fmul d m in if d \<ge> cap then None else exp_loop fmul cap m n d)"

definition Exponential_Next ::
  "('f \<Rightarrow> 'f \<Rightarrow> 'f) \<Rightarrow> (duration \<Rightarrow> 'f) \<Rightarrow> ('f \<Rightarrow> duration) \<Rightarrow> 'f::linorder Exponential \<Rightarrow> int \<Rightarrow> duration" where
  "Exponential_Next fmul float dur e attempt =
     (case exp_loop fmul (float (maxDelay e)) (multiplier e) (nat attempt) (float (base e)) of
        None \<Rightarrow> withJitter e (maxDelay e)
      | Some d \<Rightarrow> if d > float (maxDelay e) then withJitter e (maxDelay e) else withJitter e (dur d))"

definition FixedInterval_Next :: "duration \<Rightarrow> int \<Rightarrow> duration" where
  "FixedInterval_Next interval attempt = interval"

subsection \<open>Retry\<close>

record ('e) Retry =
  maxAttempts :: int
  backoff :: "(int \<Rightarrow> duration) option"
  retryable :: "'e \<Rightarrow> bool"

datatype 'e retry_option = WithMaxAttempts int | WithBackoff "(int \<Rightarrow> duration) option" | WithRetryable "'e \<Rightarrow> bool"

fun retry_apply :: "'e retry_option \<Rightarrow> 'e Retry \<Rightarrow> 'e Retry" where
  "retry_apply (WithMaxAttempts n) r = r\<lparr>maxAttempts := n\<rparr>"
| "retry_apply (WithBackoff b) r = r\<lparr>backoff := b\<rparr>"
| "retry_apply (WithRetryable f) r = r\<lparr>retryable := f\<rparr>"

text \<open>\<open>dflt\<close>: the default backoff, an exponential one from 1 s to 30 s.\<close>

definition New_Retry :: "(int \<Rightarrow> duration) \<Rightarrow> 'e retry_option list \<Rightarrow> retry_error + 'e Retry" where
  "New_Retry dflt opts =
     (let r = fold retry_apply opts \<lparr>maxAttempts = 3, backoff = Some dflt, retryable = (\<lambda>_. True)\<rparr>
      in if maxAttempts r \<le> 0 then Inl MaxAttemptsNotPositive
         else if backoff r = None then Inl NilBackoff
         else Inr r)"

definition Next_delay :: "'e Retry \<Rightarrow> int \<Rightarrow> duration" where
  "Next_delay r attempt = (case backoff r of Some b \<Rightarrow> b attempt | None \<Rightarrow> 0)"

text \<open>
  \<open>Do\<close>: the calls made so far are the attempts \<open>0 \<dots> attempt - 1\<close>; \<open>n\<close> rounds remain. The result
  is the returned error (\<open>None\<close> for nil), the number of calls made and the waits.
\<close>

record ('e) ctx_env =
  before :: "nat \<Rightarrow> 'e option"
  during :: "nat \<Rightarrow> 'e option"

fun Do_loop ::
  "'e Retry \<Rightarrow> 'e ctx_env \<Rightarrow> (nat \<Rightarrow> 'e option) \<Rightarrow> nat \<Rightarrow> nat \<Rightarrow> 'e option \<Rightarrow> 'e option \<times> nat \<times> duration list" where
  "Do_loop r ctx fn attempt 0 lastErr = (lastErr, attempt, [])"
| "Do_loop r ctx fn attempt (Suc n) lastErr =
     (case before ctx attempt of
        Some err \<Rightarrow> (Some err, attempt, [])
      | None \<Rightarrow>
          (case fn attempt of
             None \<Rightarrow> (None, Suc attempt, [])
           | Some err \<Rightarrow>
               if \<not> retryable r err then (Some err, Suc attempt, [])
               else if int attempt = maxAttempts r - 1 then (Some err, Suc attempt, [])
               else
                 let wait = Next_delay r (int attempt)
                 in if wait > 0 then
                      case during ctx attempt of
                        Some cerr \<Rightarrow> (Some cerr, Suc attempt, [wait])
                      | None \<Rightarrow>
                          let (res, k, ws) = Do_loop r ctx fn (Suc attempt) n (Some err) in (res, k, wait # ws)
                    else Do_loop r ctx fn (Suc attempt) n (Some err)))"

definition Do :: "'e Retry \<Rightarrow> 'e ctx_env \<Rightarrow> (nat \<Rightarrow> 'e option) \<Rightarrow> 'e option \<times> nat \<times> duration list" where
  "Do r ctx fn = Do_loop r ctx fn 0 (nat (maxAttempts r)) None"

text \<open>
  \<open>DoAsync\<close>: \<open>scheduleAttempt\<close> is the callback of one attempt and those it schedules. It returns the
  calls of \<^verbatim>\<open>onComplete\<close>, the number of calls of the operation and the delays asked of the
  wheel.
\<close>

function scheduleAttempt ::
  "'e Retry \<Rightarrow> (nat \<Rightarrow> bool) \<Rightarrow> (nat \<Rightarrow> 'e option) \<Rightarrow> (nat \<Rightarrow> 'e option) \<Rightarrow> nat \<Rightarrow> 'e option list \<times> nat \<times> duration list" where
  "scheduleAttempt r delivered ctx op attempt =
     (if \<not> delivered attempt then ([], attempt, [])
      else
        case ctx attempt of
          Some err \<Rightarrow> ([Some err], attempt, [])
        | None \<Rightarrow>
            (case op attempt of
               None \<Rightarrow> ([None], Suc attempt, [])
             | Some err \<Rightarrow>
                 if \<not> retryable r err \<or> int attempt \<ge> maxAttempts r - 1 then ([Some err], Suc attempt, [])
                 else
                   let (comp, k, ds) = scheduleAttempt r delivered ctx op (Suc attempt)
                   in (comp, k, Next_delay r (int attempt) # ds)))"
  by pat_completeness auto
termination by (relation "measure (\<lambda>(r, delivered, ctx, op, attempt). nat (maxAttempts r) - attempt)") auto

declare scheduleAttempt.simps [simp del]

definition DoAsync ::
  "'e Retry \<Rightarrow> bool \<Rightarrow> bool \<Rightarrow> (nat \<Rightarrow> bool) \<Rightarrow> (nat \<Rightarrow> 'e option) \<Rightarrow> (nat \<Rightarrow> 'e option) \<Rightarrow>
   retry_error + 'e option list \<times> nat \<times> duration list" where
  "DoAsync r wheel_nil op_nil delivered ctx op =
     (if wheel_nil then Inl NilWheel
      else if op_nil then Inl NilOperation
      else let (comp, k, ds) = scheduleAttempt r delivered ctx op 0 in Inr (comp, k, 0 # ds))"

subsection \<open>The loop\<close>

lemma Do_loop_cases:
  assumes "Do_loop r ctx fn attempt (Suc n) lastErr = (res, k, ws)"
  obtains (Ctx) err where "before ctx attempt = Some err" "res = Some err" "k = attempt"
  | (Last) "res = fn attempt" "k = Suc attempt" "ws = []"
      "\<forall>err. fn attempt = Some err \<longrightarrow> \<not> retryable r err \<or> int attempt = maxAttempts r - 1"
  | (Wait) err where "during ctx attempt = Some err" "res = Some err" "k = Suc attempt"
  | (Again) err ws' where "fn attempt = Some err" "retryable r err" "int attempt \<noteq> maxAttempts r - 1"
      "Do_loop r ctx fn (Suc attempt) n (Some err) = (res, k, ws')"
      "ws = (if 0 < Next_delay r (int attempt) then Next_delay r (int attempt) # ws' else ws')"
proof (cases "before ctx attempt")
  case (Some err)
  with assms show ?thesis by (intro Ctx [OF Some]) simp_all
next
  case None
  note b = this
  show ?thesis
  proof (cases "\<exists>err. fn attempt = Some err \<and> retryable r err \<and> int attempt \<noteq> maxAttempts r - 1")
    case False
    then have "res = fn attempt" "k = Suc attempt" "ws = []" using assms b by (auto split: option.splits if_splits)
    then show ?thesis using False by (intro Last) auto
  next
    case True
    then obtain err where e: "fn attempt = Some err" "retryable r err" "int attempt \<noteq> maxAttempts r - 1" by blast
    obtain res' k' ws' where rec: "Do_loop r ctx fn (Suc attempt) n (Some err) = (res', k', ws')"
      by (cases "Do_loop r ctx fn (Suc attempt) n (Some err)") auto
    show ?thesis
    proof (cases "0 < Next_delay r (int attempt) \<and> during ctx attempt \<noteq> None")
      case True
      then obtain c where "during ctx attempt = Some c" by blast
      moreover from this True have "res = Some c" "k = Suc attempt" using assms b e by (simp_all add: Let_def)
      ultimately show ?thesis by (rule Wait)
    next
      case False
      then have "(res, k, ws) = (res', k', if 0 < Next_delay r (int attempt) then Next_delay r (int attempt) # ws' else ws')"
        using assms b e rec by (simp add: Let_def split: if_splits)
      then show ?thesis using Again [OF e, of ws'] rec by simp
    qed
  qed
qed

lemma Do_loop_free:
  assumes "\<And>k. before ctx k = None" "\<And>k. during ctx k = None"
    and "int attempt + int (Suc n) = maxAttempts r" "Do_loop r ctx fn attempt (Suc n) lastErr = (res, k, ws)"
  shows "attempt < k \<and> k \<le> attempt + Suc n \<and> res = fn (k - 1) \<and>
    (\<forall>j. attempt \<le> j \<and> j < k - 1 \<longrightarrow> (\<exists>err. fn j = Some err \<and> retryable r err)) \<and>
    (\<forall>err. fn (k - 1) = Some err \<longrightarrow> \<not> retryable r err \<or> int k = maxAttempts r) \<and>
    ws = filter (\<lambda>d. 0 < d) (map (\<lambda>j. Next_delay r (int j)) [attempt..<k - 1])"
  using assms(3,4)
proof (induction n arbitrary: attempt lastErr k ws)
  case 0
  from 0(2) show ?case by (cases rule: Do_loop_cases) (use assms(1,2) 0(1) in auto)
next
  case (Suc n)
  from Suc.prems(2) show ?case
  proof (cases rule: Do_loop_cases)
    case (Again err ws')
    from Suc.IH [OF _ Again(4)] Suc.prems(1) have ih: "Suc attempt < k" "k \<le> Suc attempt + Suc n" "res = fn (k - 1)"
        "\<forall>j. Suc attempt \<le> j \<and> j < k - 1 \<longrightarrow> (\<exists>err. fn j = Some err \<and> retryable r err)"
        "\<forall>err. fn (k - 1) = Some err \<longrightarrow> \<not> retryable r err \<or> int k = maxAttempts r"
        "ws' = filter (\<lambda>d. 0 < d) (map (\<lambda>j. Next_delay r (int j)) [Suc attempt..<k - 1])" by auto
    have "[attempt..<k - 1] = attempt # [Suc attempt..<k - 1]" using ih(1) by (intro upt_conv_Cons) simp
    then have "ws = filter (\<lambda>d. 0 < d) (map (\<lambda>j. Next_delay r (int j)) [attempt..<k - 1])" by (simp add: Again(5) ih(6))
    moreover have "\<forall>j. attempt \<le> j \<and> j < k - 1 \<longrightarrow> (\<exists>err. fn j = Some err \<and> retryable r err)"
      using ih(4) Again(1,2) by (metis Suc_leI le_neq_implies_less)
    ultimately show ?thesis using ih(1,2,3,5) by simp
  qed (use assms(1,2) Suc.prems(1) in auto)
qed

lemma Do_loop_bound: "Do_loop r ctx fn attempt n lastErr = (res, k, ws) \<Longrightarrow> attempt \<le> k \<and> k \<le> attempt + n"
proof (induction n arbitrary: attempt lastErr k ws)
  case (Suc n)
  from Suc.prems show ?case by (cases rule: Do_loop_cases) (use Suc.IH in fastforce)+
qed simp

lemma Do_loop_nil:
  "Do_loop r ctx fn attempt n lastErr = (None, k, ws) \<Longrightarrow> lastErr \<noteq> None \<or> 0 < n \<Longrightarrow> 0 < k \<and> fn (k - 1) = None"
proof (induction n arbitrary: attempt lastErr k ws)
  case (Suc n)
  from Suc.prems(1) show ?case by (cases rule: Do_loop_cases) (use Suc.IH in fastforce)+
qed simp

lemma schedule_free:
  assumes "\<And>k. delivered k" "\<And>k. ctx k = None" "int attempt < maxAttempts r"
  shows "\<exists>k. scheduleAttempt r delivered ctx fn attempt =
      ([fn (k - 1)], k, map (\<lambda>j. Next_delay r (int j)) [attempt..<k - 1]) \<and> attempt < k \<and> int k \<le> maxAttempts r \<and>
    (\<forall>j. attempt \<le> j \<and> j < k - 1 \<longrightarrow> (\<exists>err. fn j = Some err \<and> retryable r err)) \<and>
    (\<forall>err. fn (k - 1) = Some err \<longrightarrow> \<not> retryable r err \<or> int k = maxAttempts r)"
  using assms(3)
proof (induction "nat (maxAttempts r) - attempt" arbitrary: attempt)
  case 0
  then show ?case by simp
next
  case (Suc n)
  note unf = scheduleAttempt.simps [of r delivered ctx fn attempt]
  show ?case
  proof (cases "\<exists>err. fn attempt = Some err \<and> retryable r err \<and> int attempt < maxAttempts r - 1")
    case False
    then have "scheduleAttempt r delivered ctx fn attempt = ([fn attempt], Suc attempt, [])"
      using assms(1,2) by (subst unf) (auto split: option.splits)
    then show ?thesis using False Suc.prems by (intro exI [of _ "Suc attempt"]) auto
  next
    case True
    then obtain err where e: "fn attempt = Some err" "retryable r err" "int attempt < maxAttempts r - 1" by blast
    then have "int (Suc attempt) < maxAttempts r" "n = nat (maxAttempts r) - Suc attempt" using Suc.hyps(2) by auto
    from Suc.hyps(1) [OF this(2,1)] obtain k where k: "scheduleAttempt r delivered ctx fn (Suc attempt) =
        ([fn (k - 1)], k, map (\<lambda>j. Next_delay r (int j)) [Suc attempt..<k - 1])" "Suc attempt < k" "int k \<le> maxAttempts r"
        "\<forall>j. Suc attempt \<le> j \<and> j < k - 1 \<longrightarrow> (\<exists>err. fn j = Some err \<and> retryable r err)"
        "\<forall>err. fn (k - 1) = Some err \<longrightarrow> \<not> retryable r err \<or> int k = maxAttempts r" by blast
    have "[attempt..<k - 1] = attempt # [Suc attempt..<k - 1]" using k(2) by (intro upt_conv_Cons) simp
    then have "scheduleAttempt r delivered ctx fn attempt =
        ([fn (k - 1)], k, map (\<lambda>j. Next_delay r (int j)) [attempt..<k - 1])"
      using assms(1,2) e k(1) by (subst unf) simp
    moreover have "\<forall>j. attempt \<le> j \<and> j < k - 1 \<longrightarrow> (\<exists>err. fn j = Some err \<and> retryable r err)"
      using k(4) e by (metis Suc_leI le_neq_implies_less)
    ultimately show ?thesis using k(2,3,5) by (intro exI [of _ k]) simp
  qed
qed

lemma schedule_once:
  "length (fst (scheduleAttempt r delivered ctx fn attempt)) \<le> 1 \<and>
   ((\<forall>k. delivered k) \<longrightarrow> length (fst (scheduleAttempt r delivered ctx fn attempt)) = 1)"
proof (induction "nat (maxAttempts r) - attempt" arbitrary: attempt)
  case 0
  then show ?case by (subst (1 2) scheduleAttempt.simps) (auto split: option.splits)
next
  case (Suc n)
  then have "n = nat (maxAttempts r) - Suc attempt" by simp
  from Suc.hyps(1) [OF this] show ?case
    by (subst (1 2) scheduleAttempt.simps) (auto simp: case_prod_beta Let_def split: option.splits)
qed

subsection \<open>Exponential growth\<close>

lemma exp_loop_step:
  "exp_loop fmul cap m (Suc n) d =
     (case exp_loop fmul cap m n d of None \<Rightarrow> None | Some x \<Rightarrow> if fmul x m \<ge> cap then None else Some (fmul x m))"
proof (induction n arbitrary: d)
  case (Suc n)
  show ?case using Suc.IH [of "fmul d m"] by (cases "cap \<le> fmul d m") (simp_all add: Let_def)
qed (simp add: Let_def)

lemma exp_loop_low:
  "(\<And>x. lo \<le> x \<Longrightarrow> x \<le> fmul x m) \<Longrightarrow> lo \<le> d \<Longrightarrow> exp_loop fmul cap m n d = Some x \<Longrightarrow> lo \<le> x"
proof (induction n arbitrary: d)
  case (Suc n)
  have "lo \<le> fmul d m" using Suc.prems(1) [OF Suc.prems(2)] Suc.prems(2) by (rule order_trans [rotated])
  with Suc show ?case by (auto simp: Let_def split: if_splits)
qed simp

lemma exp_loop_cap: "exp_loop fmul cap m n d = Some x \<Longrightarrow> d \<le> cap \<Longrightarrow> x \<le> cap"
  by (induction n arbitrary: d) (auto simp: Let_def split: if_splits)

subsection \<open>Properties\<close>

text \<open>
  C12. What \<^verbatim>\<open>Do\<close> does when the context does not end: it calls the operation between one and
  \<^verbatim>\<open>maxAttempts\<close> times and returns the result of the last call; all earlier calls failed with a
  retryable error; the last one succeeded, failed with an error that is not retryable, or was the last
  allowed; and between calls it waited the positive delays of the backoff, in order.
\<close>

theorem Do_spec:
  assumes "0 < maxAttempts r" "\<And>k. before ctx k = None" "\<And>k. during ctx k = None" "Do r ctx fn = (res, k, ws)"
  shows "1 \<le> k \<and> int k \<le> maxAttempts r \<and> res = fn (k - 1) \<and>
    (\<forall>j<k - 1. \<exists>err. fn j = Some err \<and> retryable r err) \<and>
    (\<forall>err. fn (k - 1) = Some err \<longrightarrow> \<not> retryable r err \<or> int k = maxAttempts r) \<and>
    ws = filter (\<lambda>d. 0 < d) (map (\<lambda>j. Next_delay r (int j)) [0..<k - 1])"
proof -
  obtain n where n: "nat (maxAttempts r) = Suc n" using assms(1) by (metis gr0_implies_Suc zero_less_nat_eq)
  then have "int 0 + int (Suc n) = maxAttempts r" using assms(1) by simp
  from Do_loop_free [OF assms(2,3) this, of fn None res k ws] assms(1,4) n show ?thesis by (auto simp: Do_def)
qed

definition thrice :: "string Retry" where
  "thrice = \<lparr>maxAttempts = 3, backoff = Some (\<lambda>a. 10 * 2 ^ nat a), retryable = (\<lambda>e. e = ''busy'')\<rparr>"

definition busy_once :: "nat \<Rightarrow> string option" where
  "busy_once k = (if k = 0 then Some ''busy'' else None)"

abbreviation (input) no_ctx :: "string ctx_env" where
  "no_ctx \<equiv> \<lparr>before = (\<lambda>_. None), during = (\<lambda>_. None)\<rparr>"

lemma thrice_run: "Do thrice no_ctx busy_once = (None, 2, [10])"
  by code_simp

theorem Do_spec_witness:
  "0 < maxAttempts thrice \<and> Do thrice no_ctx busy_once = (None, 2, [10]) \<and> busy_once (2 - 1) = None"
proof -
  have "0 < maxAttempts thrice" by (simp add: thrice_def)
  with Do_spec [OF this _ _ thrice_run] thrice_run show ?thesis by simp
qed

text \<open>
  With the context ending at any moment, \<^verbatim>\<open>Do\<close> still makes at most \<^verbatim>\<open>maxAttempts\<close>
  calls, and it reports success only when its last call of the operation succeeded.
\<close>

theorem Do_bounded:
  assumes "0 < maxAttempts r" "Do r ctx fn = (res, k, ws)"
  shows "int k \<le> maxAttempts r \<and> (res = None \<longrightarrow> 0 < k \<and> fn (k - 1) = None)"
  using Do_loop_bound [of r ctx fn 0 "nat (maxAttempts r)" None res k ws] assms
    Do_loop_nil [of r ctx fn 0 "nat (maxAttempts r)" None k ws] by (auto simp: Do_def)

theorem Do_bounded_witness: "int 2 \<le> maxAttempts thrice \<and> (0::nat) < 2 \<and> busy_once (2 - 1) = None"
  using Do_bounded [OF _ thrice_run] by (simp add: thrice_def)

text \<open>
  The asynchronous form does the same as the synchronous one: when the wheel delivers every
  callback and the context does not end, \<^verbatim>\<open>DoAsync\<close> calls \<^verbatim>\<open>onComplete\<close> exactly once, with
  the result of \<^verbatim>\<open>Do\<close>, after the same number of calls of the operation, and asks the wheel for
  the delays of the backoff.
\<close>

theorem DoAsync_equals_Do:
  assumes "0 < maxAttempts r" "\<And>k. before ctx k = None" "\<And>k. during ctx k = None" "Do r ctx fn = (res, k, ws)"
  shows "DoAsync r False False (\<lambda>_. True) (\<lambda>_. None) fn = Inr ([res], k, 0 # map (\<lambda>j. Next_delay r (int j)) [0..<k - 1])"
proof -
  obtain n where n: "nat (maxAttempts r) = Suc n" using assms(1) by (metis gr0_implies_Suc zero_less_nat_eq)
  then have "int 0 + int (Suc n) = maxAttempts r" using assms(1) by simp
  from Do_loop_free [OF assms(2,3) this, of fn None res k ws] assms(1,4) n
  have d: "0 < k" "res = fn (k - 1)" "\<forall>j<k - 1. \<exists>err. fn j = Some err \<and> retryable r err"
      "\<forall>err. fn (k - 1) = Some err \<longrightarrow> \<not> retryable r err \<or> int k = maxAttempts r" "int k \<le> maxAttempts r"
    by (auto simp: Do_def)
  from schedule_free [of "\<lambda>_. True" "\<lambda>_. None" 0 r fn] assms(1)
  obtain m where m: "scheduleAttempt r (\<lambda>_. True) (\<lambda>_. None) fn 0 = ([fn (m - 1)], m, map (\<lambda>j. Next_delay r (int j)) [0..<m - 1])"
      "0 < m" "int m \<le> maxAttempts r" "\<forall>j<m - 1. \<exists>err. fn j = Some err \<and> retryable r err"
      "\<forall>err. fn (m - 1) = Some err \<longrightarrow> \<not> retryable r err \<or> int m = maxAttempts r"
    by auto
  have "\<not> k < m"
  proof
    assume "k < m"
    then have "k - 1 < m - 1" using d(1) by simp
    with m(4) obtain err where "fn (k - 1) = Some err" "retryable r err" by blast
    with d(4) \<open>k < m\<close> m(3) show False by auto
  qed
  moreover have "\<not> m < k"
  proof
    assume "m < k"
    then have "m - 1 < k - 1" using m(2) by simp
    with d(3) obtain err where "fn (m - 1) = Some err" "retryable r err" by blast
    with m(5) \<open>m < k\<close> d(5) show False by auto
  qed
  ultimately have "m = k" by simp
  with m(1) d(2) show ?thesis by (simp add: DoAsync_def)
qed

theorem DoAsync_equals_Do_witness:
  "DoAsync thrice False False (\<lambda>_. True) (\<lambda>_. None) busy_once = Inr ([None], 2, [0, 10])"
proof -
  have "0 < maxAttempts thrice" "Next_delay thrice 0 = 10" by (simp_all add: thrice_def Next_delay_def)
  with DoAsync_equals_Do [OF this(1) _ _ thrice_run] show ?thesis by simp
qed

text \<open>
  \<^verbatim>\<open>onComplete\<close> is called at most once, and exactly once when the wheel delivers every
  callback; but a wheel whose pool rejects the callback drops it, and then the promise that it is called
  exactly once is broken: no one is told that the operation has ended.
\<close>

theorem onComplete_once:
  "length (fst (scheduleAttempt r delivered ctx fn attempt)) \<le> 1 \<and>
   ((\<forall>k. delivered k) \<longrightarrow> length (fst (scheduleAttempt r delivered ctx fn attempt)) = 1) \<and>
   fst (scheduleAttempt thrice (\<lambda>k. k \<noteq> 1) (\<lambda>_. None) busy_once 0) = []"
proof -
  have "fst (scheduleAttempt thrice (\<lambda>k. k \<noteq> 1) (\<lambda>_. None) busy_once 0) = []" by code_simp
  then show ?thesis using schedule_once by blast
qed

theorem onComplete_once_witness:
  "length (fst (scheduleAttempt thrice (\<lambda>_. True) (\<lambda>_. None) busy_once 0)) = 1"
  using onComplete_once [of thrice "\<lambda>_. True" "\<lambda>_. None" busy_once 0] by simp

text \<open>
  The delays of an exponential backoff without jitter grow with the attempts and never exceed the
  maximum; with a jitter that returns at most what it is given they still never exceed it. The
  hypotheses on the floating-point operations are that multiplying by the multiplier (at least 1) does
  not make a delay smaller, that conversion to a duration is monotone, and that what does not exceed
  the converted maximum converts back to at most the maximum.
\<close>

theorem Exponential_Next_bounded:
  assumes grow: "\<And>x. float (base e) \<le> x \<Longrightarrow> x \<le> fmul x (multiplier e)"
    and mono: "\<And>x y. x \<le> y \<Longrightarrow> dur x \<le> dur y" and conv: "\<And>x. x \<le> float (maxDelay e) \<Longrightarrow> dur x \<le> maxDelay e"
    and "\<And>j d. jitter e = Some j \<Longrightarrow> j d \<le> d"
  shows "Exponential_Next fmul float dur e attempt \<le> maxDelay e \<and>
    (jitter e = None \<and> 0 \<le> attempt \<longrightarrow>
       Exponential_Next fmul float dur e attempt \<le> Exponential_Next fmul float dur e (attempt + 1))"
proof -
  have jit: "withJitter e d \<le> d" for d using assms(4) by (auto simp: withJitter_def split: option.splits)
  have "Exponential_Next fmul float dur e attempt \<le> maxDelay e"
    using jit [of "maxDelay e"] order_trans [OF jit conv]
    by (auto simp: Exponential_Next_def split: option.splits)
  moreover have "Exponential_Next fmul float dur e attempt \<le> Exponential_Next fmul float dur e (attempt + 1)"
    if "jitter e = None" "0 \<le> attempt"
  proof -
    have nx: "nat (attempt + 1) = Suc (nat attempt)" using that(2) by simp
    have noj: "withJitter e d = d" for d using that(1) by (simp add: withJitter_def)
    show ?thesis
    proof (cases "exp_loop fmul (float (maxDelay e)) (multiplier e) (nat attempt) (float (base e))")
      case None
      then show ?thesis by (simp add: Exponential_Next_def nx exp_loop_step noj del: exp_loop.simps(2))
    next
      case (Some x)
      have "float (base e) \<le> x" using exp_loop_low [OF grow order_refl Some] .
      then have le: "x \<le> fmul x (multiplier e)" by (rule grow)
      then have "dur x \<le> dur (fmul x (multiplier e))" by (rule mono)
      moreover have "\<not> fmul x (multiplier e) < float (maxDelay e) \<or> x \<le> float (maxDelay e)" using le by auto
      ultimately show ?thesis using Some conv [of x]
        by (auto simp: Exponential_Next_def nx exp_loop_step noj simp del: exp_loop.simps(2))
    qed
  qed
  ultimately show ?thesis by blast
qed

definition seconds_to_minute :: "int Exponential" where
  "seconds_to_minute = \<lparr>base = 1, maxDelay = 60, multiplier = 2, jitter = None\<rparr>"

theorem Exponential_Next_bounded_witness:
  "Exponential_Next times (\<lambda>d. d) (\<lambda>x. x) seconds_to_minute 3 \<le> 60 \<and>
   Exponential_Next times (\<lambda>d. d) (\<lambda>x. x) seconds_to_minute 3 = 8 \<and>
   Exponential_Next times (\<lambda>d. d) (\<lambda>x. x) seconds_to_minute 3 \<le> Exponential_Next times (\<lambda>d. d) (\<lambda>x. x) seconds_to_minute (3 + 1)"
  using Exponential_Next_bounded [of "\<lambda>d. d" seconds_to_minute times "\<lambda>x. x" 3]
  by (simp add: seconds_to_minute_def Exponential_Next_def withJitter_def numeral_eq_Suc)

end
