(* ===== verification/ChannelSend.thy ===== *)
theory ChannelSend
  imports CircuitBreaker Retry
begin

text \<open>
  Sending an alert through a notification channel: \<^verbatim>\<open>Send\<close> of the webhook channel and of the
  email channel (\<^verbatim>\<open>pkg/prism/channel\<close>), which put a circuit breaker around a retried delivery.
  The delivery is a function from the number of the attempt to its outcome; whether the URL is empty,
  whether the event can be marshalled and whether some step panics are arguments.
\<close>

text \<open>
  What a delivery can fail with: an HTTP error with its status code (0: no response) and whether it
  wraps a context error, as the time-outs of the HTTP client do; an SMTP error; a context error; others.
\<close>

datatype send_cause = HttpError int bool | SmtpError int bool | CtxError | OtherError

fun is_ctx_error :: "send_cause \<Rightarrow> bool" where
  "is_ctx_error (HttpError _ c) = c"
| "is_ctx_error (SmtpError _ c) = c"
| "is_ctx_error CtxError = True"
| "is_ctx_error OtherError = False"

fun isRetryableSendErr :: "send_cause \<Rightarrow> bool" where
  "isRetryableSendErr (HttpError code _) \<longleftrightarrow> code = 0 \<or> code \<ge> 500"
| "isRetryableSendErr _ \<longleftrightarrow> False"

datatype send_result = SendOk | SendFailed bool | ErrCircuitOpen

text \<open>
  The common part: ask the breaker at \<open>now\<close>, deliver with retries, record the outcome at
  \<open>now'\<close>. The last component counts the attempts made.
\<close>

definition guarded_send ::
  "(send_cause \<Rightarrow> bool) \<Rightarrow> send_cause Retry \<Rightarrow> bool \<Rightarrow> bool \<Rightarrow> send_cause ctx_env \<Rightarrow> (nat \<Rightarrow> send_cause option) \<Rightarrow>
   gotime \<Rightarrow> gotime \<Rightarrow> breaker \<Rightarrow> send_result \<times> breaker \<times> nat" where
  "guarded_send retryableErr r marshal_ok panics ctx deliver now now' cb =
     (let (ok, cb) = Allow now cb
      in if \<not> ok then (ErrCircuitOpen, cb, 0)
         else if \<not> marshal_ok then (SendFailed False, cb, 0)
         else
           let (err, k, _) = Do r ctx deliver
           in if panics then (SendFailed False, RecordFailure now' cb, k)
              else case err of
                None \<Rightarrow> (SendOk, RecordSuccess cb, k)
              | Some e \<Rightarrow> (SendFailed (retryableErr e), if is_ctx_error e then cb else RecordFailure now' cb, k))"

definition webhook_Send ::
  "bool \<Rightarrow> send_cause Retry \<Rightarrow> bool \<Rightarrow> bool \<Rightarrow> send_cause ctx_env \<Rightarrow> (nat \<Rightarrow> send_cause option) \<Rightarrow>
   gotime \<Rightarrow> gotime \<Rightarrow> breaker \<Rightarrow> send_result \<times> breaker \<times> nat" where
  "webhook_Send url_empty r marshal_ok panics ctx deliver now now' cb =
     (if url_empty then (SendFailed False, cb, 0)
      else guarded_send isRetryableSendErr r marshal_ok panics ctx deliver now now' cb)"

definition email_Send ::
  "(send_cause \<Rightarrow> bool) \<Rightarrow> send_cause Retry \<Rightarrow> bool \<Rightarrow> send_cause ctx_env \<Rightarrow> (nat \<Rightarrow> send_cause option) \<Rightarrow>
   gotime \<Rightarrow> gotime \<Rightarrow> breaker \<Rightarrow> send_result \<times> breaker \<times> nat" where
  "email_Send isRetryableErr r panics ctx deliver now now' cb = guarded_send isRetryableErr r True panics ctx deliver now now' cb"

lemma guarded_reach:
  assumes "breaker_reach cb"
  shows "breaker_reach (fst (snd (guarded_send re r mo pa ctx deliver now now' cb)))"
proof -
  have a: "breaker_reach (snd (Allow now cb))" using brk_op [OF assms, of "OpAllow now"] by simp
  with brk_op [OF a, of OpSuccess] brk_op [OF a, of "OpFailure now'"] show ?thesis
    by (auto simp: guarded_send_def Let_def case_prod_beta split: option.splits)
qed

subsection \<open>Properties\<close>

text \<open>
  C13. The webhook channel spares a degraded endpoint: while the breaker is open and cooling down, a
  send makes no request, fails with \<^verbatim>\<open>ErrCircuitOpen\<close> and leaves the breaker alone; a send that is
  let through makes at most \<^verbatim>\<open>maxAttempts\<close> requests, and reports success only when its last
  request succeeded, after which the breaker is closed with no failures counted.
\<close>

theorem webhook_Send_guarded:
  assumes "0 < maxAttempts r"
    and "webhook_Send False r mo False ctx deliver now now' cb = (res, cb', k)"
  shows "int k \<le> maxAttempts r \<and>
    (state cb = StateOpen \<and> time_sub now (lastFailureTime cb) < Cooldown (config cb) \<longrightarrow>
       res = ErrCircuitOpen \<and> k = 0 \<and> cb' = cb) \<and>
    (res = SendOk \<longrightarrow> 0 < k \<and> deliver (k - 1) = None \<and> state cb' = StateClosed \<and> failureCount cb' = 0)"
proof -
  obtain err n ws where d: "Do r ctx deliver = (err, n, ws)" by (cases "Do r ctx deliver") auto
  have "int n \<le> maxAttempts r"
    using Do_loop_bound [of r ctx deliver 0 "nat (maxAttempts r)" None err n ws] assms(1) d by (simp add: Do_def)
  moreover have "err = None \<Longrightarrow> 0 < n \<and> deliver (n - 1) = None"
    using Do_loop_nil [of r ctx deliver 0 "nat (maxAttempts r)" None n ws] assms(1) d by (simp add: Do_def)
  ultimately show ?thesis
    using assms by (auto simp: webhook_Send_def guarded_send_def Let_def case_prod_beta d Allow_def RecordSuccess_def
        split: if_splits option.splits)
qed

definition two_tries :: "send_cause Retry" where
  "two_tries = \<lparr>maxAttempts = 2, backoff = Some (\<lambda>_. 1), retryable = isRetryableSendErr\<rparr>"

abbreviation (input) calm :: "send_cause ctx_env" where
  "calm \<equiv> \<lparr>before = (\<lambda>_. None), during = (\<lambda>_. None)\<rparr>"

lemma cooled_send:
  "webhook_Send False two_tries True False calm (\<lambda>k. if k = 0 then Some (HttpError 503 False) else None) 300 310 tripped
     = (SendOk, tripped\<lparr>failureCount := 0, state := StateClosed\<rparr>, 2)"
  by code_simp

theorem webhook_Send_guarded_witness:
  "(0::nat) < 2 \<and> int 2 \<le> maxAttempts two_tries \<and> failureCount (tripped\<lparr>failureCount := 0, state := StateClosed\<rparr>) = 0"
  using webhook_Send_guarded [OF _ cooled_send] by (simp add: two_tries_def)

lemma jammed:
  assumes "state cb = StateHalfOpen" "HalfOpenMax (config cb) \<le> halfOpenPassed cb"
  shows "webhook_Send False r mo pa ctx deliver now now' cb = (ErrCircuitOpen, cb, 0)"
  using assms by (simp add: webhook_Send_def guarded_send_def Allow_def)

definition jammed_breaker :: breaker where
  "jammed_breaker = fst (snd (webhook_Send False two_tries True False calm (\<lambda>_. Some (HttpError 0 True)) 300 310 tripped))"

lemma jammed_breaker: "jammed_breaker = tripped\<lparr>state := StateHalfOpen, halfOpenPassed := 1\<rparr>"
  by code_simp

text \<open>
  A probe that times out jams the breaker for good: a context error is not recorded, so the breaker
  stays half-open with its probes used up, and from then on every send, at whatever time, fails with
  \<^verbatim>\<open>ErrCircuitOpen\<close> without a request, although the endpoint may have recovered.
\<close>

theorem timed_out_probe_jams:
  "breaker_reach jammed_breaker \<and>
   (\<forall>r mo pa ctx deliver now now'.
      webhook_Send False r mo pa ctx deliver now now' jammed_breaker = (ErrCircuitOpen, jammed_breaker, 0))"
proof -
  have "breaker_reach jammed_breaker"
    unfolding jammed_breaker_def webhook_Send_def using guarded_reach [OF tripped_reach] by simp
  then show ?thesis by (simp add: jammed jammed_breaker tripped)
qed

end
