(* ===== verification/LruCache.thy ===== *)
theory LruCache
  imports Prelude GoStrings "HOL-Library.Multiset"
begin

text \<open>
  The in-memory cache, \<^verbatim>\<open>pkg/cache\<close>: an LRU list with a TTL per entry. The doubly linked list of
  the code is a list of addresses, front first; \<^verbatim>\<open>items\<close> maps keys to addresses, and a store maps
  addresses to entries, so that the two views share the entries as in the code. Every method holds the
  lock; the clock is an argument. The operations are shown to implement a plain list of entries.
\<close>

record 'v lruEntry =
  ekey :: string
  evalue :: 'v
  expireAt :: gotime

record 'v LRUCache =
  items :: "string \<rightharpoonup> nat"
  evictList :: "nat list"
  store :: "nat \<Rightarrow> 'v lruEntry"
  next_addr :: nat
  maxEntries :: int
  defaultTTL :: duration

definition NewLRU :: "(nat \<Rightarrow> 'v lruEntry) \<Rightarrow> int \<Rightarrow> duration \<Rightarrow> 'v LRUCache" where
  "NewLRU mem mx ttl =
     \<lparr>items = Map.empty, evictList = [], store = mem, next_addr = 0,
      maxEntries = (if mx \<le> 0 then 1024 else mx), defaultTTL = (if ttl \<le> 0 then 5 * time_Minute else ttl)\<rparr>"

definition removeElement :: "nat \<Rightarrow> 'v LRUCache \<Rightarrow> 'v LRUCache" where
  "removeElement a c =
     c\<lparr>evictList := remove1 a (evictList c), items := (items c)(ekey (store c a) := None)\<rparr>"

definition MoveToFront :: "nat \<Rightarrow> 'v LRUCache \<Rightarrow> 'v LRUCache" where
  "MoveToFront a c = c\<lparr>evictList := a # remove1 a (evictList c)\<rparr>"

definition Get :: "gotime \<Rightarrow> string \<Rightarrow> 'v LRUCache \<Rightarrow> 'v option \<times> 'v LRUCache" where
  "Get now key c =
     (case items c key of
        None \<Rightarrow> (None, c)
      | Some a \<Rightarrow>
          if now > expireAt (store c a) then (None, removeElement a c)
          else (Some (evalue (store c a)), MoveToFront a c))"

definition SetWithTTL :: "gotime \<Rightarrow> string \<Rightarrow> 'v \<Rightarrow> duration \<Rightarrow> 'v LRUCache \<Rightarrow> 'v LRUCache" where
  "SetWithTTL now key v ttl c =
     (case items c key of
        Some a \<Rightarrow>
          (let c = MoveToFront a c
           in c\<lparr>store := (store c)(a := (store c a)\<lparr>evalue := v, expireAt := now + ttl\<rparr>)\<rparr>)
      | None \<Rightarrow>
          (let a = next_addr c;
               c = c\<lparr>store := (store c)(a := \<lparr>ekey = key, evalue = v, expireAt = now + ttl\<rparr>), next_addr := Suc a,
                     evictList := a # evictList c, items := (items c)(key \<mapsto> a)\<rparr>
           in if int (length (evictList c)) > maxEntries c then removeElement (last (evictList c)) c else c))"

definition Set :: "gotime \<Rightarrow> string \<Rightarrow> 'v \<Rightarrow> 'v LRUCache \<Rightarrow> 'v LRUCache" where
  "Set now key v c = SetWithTTL now key v (defaultTTL c) c"

definition Delete :: "string \<Rightarrow> 'v LRUCache \<Rightarrow> 'v LRUCache" where
  "Delete key c = (case items c key of Some a \<Rightarrow> removeElement a c | None \<Rightarrow> c)"

definition Clear :: "'v LRUCache \<Rightarrow> 'v LRUCache" where
  "Clear c = c\<lparr>items := Map.empty, evictList := []\<rparr>"

definition Has :: "gotime \<Rightarrow> string \<Rightarrow> 'v LRUCache \<Rightarrow> bool" where
  "Has now key c = (case items c key of None \<Rightarrow> False | Some a \<Rightarrow> \<not> now > expireAt (store c a))"

definition GetWithTTL :: "gotime \<Rightarrow> string \<Rightarrow> 'v LRUCache \<Rightarrow> ('v \<times> duration) option \<times> 'v LRUCache" where
  "GetWithTTL now key c =
     (case items c key of
        None \<Rightarrow> (None, c)
      | Some a \<Rightarrow>
          if now > expireAt (store c a) then (None, removeElement a c)
          else (Some (evalue (store c a), time_sub (expireAt (store c a)) now), MoveToFront a c))"

text \<open>\<open>order\<close>: the keys in the order in which the iteration over the map yields them.\<close>

definition DeleteByPrefix :: "string list \<Rightarrow> string \<Rightarrow> 'v LRUCache \<Rightarrow> 'v LRUCache" where
  "DeleteByPrefix order prefix c =
     fold removeElement (List.map_filter (items c) (filter (\<lambda>k. HasPrefix k prefix) order)) c"

definition Size :: "'v LRUCache \<Rightarrow> nat" where
  "Size c = card (dom (items c))"

subsection \<open>The typed helpers\<close>

text \<open>JSON coding is a parameter.\<close>

definition GetJSON :: "('v \<Rightarrow> 't option) \<Rightarrow> gotime \<Rightarrow> string \<Rightarrow> 'v LRUCache \<Rightarrow> 't option \<times> 'v LRUCache" where
  "GetJSON unmarshal now key c = (let (data, c) = Get now key c in (Option.bind data unmarshal, c))"

definition SetJSON :: "('t \<Rightarrow> 'v option) \<Rightarrow> gotime \<Rightarrow> string \<Rightarrow> 't \<Rightarrow> 'v LRUCache \<Rightarrow> 'v LRUCache" where
  "SetJSON marshal now key x c = (case marshal x of None \<Rightarrow> c | Some data \<Rightarrow> Set now key data c)"

definition SetJSONWithTTL ::
  "('t \<Rightarrow> 'v option) \<Rightarrow> gotime \<Rightarrow> string \<Rightarrow> 't \<Rightarrow> duration \<Rightarrow> 'v LRUCache \<Rightarrow> 'v LRUCache" where
  "SetJSONWithTTL marshal now key x ttl c = (case marshal x of None \<Rightarrow> c | Some data \<Rightarrow> SetWithTTL now key data ttl c)"

subsection \<open>Invariant and abstraction\<close>

definition lru_ok :: "'v LRUCache \<Rightarrow> bool" where
  "lru_ok c \<longleftrightarrow>
     distinct (evictList c) \<and> distinct (map (\<lambda>a. ekey (store c a)) (evictList c)) \<and>
     (\<forall>a\<in>set (evictList c). a < next_addr c) \<and>
     (\<forall>k a. items c k = Some a \<longleftrightarrow> a \<in> set (evictList c) \<and> ekey (store c a) = k) \<and>
     0 < maxEntries c \<and> int (length (evictList c)) \<le> maxEntries c"

definition lru_abs :: "'v LRUCache \<Rightarrow> 'v lruEntry list" where
  "lru_abs c = map (store c) (evictList c)"

definition drop_key :: "string \<Rightarrow> 'v lruEntry list \<Rightarrow> 'v lruEntry list" where
  "drop_key k = filter (\<lambda>e. ekey e \<noteq> k)"

definition find_key :: "string \<Rightarrow> 'v lruEntry list \<Rightarrow> 'v lruEntry option" where
  "find_key k = List.find (\<lambda>e. ekey e = k)"

definition spec_get :: "gotime \<Rightarrow> string \<Rightarrow> 'v lruEntry list \<Rightarrow> 'v lruEntry option \<times> 'v lruEntry list" where
  "spec_get now k xs =
     (case find_key k xs of
        None \<Rightarrow> (None, xs)
      | Some e \<Rightarrow> if now > expireAt e then (None, drop_key k xs) else (Some e, e # drop_key k xs))"

definition spec_set :: "int \<Rightarrow> 'v lruEntry \<Rightarrow> 'v lruEntry list \<Rightarrow> 'v lruEntry list" where
  "spec_set mx e xs =
     (let ys = e # drop_key (ekey e) xs in if int (length ys) > mx then butlast ys else ys)"

lemma lru_okD:
  assumes "lru_ok c"
  shows "distinct (evictList c)" "distinct (map (\<lambda>a. ekey (store c a)) (evictList c))"
    "items c k = Some a \<longleftrightarrow> a \<in> set (evictList c) \<and> ekey (store c a) = k"
    "a \<in> set (evictList c) \<Longrightarrow> a < next_addr c" "int (length (evictList c)) \<le> maxEntries c" "0 < maxEntries c"
  using assms by (auto simp: lru_ok_def)

lemma drop_map:
  "distinct (map (\<lambda>a. ekey (s a)) xs) \<Longrightarrow> a \<in> set xs \<Longrightarrow> map s (remove1 a xs) = drop_key (ekey (s a)) (map s xs)"
proof (induction xs)
  case (Cons b xs)
  show ?case
  proof (cases "a = b")
    case True
    with Cons.prems have "\<forall>x\<in>set xs. ekey (s x) \<noteq> ekey (s a)" by (auto simp: image_iff)
    with True show ?thesis by (simp add: drop_key_def filter_id_conv)
  next
    case False
    then have "ekey (s b) \<noteq> ekey (s a)" using Cons.prems by auto
    with False Cons show ?thesis by (simp add: drop_key_def)
  qed
qed simp

lemma find_items:
  assumes "lru_ok c"
  shows "find_key k (lru_abs c) = map_option (store c) (items c k)"
proof (cases "items c k")
  case None
  then have "\<forall>a\<in>set (evictList c). ekey (store c a) \<noteq> k" using lru_okD(3) [OF assms, of k] by auto
  with None show ?thesis by (auto simp: find_key_def lru_abs_def find_None_iff)
next
  case (Some a)
  then have a: "a \<in> set (evictList c)" "ekey (store c a) = k" using lru_okD(3) [OF assms] by auto
  have "find_key (ekey (s a)) (map s xs) = Some (s a)"
    if "distinct (map (\<lambda>a. ekey (s a)) xs)" "a \<in> set xs" for s :: "nat \<Rightarrow> 'a lruEntry" and xs
    using that by (induction xs) (force simp: find_key_def)+
  from this [OF lru_okD(2) [OF assms] a(1)] a(2) Some show ?thesis by (simp add: lru_abs_def)
qed

lemma removeElement_ok:
  assumes "lru_ok c" "a \<in> set (evictList c)"
  shows "lru_ok (removeElement a c)" "lru_abs (removeElement a c) = drop_key (ekey (store c a)) (lru_abs c)"
proof -
  note d = lru_okD [OF assms(1)]
  have k: "a' \<in> set (evictList c) \<Longrightarrow> ekey (store c a') = ekey (store c a) \<Longrightarrow> a' = a" for a'
    using d(2) assms(2) by (metis (mono_tags, lifting) distinct_map inj_onD)
  show "lru_ok (removeElement a c)"
    using assms d k by (auto simp: lru_ok_def removeElement_def distinct_map set_remove1_eq length_remove1 inj_on_def
        dest: notin_set_remove1 set_remove1_subset [THEN subsetD])
  show "lru_abs (removeElement a c) = drop_key (ekey (store c a)) (lru_abs c)"
    using drop_map [OF d(2) assms(2)] by (simp add: lru_abs_def removeElement_def)
qed

lemma MoveToFront_ok:
  assumes "lru_ok c" "a \<in> set (evictList c)"
  shows "lru_ok (MoveToFront a c)" "lru_abs (MoveToFront a c) = store c a # drop_key (ekey (store c a)) (lru_abs c)"
proof -
  note d = lru_okD [OF assms(1)]
  have m: "mset (a # remove1 a (evictList c)) = mset (evictList c)" using assms(2) by simp
  then have p: "set (a # remove1 a (evictList c)) = set (evictList c)" "length (a # remove1 a (evictList c)) = length (evictList c)"
    by (metis mset_eq_setD, metis mset_eq_length)
  have "distinct (map (\<lambda>a. ekey (store c a)) (a # remove1 a (evictList c)))"
    using d(2) m by (metis mset_map mset_eq_imp_distinct_iff)
  moreover have "distinct (a # remove1 a (evictList c))" using d(1) by simp
  ultimately show "lru_ok (MoveToFront a c)"
    using assms(1) p unfolding lru_ok_def MoveToFront_def by simp
  show "lru_abs (MoveToFront a c) = store c a # drop_key (ekey (store c a)) (lru_abs c)"
    using drop_map [OF d(2) assms(2)] by (simp add: lru_abs_def MoveToFront_def)
qed

lemma drop_absent: "find_key k xs = None \<Longrightarrow> drop_key k xs = xs"
  by (auto simp: find_key_def drop_key_def find_None_iff filter_id_conv)

lemma Get_ok:
  assumes "lru_ok c"
  shows "lru_ok (snd (Get now k c))" "lru_abs (snd (Get now k c)) = snd (spec_get now k (lru_abs c))"
    "fst (Get now k c) = map_option evalue (fst (spec_get now k (lru_abs c)))"
    "maxEntries (snd (Get now k c)) = maxEntries c"
proof -
  note f = find_items [OF assms, of k]
  have i: "items c k = Some a \<Longrightarrow> a \<in> set (evictList c) \<and> ekey (store c a) = k" for a using lru_okD(3) [OF assms] by simp
  show "lru_ok (snd (Get now k c))" "lru_abs (snd (Get now k c)) = snd (spec_get now k (lru_abs c))"
    "fst (Get now k c) = map_option evalue (fst (spec_get now k (lru_abs c)))"
    "maxEntries (snd (Get now k c)) = maxEntries c"
    using removeElement_ok [OF assms] MoveToFront_ok [OF assms] assms i
    by (cases "items c k"; auto simp: Get_def spec_get_def f removeElement_def MoveToFront_def)+
qed

lemma Set_new:
  fixes v :: 'v and now :: gotime and ttl :: duration
  assumes "lru_ok c" "items c k = None"
  defines "e \<equiv> \<lparr>ekey = k, evalue = v, expireAt = now + ttl\<rparr>"
  shows "lru_ok (SetWithTTL now k v ttl c)" "lru_abs (SetWithTTL now k v ttl c) = spec_set (maxEntries c) e (lru_abs c)"
proof -
  note d = lru_okD [OF assms(1)]
  let ?a = "next_addr c"
  define c1 where "c1 = c\<lparr>store := (store c)(?a := e), next_addr := Suc ?a, evictList := ?a # evictList c, items := (items c)(k \<mapsto> ?a)\<rparr>"
  have out: "?a \<notin> set (evictList c)" using d(4) by blast
  have keys: "\<forall>b\<in>set (evictList c). ekey (store c b) \<noteq> k" using d(3) [of k] assms(2) by auto
  have st: "map (store c1) (evictList c) = map (store c) (evictList c)" using out by (auto simp: c1_def)
  have st': "map (\<lambda>a. ekey (store c1 a)) (evictList c) = map (\<lambda>a. ekey (store c a)) (evictList c)"
    using out by (auto simp: c1_def)
  have abs1: "lru_abs c1 = e # lru_abs c" using st by (simp add: lru_abs_def c1_def)
  have ev: "evictList c1 = ?a # evictList c" "store c1 ?a = e" by (simp_all add: c1_def)
  have dist: "distinct (map (\<lambda>a. ekey (store c1 a)) (evictList c1))"
    unfolding ev(1) list.map st' using d(2) keys by (auto simp: ev(2) e_def)
  have drop: "drop_key k (lru_abs c) = lru_abs c" using find_items [OF assms(1), of k] assms(2) by (simp add: drop_absent)
  have set': "SetWithTTL now k v ttl c = (if int (length (evictList c1)) > maxEntries c then removeElement (last (evictList c1)) c1 else c1)"
    using assms(2) by (simp add: SetWithTTL_def c1_def e_def Let_def)
  have big: "lru_ok (c1\<lparr>maxEntries := maxEntries c + 1\<rparr>)"
    using d dist out keys assms(2) unfolding lru_ok_def by (auto simp: c1_def e_def less_SucI)
  show "lru_ok (SetWithTTL now k v ttl c)"
  proof (cases "int (length (evictList c1)) > maxEntries c")
    case True
    have "last (evictList c1) \<in> set (evictList c1)" by (simp add: c1_def)
    then have "lru_ok (removeElement (last (evictList c1)) (c1\<lparr>maxEntries := maxEntries c + 1\<rparr>))"
      using removeElement_ok(1) [OF big, of "last (evictList c1)"] by simp
    moreover have "length (remove1 (last (evictList c1)) (evictList c1)) = length (evictList c1) - 1"
      using \<open>last (evictList c1) \<in> set (evictList c1)\<close> by (simp add: length_remove1)
    moreover have "length (evictList c1) = Suc (length (evictList c))" by (simp add: ev(1))
    moreover have "maxEntries c1 = maxEntries c" by (simp add: c1_def)
    ultimately show ?thesis using True d(5,6) by (auto simp: set' lru_ok_def removeElement_def)
  next
    case False
    with big d(6) show ?thesis by (auto simp: set' lru_ok_def c1_def)
  qed
  have last: "remove1 (last xs) xs = butlast xs" if "distinct xs" "xs \<noteq> []" for xs :: "nat list"
    using that by (induction xs) (auto simp: last_in_set)
  have "length (evictList c1) = Suc (length (lru_abs c))" "ekey e = k" by (simp_all add: ev(1) lru_abs_def e_def)
  then have sp: "spec_set (maxEntries c) e (lru_abs c) =
      (if int (length (evictList c1)) > maxEntries c then butlast (e # lru_abs c) else e # lru_abs c)"
    by (simp add: spec_set_def drop Let_def)
  show "lru_abs (SetWithTTL now k v ttl c) = spec_set (maxEntries c) e (lru_abs c)"
  proof (cases "int (length (evictList c1)) > maxEntries c")
    case True
    have "lru_abs (removeElement (last (evictList c1)) c1) = map (store c1) (remove1 (last (evictList c1)) (evictList c1))"
      by (simp add: lru_abs_def removeElement_def)
    also have "\<dots> = butlast (lru_abs c1)" using out d(1) by (subst last) (simp_all add: lru_abs_def c1_def map_butlast)
    finally show ?thesis using True sp by (simp add: set' abs1)
  next
    case False
    then show ?thesis using sp by (simp add: set' abs1)
  qed
qed

lemma Set_old:
  fixes v :: 'v and now :: gotime and ttl :: duration
  assumes "lru_ok c" "items c k = Some a"
  defines "e \<equiv> \<lparr>ekey = k, evalue = v, expireAt = now + ttl\<rparr>"
  shows "lru_ok (SetWithTTL now k v ttl c)" "lru_abs (SetWithTTL now k v ttl c) = spec_set (maxEntries c) e (lru_abs c)"
proof -
  note d = lru_okD [OF assms(1)]
  have a: "a \<in> set (evictList c)" "ekey (store c a) = k" using d(3) assms(2) by auto
  note mv = MoveToFront_ok [OF assms(1) a(1)]
  let ?c = "MoveToFront a c"
  have st: "store ?c = store c" "evictList ?c = a # remove1 a (evictList c)" by (simp_all add: MoveToFront_def)
  have s: "SetWithTTL now k v ttl c = ?c\<lparr>store := (store c)(a := (store c a)\<lparr>evalue := v, expireAt := now + ttl\<rparr>)\<rparr>"
    using assms(2) by (simp add: SetWithTTL_def Let_def st)
  have e: "(store c a)\<lparr>evalue := v, expireAt := now + ttl\<rparr> = e" using a(2) by (simp add: e_def)
  define s' where "s' = (store c)(a := e)"
  have ek: "ekey (s' b) = ekey (store c b)" for b using a(2) by (simp add: e_def s'_def)
  show "lru_ok (SetWithTTL now k v ttl c)"
    using mv(1) unfolding lru_ok_def s e s'_def [symmetric] by (simp add: st ek)
  have na: "a \<notin> set (remove1 a (evictList c))" using d(1) by simp
  then have "map ((store c)(a := e)) (remove1 a (evictList c)) = drop_key k (lru_abs c)"
    using drop_map [OF d(2) a(1)] a(2) by (auto simp: lru_abs_def)
  moreover have "length (drop_key k (lru_abs c)) < length (evictList c)"
    using drop_map [OF d(2) a(1)] a by (metis length_map length_remove1 lru_abs_def diff_less length_pos_if_in_set zero_less_one)
  ultimately show "lru_abs (SetWithTTL now k v ttl c) = spec_set (maxEntries c) e (lru_abs c)"
    using d(5) unfolding s e by (simp add: spec_set_def e_def lru_abs_def st Let_def)
qed

lemma Set_ok:
  assumes "lru_ok c"
  shows "lru_ok (SetWithTTL now k v ttl c)"
    "lru_abs (SetWithTTL now k v ttl c) = spec_set (maxEntries c) \<lparr>ekey = k, evalue = v, expireAt = now + ttl\<rparr> (lru_abs c)"
  using Set_new [OF assms] Set_old [OF assms] by (cases "items c k"; blast)+

lemma Delete_ok:
  assumes "lru_ok c"
  shows "lru_ok (Delete k c)" "lru_abs (Delete k c) = drop_key k (lru_abs c)"
  using removeElement_ok [OF assms] lru_okD(3) [OF assms] drop_absent [of k "lru_abs c"] find_items [OF assms, of k] assms
  by (auto simp: Delete_def split: option.splits)

lemma GetWithTTL_ok:
  assumes "lru_ok c"
  shows "snd (GetWithTTL now k c) = snd (Get now k c)"
    "fst (GetWithTTL now k c) = map_option (\<lambda>e. (evalue e, time_sub (expireAt e) now)) (fst (spec_get now k (lru_abs c)))"
  using find_items [OF assms, of k] by (auto simp: GetWithTTL_def Get_def spec_get_def split: option.splits)

lemma Has_ok: "lru_ok c \<Longrightarrow> Has now k c \<longleftrightarrow> fst (Get now k c) \<noteq> None"
  by (auto simp: Has_def Get_def split: option.splits)

lemma fold_remove:
  "lru_ok c \<Longrightarrow> distinct as \<Longrightarrow> set as \<subseteq> set (evictList c) \<Longrightarrow>
   lru_ok (fold removeElement as c) \<and>
   lru_abs (fold removeElement as c) = filter (\<lambda>e. ekey e \<notin> (\<lambda>a. ekey (store c a)) ` set as) (lru_abs c)"
proof (induction as arbitrary: c)
  case (Cons a as)
  then have a: "a \<in> set (evictList c)" by simp
  note r = removeElement_ok [OF Cons.prems(1) a]
  have "set as \<subseteq> set (evictList (removeElement a c))"
    using Cons.prems lru_okD(1) [OF Cons.prems(1)] by (auto simp: removeElement_def set_remove1_eq)
  with Cons.IH [OF r(1)] Cons.prems have ih: "lru_ok (fold removeElement as (removeElement a c))"
    "lru_abs (fold removeElement as (removeElement a c)) =
       filter (\<lambda>e. ekey e \<notin> (\<lambda>b. ekey (store (removeElement a c) b)) ` set as) (lru_abs (removeElement a c))" by auto
  have "store (removeElement a c) = store c" by (simp add: removeElement_def)
  with ih r(2) show ?case by (auto simp: drop_key_def intro: filter_cong)
qed simp

lemma map_filter_order:
  assumes "lru_ok c" "set order = dom (items c)" "distinct order"
  shows "distinct (List.map_filter (items c) (filter P order))"
    "set (List.map_filter (items c) (filter P order)) = {a \<in> set (evictList c). P (ekey (store c a))}"
proof -
  note d = lru_okD(3) [OF assms(1)]
  have mf: "List.map_filter (items c) (filter P order) = map (\<lambda>k. the (items c k)) (filter P order)"
  proof -
    have "filter (\<lambda>k. items c k \<noteq> None) (filter P order) = filter P order"
      unfolding filter_filter using assms(2) by (intro filter_cong) auto
    then show ?thesis by (simp add: map_filter_def comp_def)
  qed
  show "distinct (List.map_filter (items c) (filter P order))"
  proof -
    have "inj_on (\<lambda>k. the (items c k)) (dom (items c))"
    proof (rule inj_on_inverseI [where g = "\<lambda>a. ekey (store c a)"])
      fix k
      assume "k \<in> dom (items c)"
      then obtain a where "items c k = Some a" by blast
      then show "ekey (store c (the (items c k))) = k" using d [of k a] by simp
    qed
    then have "inj_on (\<lambda>k. the (items c k)) (set (filter P order))" by (rule inj_on_subset) (use assms(2) in auto)
    then show ?thesis unfolding mf distinct_map using assms(3) by simp
  qed
  show "set (List.map_filter (items c) (filter P order)) = {a \<in> set (evictList c). P (ekey (store c a))}"
  proof (rule set_eqI)
    fix a
    have "a \<in> set (List.map_filter (items c) (filter P order)) \<longleftrightarrow> (\<exists>k. P k \<and> items c k = Some a)"
      unfolding mf using assms(2) by force
    then show "a \<in> set (List.map_filter (items c) (filter P order)) \<longleftrightarrow> a \<in> {a \<in> set (evictList c). P (ekey (store c a))}"
      using d by auto
  qed
qed

lemma DeleteByPrefix_ok:
  assumes "lru_ok c" "set order = dom (items c)" "distinct order"
  shows "lru_ok (DeleteByPrefix order prefix c)"
    "lru_abs (DeleteByPrefix order prefix c) = filter (\<lambda>e. \<not> HasPrefix (ekey e) prefix) (lru_abs c)"
proof -
  let ?P = "\<lambda>k. HasPrefix k prefix"
  note mf = map_filter_order [OF assms, of ?P]
  have r: "lru_ok (DeleteByPrefix order prefix c)"
    "lru_abs (DeleteByPrefix order prefix c) =
       filter (\<lambda>e. ekey e \<notin> (\<lambda>a. ekey (store c a)) ` {a \<in> set (evictList c). ?P (ekey (store c a))}) (lru_abs c)"
    using fold_remove [OF assms(1) mf(1)] mf(2) by (auto simp: DeleteByPrefix_def)
  then show "lru_ok (DeleteByPrefix order prefix c)" by simp
  show "lru_abs (DeleteByPrefix order prefix c) = filter (\<lambda>e. \<not> ?P (ekey e)) (lru_abs c)"
    unfolding r(2) by (rule filter_cong) (auto simp: lru_abs_def)
qed

lemma Clear_ok: "lru_ok c \<Longrightarrow> lru_ok (Clear c) \<and> lru_abs (Clear c) = []"
  by (simp add: lru_ok_def Clear_def lru_abs_def)

lemma Size_ok:
  assumes "lru_ok c"
  shows "Size c = length (lru_abs c)"
proof -
  note d = lru_okD(3) [OF assms]
  have "dom (items c) = (\<lambda>a. ekey (store c a)) ` set (evictList c)" using d by (auto simp: dom_def)
  then have "Size c = card (set (map (\<lambda>a. ekey (store c a)) (evictList c)))" by (simp add: Size_def)
  then show ?thesis using distinct_card [OF lru_okD(2) [OF assms]] by (simp add: lru_abs_def)
qed

lemma NewLRU_ok: "lru_ok (NewLRU mem mx ttl) \<and> lru_abs (NewLRU mem mx ttl) = []"
  by (simp add: NewLRU_def lru_ok_def lru_abs_def)

subsection \<open>The cache contract\<close>

text \<open>
  The contract of the \<^verbatim>\<open>Cache\<close> interface: what a key holds, with its expiry, after each operation.
  A cache may forget an entry at any insertion, but it never makes one up.
\<close>

locale cache_contract =
  fixes ok :: "'c \<Rightarrow> bool"
    and holds :: "'c \<Rightarrow> string \<Rightarrow> ('v \<times> gotime) option"
    and get :: "gotime \<Rightarrow> string \<Rightarrow> 'c \<Rightarrow> 'v option \<times> 'c"
    and put :: "gotime \<Rightarrow> string \<Rightarrow> 'v \<Rightarrow> duration \<Rightarrow> 'c \<Rightarrow> 'c"
    and del :: "string \<Rightarrow> 'c \<Rightarrow> 'c"
  assumes put_ok: "ok c \<Longrightarrow> ok (put now k v ttl c)" and get_ok: "ok c \<Longrightarrow> ok (snd (get now k c))" and del_ok: "ok c \<Longrightarrow> ok (del k c)"
    and put_same: "ok c \<Longrightarrow> holds (put now k v ttl c) k = Some (v, now + ttl)"
    and put_other: "ok c \<Longrightarrow> k' \<noteq> k \<Longrightarrow> holds (put now k v ttl c) k' = holds c k' \<or> holds (put now k v ttl c) k' = None"
    and get_value: "ok c \<Longrightarrow> fst (get now k c) = (case holds c k of Some (v, x) \<Rightarrow> if now > x then None else Some v | None \<Rightarrow> None)"
    and get_other: "ok c \<Longrightarrow> k' \<noteq> k \<Longrightarrow> holds (snd (get now k c)) k' = holds c k'"
    and del_holds: "ok c \<Longrightarrow> holds (del k c) = (holds c)(k := None)"
begin

lemma put_get: "ok c \<Longrightarrow> now' \<le> now + ttl \<Longrightarrow> fst (get now' k (put now k v ttl c)) = Some v"
  by (simp add: get_value put_ok put_same)

lemma get_fresh: "ok c \<Longrightarrow> fst (get now k c) = Some v \<Longrightarrow> \<exists>x. holds c k = Some (v, x) \<and> now \<le> x"
  by (auto simp: get_value split: option.splits if_splits)

lemma del_get: "ok c \<Longrightarrow> fst (get now k (del k c)) = None"
  by (simp add: get_value del_ok del_holds)

lemma coded_round_trip:
  assumes "ok c" "marshal x = Some data" "unmarshal data = Some x" "now' \<le> now + ttl"
  shows "Option.bind (fst (get now' k (case marshal x of None \<Rightarrow> c | Some data \<Rightarrow> put now k data ttl c))) unmarshal = Some x"
  using assms by (simp add: put_get)

end

definition lru_holds :: "'v LRUCache \<Rightarrow> string \<Rightarrow> ('v \<times> gotime) option" where
  "lru_holds c k = map_option (\<lambda>e. (evalue e, expireAt e)) (find_key k (lru_abs c))"

lemma find_Cons: "find_key k (e # xs) = (if ekey e = k then Some e else find_key k xs)"
  by (simp add: find_key_def)

lemma find_drop: "find_key k (drop_key k' xs) = (if k = k' then None else find_key k xs)"
  by (induction xs) (auto simp: find_key_def drop_key_def)

lemma find_butlast: "find_key k (butlast xs) = find_key k xs \<or> find_key k (butlast xs) = None"
  by (induction xs) (auto simp: find_key_def)

lemma find_spec_set:
  assumes "0 < mx"
  shows "find_key (ekey e) (spec_set mx e xs) = Some e"
    "k \<noteq> ekey e \<Longrightarrow> find_key k (spec_set mx e xs) = find_key k xs \<or> find_key k (spec_set mx e xs) = None"
  using assms find_butlast [of k "e # drop_key (ekey e) xs"]
  by (auto simp: spec_set_def Let_def find_Cons find_drop split: if_splits)

lemma find_spec_get:
  "k' \<noteq> k \<Longrightarrow> find_key k' (snd (spec_get now k xs)) = find_key k' xs"
proof (cases "find_key k xs")
  case (Some e)
  then have "ekey e = k" by (auto simp: find_key_def find_Some_iff)
  moreover assume "k' \<noteq> k"
  ultimately show ?thesis using Some by (auto simp: spec_get_def find_Cons find_drop)
qed (simp add: spec_get_def)

interpretation lru: cache_contract lru_ok lru_holds Get SetWithTTL Delete
proof unfold_locales
  fix c :: "'a LRUCache" and now ttl k v k'
  assume ok: "lru_ok c"
  show "lru_ok (SetWithTTL now k v ttl c)" "lru_ok (snd (Get now k c))" "lru_ok (Delete k c)"
    by (simp_all add: Set_ok(1) Get_ok(1) Delete_ok(1) ok)
  show "lru_holds (SetWithTTL now k v ttl c) k = Some (v, now + ttl)"
    using find_spec_set(1) [OF lru_okD(6) [OF ok], of "\<lparr>ekey = k, evalue = v, expireAt = now + ttl\<rparr>" "lru_abs c"]
    by (simp add: lru_holds_def Set_ok(2) [OF ok])
  show "lru_holds (SetWithTTL now k v ttl c) k' = lru_holds c k' \<or> lru_holds (SetWithTTL now k v ttl c) k' = None" if "k' \<noteq> k"
    using find_spec_set(2) [OF lru_okD(6) [OF ok], of k' "\<lparr>ekey = k, evalue = v, expireAt = now + ttl\<rparr>" "lru_abs c"] that
    by (auto simp: lru_holds_def Set_ok(2) [OF ok])
  show "fst (Get now k c) = (case lru_holds c k of Some (v, x) \<Rightarrow> if now > x then None else Some v | None \<Rightarrow> None)"
    by (simp add: Get_ok(3) [OF ok] lru_holds_def spec_get_def split: option.splits)
  show "lru_holds (snd (Get now k c)) k' = lru_holds c k'" if "k' \<noteq> k"
    by (simp add: lru_holds_def Get_ok(2) [OF ok] find_spec_get [OF that])
  show "lru_holds (Delete k c) = (lru_holds c)(k := None)"
    by (auto simp: lru_holds_def Delete_ok(2) [OF ok] find_drop)
qed

subsection \<open>Recency\<close>

lemma take_removeAll:
  "distinct xs \<Longrightarrow> take m (removeAll k (take (Suc m) xs)) = take m (removeAll k xs)"
proof (induction xs arbitrary: m)
  case (Cons x xs)
  show ?case
  proof (cases "x = k")
    case True
    with Cons.prems have "k \<notin> set xs" "k \<notin> set (take m xs)" by (auto dest: in_set_takeD)
    then have "removeAll k xs = xs" "removeAll k (take m xs) = take m xs" by (metis removeAll_id)+
    with True show ?thesis by simp
  next
    case False
    with Cons show ?thesis by (cases m) simp_all
  qed
qed simp

lemma spec_set_keys:
  assumes "0 < mx" "int (length xs) \<le> mx"
  shows "map ekey (spec_set mx e xs) = take (nat mx) (ekey e # removeAll (ekey e) (map ekey xs))"
proof -
  let ?k = "ekey e"
  have r: "map ekey (drop_key ?k xs) = removeAll ?k (map ekey xs)"
    by (induction xs) (auto simp: drop_key_def)
  have l: "length (drop_key ?k xs) \<le> nat mx" using assms(2) unfolding drop_key_def
    by (metis le_nat_iff length_filter_le nat_int_comparison(3) order_trans assms(1) less_imp_le int_nat_eq of_nat_0_le_iff)
  show ?thesis
  proof (cases "int (length (e # drop_key ?k xs)) > mx")
    case True
    with l have "length (e # drop_key ?k xs) = Suc (nat mx)" by simp
    then have "butlast (e # drop_key ?k xs) = take (nat mx) (e # drop_key ?k xs)" by (simp add: butlast_conv_take)
    then show ?thesis using True by (simp add: spec_set_def Let_def take_map [symmetric] r [symmetric])
  next
    case False
    then have "length (e # drop_key ?k xs) \<le> nat mx" by simp
    then show ?thesis using False by (simp add: spec_set_def Let_def r [symmetric])
  qed
qed

definition touch :: "string \<Rightarrow> string list \<Rightarrow> string list" where
  "touch k ks = k # removeAll k ks"

definition put_all :: "(gotime \<times> string \<times> 'v \<times> duration) list \<Rightarrow> 'v LRUCache \<Rightarrow> 'v LRUCache" where
  "put_all ops = fold (\<lambda>(now, k, v, ttl). SetWithTTL now k v ttl) ops"

lemma maxEntries_Set [simp]: "maxEntries (SetWithTTL now k v ttl c) = maxEntries c"
  by (simp add: SetWithTTL_def MoveToFront_def removeElement_def Let_def split: option.splits)

lemma put_all_keys:
  assumes "lru_ok c" "distinct R" "map ekey (lru_abs c) = take (nat (maxEntries c)) R"
  shows "lru_ok (put_all ops c) \<and>
    map ekey (lru_abs (put_all ops c)) = take (nat (maxEntries c)) (fold touch (map (\<lambda>(now, k, v, ttl). k) ops) R)"
  using assms
proof (induction ops arbitrary: c R)
  case (Cons opn ops)
  obtain now k v ttl where o: "opn = (now, k, v, ttl)" by (cases opn)
  let ?c = "SetWithTTL now k v ttl c"
  note d = lru_okD [OF Cons.prems(1)]
  obtain m where m: "nat (maxEntries c) = Suc m" using d(6) by (metis gr0_implies_Suc zero_less_nat_eq)
  have len: "int (length (lru_abs c)) \<le> maxEntries c" using d(5) by (simp add: lru_abs_def)
  have "map ekey (lru_abs ?c) = take (Suc m) (k # removeAll k (take (Suc m) R))"
    using spec_set_keys [OF d(6), of "lru_abs c" "\<lparr>ekey = k, evalue = v, expireAt = now + ttl\<rparr>"] len Cons.prems(3) m
    by (simp add: Set_ok(2) [OF Cons.prems(1)])
  also have "\<dots> = take (nat (maxEntries c)) (touch k R)" using take_removeAll [OF Cons.prems(2)] by (simp add: touch_def m)
  finally have "map ekey (lru_abs ?c) = take (nat (maxEntries ?c)) (touch k R)" by simp
  moreover have "distinct (touch k R)" using Cons.prems(2) by (simp add: touch_def distinct_removeAll)
  ultimately show ?case using Cons.IH [OF Set_ok(1) [OF Cons.prems(1)]] by (simp add: put_all_def o)
qed (simp add: put_all_def)

subsection \<open>Properties\<close>

text \<open>
  C14. The cache of linked elements and map implements a plain list of entries, most recent first:
  from a consistent cache, every operation leads to a consistent one, and acts on the list as looking
  up, moving to the front, inserting with eviction of the last, deleting, filtering by prefix, clearing
  and counting. In particular list and map never diverge and the size stays within the maximum.
\<close>

theorem lru_refines_list:
  assumes "lru_ok c"
  shows "(\<forall>now k v ttl. lru_ok (SetWithTTL now k v ttl c) \<and>
      lru_abs (SetWithTTL now k v ttl c) = spec_set (maxEntries c) \<lparr>ekey = k, evalue = v, expireAt = now + ttl\<rparr> (lru_abs c)) \<and>
    (\<forall>now k. lru_ok (snd (Get now k c)) \<and> lru_abs (snd (Get now k c)) = snd (spec_get now k (lru_abs c)) \<and>
      fst (Get now k c) = map_option evalue (fst (spec_get now k (lru_abs c))) \<and>
      (Has now k c \<longleftrightarrow> fst (Get now k c) \<noteq> None) \<and> snd (GetWithTTL now k c) = snd (Get now k c)) \<and>
    (\<forall>k. lru_ok (Delete k c) \<and> lru_abs (Delete k c) = drop_key k (lru_abs c)) \<and>
    (\<forall>order prefix. set order = dom (items c) \<and> distinct order \<longrightarrow> lru_ok (DeleteByPrefix order prefix c) \<and>
      lru_abs (DeleteByPrefix order prefix c) = filter (\<lambda>e. \<not> HasPrefix (ekey e) prefix) (lru_abs c)) \<and>
    lru_ok (Clear c) \<and> lru_abs (Clear c) = [] \<and> Size c = length (lru_abs c) \<and> int (Size c) \<le> maxEntries c"
proof -
  have "int (Size c) \<le> maxEntries c" using Size_ok [OF assms] lru_okD(5) [OF assms] by (simp add: lru_abs_def)
  then show ?thesis
    by (intro conjI allI impI; (elim conjE)?)
      (simp_all only: Set_ok [OF assms] Get_ok(1,2,3) [OF assms] Has_ok [OF assms] GetWithTTL_ok(1) [OF assms] Delete_ok [OF assms]
        DeleteByPrefix_ok [OF assms] Clear_ok [OF assms] Size_ok [OF assms])
qed

definition two_entries :: "string LRUCache" where
  "two_entries = put_all [(1, ''a:1'', ''x'', 10), (2, ''b:2'', ''y'', 10)] (NewLRU (\<lambda>_. \<lparr>ekey = [], evalue = [], expireAt = 0\<rparr>) 2 0)"

lemma two_entries_ok: "lru_ok two_entries"
  unfolding two_entries_def using put_all_keys [of "NewLRU _ 2 0" "[]"] NewLRU_ok by (metis distinct.simps(1) list.simps(8) take_Nil)

theorem lru_refines_list_witness: "Size two_entries = length (lru_abs two_entries) \<and> int (Size two_entries) \<le> maxEntries two_entries"
  using lru_refines_list [OF two_entries_ok] by blast

text \<open>
  Eviction is least recently used: after any sequence of insertions into a new cache, the keys it
  holds are the most recently inserted distinct ones, as many as fit, in order of recency.
\<close>

theorem lru_keeps_recent:
  "map ekey (lru_abs (put_all ops (NewLRU mem mx ttl))) =
     take (nat (if mx \<le> 0 then 1024 else mx)) (fold touch (map (\<lambda>(now, k, v, ttl). k) ops) [])"
  using put_all_keys [of "NewLRU mem mx ttl" "[]" ops] NewLRU_ok [of mem mx ttl] by (simp add: NewLRU_def)

text \<open>
  What was stored can be read back until it expires, and nothing else is ever read: right after a
  value is set, a \<^verbatim>\<open>Get\<close> within its TTL returns it, also through the JSON helpers when the coding
  is inverse on it; and a value returned by \<^verbatim>\<open>Get\<close> is held under that key and not expired.
\<close>

theorem cache_round_trip:
  assumes "lru_ok c"
  shows "(now' \<le> now + ttl \<longrightarrow> fst (Get now' k (SetWithTTL now k v ttl c)) = Some v) \<and>
    (marshal x = Some v \<and> unmarshal v = Some x \<and> now' \<le> now + ttl \<longrightarrow>
       fst (GetJSON unmarshal now' k (SetJSONWithTTL marshal now k x ttl c)) = Some x) \<and>
    (fst (Get now k c) = Some v \<longrightarrow> (\<exists>e. lru_holds c k = Some (v, e) \<and> now \<le> e)) \<and>
    fst (Get now k (Delete k c)) = None"
  using lru.put_get [OF assms] lru.coded_round_trip [OF assms, of marshal x v unmarshal now' now ttl k]
    lru.get_fresh [OF assms] lru.del_get [OF assms]
  by (auto simp: GetJSON_def SetJSONWithTTL_def case_prod_beta Let_def)

theorem cache_round_trip_witness: "fst (Get 12 ''b:2'' (SetWithTTL 3 ''b:2'' ''z'' 10 two_entries)) = Some ''z''"
  using cache_round_trip [OF two_entries_ok, of 12 3 10 "''b:2''" "''z''" Some "''z''" Some] by simp

end
