(* ===== verification/AlertEvents.thy ===== *)
theory AlertEvents
  imports GoStrings "HOL-Library.Char_ord" "HOL-Library.List_Lexorder" "HOL-Library.Multiset"
begin

text \<open>
  Alert events and their deduplication: \<^verbatim>\<open>pkg/prism/alert\<close> (\<^verbatim>\<open>event.go\<close>,
  \<^verbatim>\<open>alert.go\<close>) and the guard \<^verbatim>\<open>Dedup\<close> of \<^verbatim>\<open>pkg/prism/governance\<close>. The numbers
  of a metric context are left abstract (type variable for the floats).
\<close>

record 'f MetricContext =
  mc_Name :: string
  mc_Value :: 'f
  mc_Threshold :: 'f
  mc_Metrics :: "string \<rightharpoonup> 'f"

record LogContext =
  lc_Keyword :: string
  lc_Content :: string

record StatusContext =
  sc_PrevStatus :: string
  sc_CurrStatus :: string

record 'f Violation =
  Kind :: string
  vRuleID :: int
  vRuleName :: string
  vSeverity :: string
  vSource :: string
  vMessage :: string
  Metric :: "'f MetricContext option"
  vLog :: "LogContext option"
  vStatus :: "StatusContext option"

record 'f Event =
  evType :: string
  EventID :: string
  AssetID :: int
  TenantID :: int
  Timestamp :: gotime
  Violations :: "'f Violation list"
  Locale :: string
  TemplateID :: string

text \<open>The zero values of Go.\<close>

definition zero_Violation :: "'f Violation" where
  "zero_Violation = \<lparr>Kind = [], vRuleID = 0, vRuleName = [], vSeverity = [], vSource = [], vMessage = [],
     Metric = None, vLog = None, vStatus = None\<rparr>"

definition zero_Event :: "'f Event" where
  "zero_Event = \<lparr>evType = [], EventID = [], AssetID = 0, TenantID = 0, Timestamp = zero_time, Violations = [],
     Locale = [], TemplateID = []\<rparr>"

definition TypeMetric :: string where "TypeMetric = ''metric''"
definition TypeLog :: string where "TypeLog = ''log''"
definition TypeHeartbeat :: string where "TypeHeartbeat = ''heartbeat''"
definition TypeStatus :: string where "TypeStatus = ''status''"

definition severityRank :: "string \<Rightarrow> int" where
  "severityRank level =
     (if level = ''critical'' \<or> level = ''fatal'' then 5
      else if level = ''error'' then 4
      else if level = ''warning'' \<or> level = ''warn'' then 3
      else if level = ''info'' \<or> level = ''notice'' then 2
      else if level = ''debug'' then 1
      else 0)"

fun primary_loop :: "'f Violation \<Rightarrow> 'f Violation list \<Rightarrow> 'f Violation" where
  "primary_loop p [] = p"
| "primary_loop p (v # vs) =
     primary_loop (if severityRank (vSeverity v) > severityRank (vSeverity p) then v else p) vs"

definition primaryViolation :: "'f Event \<Rightarrow> 'f Violation option" where
  "primaryViolation e = (case Violations e of [] \<Rightarrow> None | v # vs \<Rightarrow> Some (primary_loop v vs))"

definition HasViolations :: "'f Event \<Rightarrow> bool" where
  "HasViolations e \<longleftrightarrow> length (Violations e) > 0"

definition MetricName :: "'f Event \<Rightarrow> string" where
  "MetricName e = (case Option.bind (primaryViolation e) Metric of Some c \<Rightarrow> mc_Name c | None \<Rightarrow> [])"

definition MetricValue :: "'f::zero Event \<Rightarrow> 'f" where
  "MetricValue e = (case Option.bind (primaryViolation e) Metric of Some c \<Rightarrow> mc_Value c | None \<Rightarrow> 0)"

definition Threshold :: "'f::zero Event \<Rightarrow> 'f" where
  "Threshold e = (case Option.bind (primaryViolation e) Metric of Some c \<Rightarrow> mc_Threshold c | None \<Rightarrow> 0)"

definition Metrics :: "'f Event \<Rightarrow> (string \<rightharpoonup> 'f)" where
  "Metrics e = (case Option.bind (primaryViolation e) Metric of Some c \<Rightarrow> mc_Metrics c | None \<Rightarrow> Map.empty)"

definition Severity :: "'f Event \<Rightarrow> string" where
  "Severity e = (case primaryViolation e of Some v \<Rightarrow> vSeverity v | None \<Rightarrow> [])"

definition Keyword :: "'f Event \<Rightarrow> string" where
  "Keyword e = (case Option.bind (primaryViolation e) vLog of Some c \<Rightarrow> lc_Keyword c | None \<Rightarrow> [])"

definition Content :: "'f Event \<Rightarrow> string" where
  "Content e = (case Option.bind (primaryViolation e) vLog of Some c \<Rightarrow> lc_Content c | None \<Rightarrow> [])"

definition SourceIP :: "'f Event \<Rightarrow> string" where
  "SourceIP e = (case primaryViolation e of Some v \<Rightarrow> vSource v | None \<Rightarrow> [])"

subsection \<open>Deduplication\<close>

definition violation_part :: "'f Violation \<Rightarrow> string" where
  "violation_part v =
     Kind v @ (if vSeverity v \<noteq> [] then '':'' @ vSeverity v else []) @
     (case Metric v of Some c \<Rightarrow> if mc_Name c \<noteq> [] then '':'' @ mc_Name c else [] | None \<Rightarrow> [])"

definition fingerprint :: "'f Event \<Rightarrow> string" where
  "fingerprint e =
     evType e @ ''|'' @ FormatInt (AssetID e) @ ''|'' @ Join (sort (map violation_part (Violations e))) '',''"

datatype Decision = DecisionPass | DecisionSuppress | DecisionAggregate

record Dedup =
  window :: duration
  seen :: "string \<rightharpoonup> gotime"
  lastSweep :: gotime

definition NewDedup :: "duration \<Rightarrow> Dedup" where
  "NewDedup w = \<lparr>window = (if w \<le> 0 then 60 * time_Second else w), seen = Map.empty, lastSweep = zero_time\<rparr>"

definition maybeSweepLocked :: "gotime \<Rightarrow> Dedup \<Rightarrow> Dedup" where
  "maybeSweepLocked now d =
     (if lastSweep d = zero_time \<or> time_sub now (lastSweep d) \<ge> window d then
        d\<lparr>seen := (\<lambda>fp. case seen d fp of
                     Some t \<Rightarrow> if time_sub now t \<ge> window d then None else Some t
                   | None \<Rightarrow> None),
          lastSweep := now\<rparr>
      else d)"

definition Process :: "gotime \<Rightarrow> 'f Event option \<Rightarrow> Dedup \<Rightarrow> Decision \<times> Dedup" where
  "Process now evt d =
     (case evt of
        None \<Rightarrow> (DecisionPass, d)
      | Some e \<Rightarrow>
          (let fp = fingerprint e;
               d = maybeSweepLocked now d
           in case seen d fp of
                Some t \<Rightarrow> if time_sub now t < window d then (DecisionSuppress, d)
                          else (DecisionPass, d\<lparr>seen := (seen d)(fp \<mapsto> now)\<rparr>)
              | None \<Rightarrow> (DecisionPass, d\<lparr>seen := (seen d)(fp \<mapsto> now)\<rparr>)))"

fun dedup_run :: "Dedup \<Rightarrow> (gotime \<times> 'f Event) list \<Rightarrow> Decision list \<times> Dedup" where
  "dedup_run d [] = ([], d)"
| "dedup_run d ((now, e) # es) =
     (let (dec, d1) = Process now (Some e) d; (ds, d2) = dedup_run d1 es in (dec # ds, d2))"

lemma dedup_run_snoc:
  "dedup_run d (es @ [(now, e)]) =
     (let (ds, d1) = dedup_run d es; (dec, d2) = Process now (Some e) d1 in (ds @ [dec], d2))"
  by (induction es arbitrary: d) (auto simp: case_prod_beta Let_def)

lemma dedup_run_length [simp]: "length (fst (dedup_run d es)) = length es"
  by (induction es arbitrary: d) (auto simp: case_prod_beta Let_def)

text \<open>
  What the guard knows after a run: each time it has noted is that of an alert that passed, and each
  alert that passed is noted with its time or a later one unless its window is over.
\<close>

definition passed :: "(gotime \<times> 'f Event) list \<Rightarrow> Decision list \<Rightarrow> string \<Rightarrow> gotime set" where
  "passed es ds fp = {fst (es ! j) | j. j < length es \<and> fingerprint (snd (es ! j)) = fp \<and> ds ! j = DecisionPass}"

definition dedup_inv :: "(gotime \<times> 'f Event) list \<Rightarrow> Decision list \<Rightarrow> gotime \<Rightarrow> Dedup \<Rightarrow> bool" where
  "dedup_inv es ds now d \<longleftrightarrow>
     (\<forall>fp t. seen d fp = Some t \<longrightarrow> t \<in> passed es ds fp) \<and>
     (\<forall>fp. \<forall>t\<in>passed es ds fp. t \<le> now \<and> ((\<exists>t'. seen d fp = Some t' \<and> t \<le> t') \<or> now - t \<ge> window d))"

definition recent :: "(gotime \<times> 'f Event) list \<Rightarrow> Decision list \<Rightarrow> duration \<Rightarrow> gotime \<Rightarrow> 'f Event \<Rightarrow> bool" where
  "recent es ds w now e \<longleftrightarrow> (\<exists>t\<in>passed es ds (fingerprint e). now - t < w)"

lemma passed_snoc:
  "length ds = length es \<Longrightarrow>
   passed (es @ [(now, e)]) (ds @ [dec]) fp =
     (if dec = DecisionPass \<and> fingerprint e = fp then insert now (passed es ds fp) else passed es ds fp)"
proof -
  assume len: "length ds = length es"
  have "{j. j < length (es @ [(now, e)]) \<and> fingerprint (snd ((es @ [(now, e)]) ! j)) = fp \<and> (ds @ [dec]) ! j = DecisionPass}
    = {j. j < length es \<and> fingerprint (snd (es ! j)) = fp \<and> ds ! j = DecisionPass} \<union>
      (if dec = DecisionPass \<and> fingerprint e = fp then {length es} else {})"
    using len by (auto simp: nth_append less_Suc_eq)
  moreover have "(\<lambda>j. fst ((es @ [(now, e)]) ! j)) ` {j. j < length es \<and> P j} = (\<lambda>j. fst (es ! j)) ` {j. j < length es \<and> P j}" for P
    by (rule image_cong) (auto simp: nth_append)
  ultimately show ?thesis by (simp add: passed_def setcompr_eq_image image_Un)
qed

lemma dedup_inv_later: "dedup_inv es ds t0 d \<Longrightarrow> t0 \<le> now \<Longrightarrow> dedup_inv es ds now d"
  unfolding dedup_inv_def by fastforce

lemma sweep_window [simp]: "window (maybeSweepLocked now d) = window d"
  by (simp add: maybeSweepLocked_def)

lemma sweep_seen:
  "seen (maybeSweepLocked now d) fp = seen d fp \<or>
   (\<exists>t. seen d fp = Some t \<and> window d \<le> time_sub now t \<and> seen (maybeSweepLocked now d) fp = None)"
  by (auto simp: maybeSweepLocked_def split: option.splits)

lemma sweep_inv:
  assumes "dedup_inv es ds now d" "0 < window d" "window d \<le> max_duration"
  shows "dedup_inv es ds now (maybeSweepLocked now d)"
proof -
  have ge: "time_sub now t \<ge> window d \<longleftrightarrow> now - t \<ge> window d" for t
    using assms(2,3) by (intro time_sub_ge_iff) (simp_all add: min_duration_def)
  have "t \<in> passed es ds fp" if "seen (maybeSweepLocked now d) fp = Some t" for fp t
    using assms(1) sweep_seen[of now d fp] that by (auto simp: dedup_inv_def)
  moreover have "t \<le> now \<and> ((\<exists>t'. seen (maybeSweepLocked now d) fp = Some t' \<and> t \<le> t') \<or> now - t \<ge> window d)"
    if "t \<in> passed es ds fp" for fp t
    using assms(1) sweep_seen[of now d fp] that by (fastforce simp: dedup_inv_def ge)
  ultimately show ?thesis by (simp add: dedup_inv_def)
qed

lemma Process_inv:
  assumes inv: "dedup_inv es ds t0 d" and w: "0 < window d" "window d \<le> max_duration"
    and "t0 \<le> now" "length ds = length es"
  shows "\<exists>dec d'. Process now (Some e) d = (dec, d') \<and> window d' = window d \<and>
           dec = (if recent es ds (window d) now e then DecisionSuppress else DecisionPass) \<and>
           dedup_inv (es @ [(now, e)]) (ds @ [dec]) now d'"
proof -
  let ?d = "maybeSweepLocked now d" and ?fp = "fingerprint e"
  have lt: "time_sub now t < window d \<longleftrightarrow> now - t < window d" for t
    using w time_sub_ge_iff[of "window d" now t] by (simp add: min_duration_def linorder_not_le[symmetric])
  have i: "dedup_inv es ds now ?d"
    by (rule sweep_inv[OF dedup_inv_later[OF inv \<open>t0 \<le> now\<close>] w])
  show ?thesis
  proof (cases "recent es ds (window d) now e")
    case True
    then obtain t where "seen ?d ?fp = Some t" "now - t < window d"
      using i by (fastforce simp: recent_def dedup_inv_def)
    then show ?thesis
      using i True assms(5) by (simp add: Process_def lt dedup_inv_def passed_snoc)
  next
    case False
    then have "Process now (Some e) d = (DecisionPass, ?d\<lparr>seen := (seen ?d)(?fp \<mapsto> now)\<rparr>)"
      using i by (auto simp: Process_def Let_def lt dedup_inv_def recent_def split: option.splits)
    moreover have "dedup_inv (es @ [(now, e)]) (ds @ [DecisionPass]) now (?d\<lparr>seen := (seen ?d)(?fp \<mapsto> now)\<rparr>)"
      using i assms(5) by (auto simp: dedup_inv_def passed_snoc)
    ultimately show ?thesis using False by simp
  qed
qed

lemma dedup_run_inv:
  assumes "sorted (map fst es)" "0 < window d0" "window d0 \<le> max_duration" "seen d0 = Map.empty"
    "\<forall>x\<in>set es. fst x \<le> now"
  shows "\<exists>ds d. dedup_run d0 es = (ds, d) \<and> window d = window d0 \<and> dedup_inv es ds now d \<and>
    (\<forall>i<length es. ds ! i = (if recent (take i es) (take i ds) (window d0) (fst (es ! i)) (snd (es ! i))
       then DecisionSuppress else DecisionPass))"
  using assms(1,5)
proof (induction es arbitrary: now rule: rev_induct)
  case Nil
  then show ?case using assms(4) by (simp add: dedup_inv_def passed_def)
next
  case (snoc x es)
  obtain t e where x: "x = (t, e)" by (cases x)
  have srt: "sorted (map fst es)" "\<forall>x\<in>set es. fst x \<le> t" "t \<le> now"
    using snoc.prems by (auto simp: sorted_append x)
  obtain ds d where run: "dedup_run d0 es = (ds, d)" "window d = window d0" "dedup_inv es ds t d"
    and dec: "\<And>i. i < length es \<Longrightarrow> ds ! i = (if recent (take i es) (take i ds) (window d0) (fst (es ! i)) (snd (es ! i))
       then DecisionSuppress else DecisionPass)"
    using snoc.IH[OF srt(1,2)] by blast
  have len: "length ds = length es" using dedup_run_length[of d0 es] run(1) by simp
  obtain de d' where p: "Process t (Some e) d = (de, d')" "window d' = window d"
      "de = (if recent es ds (window d) t e then DecisionSuppress else DecisionPass)"
      "dedup_inv (es @ [(t, e)]) (ds @ [de]) t d'"
    using Process_inv[OF run(3), of t e] assms(2,3) run(2) len by auto
  show ?case
    using p run len dec dedup_inv_later[OF p(4) srt(3)]
    by (auto simp: x dedup_run_snoc nth_append less_Suc_eq)
qed

text \<open>C15. A deduplicator with window \<open>w\<close> that sees the alerts \<open>es\<close> in the order of
  their times suppresses an alert exactly when an alert with the same fingerprint passed less than
  \<open>w\<close> before it. In particular neither the periodic sweep of the map nor suppressed alerts
  (which do not extend the window) ever change a decision.\<close>

theorem dedup_decisions:
  assumes "sorted (map fst es)" "window d = w" "d = NewDedup w0" "w0 \<le> max_duration"
    "dedup_run d es = (ds, d')" "i < length es"
  shows "ds ! i = DecisionSuppress \<longleftrightarrow>
      (\<exists>j<i. fingerprint (snd (es ! j)) = fingerprint (snd (es ! i)) \<and> ds ! j = DecisionPass \<and>
             fst (es ! i) - fst (es ! j) < w)"
proof -
  have d: "0 < window d" "window d \<le> max_duration" "seen d = Map.empty"
    using assms(3,4) by (auto simp: NewDedup_def time_Second_def max_duration_def)
  have "\<forall>x\<in>set es. fst x \<le> Max (fst ` set es)" by simp
  from dedup_run_inv[OF assms(1) d this] assms(5,6)
  have "ds ! i = (if recent (take i es) (take i ds) (window d) (fst (es ! i)) (snd (es ! i))
                  then DecisionSuppress else DecisionPass)" by simp
  moreover have "recent (take i es) (take i ds) (window d) (fst (es ! i)) (snd (es ! i)) \<longleftrightarrow>
      (\<exists>j<i. fingerprint (snd (es ! j)) = fingerprint (snd (es ! i)) \<and> ds ! j = DecisionPass \<and>
             fst (es ! i) - fst (es ! j) < w)"
    using assms(2,6) by (force simp: recent_def passed_def)
  ultimately show ?thesis by simp
qed

definition cpu_alert :: "int \<Rightarrow> int Event" where
  "cpu_alert a = zero_Event\<lparr>evType := TypeMetric, AssetID := a, Violations :=
     [zero_Violation\<lparr>Kind := TypeMetric, vSeverity := ''warn'',
        Metric := Some \<lparr>mc_Name = ''cpu'', mc_Value = 95, mc_Threshold = 90, mc_Metrics = Map.empty\<rparr>\<rparr>]\<rparr>"

theorem dedup_decisions_witness:
  "fst (dedup_run (NewDedup 10) [(5, cpu_alert 7), (9, cpu_alert 8), (14, cpu_alert 7), (15, cpu_alert 7)]) ! 2
     = DecisionSuppress \<and>
   fst (dedup_run (NewDedup 10) [(5, cpu_alert 7), (9, cpu_alert 8), (14, cpu_alert 7), (15, cpu_alert 7)]) ! 3
     = DecisionPass"
proof -
  let ?es = "[(5, cpu_alert 7), (9, cpu_alert 8), (14, cpu_alert 7), (15, cpu_alert 7)]"
  have fp: "fingerprint (cpu_alert 7) = ''metric|7|metric:warn:cpu''"
    "fingerprint (cpu_alert 8) = ''metric|8|metric:warn:cpu''" by code_simp+
  have ds: "fst (dedup_run (NewDedup 10) ?es) = [DecisionPass, DecisionPass, DecisionSuppress, DecisionPass]"
    by (simp add: fp Process_def NewDedup_def maybeSweepLocked_def time_sub_def Let_def
      max_duration_def min_duration_def)
  show ?thesis
    using dedup_decisions[of ?es "NewDedup 10" 10 10 _ _ 2, OF _ _ _ _ surjective_pairing] ds
    by (simp add: NewDedup_def max_duration_def numeral_eq_Suc less_Suc_eq fp)
qed

text \<open>The fingerprint does not depend on the order in which the rules reported the violations,
  nor on measured values and thresholds: events of the same type and asset whose violations agree, as
  multisets, in kind, severity and metric name have the same fingerprint.\<close>

theorem fingerprint_order_independent:
  assumes "evType e = evType e'" "AssetID e = AssetID e'"
    "image_mset (\<lambda>v. (Kind v, vSeverity v, map_option mc_Name (Metric v))) (mset (Violations e)) =
     image_mset (\<lambda>v. (Kind v, vSeverity v, map_option mc_Name (Metric v))) (mset (Violations e'))"
  shows "fingerprint e = fingerprint e'"
proof -
  let ?f = "\<lambda>(k, s, m). k @ (if s \<noteq> [] then '':'' @ s else []) @
     (case m of Some c \<Rightarrow> if c \<noteq> [] then '':'' @ c else [] | None \<Rightarrow> ([]::string))"
  have p: "violation_part v = ?f (Kind v, vSeverity v, map_option mc_Name (Metric v))" for v :: "'c Violation"
    by (simp add: violation_part_def comp_def split: option.splits)
  have "image_mset violation_part (mset (Violations e)) = image_mset violation_part (mset (Violations e'))"
    using arg_cong[OF assms(3), of "image_mset ?f"] unfolding p multiset.map_comp comp_def .
  then have "sort (map violation_part (Violations e)) = sort (map violation_part (Violations e'))"
    by (metis mset_map properties_for_sort mset_sort sorted_sort)
  then show ?thesis using assms(1,2) by (simp add: fingerprint_def)
qed

definition two_violations :: "bool \<Rightarrow> int Event" where
  "two_violations b = zero_Event\<lparr>evType := TypeMetric, AssetID := 7, Violations :=
     (let m = zero_Violation\<lparr>Kind := TypeMetric, vSeverity := ''warn'',
                Metric := Some \<lparr>mc_Name = ''cpu'', mc_Value = (if b then 95 else 97), mc_Threshold = 90,
                  mc_Metrics = Map.empty\<rparr>\<rparr>;
          l = zero_Violation\<lparr>Kind := TypeLog, vSeverity := ''error''\<rparr>
      in if b then [m, l] else [l, m])\<rparr>"

theorem fingerprint_order_independent_witness:
  "fingerprint (two_violations True) = fingerprint (two_violations False)"
  by (rule fingerprint_order_independent) (simp_all add: two_violations_def)

lemma primary_loop_find:
  fixes p :: "'f Violation"
  defines "rank \<equiv> (\<lambda>v :: 'f Violation. severityRank (vSeverity v))"
  shows "find (\<lambda>v. rank v = Max (rank ` set (p # vs))) (p # vs) = Some (primary_loop p vs)"
proof (induction vs arbitrary: p)
  case (Cons x vs)
  let ?M = "Max (insert (rank x) (rank ` set vs))"
  have le: "rank x \<le> ?M" by simp
  show ?case
  proof (cases "rank x > rank p")
    case True
    then have "Max (rank ` set (p # x # vs)) = ?M" "rank p \<noteq> ?M"
      using order.strict_trans2[OF True le] by (auto simp: max_def)
    then show ?thesis using Cons.IH[of x] True by (simp add: rank_def)
  next
    case False
    then have "Max (rank ` set (p # x # vs)) = Max (rank ` set (p # vs))"
      by (cases "vs = []") (auto simp: max_def)
    moreover have "rank x \<noteq> Max (rank ` set (p # vs))" if "rank p \<noteq> Max (rank ` set (p # vs))"
      using False that Max_ge[of "rank ` set (p # vs)" "rank p"] by (simp add: order_le_less)
    ultimately show ?thesis using Cons.IH[of p] False by (auto simp: rank_def split: if_splits)
  qed
qed simp

text \<open>The violation that gives an event its headline is the first of those with the highest
  severity, and there is none only when the event has no violations.\<close>

theorem primaryViolation_first_max:
  "primaryViolation e =
     find (\<lambda>v. severityRank (vSeverity v) = Max (severityRank ` vSeverity ` set (Violations e))) (Violations e)"
proof (cases "Violations e")
  case (Cons v vs)
  then show ?thesis using primary_loop_find[of v vs] by (simp add: primaryViolation_def image_image)
qed (simp add: primaryViolation_def)

end
