(* ===== verification/Pagination.thy ===== *)
theory Pagination
  imports Prelude
begin

text \<open>
  Offset paging, \<^verbatim>\<open>pkg/pagination/paging.go\<close> and \<^verbatim>\<open>ClampSize\<close> of \<^verbatim>\<open>cursor.go\<close>: the normalisation of
  the parameters, the window over a collection in memory, and the page of a query with an offset and a limit.
\<close>

definition ClampSize :: "int \<Rightarrow> int" where
  "ClampSize n = (if n \<le> 0 then 20 else if n > 100 then 100 else n)"

definition Clamp :: "int \<Rightarrow> int \<Rightarrow> int \<times> int" where
  "Clamp page n = (max page 1, ClampSize n)"

definition Window :: "int \<Rightarrow> int \<Rightarrow> int \<Rightarrow> int \<times> int" where
  "Window page n tot =
     (let i = min (max (wrap64 ((page - 1) * n)) 0) tot; j = min (wrap64 (i + n)) tot
      in (i, j))"

text \<open>The rows of a page, in the order of the query; a negative offset is none.\<close>

definition page_of :: "int \<Rightarrow> int \<Rightarrow> 'a list \<Rightarrow> 'a list" where
  "page_of page n xs = take (nat n) (drop (nat (wrap64 ((page - 1) * n))) xs)"

lemma ClampSize_range [simp]: "1 \<le> ClampSize n" "ClampSize n \<le> 100"
  by (simp_all add: ClampSize_def)

lemma offset_wrap: "1 \<le> page \<Longrightarrow> 0 < n \<Longrightarrow> page * n \<le> max_int \<Longrightarrow> wrap64 ((page - 1) * n) = (page - 1) * n"
proof (rule wrap64_id)
  assume a: "1 \<le> page" "0 < n" "page * n \<le> max_int"
  then have "0 \<le> (page - 1) * n" "(page - 1) * n \<le> page * n" by (simp_all add: algebra_simps)
  then show "min_int \<le> (page - 1) * n" "(page - 1) * n \<le> max_int" using a(3) by (simp_all add: min_int_def)
qed

lemma page_of_pages:
  assumes "1 \<le> page" "0 < n" "page * n \<le> max_int"
  shows "take (nat ((page - 1) * n)) xs @ page_of page n xs = take (nat (page * n)) xs"
proof -
  have "nat (page * n) = nat ((page - 1) * n) + nat n" using assms by (simp add: nat_add_distrib [symmetric] algebra_simps)
  then show ?thesis using offset_wrap [OF assms] by (simp add: page_of_def take_add)
qed

text \<open>The window of normalised parameters is a slice of the collection, and is the page.\<close>

lemma Window_page:
  assumes "1 \<le> page" "0 < n" "page * n \<le> max_int" "int (length xs) \<le> max_int - n"
  shows "case Window page n (int (length xs)) of (i, j) \<Rightarrow> 0 \<le> i \<and> i \<le> j \<and> j \<le> int (length xs) \<and>
    take (nat j - nat i) (drop (nat i) xs) = page_of page n xs"
proof -
  let ?o = "(page - 1) * n"
  have o: "0 \<le> ?o" using assms by simp
  note w = offset_wrap [OF assms(1-3)]
  define i where "i = min ?o (int (length xs))"
  have i: "0 \<le> i" "i + n \<le> max_int" using o assms(4) by (auto simp: i_def)
  then have v: "wrap64 (i + n) = i + n" using assms(2) by (intro wrap64_id) (simp_all add: min_int_def)
  have W: "Window page n (int (length xs)) = (i, min (i + n) (int (length xs)))" using o(1) v by (simp add: Window_def w i_def Let_def)
  have "take (nat (min (i + n) (int (length xs))) - nat i) (drop (nat i) xs) = page_of page n xs"
    using assms(2) o(1) by (cases "?o \<le> int (length xs)") (auto simp: i_def page_of_def w min_def nat_add_distrib nat_diff_distrib)
  then show ?thesis using i assms(2) by (auto simp: W i_def)
qed

end
