(* ===== verification/Remediation.thy ===== *)
theory Remediation
  imports GoStrings Pagination
begin

text \<open>
  Automatic remediation, \<^verbatim>\<open>pkg/prism/remediation\<close>: the models of \<^verbatim>\<open>model.go\<close>, the conversion of
  events of \<^verbatim>\<open>env.go\<close>, the store of \<^verbatim>\<open>store.go\<close>, the decision and dispatch of
  \<^verbatim>\<open>engine.go\<close> and the rule service of \<^verbatim>\<open>service.go\<close>. The tables are a map of rules, which keeps
  soft-deleted rows, and a list of records; every statement that the store issues is atomic. The expression
  language, the decoding of JSON and the quota are arguments, as are the clock, the random run IDs, the
  outcome of a submission to the pool and the result of an operator.
\<close>

subsection \<open>Rules and records\<close>

definition TriggerMetric :: string where "TriggerMetric = ''metric''"
definition TriggerLog :: string where "TriggerLog = ''log''"
definition TriggerStatusChange :: string where "TriggerStatusChange = ''status_change''"

definition StatusActive :: string where "StatusActive = ''active''"
definition StatusPaused :: string where "StatusPaused = ''paused''"

record Rule =
  r_ID :: int
  r_TenantID :: int
  r_Name :: string
  r_Description :: string
  r_AssetID :: int
  r_TriggerEventType :: string
  r_Expression :: string
  r_ExecutorType :: string
  r_ExecutorConfig :: string
  r_Cooldown :: int
  r_CircuitBreakerThreshold :: int
  r_Enabled :: bool
  r_Status :: string
  r_LastRunAt :: "gotime option"
  r_ConsecutiveFailures :: int
  r_Metadata :: string
  r_CreatedAt :: gotime
  r_UpdatedAt :: gotime
  r_DeletedAt :: "gotime option"

definition RecordStatusTriggered :: string where "RecordStatusTriggered = ''triggered''"
definition RecordStatusStarted :: string where "RecordStatusStarted = ''started''"
definition RecordStatusCompleted :: string where "RecordStatusCompleted = ''completed''"
definition RecordStatusSkipped :: string where "RecordStatusSkipped = ''skipped''"
definition RecordStatusFailed :: string where "RecordStatusFailed = ''failed''"

record Record =
  rec_RuleID :: int
  rec_RuleName :: string
  rec_AssetID :: int
  rec_AssetKey :: string
  rec_RunID :: string
  rec_Trigger :: string
  rec_Status :: string
  rec_Error :: string
  rec_StartedAt :: "gotime option"
  rec_FinishedAt :: "gotime option"

subsection \<open>From events to triggers\<close>

record 'f triggerEvent =
  tg_Trigger :: string
  tg_TenantID :: int
  tg_AssetID :: int
  tg_AssetKey :: string
  tg_MetricName :: string
  tg_MetricValue :: 'f
  tg_Threshold :: 'f
  tg_Level :: string
  tg_Keyword :: string
  tg_Content :: string
  tg_Source :: string
  tg_PrevStatus :: string
  tg_CurrStatus :: string

text \<open>The zero value of the structure, with \<open>z\<close> for the zero of the floating-point numbers.\<close>

definition zero_triggerEvent :: "'f \<Rightarrow> 'f triggerEvent" where
  "zero_triggerEvent z = \<lparr>tg_Trigger = [], tg_TenantID = 0, tg_AssetID = 0, tg_AssetKey = [], tg_MetricName = [],
     tg_MetricValue = z, tg_Threshold = z, tg_Level = [], tg_Keyword = [], tg_Content = [], tg_Source = [],
     tg_PrevStatus = [], tg_CurrStatus = []\<rparr>"

definition parseID :: "string \<Rightarrow> int option" where
  "parseID v = (case Atoi v of None \<Rightarrow> None | Some n \<Rightarrow> if n < 0 then None else Some n)"

text \<open>The fields of the three payloads that the conversion reads.\<close>

record 'f MetricExceededPayload =
  me_AssetID :: string
  me_TenantID :: string
  me_MetricName :: string
  me_MetricValue :: 'f
  me_Threshold :: 'f

record LogMatchedPayload =
  lm_AssetID :: string
  lm_TenantID :: string
  lm_Level :: string
  lm_Keyword :: string
  lm_Content :: string
  lm_SourceIP :: string

record StatusChangePayload =
  sp_AssetID :: string
  sp_TenantID :: string
  sp_AssetKey :: string
  sp_PrevStatus :: string
  sp_CurrStatus :: string

definition metricPayloadToTrigger :: "'f \<Rightarrow> 'f MetricExceededPayload \<Rightarrow> 'f triggerEvent option" where
  "metricPayloadToTrigger z p =
     (case parseID (me_AssetID p) of
        None \<Rightarrow> None
      | Some assetID \<Rightarrow>
          (case parseID (me_TenantID p) of
             None \<Rightarrow> None
           | Some tenantID \<Rightarrow>
               Some ((zero_triggerEvent z)\<lparr>tg_Trigger := TriggerMetric, tg_AssetID := assetID, tg_TenantID := tenantID,
                 tg_MetricName := me_MetricName p, tg_MetricValue := me_MetricValue p, tg_Threshold := me_Threshold p\<rparr>)))"

definition logPayloadToTrigger :: "'f \<Rightarrow> LogMatchedPayload \<Rightarrow> 'f triggerEvent option" where
  "logPayloadToTrigger z p =
     (case parseID (lm_AssetID p) of
        None \<Rightarrow> None
      | Some assetID \<Rightarrow>
          (case parseID (lm_TenantID p) of
             None \<Rightarrow> None
           | Some tenantID \<Rightarrow>
               Some ((zero_triggerEvent z)\<lparr>tg_Trigger := TriggerLog, tg_AssetID := assetID, tg_TenantID := tenantID,
                 tg_Level := lm_Level p, tg_Keyword := lm_Keyword p, tg_Content := lm_Content p, tg_Source := lm_SourceIP p\<rparr>)))"

definition statusPayloadToTrigger :: "'f \<Rightarrow> StatusChangePayload \<Rightarrow> 'f triggerEvent option" where
  "statusPayloadToTrigger z p =
     (case parseID (sp_AssetID p) of
        None \<Rightarrow> None
      | Some assetID \<Rightarrow>
          (case parseID (sp_TenantID p) of
             None \<Rightarrow> None
           | Some tenantID \<Rightarrow>
               Some ((zero_triggerEvent z)\<lparr>tg_Trigger := TriggerStatusChange, tg_AssetID := assetID, tg_AssetKey := sp_AssetKey p,
                 tg_TenantID := tenantID, tg_PrevStatus := sp_PrevStatus p, tg_CurrStatus := sp_CurrStatus p\<rparr>)))"

subsection \<open>The environment of conditions\<close>

datatype 'f dval = DString string | DFloat 'f | DInt int | DTags "string \<rightharpoonup> string"

type_synonym 'f DomainMap = "string \<rightharpoonup> 'f dval"

record 'f RemediationEnv =
  re_Trigger :: string
  re_Level :: string
  re_Keyword :: string
  re_Content :: string
  re_Source :: string
  re_Threshold :: 'f
  re_Metric :: "'f DomainMap"
  re_Status :: "'f DomainMap"
  re_Asset :: "'f DomainMap"

text \<open>The fields of an asset that enrich the environment; its tags are those that its metadata decode to.\<close>

record Asset =
  as_Name :: string
  as_AssetType :: string
  as_Tags :: "string \<rightharpoonup> string"

definition buildRemediationEnv :: "'f triggerEvent \<Rightarrow> Asset option \<Rightarrow> 'f RemediationEnv" where
  "buildRemediationEnv te res =
     (let env = \<lparr>re_Trigger = tg_Trigger te, re_Level = tg_Level te, re_Keyword = tg_Keyword te,
            re_Content = tg_Content te, re_Source = tg_Source te, re_Threshold = tg_Threshold te,
            re_Metric = [''name'' \<mapsto> DString (tg_MetricName te), ''value'' \<mapsto> DFloat (tg_MetricValue te)],
            re_Status = [''previous'' \<mapsto> DString (tg_PrevStatus te), ''current'' \<mapsto> DString (tg_CurrStatus te)],
            re_Asset = [''id'' \<mapsto> DInt (tg_AssetID te), ''key'' \<mapsto> DString (tg_AssetKey te), ''name'' \<mapsto> DString [],
              ''type'' \<mapsto> DString [], ''tags'' \<mapsto> DTags Map.empty]\<rparr>
      in case res of
           None \<Rightarrow> env
         | Some a \<Rightarrow> env\<lparr>re_Asset := (re_Asset env)(''name'' \<mapsto> DString (as_Name a), ''type'' \<mapsto> DString (as_AssetType a),
             ''tags'' \<mapsto> DTags (as_Tags a))\<rparr>)"

subsection \<open>The engine and its tables\<close>

record RunPayload =
  rp_RuleID :: int
  rp_RuleName :: string
  rp_AssetID :: int
  rp_TenantID :: int
  rp_RunID :: string
  rp_Trigger :: string
  rp_Success :: bool
  rp_Reason :: string
  rp_ErrorMsg :: string
  rp_DurationMs :: int

datatype rem_event = RemediationTriggered | RemediationStarted | RemediationCompleted | RemediationSkipped

text \<open>
  A job of the worker pool: the closure's copies of the rule, the event, the key and the run ID, and the
  time at which it started to run.
\<close>

record 'f rem_job =
  j_rule :: Rule
  j_event :: "'f triggerEvent"
  j_key :: string
  j_runID :: string
  j_startedAt :: "gotime option"

record 'f rem_engine =
  rs_rules :: "int \<rightharpoonup> Rule"
  rs_records :: "Record list"
  rs_inFlight :: "string set"
  rs_wg :: nat
  rs_jobs :: "'f rem_job list"
  rs_events :: "(rem_event \<times> RunPayload) list"

text \<open>
  What the options of \<^verbatim>\<open>New\<close> configure: whether there are a bus and a record store, the lookup of
  assets, the registered operators and the evaluation of a condition, which fails with \<open>None\<close>.
\<close>

record 'f rem_cfg =
  rc_bus :: bool
  rc_records :: bool
  rc_assets :: "(int \<Rightarrow> Asset option) option"
  rc_operators :: "string list"
  rc_eval :: "string \<Rightarrow> 'f RemediationEnv \<Rightarrow> bool option"

definition new_rem_engine :: "'f rem_engine" where
  "new_rem_engine = \<lparr>rs_rules = Map.empty, rs_records = [], rs_inFlight = {}, rs_wg = 0, rs_jobs = [], rs_events = []\<rparr>"

definition localExecutorName :: string where "localExecutorName = ''local''"

text \<open>The operators registered by \<^verbatim>\<open>New\<close>: those given, and the local one unless there is one of its name.\<close>

definition new_operators :: "string list \<Rightarrow> string list" where
  "new_operators given = (if localExecutorName \<in> set given then given else given @ [localExecutorName])"

definition RegisterOperator :: "string \<Rightarrow> 'f rem_cfg \<Rightarrow> 'f rem_cfg" where
  "RegisterOperator name c = c\<lparr>rc_operators := (if name \<in> set (rc_operators c) then rc_operators c else rc_operators c @ [name])\<rparr>"

subsection \<open>The store\<close>

text \<open>A row that the default scope of the ORM sees.\<close>

definition live_row :: "int \<Rightarrow> 'f rem_engine \<Rightarrow> Rule option" where
  "live_row i s = (case rs_rules s i of None \<Rightarrow> None | Some r \<Rightarrow> if r_DeletedAt r = None then Some r else None)"

definition update_row :: "gotime \<Rightarrow> int \<Rightarrow> (Rule \<Rightarrow> Rule) \<Rightarrow> 'f rem_engine \<Rightarrow> 'f rem_engine" where
  "update_row now i f s =
     (case live_row i s of
        None \<Rightarrow> s
      | Some r \<Rightarrow> s\<lparr>rs_rules := (rs_rules s)(i \<mapsto> (f r)\<lparr>r_UpdatedAt := now\<rparr>)\<rparr>)"

definition UpdateRuleStatus :: "gotime \<Rightarrow> int \<Rightarrow> string \<Rightarrow> 'f rem_engine \<Rightarrow> 'f rem_engine" where
  "UpdateRuleStatus now i st = update_row now i (\<lambda>r. r\<lparr>r_Status := st\<rparr>)"

definition UpdateLastRun :: "gotime \<Rightarrow> int \<Rightarrow> gotime \<Rightarrow> 'f rem_engine \<Rightarrow> 'f rem_engine" where
  "UpdateLastRun now i t = update_row now i (\<lambda>r. r\<lparr>r_LastRunAt := Some t\<rparr>)"

definition record_outcome :: "bool \<Rightarrow> Rule \<Rightarrow> Rule" where
  "record_outcome success r =
     (if success then r\<lparr>r_ConsecutiveFailures := 0\<rparr>
      else r\<lparr>r_ConsecutiveFailures := r_ConsecutiveFailures r + 1,
             r_Status := (if r_CircuitBreakerThreshold r > 0 \<and> r_ConsecutiveFailures r + 1 \<ge> r_CircuitBreakerThreshold r
                          then StatusPaused else r_Status r)\<rparr>)"

definition RecordExecutionOutcome :: "gotime \<Rightarrow> int \<Rightarrow> bool \<Rightarrow> 'f rem_engine \<Rightarrow> 'f rem_engine" where
  "RecordExecutionOutcome now i success = update_row now i (record_outcome success)"

text \<open>
  The live rows in descending order of their IDs, where \<open>ids\<close> lists the IDs of the table, and the rules
  of a tenant for an asset and a trigger type.
\<close>

definition live_rows :: "int list \<Rightarrow> 'f rem_engine \<Rightarrow> Rule list" where
  "live_rows ids s = List.map_filter (\<lambda>i. live_row i s) (rev (sort ids))"

definition rule_matches :: "int \<Rightarrow> int \<Rightarrow> string \<Rightarrow> Rule \<Rightarrow> bool" where
  "rule_matches tenantID assetID triggerType r \<longleftrightarrow>
     r_TenantID r = tenantID \<and> r_TriggerEventType r = triggerType \<and> r_Enabled r \<and> (r_AssetID r = 0 \<or> r_AssetID r = assetID)"

definition GetRules :: "int list \<Rightarrow> int \<Rightarrow> int \<Rightarrow> string \<Rightarrow> 'f rem_engine \<Rightarrow> Rule list" where
  "GetRules ids tenantID assetID triggerType s =
     filter (rule_matches tenantID assetID triggerType) (live_rows ids s)"

text \<open>Inserts or updates the row of a run; a record without a run ID is refused.\<close>

definition UpsertRecord :: "Record \<Rightarrow> 'f rem_engine \<Rightarrow> 'f rem_engine" where
  "UpsertRecord rc s =
     (if rec_RunID rc = [] then s
      else if \<exists>x\<in>set (rs_records s). rec_RunID x = rec_RunID rc then
        s\<lparr>rs_records := map (\<lambda>x. if rec_RunID x = rec_RunID rc
            then x\<lparr>rec_Status := rec_Status rc, rec_Error := rec_Error rc, rec_StartedAt := rec_StartedAt rc,
                   rec_FinishedAt := rec_FinishedAt rc\<rparr> else x) (rs_records s)\<rparr>
      else s\<lparr>rs_records := rs_records s @ [rc]\<rparr>)"

subsection \<open>Deciding and dispatching\<close>

definition inFlightKey :: "int \<Rightarrow> int \<Rightarrow> string" where
  "inFlightKey ruleID assetID = FormatInt ruleID @ '':'' @ FormatInt assetID"

definition tryClaimInFlight :: "string \<Rightarrow> 'f rem_engine \<Rightarrow> bool \<times> 'f rem_engine" where
  "tryClaimInFlight key s = (if key \<in> rs_inFlight s then (False, s) else (True, s\<lparr>rs_inFlight := insert key (rs_inFlight s)\<rparr>))"

definition releaseInFlight :: "string \<Rightarrow> 'f rem_engine \<Rightarrow> 'f rem_engine" where
  "releaseInFlight key s = s\<lparr>rs_inFlight := rs_inFlight s - {key}\<rparr>"

definition newPayload :: "Rule \<Rightarrow> 'f triggerEvent \<Rightarrow> string \<Rightarrow> RunPayload" where
  "newPayload r te runID = \<lparr>rp_RuleID = r_ID r, rp_RuleName = r_Name r, rp_AssetID = tg_AssetID te, rp_TenantID = tg_TenantID te,
     rp_RunID = runID, rp_Trigger = tg_Trigger te, rp_Success = False, rp_Reason = [], rp_ErrorMsg = [], rp_DurationMs = 0\<rparr>"

definition skipPayload :: "Rule \<Rightarrow> 'f triggerEvent \<Rightarrow> string \<Rightarrow> RunPayload" where
  "skipPayload r te reason = (newPayload r te [])\<lparr>rp_Reason := reason\<rparr>"

definition rem_publish :: "'f rem_cfg \<Rightarrow> rem_event \<Rightarrow> RunPayload \<Rightarrow> 'f rem_engine \<Rightarrow> 'f rem_engine" where
  "rem_publish c ty p s = (if rc_bus c then s\<lparr>rs_events := rs_events s @ [(ty, p)]\<rparr> else s)"

definition saveRecord :: "'f rem_cfg \<Rightarrow> Record \<Rightarrow> 'f rem_engine \<Rightarrow> 'f rem_engine" where
  "saveRecord c rc s = (if rc_records c then UpsertRecord rc s else s)"

definition newRecord :: "Rule \<Rightarrow> 'f triggerEvent \<Rightarrow> string \<Rightarrow> Record" where
  "newRecord r te runID = \<lparr>rec_RuleID = r_ID r, rec_RuleName = r_Name r, rec_AssetID = tg_AssetID te, rec_AssetKey = tg_AssetKey te,
     rec_RunID = runID, rec_Trigger = tg_Trigger te, rec_Status = RecordStatusTriggered, rec_Error = [], rec_StartedAt = None,
     rec_FinishedAt = None\<rparr>"

definition recordSkip :: "'f rem_cfg \<Rightarrow> string \<Rightarrow> Rule \<Rightarrow> 'f triggerEvent \<Rightarrow> string \<Rightarrow> 'f rem_engine \<Rightarrow> 'f rem_engine" where
  "recordSkip c runID r te reason s =
     saveRecord c ((newRecord r te runID)\<lparr>rec_Status := RecordStatusSkipped, rec_Error := reason\<rparr>)
       (rem_publish c RemediationSkipped (skipPayload r te reason) s)"

definition buildEnv :: "'f rem_cfg \<Rightarrow> 'f triggerEvent \<Rightarrow> 'f RemediationEnv" where
  "buildEnv c te = buildRemediationEnv te (case rc_assets c of None \<Rightarrow> None | Some get \<Rightarrow> get (tg_AssetID te))"

definition matchCondition :: "'f rem_cfg \<Rightarrow> Rule \<Rightarrow> 'f RemediationEnv \<Rightarrow> bool" where
  "matchCondition c r env = (r_Expression r = [] \<or> rc_eval c (r_Expression r) env = Some True)"

text \<open>The rule still cools down: a product of durations is computed on 64 bits.\<close>

definition cooling :: "gotime \<Rightarrow> Rule \<Rightarrow> bool" where
  "cooling now r =
     (case r_LastRunAt r of
        None \<Rightarrow> False
      | Some t \<Rightarrow> r_Cooldown r > 0 \<and> time_sub now t < wrap64 (r_Cooldown r * time_Second))"

definition checkGates :: "'f rem_cfg \<Rightarrow> gotime \<Rightarrow> string \<Rightarrow> Rule \<Rightarrow> 'f triggerEvent \<Rightarrow> 'f rem_engine \<Rightarrow> bool \<times> 'f rem_engine" where
  "checkGates c now runID r te s =
     (if cooling now r then (True, recordSkip c runID r te ''cooldown'' s)
      else if r_CircuitBreakerThreshold r > 0 \<and> r_ConsecutiveFailures r \<ge> r_CircuitBreakerThreshold r then
        (let s' = (if r_Status r \<noteq> StatusPaused then UpdateRuleStatus now (r_ID r) StatusPaused s else s)
         in (True, recordSkip c runID r te ''circuit breaker tripped'' s'))
      else (False, s))"

text \<open>\<open>accepted\<close> tells whether the pool takes the job.\<close>

definition rem_dispatch :: "'f rem_cfg \<Rightarrow> string \<Rightarrow> bool \<Rightarrow> Rule \<Rightarrow> 'f triggerEvent \<Rightarrow> string \<Rightarrow> 'f rem_engine \<Rightarrow> 'f rem_engine" where
  "rem_dispatch c runID accepted r te key s =
     (if r_ExecutorType r \<notin> set (rc_operators c) then
        recordSkip c runID r te (''operator not registered: '' @ r_ExecutorType r) (releaseInFlight key s)
      else
        let s1 = saveRecord c (newRecord r te runID) (rem_publish c RemediationTriggered (newPayload r te runID) s);
            s2 = s1\<lparr>rs_wg := rs_wg s1 + 1\<rparr>
        in if accepted then
             s2\<lparr>rs_jobs := rs_jobs s2 @ [\<lparr>j_rule = r, j_event = te, j_key = key, j_runID = runID, j_startedAt = None\<rparr>]\<rparr>
           else
             saveRecord c ((newRecord r te runID)\<lparr>rec_Status := RecordStatusSkipped, rec_Error := ''execution pool full''\<rparr>)
               (rem_publish c RemediationSkipped (skipPayload r te ''execution pool full'')
                 (releaseInFlight key (s2\<lparr>rs_wg := rs_wg s2 - 1\<rparr>))))"

text \<open>The body of the loop of \<^verbatim>\<open>handle\<close> for one rule.\<close>

definition handle_rule ::
  "'f rem_cfg \<Rightarrow> gotime \<Rightarrow> string \<Rightarrow> bool \<Rightarrow> 'f triggerEvent \<Rightarrow> 'f RemediationEnv \<Rightarrow> Rule \<Rightarrow> 'f rem_engine \<Rightarrow> 'f rem_engine" where
  "handle_rule c now runID accepted te env r s =
     (if \<not> r_Enabled r \<or> r_Status r \<noteq> StatusActive then s
      else if \<not> matchCondition c r env then s
      else
        let key = inFlightKey (r_ID r) (tg_AssetID te);
            (claimed, s1) = tryClaimInFlight key s
        in if \<not> claimed then recordSkip c runID r te ''idempotency: execution in flight'' s1
           else
             let (skip, s2) = checkGates c now runID r te s1
             in if skip then releaseInFlight key s2 else rem_dispatch c runID accepted r te key s2)"

text \<open>
  The whole of \<^verbatim>\<open>handle\<close> without interference: \<open>loaded\<close> is \<open>None\<close> when the rules cannot be
  loaded, and each rule has its own clock reading, run ID and outcome of the submission.
\<close>

definition rem_handle ::
  "'f rem_cfg \<Rightarrow> (gotime \<times> string \<times> bool) list \<Rightarrow> 'f triggerEvent \<Rightarrow> Rule list option \<Rightarrow> 'f rem_engine \<Rightarrow> 'f rem_engine" where
  "rem_handle c env te loaded s =
     (case loaded of
        None \<Rightarrow> s
      | Some rules \<Rightarrow> fold (\<lambda>(r, now, runID, accepted). handle_rule c now runID accepted te (buildEnv c te) r) (zip rules env) s)"

subsection \<open>Running a job\<close>

definition job_start :: "'f rem_cfg \<Rightarrow> gotime \<Rightarrow> nat \<Rightarrow> 'f rem_engine \<Rightarrow> 'f rem_engine" where
  "job_start c now k s =
     (let j = rs_jobs s ! k;
          s1 = rem_publish c RemediationStarted (newPayload (j_rule j) (j_event j) (j_runID j)) s;
          s2 = saveRecord c ((newRecord (j_rule j) (j_event j) (j_runID j))\<lparr>rec_Status := RecordStatusStarted, rec_StartedAt := Some now\<rparr>) s1
      in s2\<lparr>rs_jobs := (rs_jobs s2)[k := j\<lparr>j_startedAt := Some now\<rparr>]\<rparr>)"

text \<open>
  What the operator returns: a result and an error, of which either may be missing. \<open>lastRunOK\<close> and
  \<open>outcomeOK\<close> tell whether the two updates of the rule succeed.
\<close>

record op_outcome =
  o_Success :: bool
  o_ErrorMsg :: string
  o_DurationMs :: int

definition drop_nth :: "nat \<Rightarrow> 'a list \<Rightarrow> 'a list" where
  "drop_nth k xs = take k xs @ drop (k + 1) xs"

definition end_job :: "nat \<Rightarrow> 'f rem_engine \<Rightarrow> 'f rem_engine" where
  "end_job k s = (let s1 = releaseInFlight (j_key (rs_jobs s ! k)) s in s1\<lparr>rs_wg := rs_wg s1 - 1, rs_jobs := drop_nth k (rs_jobs s1)\<rparr>)"

definition run_success :: "op_outcome option \<Rightarrow> string option \<Rightarrow> bool" where
  "run_success res err = (case (err, res) of (None, Some x) \<Rightarrow> o_Success x | _ \<Rightarrow> False)"

definition completed_payload :: "Rule \<Rightarrow> 'f triggerEvent \<Rightarrow> string \<Rightarrow> op_outcome option \<Rightarrow> string option \<Rightarrow> RunPayload" where
  "completed_payload r te runID res err =
     (let p1 = (newPayload r te runID)\<lparr>rp_Success := run_success res err\<rparr>;
          p2 = (case res of None \<Rightarrow> p1 | Some x \<Rightarrow> p1\<lparr>rp_DurationMs := o_DurationMs x, rp_ErrorMsg := o_ErrorMsg x\<rparr>)
      in case err of None \<Rightarrow> p2 | Some msg \<Rightarrow> p2\<lparr>rp_ErrorMsg := msg\<rparr>)"

definition job_finish ::
  "'f rem_cfg \<Rightarrow> gotime \<Rightarrow> bool \<Rightarrow> bool \<Rightarrow> op_outcome option \<Rightarrow> string option \<Rightarrow> nat \<Rightarrow> 'f rem_engine \<Rightarrow> 'f rem_engine" where
  "job_finish c now lastRunOK outcomeOK res err k s =
     (let j = rs_jobs s ! k; r = j_rule j; te = j_event j; runID = j_runID j;
          s1 = (if lastRunOK then UpdateLastRun now (r_ID r) now s else s);
          success = run_success res err;
          s2 = (if outcomeOK then RecordExecutionOutcome now (r_ID r) success s1 else s1);
          completed = completed_payload r te runID res err;
          s3 = rem_publish c RemediationCompleted completed s2;
          rc = (newRecord r te runID)\<lparr>rec_StartedAt := j_startedAt j, rec_FinishedAt := Some now\<rparr>;
          s4 = saveRecord c (if rp_Success completed then rc\<lparr>rec_Status := RecordStatusCompleted\<rparr>
                 else rc\<lparr>rec_Status := RecordStatusFailed, rec_Error := rp_ErrorMsg completed\<rparr>) s3
      in end_job k s4)"

text \<open>A panic of the operator, which the pool recovers: only the deferred calls of the job run.\<close>

definition job_panic :: "nat \<Rightarrow> 'f rem_engine \<Rightarrow> 'f rem_engine" where
  "job_panic k s = end_job k s"

subsection \<open>Subscribing\<close>

text \<open>
  The three subscribers, here with the rules loaded and handled at once. An event whose identifiers are
  malformed is dropped.
\<close>

definition on_metric ::
  "'f rem_cfg \<Rightarrow> 'f \<Rightarrow> ('f triggerEvent \<Rightarrow> Rule list option) \<Rightarrow> (gotime \<times> string \<times> bool) list \<Rightarrow> 'f MetricExceededPayload \<Rightarrow>
    'f rem_engine \<Rightarrow> 'f rem_engine" where
  "on_metric c z load env p s = (case metricPayloadToTrigger z p of None \<Rightarrow> s | Some te \<Rightarrow> rem_handle c env te (load te) s)"

definition on_log ::
  "'f rem_cfg \<Rightarrow> 'f \<Rightarrow> ('f triggerEvent \<Rightarrow> Rule list option) \<Rightarrow> (gotime \<times> string \<times> bool) list \<Rightarrow> LogMatchedPayload \<Rightarrow>
    'f rem_engine \<Rightarrow> 'f rem_engine" where
  "on_log c z load env p s = (case logPayloadToTrigger z p of None \<Rightarrow> s | Some te \<Rightarrow> rem_handle c env te (load te) s)"

definition on_status ::
  "'f rem_cfg \<Rightarrow> 'f \<Rightarrow> ('f triggerEvent \<Rightarrow> Rule list option) \<Rightarrow> (gotime \<times> string \<times> bool) list \<Rightarrow> StatusChangePayload \<Rightarrow>
    'f rem_engine \<Rightarrow> 'f rem_engine" where
  "on_status c z load env p s = (case statusPayloadToTrigger z p of None \<Rightarrow> s | Some te \<Rightarrow> rem_handle c env te (load te) s)"

text \<open>Whether the engine was started, and the event types of the subscriptions that are in force.\<close>

record rem_life =
  l_started :: bool
  l_subs :: "string list"

fun subscribe_all :: "(string \<times> bool) list \<Rightarrow> string list \<Rightarrow> bool \<times> string list" where
  "subscribe_all [] subs = (True, subs)"
| "subscribe_all ((ty, ok) # rest) subs = (if ok then subscribe_all rest (subs @ [ty]) else (False, subs))"

datatype start_error = ErrBusNotConfigured | ErrSubscribe

text \<open>\<open>oks\<close> are the outcomes of the three subscriptions.\<close>

definition rem_Start :: "'f rem_cfg \<Rightarrow> bool \<times> bool \<times> bool \<Rightarrow> rem_life \<Rightarrow> start_error option \<times> rem_life" where
  "rem_Start c oks l =
     (if l_started l then (None, l)
      else if \<not> rc_bus c then (Some ErrBusNotConfigured, l)
      else
        let (ok1, ok2, ok3) = oks;
            (ok, subs) = subscribe_all [(''telemetry.metric_exceeded'', ok1), (''telemetry.log_matched'', ok2), (''asset.status_changed'', ok3)] (l_subs l)
        in (if ok then None else Some ErrSubscribe, l\<lparr>l_started := ok, l_subs := subs\<rparr>))"

text \<open>
  Stopping cancels the subscriptions and returns when the wait group is down to zero; the pool that the
  engine owns is shut down afterwards. \<open>None\<close> stands for a call that still waits.
\<close>

definition rem_Stop :: "'f rem_engine \<Rightarrow> rem_life \<Rightarrow> rem_life option" where
  "rem_Stop s l =
     (if \<not> l_started l then Some l
      else if rs_wg s = 0 then Some (l\<lparr>l_started := False, l_subs := []\<rparr>) else None)"

subsection \<open>The rule service\<close>

datatype service_error =
    ErrInvalidRequest | BadRequest string | QuotaExceeded int | ErrRemediationRuleNotFound | Internal

definition store_List :: "int list \<Rightarrow> int \<Rightarrow> int \<Rightarrow> 'f rem_engine \<Rightarrow> Rule list \<times> int" where
  "store_List ids page n s =
     (let (pg, sz) = Clamp page n; rows = live_rows ids s
      in (page_of pg sz rows, int (length rows)))"

definition ListRules :: "int list \<Rightarrow> int \<Rightarrow> int \<Rightarrow> 'f rem_engine \<Rightarrow> Rule list \<times> int" where
  "ListRules ids page n s = (let (pg, sz) = Clamp page n in store_List ids pg sz s)"

definition GetRule :: "int \<Rightarrow> 'f rem_engine \<Rightarrow> service_error + Rule" where
  "GetRule i s = (case live_row i s of None \<Rightarrow> Inl ErrRemediationRuleNotFound | Some r \<Rightarrow> Inr r)"

definition ListRecords :: "int \<Rightarrow> int \<Rightarrow> string \<Rightarrow> 'f rem_engine \<Rightarrow> Record list \<times> int" where
  "ListRecords page n status s =
     (let (pg, sz) = Clamp page n;
          rows = filter (\<lambda>x. status = [] \<or> rec_Status x = status) (rs_records s)
      in if rows = [] then ([], 0) else (page_of pg sz (rev rows), int (length rows)))"

definition validTriggerEventTypes :: "string list" where
  "validTriggerEventTypes = [TriggerMetric, TriggerLog, TriggerStatusChange]"

definition validExecutorTypes :: "string list" where
  "validExecutorTypes = [''local'', ''webhook'', ''http'']"

text \<open>
  The checks of expressions: that of a condition, the expression within an executor's configuration and the
  check of that one, each check with its message on failure.
\<close>

record expr_checks =
  x_Validate :: "string \<Rightarrow> string option"
  x_ConfigExpression :: "string \<Rightarrow> string"
  x_ExecValidate :: "string \<Rightarrow> string option"

definition validateRule :: "expr_checks \<Rightarrow> Rule \<Rightarrow> service_error option" where
  "validateRule x r =
     (if r_TriggerEventType r \<notin> set validTriggerEventTypes then Some (BadRequest ''triggerEventType must be one of: metric, log, status_change'')
      else if r_ExecutorType r \<notin> set validExecutorTypes then Some (BadRequest ''executorType must be one of: local, webhook, http'')
      else if r_Cooldown r < 0 then Some (BadRequest ''cooldown must be non-negative'')
      else if r_CircuitBreakerThreshold r < 0 then Some (BadRequest ''circuitBreakerThreshold must be non-negative'')
      else
        let e = r_Expression r; f = x_ConfigExpression x (r_ExecutorConfig r)
        in case (if e = [] then None else x_Validate x e) of
             Some msg \<Rightarrow> Some (BadRequest (''invalid expression: '' @ msg))
           | None \<Rightarrow>
               (case (if f = [] then None else x_ExecValidate x f) of
                  Some msg \<Rightarrow> Some (BadRequest (''invalid executor judgment expression: '' @ msg))
                | None \<Rightarrow> None))"

text \<open>
  Inserting a row: the database chooses the ID \<open>fresh\<close> when the request has none, and fills in the
  defaults of the columns; an ID that is taken, also by a deleted row, is an error.
\<close>

definition store_Create :: "int \<Rightarrow> gotime \<Rightarrow> Rule \<Rightarrow> 'f rem_engine \<Rightarrow> Rule option \<times> 'f rem_engine" where
  "store_Create fresh now m s =
     (let row = m\<lparr>r_ID := (if r_ID m = 0 then fresh else r_ID m), r_Status := (if r_Status m = [] then StatusActive else r_Status m),
            r_CreatedAt := (if r_CreatedAt m = 0 then now else r_CreatedAt m),
            r_UpdatedAt := (if r_UpdatedAt m = 0 then now else r_UpdatedAt m)\<rparr>
      in case rs_rules s (r_ID row) of
           Some _ \<Rightarrow> (None, s)
         | None \<Rightarrow> (Some row, s\<lparr>rs_rules := (rs_rules s)(r_ID row \<mapsto> row)\<rparr>))"

definition CreateRule ::
  "expr_checks \<Rightarrow> int \<Rightarrow> int list \<Rightarrow> int \<Rightarrow> gotime \<Rightarrow> Rule \<Rightarrow> 'f rem_engine \<Rightarrow> (service_error + Rule) \<times> 'f rem_engine" where
  "CreateRule x ceiling ids fresh now req s =
     (if r_Name req = [] \<or> r_TriggerEventType req = [] \<or> r_ExecutorType req = [] then (Inl ErrInvalidRequest, s)
      else
        case validateRule x req of
          Some err \<Rightarrow> (Inl err, s)
        | None \<Rightarrow>
            if ceiling > 0 \<and> snd (store_List ids 1 1 s) \<ge> ceiling then (Inl (QuotaExceeded ceiling), s)
            else
              case store_Create fresh now (req\<lparr>r_Status := [], r_LastRunAt := None, r_ConsecutiveFailures := 0\<rparr>) s of
                (None, s') \<Rightarrow> (Inl Internal, s')
              | (Some row, s') \<Rightarrow> (Inr row, s'))"

text \<open>The columns that an update of a rule may write.\<close>

definition update_columns :: "Rule \<Rightarrow> Rule \<Rightarrow> Rule" where
  "update_columns m r = r\<lparr>r_Name := r_Name m, r_Description := r_Description m, r_AssetID := r_AssetID m,
     r_TriggerEventType := r_TriggerEventType m, r_Expression := r_Expression m, r_ExecutorType := r_ExecutorType m,
     r_ExecutorConfig := r_ExecutorConfig m, r_Cooldown := r_Cooldown m,
     r_CircuitBreakerThreshold := r_CircuitBreakerThreshold m, r_Enabled := r_Enabled m\<rparr>"

definition store_Update :: "gotime \<Rightarrow> Rule \<Rightarrow> 'f rem_engine \<Rightarrow> bool \<times> 'f rem_engine" where
  "store_Update now m s =
     (case live_row (r_ID m) s of None \<Rightarrow> (False, s) | Some _ \<Rightarrow> (True, update_row now (r_ID m) (update_columns m) s))"

definition UpdateRule :: "expr_checks \<Rightarrow> gotime \<Rightarrow> int \<Rightarrow> Rule \<Rightarrow> 'f rem_engine \<Rightarrow> (service_error + Rule) \<times> 'f rem_engine" where
  "UpdateRule x now i req s =
     (case validateRule x req of
        Some err \<Rightarrow> (Inl err, s)
      | None \<Rightarrow>
          (case live_row i s of
             None \<Rightarrow> (Inl ErrRemediationRuleNotFound, s)
           | Some old \<Rightarrow>
               let m = req\<lparr>r_ID := r_ID old, r_CreatedAt := r_CreatedAt old, r_Status := r_Status old,
                     r_LastRunAt := r_LastRunAt old, r_ConsecutiveFailures := r_ConsecutiveFailures old\<rparr>
               in case store_Update now m s of
                    (False, s') \<Rightarrow> (Inl ErrRemediationRuleNotFound, s')
                  | (True, s') \<Rightarrow> (Inr (m\<lparr>r_UpdatedAt := now\<rparr>), s')))"

definition DeleteRule :: "gotime \<Rightarrow> int \<Rightarrow> 'f rem_engine \<Rightarrow> service_error option \<times> 'f rem_engine" where
  "DeleteRule now i s =
     (case live_row i s of
        None \<Rightarrow> (Some ErrRemediationRuleNotFound, s)
      | Some r \<Rightarrow> (None, s\<lparr>rs_rules := (rs_rules s)(i \<mapsto> r\<lparr>r_DeletedAt := Some now\<rparr>)\<rparr>))"

subsection \<open>The engine at work\<close>

text \<open>
  The engine together with the calls of \<^verbatim>\<open>handle\<close> that are under way, each with the rules it loaded and
  has still to consider. Handlers run on the goroutines of the event bus, jobs on those of the pool and the
  service on those of the server: a step is one rule of one handler, one half of a job, or a request. In a
  run that is \<open>lossless\<close> the outcome of every job is recorded.
\<close>

type_synonym 'f rem_sys = "'f rem_engine \<times> (Rule list \<times> 'f triggerEvent) list"

inductive rem_step :: "'f rem_cfg \<Rightarrow> bool \<Rightarrow> 'f rem_sys \<Rightarrow> 'f rem_sys \<Rightarrow> bool" for c lossless where
  s_load: "rem_step c lossless (s, hs) (s, (GetRules ids (tg_TenantID te) (tg_AssetID te) (tg_Trigger te) s, te) # hs)"
| s_rule: "rem_step c lossless (s, hs @ (r # rs, te) # hs') (handle_rule c now runID accepted te (buildEnv c te) r s, hs @ (rs, te) # hs')"
| s_start: "k < length (rs_jobs s) \<Longrightarrow> j_startedAt (rs_jobs s ! k) = None \<Longrightarrow> rem_step c lossless (s, hs) (job_start c now k s, hs)"
| s_finish: "k < length (rs_jobs s) \<Longrightarrow> j_startedAt (rs_jobs s ! k) \<noteq> None \<Longrightarrow> lossless \<longrightarrow> outcomeOK \<Longrightarrow>
    rem_step c lossless (s, hs) (job_finish c now lastRunOK outcomeOK res err k s, hs)"
| s_panic: "k < length (rs_jobs s) \<Longrightarrow> j_startedAt (rs_jobs s ! k) \<noteq> None \<Longrightarrow> rem_step c lossless (s, hs) (job_panic k s, hs)"
| s_create: "rem_step c lossless (s, hs) (snd (CreateRule x ceiling ids fresh now req s), hs)"
| s_update: "rem_step c lossless (s, hs) (snd (UpdateRule x now i req s), hs)"
| s_delete: "rem_step c lossless (s, hs) (snd (DeleteRule now i s), hs)"

abbreviation rem_reach :: "'f rem_cfg \<Rightarrow> bool \<Rightarrow> 'f rem_sys \<Rightarrow> bool" where
  "rem_reach c lossless \<equiv> (rem_step c lossless)\<^sup>*\<^sup>* (new_rem_engine, [])"

subsection \<open>What the operations leave alone\<close>

lemma publish_frame [simp]:
  "rs_jobs (rem_publish c ty p s) = rs_jobs s" "rs_inFlight (rem_publish c ty p s) = rs_inFlight s"
  "rs_wg (rem_publish c ty p s) = rs_wg s" "rs_rules (rem_publish c ty p s) = rs_rules s"
  by (simp_all add: rem_publish_def)

lemma saveRecord_frame [simp]:
  "rs_jobs (saveRecord c rc s) = rs_jobs s" "rs_inFlight (saveRecord c rc s) = rs_inFlight s"
  "rs_wg (saveRecord c rc s) = rs_wg s" "rs_rules (saveRecord c rc s) = rs_rules s" "rs_events (saveRecord c rc s) = rs_events s"
  by (simp_all add: saveRecord_def UpsertRecord_def)

lemma update_row_frame [simp]:
  "rs_jobs (update_row now i f s) = rs_jobs s" "rs_inFlight (update_row now i f s) = rs_inFlight s"
  "rs_wg (update_row now i f s) = rs_wg s" "rs_events (update_row now i f s) = rs_events s"
  by (simp_all add: update_row_def split: option.splits)

lemma recordSkip_frame [simp]:
  "rs_jobs (recordSkip c runID r te reason s) = rs_jobs s" "rs_inFlight (recordSkip c runID r te reason s) = rs_inFlight s"
  "rs_wg (recordSkip c runID r te reason s) = rs_wg s" "rs_rules (recordSkip c runID r te reason s) = rs_rules s"
  by (simp_all add: recordSkip_def)

lemma releaseInFlight_frame [simp]:
  "rs_jobs (releaseInFlight key s) = rs_jobs s" "rs_inFlight (releaseInFlight key s) = rs_inFlight s - {key}"
  "rs_wg (releaseInFlight key s) = rs_wg s" "rs_rules (releaseInFlight key s) = rs_rules s" "rs_events (releaseInFlight key s) = rs_events s"
  by (simp_all add: releaseInFlight_def)

lemma status_distinct [simp]: "StatusActive \<noteq> StatusPaused" "StatusPaused \<noteq> StatusActive"
  by (simp_all add: StatusActive_def StatusPaused_def)

lemma live_row_cong: "rs_rules s' i = rs_rules s i \<Longrightarrow> live_row i s' = live_row i s"
  by (simp add: live_row_def)

lemma live_row_Some: "live_row i s = Some r \<longleftrightarrow> rs_rules s i = Some r \<and> r_DeletedAt r = None"
  by (auto simp: live_row_def split: option.splits if_splits)

lemma live_update_row:
  "live_row i s = Some r \<Longrightarrow> r_DeletedAt (f r) = None \<Longrightarrow> live_row i (update_row now i f s) = Some ((f r)\<lparr>r_UpdatedAt := now\<rparr>)"
  by (simp add: update_row_def) (simp add: live_row_def)

text \<open>The results of the completed runs of a rule, oldest first, and the failures since the last success.\<close>

definition outcomes :: "int \<Rightarrow> 'f rem_engine \<Rightarrow> bool list" where
  "outcomes i s = map (rp_Success \<circ> snd) (filter (\<lambda>(ty, p). ty = RemediationCompleted \<and> rp_RuleID p = i) (rs_events s))"

definition trailing_failures :: "bool list \<Rightarrow> int" where
  "trailing_failures os = int (length (takeWhile Not (rev os)))"

lemma trailing_failures_snoc:
  "trailing_failures (os @ [b]) = (if b then 0 else trailing_failures os + 1)" "trailing_failures [] = 0"
  by (simp_all add: trailing_failures_def)

lemma outcomes_frame [simp]:
  "outcomes i (s\<lparr>rs_inFlight := fl\<rparr>) = outcomes i s" "outcomes i (s\<lparr>rs_jobs := js\<rparr>) = outcomes i s" "outcomes i (s\<lparr>rs_wg := n\<rparr>) = outcomes i s"
  "outcomes i (s\<lparr>rs_rules := rows\<rparr>) = outcomes i s" "outcomes i (saveRecord c rc s) = outcomes i s"
  "outcomes i (update_row now j f s) = outcomes i s" "outcomes i (releaseInFlight key s) = outcomes i s"
  by (simp_all add: outcomes_def)

lemma outcomes_publish:
  "outcomes i (rem_publish c ty p s) =
     (if rc_bus c \<and> ty = RemediationCompleted \<and> rp_RuleID p = i then outcomes i s @ [rp_Success p] else outcomes i s)"
  by (auto simp: outcomes_def rem_publish_def)

lemma outcomes_skip [simp]: "outcomes i (recordSkip c runID r te reason s) = outcomes i s"
  by (simp add: recordSkip_def outcomes_publish)

subsection \<open>Handling one rule\<close>

lemma handle_rule_cases:
  obtains (skipped) "rs_jobs (handle_rule c now runID accepted te env r s) = rs_jobs s"
      "rs_inFlight (handle_rule c now runID accepted te env r s) = rs_inFlight s" "rs_wg (handle_rule c now runID accepted te env r s) = rs_wg s"
      "rs_rules (handle_rule c now runID accepted te env r s) = rs_rules s \<or>
       rs_rules (handle_rule c now runID accepted te env r s) = rs_rules (UpdateRuleStatus now (r_ID r) StatusPaused s)"
  | (dispatched) "inFlightKey (r_ID r) (tg_AssetID te) \<notin> rs_inFlight s"
      "rs_jobs (handle_rule c now runID accepted te env r s) = rs_jobs s @
        [\<lparr>j_rule = r, j_event = te, j_key = inFlightKey (r_ID r) (tg_AssetID te), j_runID = runID, j_startedAt = None\<rparr>]"
      "rs_inFlight (handle_rule c now runID accepted te env r s) = insert (inFlightKey (r_ID r) (tg_AssetID te)) (rs_inFlight s)"
      "rs_wg (handle_rule c now runID accepted te env r s) = rs_wg s + 1" "rs_rules (handle_rule c now runID accepted te env r s) = rs_rules s"
      "\<not> cooling now r" "r_Status r = StatusActive"
proof -
  let ?key = "inFlightKey (r_ID r) (tg_AssetID te)"
  let ?s1 = "s\<lparr>rs_inFlight := insert ?key (rs_inFlight s)\<rparr>"
  let ?s2 = "UpdateRuleStatus now (r_ID r) StatusPaused ?s1"
  let ?h = "handle_rule c now runID accepted te env r s"
  have rules: "rs_rules ?s2 = rs_rules (UpdateRuleStatus now (r_ID r) StatusPaused s)"
    by (simp add: UpdateRuleStatus_def update_row_def live_row_def split: option.splits)
  have frame: "rs_jobs ?s2 = rs_jobs s" "rs_inFlight ?s2 = insert ?key (rs_inFlight s)" "rs_wg ?s2 = rs_wg s" by (simp_all add: UpdateRuleStatus_def)
  note defs = handle_rule_def tryClaimInFlight_def checkGates_def Let_def
  show thesis
  proof (cases "r_Enabled r \<and> r_Status r = StatusActive \<and> matchCondition c r env")
    case False
    then have "?h = s" by (auto simp: handle_rule_def)
    then show thesis by (intro skipped) simp_all
  next
    case active: True
    show thesis
    proof (cases "?key \<in> rs_inFlight s")
      case True
      then show thesis using active by (intro skipped) (simp_all add: defs)
    next
      case new: False
      show thesis
      proof (cases "cooling now r \<or> r_CircuitBreakerThreshold r > 0 \<and> r_ConsecutiveFailures r \<ge> r_CircuitBreakerThreshold r")
        case True
        then have "?h = releaseInFlight ?key (if cooling now r then recordSkip c runID r te ''cooldown'' ?s1
            else recordSkip c runID r te ''circuit breaker tripped'' ?s2)"
          using active new by (cases "cooling now r") (simp_all add: defs)
        then show thesis using new rules frame by (intro skipped) simp_all
      next
        case False
        then have h: "?h = rem_dispatch c runID accepted r te ?key ?s1" using active new by (auto simp: defs)
        show thesis
        proof (cases "r_ExecutorType r \<in> set (rc_operators c) \<and> accepted")
          case True
          then show thesis using h active new False by (intro dispatched) (simp_all add: rem_dispatch_def Let_def)
        next
          case False
          then show thesis using h new by (intro skipped) (auto simp: rem_dispatch_def Let_def)
        qed
      qed
    qed
  qed
qed

lemma handle_rule_outcomes [simp]: "outcomes i (handle_rule c now runID accepted te env r s) = outcomes i s"
  by (simp add: handle_rule_def tryClaimInFlight_def checkGates_def rem_dispatch_def Let_def outcomes_publish UpdateRuleStatus_def)

subsection \<open>One run for each rule and asset\<close>

lemma digits_no_colon: "0 \<le> n \<Longrightarrow> CHR '':'' \<notin> set (decimal n)"
proof (induction n rule: decimal.induct)
  case (1 n)
  have "digit_char d \<noteq> CHR '':''" if "0 \<le> d" "d < 10" for d using digit_val_char [OF that] by (auto simp: digit_val_def)
  from this [of n] this [of "n mod 10"] 1 show ?case by (subst decimal.simps) auto
qed

lemma inFlightKey_inj: "inFlightKey i a = inFlightKey j b \<longleftrightarrow> i = j \<and> a = b"
proof
  have colon: "CHR '':'' \<notin> set (FormatInt n)" for n using digits_no_colon by (simp add: FormatInt_def)
  assume "inFlightKey i a = inFlightKey j b"
  then have "FormatInt i @ CHR '':'' # FormatInt a = FormatInt j @ CHR '':'' # FormatInt b" by (simp add: inFlightKey_def)
  then have "FormatInt i = FormatInt j \<and> FormatInt a = FormatInt b" by (simp only: append_Cons_eq_iff [OF colon colon])
  then show "i = j \<and> a = b" by (simp add: FormatInt_inj)
qed simp

lemma drop_nth_split:
  assumes "k < length xs"
  obtains ys zs where "xs = ys @ xs ! k # zs" "drop_nth k xs = ys @ zs"
  using that [OF id_take_nth_drop [OF assms]] by (simp add: drop_nth_def)

text \<open>
  The keys in flight are those of the jobs, each of them claimed once, and \<^verbatim>\<open>wg\<close> counts the jobs.
\<close>

definition rem_ok :: "'f rem_engine \<Rightarrow> bool" where
  "rem_ok s \<longleftrightarrow> distinct (map j_key (rs_jobs s)) \<and> rs_inFlight s = set (map j_key (rs_jobs s)) \<and> rs_wg s = length (rs_jobs s) \<and>
     (\<forall>j\<in>set (rs_jobs s). j_key j = inFlightKey (r_ID (j_rule j)) (tg_AssetID (j_event j)))"

lemma rem_ok_cong:
  "rs_jobs s' = rs_jobs s \<Longrightarrow> rs_inFlight s' = rs_inFlight s \<Longrightarrow> rs_wg s' = rs_wg s \<Longrightarrow> rem_ok s' \<longleftrightarrow> rem_ok s"
  by (simp add: rem_ok_def)

lemma rem_ok_handle: "rem_ok s \<Longrightarrow> rem_ok (handle_rule c now runID accepted te env r s)"
  by (cases rule: handle_rule_cases [of c now runID accepted te env r s]) (auto simp: rem_ok_def)

lemma rem_ok_end:
  assumes "rem_ok s" "k < length (rs_jobs s)"
  shows "rem_ok (end_job k s)"
proof -
  obtain ys zs where js: "rs_jobs s = ys @ rs_jobs s ! k # zs" "drop_nth k (rs_jobs s) = ys @ zs" by (rule drop_nth_split [OF assms(2)])
  define j where "j = rs_jobs s ! k"
  have "rs_jobs s = ys @ j # zs" using js(1) by (simp add: j_def)
  moreover have "rs_jobs (end_job k s) = ys @ zs" "rs_inFlight (end_job k s) = rs_inFlight s - {j_key j}" "rs_wg (end_job k s) = rs_wg s - 1"
    using js(2) by (simp_all add: end_job_def j_def Let_def)
  ultimately show ?thesis using assms(1) by (auto simp: rem_ok_def)
qed

lemma job_start_fields:
  "rs_jobs (job_start c now k s) = (rs_jobs s)[k := (rs_jobs s ! k)\<lparr>j_startedAt := Some now\<rparr>]"
  "rs_inFlight (job_start c now k s) = rs_inFlight s" "rs_wg (job_start c now k s) = rs_wg s" "rs_rules (job_start c now k s) = rs_rules s"
  "outcomes i (job_start c now k s) = outcomes i s"
  by (simp_all add: job_start_def Let_def outcomes_publish)

lemma rem_ok_start:
  assumes "rem_ok s" "k < length (rs_jobs s)"
  shows "rem_ok (job_start c now k s)"
proof -
  let ?j = "(rs_jobs s ! k)\<lparr>j_startedAt := Some now\<rparr>"
  have "rs_jobs s ! k \<in> set (rs_jobs s)" using assms(2) by simp
  then have "\<forall>j\<in>insert ?j (set (rs_jobs s)). j_key j = inFlightKey (r_ID (j_rule j)) (tg_AssetID (j_event j))"
    using assms(1) by (simp add: rem_ok_def)
  then have "\<forall>j\<in>set ((rs_jobs s)[k := ?j]). j_key j = inFlightKey (r_ID (j_rule j)) (tg_AssetID (j_event j))"
    using set_update_subset_insert [of "rs_jobs s" k ?j] by blast
  moreover have keys: "map j_key ((rs_jobs s)[k := ?j]) = map j_key (rs_jobs s)"
    using assms(2) by (simp add: map_update) (metis list_update_id nth_map)
  moreover have "set (map j_key ((rs_jobs s)[k := ?j])) = set (map j_key (rs_jobs s))" by (simp only: keys)
  ultimately show ?thesis using assms(1) unfolding rem_ok_def job_start_fields by (simp only: length_list_update)
qed

text \<open>What a finished job does: two updates of the row of its rule, a completed event, and the deferred calls.\<close>

lemma job_finish_fields:
  fixes res :: "op_outcome option" and s :: "'f rem_engine" and k :: nat
  defines "j \<equiv> rs_jobs s ! k"
  shows "rs_jobs (job_finish c now lastRunOK outcomeOK res err k s) = rs_jobs (end_job k s)"
    "rs_inFlight (job_finish c now lastRunOK outcomeOK res err k s) = rs_inFlight (end_job k s)"
    "rs_wg (job_finish c now lastRunOK outcomeOK res err k s) = rs_wg (end_job k s)"
    "rs_rules (job_finish c now lastRunOK outcomeOK res err k s) =
       rs_rules ((if outcomeOK then RecordExecutionOutcome now (r_ID (j_rule j)) (run_success res err) else (\<lambda>x. x))
         (if lastRunOK then UpdateLastRun now (r_ID (j_rule j)) now s else s))"
    "outcomes i (job_finish c now lastRunOK outcomeOK res err k s) =
       (if rc_bus c \<and> r_ID (j_rule j) = i then outcomes i s @ [run_success res err] else outcomes i s)"
proof -
  have e: "outcomes i (end_job k s) = outcomes i s" "rs_rules (end_job k s) = rs_rules s" for s :: "'f rem_engine"
    by (simp_all add: end_job_def Let_def)
  have f: "rs_jobs (UpdateLastRun now i t s) = rs_jobs s" "rs_jobs (RecordExecutionOutcome now i b s) = rs_jobs s"
    "rs_inFlight (UpdateLastRun now i t s) = rs_inFlight s" "rs_inFlight (RecordExecutionOutcome now i b s) = rs_inFlight s"
    "rs_wg (UpdateLastRun now i t s) = rs_wg s" "rs_wg (RecordExecutionOutcome now i b s) = rs_wg s"
    "outcomes l (UpdateLastRun now i t s) = outcomes l s" "outcomes l (RecordExecutionOutcome now i b s) = outcomes l s"
    for i t b l and s :: "'f rem_engine" by (simp_all add: UpdateLastRun_def RecordExecutionOutcome_def)
  have p: "rp_RuleID (completed_payload r te runID res err) = r_ID r" "rp_Success (completed_payload r te runID res err) = run_success res err"
    for r runID and te :: "'f triggerEvent" by (auto simp: completed_payload_def newPayload_def Let_def split: option.splits)
  show "outcomes i (job_finish c now lastRunOK outcomeOK res err k s) =
       (if rc_bus c \<and> r_ID (j_rule j) = i then outcomes i s @ [run_success res err] else outcomes i s)"
    by (simp add: job_finish_def Let_def e outcomes_publish f j_def p)
  show "rs_rules (job_finish c now lastRunOK outcomeOK res err k s) =
       rs_rules ((if outcomeOK then RecordExecutionOutcome now (r_ID (j_rule j)) (run_success res err) else (\<lambda>x. x))
         (if lastRunOK then UpdateLastRun now (r_ID (j_rule j)) now s else s))"
    by (simp add: job_finish_def Let_def e j_def)
  show "rs_jobs (job_finish c now lastRunOK outcomeOK res err k s) = rs_jobs (end_job k s)"
    "rs_inFlight (job_finish c now lastRunOK outcomeOK res err k s) = rs_inFlight (end_job k s)"
    "rs_wg (job_finish c now lastRunOK outcomeOK res err k s) = rs_wg (end_job k s)"
    by (simp_all add: job_finish_def end_job_def Let_def f)
qed

lemma service_frame:
  "rs_jobs (snd (CreateRule x ceiling ids fresh now req s)) = rs_jobs s" "rs_inFlight (snd (CreateRule x ceiling ids fresh now req s)) = rs_inFlight s"
  "rs_wg (snd (CreateRule x ceiling ids fresh now req s)) = rs_wg s" "outcomes l (snd (CreateRule x ceiling ids fresh now req s)) = outcomes l s"
  "rs_jobs (snd (UpdateRule x now i req s)) = rs_jobs s" "rs_inFlight (snd (UpdateRule x now i req s)) = rs_inFlight s"
  "rs_wg (snd (UpdateRule x now i req s)) = rs_wg s" "outcomes l (snd (UpdateRule x now i req s)) = outcomes l s"
  "rs_jobs (snd (DeleteRule now i s)) = rs_jobs s" "rs_inFlight (snd (DeleteRule now i s)) = rs_inFlight s"
  "rs_wg (snd (DeleteRule now i s)) = rs_wg s" "outcomes l (snd (DeleteRule now i s)) = outcomes l s"
  by (simp_all add: CreateRule_def store_Create_def UpdateRule_def store_Update_def DeleteRule_def Let_def split: option.splits)

lemma rem_step_ok: "rem_step c lossless (s, hs) (s', hs') \<Longrightarrow> rem_ok s \<Longrightarrow> rem_ok s'"
proof (erule rem_step.cases, goal_cases)
  case (4 k)
  have "rem_ok (end_job k s)" using 4 rem_ok_end by blast
  then show ?case using 4 by (simp add: rem_ok_cong [OF job_finish_fields(1-3)])
qed (auto simp: job_panic_def service_frame intro: rem_ok_handle rem_ok_start rem_ok_end rem_ok_cong [THEN iffD2])

lemma rem_reach_ok: "rem_reach c lossless (s, hs) \<Longrightarrow> rem_ok s"
proof (induction rule: rtranclp_induct2)
  case refl
  show ?case by (simp add: rem_ok_def new_rem_engine_def)
qed (rule rem_step_ok)

subsection \<open>The rows of the table of rules\<close>

text \<open>Everything that can happen to the row \<open>i\<close>.\<close>

inductive row_step :: "int \<Rightarrow> Rule option \<Rightarrow> Rule option \<Rightarrow> bool" for i where
  rw_pause: "row_step i (Some r) (Some (r\<lparr>r_Status := StatusPaused, r_UpdatedAt := now\<rparr>))"
| rw_last_run: "row_step i (Some r) (Some (r\<lparr>r_LastRunAt := Some t, r_UpdatedAt := now\<rparr>))"
| rw_outcome: "row_step i (Some r) (Some ((record_outcome b r)\<lparr>r_UpdatedAt := now\<rparr>))"
| rw_update: "validateRule x m = None \<Longrightarrow> row_step i (Some r) (Some ((update_columns m r)\<lparr>r_UpdatedAt := now\<rparr>))"
| rw_delete: "row_step i (Some r) (Some (r\<lparr>r_DeletedAt := Some now\<rparr>))"
| rw_create: "validateRule x r = None \<Longrightarrow> r_ID r = i \<Longrightarrow> r_Status r = StatusActive \<Longrightarrow> r_LastRunAt r = None \<Longrightarrow>
    r_ConsecutiveFailures r = 0 \<Longrightarrow> row_step i None (Some r)"

lemma update_row_step:
  assumes "\<And>r. row_step i (Some r) (Some ((f r)\<lparr>r_UpdatedAt := now\<rparr>))"
  shows "(row_step i)\<^sup>*\<^sup>* (rs_rules s i) (rs_rules (update_row now j f s) i)"
proof (cases "live_row j s")
  case (Some r)
  then have "rs_rules s j = Some r" by (simp add: live_row_Some)
  with assms [of r] Some show ?thesis by (cases "i = j") (auto simp: update_row_def)
qed (simp add: update_row_def)

lemma validate_runtime [simp]:
  "validateRule x (r\<lparr>r_ID := i\<rparr>) = validateRule x r" "validateRule x (r\<lparr>r_Status := st\<rparr>) = validateRule x r"
  "validateRule x (r\<lparr>r_LastRunAt := t\<rparr>) = validateRule x r" "validateRule x (r\<lparr>r_ConsecutiveFailures := n\<rparr>) = validateRule x r"
  "validateRule x (r\<lparr>r_CreatedAt := u\<rparr>) = validateRule x r" "validateRule x (r\<lparr>r_UpdatedAt := u\<rparr>) = validateRule x r"
  by (simp_all add: validateRule_def)

lemma create_row_step: "(row_step i)\<^sup>*\<^sup>* (rs_rules s i) (rs_rules (snd (CreateRule x ceiling ids fresh now req s)) i)"
proof (cases "rs_rules (snd (CreateRule x ceiling ids fresh now req s)) i = rs_rules s i")
  case False
  then obtain r where "rs_rules s i = None" "rs_rules (snd (CreateRule x ceiling ids fresh now req s)) i = Some r"
    "validateRule x r = None" "r_ID r = i" "r_Status r = StatusActive" "r_LastRunAt r = None" "r_ConsecutiveFailures r = 0"
    by (auto simp: CreateRule_def store_Create_def Let_def StatusActive_def split: option.splits if_splits)
  then show ?thesis by (auto intro: rw_create)
qed simp

lemma update_rule_step: "(row_step i)\<^sup>*\<^sup>* (rs_rules s i) (rs_rules (snd (UpdateRule x now k req s)) i)"
proof (cases "validateRule x req")
  case None
  show ?thesis
  proof (cases "live_row k s")
    case (Some old)
    let ?m = "req\<lparr>r_ID := r_ID old, r_CreatedAt := r_CreatedAt old, r_Status := r_Status old,
        r_LastRunAt := r_LastRunAt old, r_ConsecutiveFailures := r_ConsecutiveFailures old\<rparr>"
    have "(row_step i)\<^sup>*\<^sup>* (rs_rules s i) (rs_rules (update_row now (r_ID old) (update_columns ?m) s) i)"
      by (rule update_row_step) (rule rw_update [of x], simp add: None)
    then show ?thesis using None Some by (auto simp: UpdateRule_def store_Update_def Let_def split: option.splits)
  qed (simp add: UpdateRule_def None)
qed (simp add: UpdateRule_def)

lemma handle_row_step: "(row_step i)\<^sup>*\<^sup>* (rs_rules s i) (rs_rules (handle_rule c now runID accepted te env r s) i)"
proof (cases rule: handle_rule_cases [of c now runID accepted te env r s])
  case skipped
  then show ?thesis using update_row_step [where f = "\<lambda>r. r\<lparr>r_Status := StatusPaused\<rparr>" and now = now and s = s and i = i] rw_pause
    by (auto simp: UpdateRuleStatus_def)
qed simp

lemma finish_row_step:
  "(row_step i)\<^sup>*\<^sup>* (rs_rules s i) (rs_rules (job_finish c now lastRunOK outcomeOK res err k s) i)"
proof -
  let ?s1 = "if lastRunOK then UpdateLastRun now (r_ID (j_rule (rs_jobs s ! k))) now s else s"
  have "(row_step i)\<^sup>*\<^sup>* (rs_rules s i) (rs_rules ?s1 i)"
    by (simp add: UpdateLastRun_def update_row_step rw_last_run)
  also have "(row_step i)\<^sup>*\<^sup>* (rs_rules ?s1 i) (rs_rules (job_finish c now lastRunOK outcomeOK res err k s) i)"
    unfolding job_finish_fields(4) by (simp add: RecordExecutionOutcome_def update_row_step rw_outcome)
  finally show ?thesis .
qed

lemma rem_step_row: "rem_step c lossless (s, hs) (s', hs') \<Longrightarrow> (row_step i)\<^sup>*\<^sup>* (rs_rules s i) (rs_rules s' i)"
proof (erule rem_step.cases, goal_cases)
  case (8 s hs now k)
  then show ?case by (auto simp: DeleteRule_def live_row_Some split: option.splits intro: rw_delete)
qed (auto simp: job_start_fields job_panic_def end_job_def Let_def
    intro: handle_row_step finish_row_step create_row_step update_rule_step)

definition rule_wf :: "int \<Rightarrow> Rule \<Rightarrow> bool" where
  "rule_wf i r \<longleftrightarrow> r_ID r = i \<and> r_TriggerEventType r \<in> set validTriggerEventTypes \<and> r_ExecutorType r \<in> set validExecutorTypes \<and>
     0 \<le> r_Cooldown r \<and> 0 \<le> r_CircuitBreakerThreshold r \<and> 0 \<le> r_ConsecutiveFailures r \<and> r_Status r \<in> {StatusActive, StatusPaused}"

lemma validateRule_None:
  "validateRule x r = None \<Longrightarrow> r_TriggerEventType r \<in> set validTriggerEventTypes \<and> r_ExecutorType r \<in> set validExecutorTypes \<and>
     0 \<le> r_Cooldown r \<and> 0 \<le> r_CircuitBreakerThreshold r"
  by (auto simp: validateRule_def Let_def split: if_splits)

lemma row_step_wf: "row_step i a b \<Longrightarrow> \<forall>r. a = Some r \<longrightarrow> rule_wf i r \<Longrightarrow> \<forall>r. b = Some r \<longrightarrow> rule_wf i r"
  by (erule row_step.cases) (auto simp: rule_wf_def record_outcome_def update_columns_def dest: validateRule_None)

lemma row_steps_wf: "(row_step i)\<^sup>*\<^sup>* a b \<Longrightarrow> \<forall>r. a = Some r \<longrightarrow> rule_wf i r \<Longrightarrow> \<forall>r. b = Some r \<longrightarrow> rule_wf i r"
  by (induction rule: rtranclp_induct) (simp, metis row_step_wf)

lemma row_steps_Some: "(row_step i)\<^sup>*\<^sup>* a b \<Longrightarrow> a \<noteq> None \<Longrightarrow> b \<noteq> None"
  by (induction rule: rtranclp_induct) (auto elim: row_step.cases)

lemma rem_reach_wf: "rem_reach c lossless (s, hs) \<Longrightarrow> rs_rules s i = Some r \<Longrightarrow> rule_wf i r"
proof (induction arbitrary: r rule: rtranclp_induct2)
  case refl
  then show ?case by (simp add: new_rem_engine_def)
next
  case (step s hs s' hs')
  then show ?case using row_steps_wf [OF rem_step_row [OF step(2), of i]] by blast
qed

lemma loaded_rule:
  assumes "r \<in> set (GetRules ids tenantID assetID trg s)"
  shows "rule_matches tenantID assetID trg r \<and> (\<exists>i. live_row i s = Some r)"
  using assms by (auto simp: GetRules_def live_rows_def List.map_filter_def)

subsection \<open>The count of failures\<close>

definition fails_of :: "int \<Rightarrow> 'f rem_engine \<Rightarrow> int option" where
  "fails_of i s = map_option r_ConsecutiveFailures (live_row i s)"

lemma fails_of_cong: "rs_rules s' = rs_rules s \<Longrightarrow> fails_of i s' = fails_of i s"
  by (simp add: fails_of_def live_row_def)

lemma fails_of_update_row:
  assumes "\<And>r. r_DeletedAt (f r) = r_DeletedAt r" "\<And>r. r_ConsecutiveFailures (f r) = g (r_ConsecutiveFailures r)"
  shows "fails_of i (update_row now j f s) = (if i = j then map_option g (fails_of i s) else fails_of i s)"
  using assms by (auto simp: fails_of_def update_row_def live_row_def split: option.splits)

lemma fails_of_handle: "fails_of i (handle_rule c now runID accepted te env r s) = fails_of i s"
proof (cases rule: handle_rule_cases [of c now runID accepted te env r s])
  case skipped
  have "fails_of i (UpdateRuleStatus now (r_ID r) StatusPaused s) = fails_of i s"
    unfolding UpdateRuleStatus_def by (subst fails_of_update_row [where g = "\<lambda>n. n"]) (simp_all add: option.map_ident)
  then show ?thesis using skipped(4) fails_of_cong by metis
qed (rule fails_of_cong)

lemma fails_of_finish:
  "fails_of i (job_finish c now lastRunOK True res err k s) =
     (if r_ID (j_rule (rs_jobs s ! k)) = i then map_option (\<lambda>n. if run_success res err then 0 else n + 1) (fails_of i s) else fails_of i s)"
proof -
  let ?j = "r_ID (j_rule (rs_jobs s ! k))"
  let ?s1 = "if lastRunOK then UpdateLastRun now ?j now s else s"
  have "fails_of i ?s1 = fails_of i s"
    unfolding UpdateLastRun_def by (simp add: fails_of_update_row [where g = "\<lambda>n. n"] option.map_ident)
  moreover have "fails_of i (job_finish c now lastRunOK True res err k s) = fails_of i (RecordExecutionOutcome now ?j (run_success res err) ?s1)"
    by (rule fails_of_cong) (simp add: job_finish_fields(4))
  moreover have "fails_of i (RecordExecutionOutcome now ?j (run_success res err) ?s1) =
      (if i = ?j then map_option (\<lambda>n. if run_success res err then 0 else n + 1) (fails_of i ?s1) else fails_of i ?s1)"
    unfolding RecordExecutionOutcome_def by (rule fails_of_update_row) (simp_all add: record_outcome_def)
  ultimately show ?thesis by simp
qed

lemma fails_of_update: "fails_of i (snd (UpdateRule x now k req s)) = fails_of i s"
proof -
  have "fails_of i (update_row now j (update_columns m) s) = fails_of i s" for j m
    by (subst fails_of_update_row [where g = "\<lambda>n. n"]) (simp_all add: update_columns_def option.map_ident)
  then show ?thesis by (auto simp: UpdateRule_def store_Update_def Let_def split: option.splits)
qed

text \<open>Jobs and handlers only concern rules that exist, and the counts are right.\<close>

definition known_rules :: "'f rem_sys \<Rightarrow> bool" where
  "known_rules y \<longleftrightarrow> (\<forall>j\<in>set (rs_jobs (fst y)). rs_rules (fst y) (r_ID (j_rule j)) \<noteq> None) \<and>
     (\<forall>(rs, te)\<in>set (snd y). \<forall>r\<in>set rs. rs_rules (fst y) (r_ID r) \<noteq> None)"

definition counts_ok :: "'f rem_engine \<Rightarrow> bool" where
  "counts_ok s \<longleftrightarrow> (\<forall>i. (rs_rules s i = None \<longrightarrow> outcomes i s = []) \<and> (\<forall>n. fails_of i s = Some n \<longrightarrow> n = trailing_failures (outcomes i s)))"

lemma known_step:
  assumes "rem_reach c lossless (s, hs)" "rem_step c lossless (s, hs) (s', hs')" "known_rules (s, hs)"
  shows "known_rules (s', hs')"
proof -
  have keep: "rs_rules s' i \<noteq> None" if "rs_rules s i \<noteq> None" for i using row_steps_Some [OF rem_step_row [OF assms(2)] that] .
  have "(\<forall>j\<in>set (rs_jobs s'). rs_rules s (r_ID (j_rule j)) \<noteq> None) \<and> (\<forall>(rs, te)\<in>set hs'. \<forall>r\<in>set rs. rs_rules s (r_ID r) \<noteq> None)"
    using assms(2)
  proof (cases rule: rem_step.cases)
    case (s_load ids te)
    have "rs_rules s (r_ID r) \<noteq> None" if "r \<in> set (GetRules ids tn a trg s)" for r tn a trg
      using loaded_rule [OF that] rem_reach_wf [OF assms(1)] by (auto simp: live_row_Some rule_wf_def)
    then show ?thesis using s_load assms(3) by (auto simp: known_rules_def)
  next
    case (s_rule hs0 r rs te hs1 now runID accepted)
    then show ?thesis using assms(3)
      by (cases rule: handle_rule_cases [of c now runID accepted te "buildEnv c te" r s]) (auto simp: known_rules_def)
  next
    case (s_start k now)
    have "rs_jobs s ! k \<in> set (rs_jobs s)" using s_start by simp
    then have "\<forall>j\<in>insert ((rs_jobs s ! k)\<lparr>j_startedAt := Some now\<rparr>) (set (rs_jobs s)). rs_rules s (r_ID (j_rule j)) \<noteq> None"
      using assms(3) by (simp add: known_rules_def)
    then have "\<forall>j\<in>set (rs_jobs s'). rs_rules s (r_ID (j_rule j)) \<noteq> None"
      unfolding s_start job_start_fields using set_update_subset_insert [of "rs_jobs s" k "(rs_jobs s ! k)\<lparr>j_startedAt := Some now\<rparr>"] by blast
    then show ?thesis using s_start assms(3) by (simp add: known_rules_def)
  next
    case (s_finish k)
    have "set (rs_jobs (end_job k s)) \<subseteq> set (rs_jobs s)"
      by (auto simp: end_job_def drop_nth_def Let_def dest: in_set_takeD in_set_dropD)
    then show ?thesis using s_finish assms(3) by (auto simp: known_rules_def job_finish_fields(1))
  next
    case (s_panic k)
    have "set (rs_jobs (end_job k s)) \<subseteq> set (rs_jobs s)"
      by (auto simp: end_job_def drop_nth_def Let_def dest: in_set_takeD in_set_dropD)
    then show ?thesis using s_panic assms(3) by (auto simp: known_rules_def job_panic_def)
  qed (use assms(3) in \<open>simp_all add: known_rules_def service_frame\<close>)
  then show ?thesis unfolding known_rules_def fst_conv snd_conv using keep by blast
qed

lemma counts_step:
  assumes "rem_reach c True (s, hs)" "rem_step c True (s, hs) (s', hs')" "known_rules (s, hs)" "counts_ok s" "rc_bus c"
  shows "counts_ok s'"
proof -
  have keep: "rs_rules s i = None" if "rs_rules s' i = None" for i
    using row_steps_Some [OF rem_step_row [OF assms(2)], of i] that by blast
  have same: ?thesis if out: "\<And>i. outcomes i s' = outcomes i s" and
    fl: "\<And>i. fails_of i s' = fails_of i s \<or> fails_of i s' = None \<or> rs_rules s i = None \<and> fails_of i s' = Some 0"
    unfolding counts_ok_def
  proof (intro allI conjI impI)
    fix i n
    show "outcomes i s' = []" if "rs_rules s' i = None" using keep [OF that] assms(4) out by (simp add: counts_ok_def)
    show "n = trailing_failures (outcomes i s')" if "fails_of i s' = Some n"
      using that out [of i] fl [of i] assms(4)
      by (auto simp: counts_ok_def trailing_failures_snoc)
  qed
  show ?thesis using assms(2)
  proof (cases rule: rem_step.cases)
    case (s_finish k outcomeOK now lastRunOK res err)
    have known: "rs_rules s (r_ID (j_rule (rs_jobs s ! k))) \<noteq> None" using assms(3) s_finish(3) by (simp add: known_rules_def)
    show ?thesis unfolding counts_ok_def
    proof (intro allI conjI impI)
      fix i n
      show "outcomes i s' = []" if "rs_rules s' i = None"
        using keep [OF that] known s_finish assms(4) by (auto simp: counts_ok_def job_finish_fields(5))
      show "n = trailing_failures (outcomes i s')" if "fails_of i s' = Some n"
        using that s_finish assms(4,5) by (auto simp: counts_ok_def job_finish_fields(5) fails_of_finish trailing_failures_snoc split: if_splits)
    qed
  next
    case (s_create x ceiling ids fresh now req)
    have "fails_of i s' = fails_of i s \<or> fails_of i s' = None \<or> rs_rules s i = None \<and> fails_of i s' = Some 0" for i
      unfolding s_create by (auto simp: CreateRule_def store_Create_def Let_def fails_of_def live_row_def split: option.splits if_splits)
    then show ?thesis using s_create by (intro same) (simp_all add: service_frame)
  next
    case (s_delete now i)
    then show ?thesis by (intro same) (auto simp: service_frame DeleteRule_def fails_of_def live_row_def split: option.splits if_splits)
  next
    case (s_panic k)
    then show ?thesis by (intro same) (simp_all add: job_panic_def end_job_def Let_def fails_of_def live_row_def)
  qed (intro same; simp add: fails_of_handle fails_of_update service_frame job_start_fields fails_of_cong [OF job_start_fields(4)])+
qed

lemma rem_reach_counts: "rem_reach c True (s, hs) \<Longrightarrow> rc_bus c \<Longrightarrow> known_rules (s, hs) \<and> counts_ok s"
proof (induction rule: rtranclp_induct2)
  case refl
  show ?case by (simp add: known_rules_def counts_ok_def fails_of_def live_row_def new_rem_engine_def outcomes_def)
next
  case (step s hs s' hs')
  then show ?case using known_step counts_step by blast
qed

text \<open>
  A start that fails after its first subscription leaves that one in force: stopping does not cancel it, and
  a second start makes it a second time.
\<close>

lemma failed_Start_leaks:
  fixes ok :: bool
  assumes "rc_bus c" "\<not> l_started l"
  defines "l1 \<equiv> snd (rem_Start c (True, False, ok) l)"
  shows "fst (rem_Start c (True, False, ok) l) = Some ErrSubscribe" "rem_Stop s l1 = Some l1"
    "l_subs (snd (rem_Start c (True, True, True) l1)) = l_subs l @
      [''telemetry.metric_exceeded'', ''telemetry.metric_exceeded'', ''telemetry.log_matched'', ''asset.status_changed'']"
  using assms by (simp_all add: rem_Start_def rem_Stop_def)

text \<open>An identifier that is written out is read back; one that is empty, as in an event without a tenant, is malformed.\<close>

lemma parseID_FormatInt:
  "0 \<le> n \<Longrightarrow> n \<le> max_int \<Longrightarrow> parseID (FormatInt n) = Some n" "n < 0 \<Longrightarrow> min_int \<le> n \<Longrightarrow> parseID (FormatInt n) = None"
  "parseID [] = None"
proof -
  show "parseID (FormatInt n) = Some n" if "0 \<le> n" "n \<le> max_int"
    using that Atoi_FormatInt [of n] by (simp add: parseID_def min_int_def)
  show "parseID (FormatInt n) = None" if "n < 0" "min_int \<le> n"
    using that Atoi_FormatInt [of n] by (simp add: parseID_def max_int_def)
  show "parseID [] = None" by (simp add: parseID_def Atoi_def)
qed

subsection \<open>A rule to try things on\<close>

text \<open>A rule for all assets that restarts a service on a metric alert, with a cooldown of five minutes, paused by its first failure.\<close>

definition restart_rule :: Rule where
  "restart_rule = \<lparr>r_ID = 0, r_TenantID = 0, r_Name = ''restart'', r_Description = [], r_AssetID = 0, r_TriggerEventType = TriggerMetric,
     r_Expression = [], r_ExecutorType = ''local'', r_ExecutorConfig = [], r_Cooldown = 300, r_CircuitBreakerThreshold = 1,
     r_Enabled = True, r_Status = [], r_LastRunAt = None, r_ConsecutiveFailures = 0, r_Metadata = [], r_CreatedAt = 0, r_UpdatedAt = 0,
     r_DeletedAt = None\<rparr>"

definition restart_row :: Rule where
  "restart_row = restart_rule\<lparr>r_ID := 1, r_Status := StatusActive\<rparr>"

definition plain_checks :: expr_checks where
  "plain_checks = \<lparr>x_Validate = (\<lambda>_. None), x_ConfigExpression = (\<lambda>_. []), x_ExecValidate = (\<lambda>_. None)\<rparr>"

definition local_cfg :: "unit rem_cfg" where
  "local_cfg = \<lparr>rc_bus = True, rc_records = True, rc_assets = None, rc_operators = new_operators [], rc_eval = (\<lambda>_ _. None)\<rparr>"

definition hot :: "int \<Rightarrow> unit triggerEvent" where
  "hot a = (zero_triggerEvent ())\<lparr>tg_Trigger := TriggerMetric, tg_AssetID := a\<rparr>"

abbreviation try_rule :: "gotime \<Rightarrow> string \<Rightarrow> int \<Rightarrow> unit rem_engine \<Rightarrow> unit rem_engine" where
  "try_rule now runID a \<equiv> handle_rule local_cfg now runID True (hot a) (buildEnv local_cfg (hot a)) restart_row"

definition with_rule :: "unit rem_engine" where
  "with_rule = snd (CreateRule plain_checks 0 [] 1 0 restart_rule new_rem_engine)"

definition under_way :: "unit rem_engine" where
  "under_way = try_rule 0 ''run-1'' 1 with_rule"

definition ended :: "bool \<Rightarrow> unit rem_engine" where
  "ended success = job_finish local_cfg time_Second True True (Some \<lparr>o_Success = success, o_ErrorMsg = [], o_DurationMs = 5\<rparr>) None 0
     (job_start local_cfg 0 0 under_way)"

definition sample_jobs :: "unit rem_engine \<Rightarrow> (int \<times> int) list" where
  "sample_jobs s = map (\<lambda>j. (r_ID (j_rule j), tg_AssetID (j_event j))) (rs_jobs s)"

lemma with_rule_loads: "GetRules [1] 0 a TriggerMetric with_rule = [restart_row]" "GetRules [1] 0 a TriggerMetric under_way = [restart_row]"
proof -
  have "live_row 1 with_rule = Some restart_row" "live_row 1 under_way = Some restart_row" by code_simp+
  then show "GetRules [1] 0 a TriggerMetric with_rule = [restart_row]" "GetRules [1] 0 a TriggerMetric under_way = [restart_row]"
    by (simp_all add: GetRules_def live_rows_def List.map_filter_def rule_matches_def restart_row_def restart_rule_def)
qed

lemma reach_try:
  assumes "rem_reach local_cfg True (s, hs)" "GetRules [1] 0 a TriggerMetric s = [restart_row]"
  shows "rem_reach local_cfg True (s, ([restart_row], hot a) # hs)" "rem_reach local_cfg True (try_rule now runID a s, ([], hot a) # hs)"
proof -
  have h: "tg_TenantID (hot a) = 0" "tg_AssetID (hot a) = a" "tg_Trigger (hot a) = TriggerMetric" by (simp_all add: hot_def zero_triggerEvent_def)
  show load: "rem_reach local_cfg True (s, ([restart_row], hot a) # hs)"
    using rtranclp.rtrancl_into_rtrancl [OF assms(1) s_load [of local_cfg True s hs "[1]" "hot a"]] by (simp add: h assms(2))
  show "rem_reach local_cfg True (try_rule now runID a s, ([], hot a) # hs)"
    using rtranclp.rtrancl_into_rtrancl [OF load] s_rule [of local_cfg True s "[]" restart_row "[]" "hot a" hs now runID True] by simp
qed

lemma reach_with_rule: "rem_reach local_cfg True (with_rule, [])"
  unfolding with_rule_def by (intro r_into_rtranclp s_create)

lemma reach_under_way: "rem_reach local_cfg True (under_way, [([], hot 1)])"
  unfolding under_way_def by (rule reach_try(2) [OF reach_with_rule with_rule_loads(1)])

text \<open>The job ends while another handler has loaded the rules.\<close>

lemma reach_ended: "rem_reach local_cfg True (ended success, ([restart_row], hot 1) # [([], hot 1)])"
proof -
  have k: "0 < length (rs_jobs under_way)" "j_startedAt (rs_jobs under_way ! 0) = None" by code_simp+
  have l: "0 < length (rs_jobs (job_start local_cfg 0 0 under_way))" "j_startedAt (rs_jobs (job_start local_cfg 0 0 under_way) ! 0) \<noteq> None" by code_simp+
  have "rem_reach local_cfg True (under_way, ([restart_row], hot 1) # [([], hot 1)])"
    by (rule reach_try(1) [OF reach_under_way with_rule_loads(2)])
  from rtranclp.rtrancl_into_rtrancl [OF this s_start [OF k]]
  have "rem_reach local_cfg True (job_start local_cfg 0 0 under_way, ([restart_row], hot 1) # [([], hot 1)])" .
  from rtranclp.rtrancl_into_rtrancl [OF this s_finish [OF l]] show ?thesis unfolding ended_def by simp
qed

subsection \<open>Properties\<close>

text \<open>C24. However handlers, jobs and requests interleave, at most one run of a rule for an asset is under
  way: the jobs that were submitted and have not ended have different keys, two jobs of the same rule and
  asset are the same job, the keys in flight are exactly theirs, and the wait group that
  \<^verbatim>\<open>Stop\<close> waits for counts them. A trigger for a pair in flight only records that it was skipped.\<close>

theorem rem_idempotent:
  assumes "rem_reach c lossless (s, hs)"
  shows "rs_inFlight s = (\<lambda>j. inFlightKey (r_ID (j_rule j)) (tg_AssetID (j_event j))) ` set (rs_jobs s) \<and> rs_wg s = length (rs_jobs s) \<and>
    (\<forall>k<length (rs_jobs s). \<forall>l<length (rs_jobs s). r_ID (j_rule (rs_jobs s ! k)) = r_ID (j_rule (rs_jobs s ! l)) \<and>
       tg_AssetID (j_event (rs_jobs s ! k)) = tg_AssetID (j_event (rs_jobs s ! l)) \<longrightarrow> k = l) \<and>
    (\<forall>j\<in>set (rs_jobs s). tg_AssetID te = tg_AssetID (j_event j) \<and> r_ID r = r_ID (j_rule j) \<longrightarrow>
       rs_jobs (handle_rule c now runID accepted te env r s) = rs_jobs s)"
proof (intro conjI)
  have ok: "distinct (map j_key (rs_jobs s))" "rs_inFlight s = set (map j_key (rs_jobs s))" "rs_wg s = length (rs_jobs s)"
    "\<forall>j\<in>set (rs_jobs s). j_key j = inFlightKey (r_ID (j_rule j)) (tg_AssetID (j_event j))"
    using rem_reach_ok [OF assms] by (simp_all add: rem_ok_def)
  then show "rs_inFlight s = (\<lambda>j. inFlightKey (r_ID (j_rule j)) (tg_AssetID (j_event j))) ` set (rs_jobs s)" "rs_wg s = length (rs_jobs s)"
    by auto
  have "k = l" if "k < length (rs_jobs s)" "l < length (rs_jobs s)" "r_ID (j_rule (rs_jobs s ! k)) = r_ID (j_rule (rs_jobs s ! l))"
    "tg_AssetID (j_event (rs_jobs s ! k)) = tg_AssetID (j_event (rs_jobs s ! l))" for k l
  proof -
    have "map j_key (rs_jobs s) ! k = map j_key (rs_jobs s) ! l" using that ok(4) by simp
    then show ?thesis using that(1,2) ok(1) nth_eq_iff_index_eq by fastforce
  qed
  then show "\<forall>k<length (rs_jobs s). \<forall>l<length (rs_jobs s). r_ID (j_rule (rs_jobs s ! k)) = r_ID (j_rule (rs_jobs s ! l)) \<and>
       tg_AssetID (j_event (rs_jobs s ! k)) = tg_AssetID (j_event (rs_jobs s ! l)) \<longrightarrow> k = l" by blast
  show "\<forall>j\<in>set (rs_jobs s). tg_AssetID te = tg_AssetID (j_event j) \<and> r_ID r = r_ID (j_rule j) \<longrightarrow>
       rs_jobs (handle_rule c now runID accepted te env r s) = rs_jobs s"
    by (cases rule: handle_rule_cases [of c now runID accepted te env r s]) (use ok in auto)
qed

theorem rem_idempotent_witness:
  "sample_jobs under_way = [(1, 1)] \<and> rs_wg under_way = 1 \<and> rs_jobs (try_rule 7 ''run-2'' 1 under_way) = rs_jobs under_way"
proof -
  have j: "sample_jobs under_way = [(1, 1)]" "length (rs_jobs under_way) = 1" "r_ID (j_rule (rs_jobs under_way ! 0)) = r_ID restart_row"
    "tg_AssetID (hot 1) = tg_AssetID (j_event (rs_jobs under_way ! 0))" by code_simp+
  then have "rs_jobs under_way ! 0 \<in> set (rs_jobs under_way)" by simp
  moreover note I = rem_idempotent [OF reach_under_way, where te = "hot 1" and r = restart_row and now = 7 and runID = "''run-2''" and
      accepted = True and env = "buildEnv local_cfg (hot 1)"]
  ultimately have "rs_jobs (try_rule 7 ''run-2'' 1 under_way) = rs_jobs under_way" using j(3,4) by metis
  then show ?thesis using I j(1,2) by simp
qed

text \<open>C25. Every rule in the table, however it came there and whatever happened to it since, is stored
  under its own ID, has one of the known trigger and executor types and one of the two states, and its
  cooldown, its threshold and its count of failures are not negative. In particular every rule that a
  handler loads is of the tenant and trigger type it asked for.\<close>

theorem rules_well_formed:
  assumes "rem_reach c lossless (s, hs)" "r \<in> set (GetRules ids tenantID assetID trg s)"
  shows "rule_wf (r_ID r) r \<and> live_row (r_ID r) s = Some r \<and> rule_matches tenantID assetID trg r"
proof -
  obtain i where i: "live_row i s = Some r" "rule_matches tenantID assetID trg r" using loaded_rule [OF assms(2)] by blast
  then have "rule_wf i r" using rem_reach_wf [OF assms(1)] by (simp add: live_row_Some)
  with i show ?thesis by (auto simp: rule_wf_def)
qed

theorem rules_well_formed_witness: "rule_wf 1 restart_row \<and> live_row 1 with_rule = Some restart_row"
proof -
  have "restart_row \<in> set (GetRules [1] 0 5 TriggerMetric with_rule)" "r_ID restart_row = 1"
    by (simp_all add: with_rule_loads restart_row_def)
  then show ?thesis using rules_well_formed [OF reach_with_rule, of restart_row "[1]" 0 5 TriggerMetric] by simp
qed

text \<open>C26. The circuit breaker of a rule counts right under concurrency: as long as the outcomes of its runs
  can be stored, its count is the number of failed runs since the last successful one, in the order in which
  they completed, whatever runs of the rule overlap and whatever requests change it meanwhile. The
  run whose failure takes the count to the threshold pauses the rule.\<close>

theorem breaker_counts:
  assumes "rem_reach c True (s, hs)" "rc_bus c" "live_row i s = Some r"
  shows "r_ConsecutiveFailures r = trailing_failures (outcomes i s) \<and>
    (k < length (rs_jobs s) \<and> r_ID (j_rule (rs_jobs s ! k)) = i \<and> \<not> run_success res err \<and> 0 < r_CircuitBreakerThreshold r \<and>
       r_CircuitBreakerThreshold r \<le> trailing_failures (outcomes i s) + 1 \<longrightarrow>
     (\<exists>r'. live_row i (job_finish c now lastRunOK True res err k s) = Some r' \<and> r_Status r' = StatusPaused))"
proof (intro conjI impI)
  show n: "r_ConsecutiveFailures r = trailing_failures (outcomes i s)"
    using rem_reach_counts [OF assms(1,2)] assms(3) by (simp add: counts_ok_def fails_of_def)
  assume j: "k < length (rs_jobs s) \<and> r_ID (j_rule (rs_jobs s ! k)) = i \<and> \<not> run_success res err \<and> 0 < r_CircuitBreakerThreshold r \<and>
       r_CircuitBreakerThreshold r \<le> trailing_failures (outcomes i s) + 1"
  let ?s1 = "if lastRunOK then UpdateLastRun now i now s else s"
  let ?r1 = "if lastRunOK then r\<lparr>r_LastRunAt := Some now, r_UpdatedAt := now\<rparr> else r"
  have r1: "live_row i ?s1 = Some ?r1" "r_DeletedAt ?r1 = None" using assms(3) live_row_Some [THEN iffD1, OF assms(3)]
    by (simp_all add: UpdateLastRun_def live_update_row [OF assms(3)])
  have "live_row i (job_finish c now lastRunOK True res err k s) = live_row i (RecordExecutionOutcome now i (run_success res err) ?s1)"
    using j by (intro live_row_cong) (simp add: job_finish_fields(4))
  then show "\<exists>r'. live_row i (job_finish c now lastRunOK True res err k s) = Some r' \<and> r_Status r' = StatusPaused"
    using j n by (simp add: RecordExecutionOutcome_def live_update_row [OF r1(1)] record_outcome_def r1(2))
qed

theorem breaker_counts_witness:
  "\<exists>r'. live_row 1 (ended False) = Some r' \<and> r_Status r' = StatusPaused"
proof -
  let ?s = "job_start local_cfg 0 0 under_way"
  have k: "0 < length (rs_jobs under_way)" "j_startedAt (rs_jobs under_way ! 0) = None" by code_simp+
  have r: "rem_reach local_cfg True (?s, [([], hot 1)])" by (rule rtranclp.rtrancl_into_rtrancl [OF reach_under_way s_start [OF k]])
  have f: "live_row 1 ?s = Some restart_row" "rc_bus local_cfg" "0 < length (rs_jobs ?s)" "r_ID (j_rule (rs_jobs ?s ! 0)) = 1"
    "r_CircuitBreakerThreshold restart_row = 1" "trailing_failures (outcomes 1 ?s) = 0" by code_simp+
  show ?thesis unfolding ended_def
    using breaker_counts [OF r f(2) f(1), of 0 "Some \<lparr>o_Success = False, o_ErrorMsg = [], o_DurationMs = 5\<rparr>" None time_Second True] f
    by (simp add: run_success_def)
qed

text \<open>A rule that was paused stays paused: no handler, no job and no request of the rule service makes
  it active again, whatever else happens, and no handler that loads the rules from then on dispatches it.\<close>

theorem paused_forever:
  assumes "rem_reach c lossless (s, hs)" "rs_rules s i = Some r" "r_Status r = StatusPaused" "(rem_step c lossless)\<^sup>*\<^sup>* (s, hs) (s', hs')"
  shows "(\<exists>r'. rs_rules s' i = Some r' \<and> r_Status r' = StatusPaused) \<and>
    (\<forall>r'\<in>set (GetRules ids tenantID assetID trg s'). r_ID r' = i \<longrightarrow> handle_rule c now runID accepted te env r' s' = s')"
proof (intro conjI ballI impI)
  have row: "\<exists>r'. b = Some r' \<and> r_Status r' = StatusPaused" if "(row_step i)\<^sup>*\<^sup>* a b" "a = Some x" "r_Status x = StatusPaused" for a b x
    using that by (induction rule: rtranclp_induct) (auto elim!: row_step.cases simp: record_outcome_def update_columns_def)
  from assms(4) show paused: "\<exists>r'. rs_rules s' i = Some r' \<and> r_Status r' = StatusPaused"
  proof (induction rule: rtranclp_induct2)
    case (step t hs1 t' hs2)
    then show ?case using row [OF rem_step_row [OF step(2), of i]] by blast
  qed (use assms(2,3) in blast)
  fix r' assume r': "r' \<in> set (GetRules ids tenantID assetID trg s')" "r_ID r' = i"
  have "rem_reach c lossless (s', hs')" using assms(1,4) by (rule rtranclp_trans)
  then obtain j where "live_row j s' = Some r'" "rule_wf j r'" using loaded_rule [OF r'(1)] rem_reach_wf by (metis live_row_Some)
  then have "r_Status r' = StatusPaused" using paused r'(2) by (auto simp: live_row_Some rule_wf_def)
  then show "handle_rule c now runID accepted te env r' s' = s'" by (simp add: handle_rule_def)
qed

theorem paused_forever_witness:
  "\<exists>r'. rs_rules (snd (UpdateRule plain_checks time_Hour 1 (restart_row\<lparr>r_CircuitBreakerThreshold := 0\<rparr>) (ended False))) 1 = Some r' \<and>
     r_Status r' = StatusPaused"
proof -
  have "(case rs_rules (ended False) 1 of None \<Rightarrow> False | Some r \<Rightarrow> r_Status r = StatusPaused)" by code_simp
  then obtain r where "rs_rules (ended False) 1 = Some r" "r_Status r = StatusPaused" by (auto split: option.splits)
  note paused = paused_forever [OF reach_ended this]
  show ?thesis by (rule conjunct1 [OF paused]) (rule r_into_rtranclp, rule s_update)
qed

text \<open>The cooldown of a rule does not space out its runs. It is checked against the rule as it was
  loaded and starts only when a run has ended, so a rule for all assets with a cooldown of five minutes runs for two
  assets at the same instant; and a handler that loaded the rules while a run was under way dispatches the
  rule again for the same asset at the instant at which that run has ended, when the stored rule is
  cooling down. The claim of the key before the check does not close this window.\<close>

theorem cooldown_bypassed:
  "(\<exists>hs. rem_reach local_cfg True (try_rule 0 ''run-2'' 2 under_way, hs)) \<and> sample_jobs (try_rule 0 ''run-2'' 2 under_way) = [(1, 1), (1, 2)] \<and>
   (\<exists>hs. rem_reach local_cfg True (try_rule time_Second ''run-2'' 1 (ended True), hs)) \<and>
   sample_jobs (ended True) = [] \<and> sample_jobs (try_rule time_Second ''run-2'' 1 (ended True)) = [(1, 1)] \<and>
   (\<exists>r. live_row 1 (ended True) = Some r \<and> r_Cooldown r = 300 \<and> cooling time_Second r)"
proof (intro conjI)
  show "\<exists>hs. rem_reach local_cfg True (try_rule 0 ''run-2'' 2 under_way, hs)"
    using reach_try(2) [OF reach_under_way with_rule_loads(2)] by blast
  show "\<exists>hs. rem_reach local_cfg True (try_rule time_Second ''run-2'' 1 (ended True), hs)"
    using rtranclp.rtrancl_into_rtrancl [OF reach_ended [of True]]
      s_rule [of local_cfg True "ended True" "[]" restart_row "[]" "hot 1" "[([], hot 1)]" time_Second "''run-2''" True] by auto
  show "sample_jobs (try_rule 0 ''run-2'' 2 under_way) = [(1, 1), (1, 2)]" "sample_jobs (ended True) = []"
    "sample_jobs (try_rule time_Second ''run-2'' 1 (ended True)) = [(1, 1)]" by code_simp+
  have "(case live_row 1 (ended True) of None \<Rightarrow> False | Some r \<Rightarrow> r_Cooldown r = 300 \<and> cooling time_Second r)" by code_simp
  then show "\<exists>r. live_row 1 (ended True) = Some r \<and> r_Cooldown r = 300 \<and> cooling time_Second r" by (auto split: option.splits)
qed

end
