(* ===== verification/AlertRules.thy ===== *)
theory AlertRules
  imports AlertEvents Remediation LruCache
begin

text \<open>
  Alert rules, \<^verbatim>\<open>pkg/prism/alert\<close>: the environment of \<^verbatim>\<open>env.go\<close>, the extraction of violations of
  \<^verbatim>\<open>violations.go\<close>, the rule engine of \<^verbatim>\<open>engine.go\<close>, the matcher of \<^verbatim>\<open>matcher.go\<close> with its cache of
  assets, the start-up of \<^verbatim>\<open>register.go\<close>, and the kernel of the expression language of \<^verbatim>\<open>pkg/expr\<close>. The
  expression language itself (parser, syntax trees, compiler and virtual machine) is a parameter, as is the coding of
  assets for the cache. Calls are atomic.
\<close>

subsection \<open>The environment of rules\<close>

record 'f AlertEnv =
  ae_Type :: string
  ae_Severity :: string
  ae_Source :: string
  ae_Keyword :: string
  ae_Content :: string
  ae_Metrics :: "string \<rightharpoonup> 'f"
  ae_Asset :: "'f DomainMap"

text \<open>The columns of an asset that rules read; \<open>tags\<close> decodes its metadata.\<close>

record cachedMatcherAsset =
  ma_Name :: string
  ma_Type :: string
  ma_Metadata :: string

definition buildAlertEnv :: "(string \<Rightarrow> string \<rightharpoonup> string) \<Rightarrow> 'f Event \<Rightarrow> cachedMatcherAsset option \<Rightarrow> 'f AlertEnv" where
  "buildAlertEnv tags evt res =
     (let env = \<lparr>ae_Type = evType evt, ae_Severity = [], ae_Source = [], ae_Keyword = [], ae_Content = [], ae_Metrics = Map.empty,
            ae_Asset = [''id'' \<mapsto> DInt (AssetID evt), ''name'' \<mapsto> DString [], ''type'' \<mapsto> DString [], ''tags'' \<mapsto> DTags Map.empty]\<rparr>;
          env = (case primaryViolation evt of
                   None \<Rightarrow> env
                 | Some v \<Rightarrow>
                     let env = env\<lparr>ae_Severity := vSeverity v, ae_Source := vSource v\<rparr>;
                         env = (case Metric v of None \<Rightarrow> env | Some c \<Rightarrow> env\<lparr>ae_Metrics := mc_Metrics c\<rparr>)
                     in (case vLog v of None \<Rightarrow> env | Some c \<Rightarrow> env\<lparr>ae_Keyword := lc_Keyword c, ae_Content := lc_Content c\<rparr>))
      in case res of
           None \<Rightarrow> env
         | Some a \<Rightarrow> env\<lparr>ae_Asset := (ae_Asset env)(''name'' \<mapsto> DString (ma_Name a), ''type'' \<mapsto> DString (ma_Type a),
             ''tags'' \<mapsto> DTags (tags (ma_Metadata a)))\<rparr>)"

definition ExampleEnv :: "'f \<Rightarrow> 'f AlertEnv" where
  "ExampleEnv cpu = \<lparr>ae_Type = ''metric'', ae_Severity = ''critical'', ae_Source = ''10.0.0.1'', ae_Keyword = ''fatal'',
     ae_Content = ''fatal: out of memory'', ae_Metrics = [''cpu'' \<mapsto> cpu],
     ae_Asset = [''id'' \<mapsto> DInt 42, ''name'' \<mapsto> DString ''web-1'', ''type'' \<mapsto> DString ''host'',
       ''tags'' \<mapsto> DTags [''env'' \<mapsto> ''prod'']]\<rparr>"

subsection \<open>The expression language\<close>

text \<open>
  What the code asks of a node of a syntax tree, and of the value of an expression: a value of any of the numeric
  types of Go counts as the floating-point number that it converts to.
\<close>

datatype 'n node_view =
    BinaryNode string 'n 'n | MemberNode 'n 'n | StringNode string | IdentifierNode string | OtherNode

datatype 'f xval = XBool bool | XNumber 'f | XDomain "'f DomainMap" | XOther

text \<open>
  The language as a parameter: \<open>xl_Walk\<close> gives the nodes in the order in which they are visited, \<open>None\<close> when the
  walk panics; \<open>xl_Compile\<close> insists on a Boolean expression, \<open>xl_CompileSub\<close> does not.
\<close>

record ('n, 'p, 'f) expr_lang =
  xl_Parse :: "string \<Rightarrow> 'n option"
  xl_view :: "'n \<Rightarrow> 'n node_view"
  xl_Walk :: "'n \<Rightarrow> 'n list option"
  xl_String :: "'n \<Rightarrow> string"
  xl_Compile :: "string \<Rightarrow> 'p option"
  xl_CompileSub :: "string \<Rightarrow> 'p option"
  xl_Run :: "'p \<Rightarrow> 'f AlertEnv \<Rightarrow> 'f xval option"

definition RunBool :: "('n, 'p, 'f) expr_lang \<Rightarrow> 'p \<Rightarrow> 'f AlertEnv \<Rightarrow> bool option" where
  "RunBool xl p env = (case xl_Run xl p env of Some (XBool b) \<Rightarrow> Some b | _ \<Rightarrow> None)"

text \<open>Static paths; the fuel is the number of nodes of the tree, which bounds the depth of a path.\<close>

fun isStaticPath :: "nat \<Rightarrow> ('n, 'p, 'f) expr_lang \<Rightarrow> 'n \<Rightarrow> bool" where
  "isStaticPath 0 xl n = False"
| "isStaticPath (Suc k) xl n =
     (case xl_view xl n of
        IdentifierNode _ \<Rightarrow> True
      | MemberNode b p \<Rightarrow> (case xl_view xl p of StringNode _ \<Rightarrow> isStaticPath k xl b | _ \<Rightarrow> False)
      | _ \<Rightarrow> False)"

definition known_key :: "('n, 'p, 'f) expr_lang \<Rightarrow> 'f AlertEnv \<Rightarrow> string \<Rightarrow> string \<Rightarrow> bool" where
  "known_key xl sample base k =
     (case xl_CompileSub xl base of
        None \<Rightarrow> True
      | Some p \<Rightarrow> (case xl_Run xl p sample of Some (XDomain d) \<Rightarrow> d k \<noteq> None | _ \<Rightarrow> True))"

definition domainKey_Visit :: "nat \<Rightarrow> ('n, 'p, 'f) expr_lang \<Rightarrow> 'f AlertEnv \<Rightarrow> 'n \<Rightarrow> bool" where
  "domainKey_Visit fuel xl sample n =
     (case xl_view xl n of
        MemberNode b p \<Rightarrow>
          (case xl_view xl p of
             StringNode k \<Rightarrow> if k = [] \<or> \<not> isStaticPath fuel xl b then True else known_key xl sample (xl_String xl b) k
           | _ \<Rightarrow> True)
      | _ \<Rightarrow> True)"

definition checkDomainKeys :: "('n, 'p, 'f) expr_lang \<Rightarrow> 'f AlertEnv \<Rightarrow> string \<Rightarrow> bool" where
  "checkDomainKeys xl sample e =
     (case xl_Parse xl e of
        None \<Rightarrow> True
      | Some n \<Rightarrow> (case xl_Walk xl n of None \<Rightarrow> True | Some ns \<Rightarrow> list_all (domainKey_Visit (length ns) xl sample) ns))"

definition Validate :: "('n, 'p, 'f) expr_lang \<Rightarrow> 'f AlertEnv \<Rightarrow> string \<Rightarrow> bool" where
  "Validate xl sample e =
     (case xl_Compile xl e of
        None \<Rightarrow> False
      | Some p \<Rightarrow> checkDomainKeys xl sample e \<and> xl_Run xl p sample \<noteq> None)"

subsection \<open>Extraction of violations\<close>

record alert_Rule =
  ar_ID :: int
  ar_TenantID :: int
  ar_Name :: string
  ar_Description :: string
  ar_Expression :: string
  ar_Enabled :: bool
  ar_Priority :: int
  ar_GroupID :: "int option"
  ar_Metadata :: "(string \<times> string) list"
  ar_CreatedAt :: gotime
  ar_UpdatedAt :: gotime
  ar_DeletedAt :: "gotime option"

record ('n, 'p) ViolationExtractor =
  astCache :: "string \<rightharpoonup> 'n"
  subPrograms :: "string \<rightharpoonup> 'p"

definition extractor_Reset :: "('n, 'p) ViolationExtractor" where
  "extractor_Reset = \<lparr>astCache = Map.empty, subPrograms = Map.empty\<rparr>"

record 'n comparison =
  cmp_source :: string
  cmp_left :: 'n
  cmp_right :: 'n

definition comparisonOperators :: "string list" where
  "comparisonOperators = [''>'', ''>='', ''<'', ''<='', ''=='', ''!='']"

definition comparison_Visit :: "('n, 'p, 'f) expr_lang \<Rightarrow> 'n \<Rightarrow> 'n comparison option" where
  "comparison_Visit xl n =
     (case xl_view xl n of
        BinaryNode oper l r \<Rightarrow>
          if oper \<in> set comparisonOperators then Some \<lparr>cmp_source = xl_String xl n, cmp_left = l, cmp_right = r\<rparr> else None
      | _ \<Rightarrow> None)"

definition collectComparisons :: "('n, 'p, 'f) expr_lang \<Rightarrow> 'n \<Rightarrow> 'n comparison list" where
  "collectComparisons xl n = (case xl_Walk xl n of None \<Rightarrow> [] | Some ns \<Rightarrow> List.map_filter (comparison_Visit xl) ns)"

text \<open>The recursion follows the conjunctions of the tree; the fuel is again the number of its nodes.\<close>

fun isPureConjunction :: "nat \<Rightarrow> ('n, 'p, 'f) expr_lang \<Rightarrow> 'n \<Rightarrow> bool" where
  "isPureConjunction 0 xl n = False"
| "isPureConjunction (Suc k) xl n =
     (case xl_view xl n of
        BinaryNode oper l r \<Rightarrow>
          if oper \<in> set comparisonOperators then True
          else if oper = ''&&'' then isPureConjunction k xl l \<and> isPureConjunction k xl r
          else False
      | _ \<Rightarrow> False)"

definition tree_size :: "('n, 'p, 'f) expr_lang \<Rightarrow> 'n \<Rightarrow> nat" where
  "tree_size xl n = (case xl_Walk xl n of None \<Rightarrow> 0 | Some ns \<Rightarrow> length ns)"

definition metricsKey :: "('n, 'p, 'f) expr_lang \<Rightarrow> 'n \<Rightarrow> string option" where
  "metricsKey xl n =
     (case xl_view xl n of
        MemberNode b p \<Rightarrow>
          (case (case xl_view xl p of StringNode k \<Rightarrow> Some k | IdentifierNode k \<Rightarrow> Some k | _ \<Rightarrow> None) of
             None \<Rightarrow> None
           | Some k \<Rightarrow>
               if k = [] then None
               else (case xl_view xl b of IdentifierNode r \<Rightarrow> if r = ''metrics'' then Some k else None | _ \<Rightarrow> None))
      | _ \<Rightarrow> None)"

definition extractMetricName :: "('n, 'p, 'f) expr_lang \<Rightarrow> 'n \<Rightarrow> string" where
  "extractMetricName xl n = (case metricsKey xl n of Some k \<Rightarrow> k | None \<Rightarrow> xl_String xl n)"

fun toFloat64 :: "'f xval \<Rightarrow> 'f option" where
  "toFloat64 (XNumber x) = Some x"
| "toFloat64 (XBool _) = None"
| "toFloat64 (XDomain _) = None"
| "toFloat64 XOther = None"

definition parseCached ::
  "('n, 'p, 'f) expr_lang \<Rightarrow> string \<Rightarrow> ('n, 'p) ViolationExtractor \<Rightarrow> 'n option \<times> ('n, 'p) ViolationExtractor" where
  "parseCached xl e x =
     (case astCache x e of
        Some n \<Rightarrow> (Some n, x)
      | None \<Rightarrow>
          (case xl_Parse xl e of
             None \<Rightarrow> (None, x)
           | Some n \<Rightarrow> (Some n, x\<lparr>astCache := (astCache x)(e \<mapsto> n)\<rparr>)))"

definition compileSub ::
  "('n, 'p, 'f) expr_lang \<Rightarrow> string \<Rightarrow> ('n, 'p) ViolationExtractor \<Rightarrow> 'p option \<times> ('n, 'p) ViolationExtractor" where
  "compileSub xl src x =
     (case subPrograms x src of
        Some p \<Rightarrow> (Some p, x)
      | None \<Rightarrow>
          (case xl_CompileSub xl src of
             None \<Rightarrow> (None, x)
           | Some p \<Rightarrow> (Some p, x\<lparr>subPrograms := (subPrograms x)(src \<mapsto> p)\<rparr>)))"

definition evalBool ::
  "('n, 'p, 'f) expr_lang \<Rightarrow> string \<Rightarrow> 'f AlertEnv \<Rightarrow> ('n, 'p) ViolationExtractor \<Rightarrow> bool option \<times> ('n, 'p) ViolationExtractor" where
  "evalBool xl src env x =
     (case compileSub xl src x of
        (None, x) \<Rightarrow> (None, x)
      | (Some p, x) \<Rightarrow> (RunBool xl p env, x))"

definition evalValue ::
  "('n, 'p, 'f) expr_lang \<Rightarrow> 'n \<Rightarrow> 'f AlertEnv \<Rightarrow> ('n, 'p) ViolationExtractor \<Rightarrow> 'f option \<times> ('n, 'p) ViolationExtractor" where
  "evalValue xl n env x =
     (case compileSub xl (xl_String xl n) x of
        (None, x) \<Rightarrow> (None, x)
      | (Some p, x) \<Rightarrow> (Option.bind (xl_Run xl p env) toFloat64, x))"

definition metric_violation :: "('n, 'p, 'f) expr_lang \<Rightarrow> 'n comparison \<Rightarrow> alert_Rule \<Rightarrow> 'f AlertEnv \<Rightarrow> 'f \<Rightarrow> 'f \<Rightarrow> 'f Violation" where
  "metric_violation xl c r env v t =
     \<lparr>Kind = TypeMetric, vRuleID = ar_ID r, vRuleName = ar_Name r, vSeverity = ae_Severity env, vSource = ae_Source env, vMessage = [],
      Metric = Some \<lparr>mc_Name = extractMetricName xl (cmp_left c), mc_Value = v, mc_Threshold = t, mc_Metrics = Map.empty\<rparr>,
      vLog = None, vStatus = None\<rparr>"

definition buildViolation ::
  "('n, 'p, 'f::zero) expr_lang \<Rightarrow> 'n comparison \<Rightarrow> alert_Rule \<Rightarrow> 'f AlertEnv \<Rightarrow> ('n, 'p) ViolationExtractor \<Rightarrow>
   'f Violation \<times> ('n, 'p) ViolationExtractor" where
  "buildViolation xl c r env x =
     (let (v, x) = evalValue xl (cmp_left c) env x; (t, x) = evalValue xl (cmp_right c) env x
      in (metric_violation xl c r env (case v of Some y \<Rightarrow> y | None \<Rightarrow> 0) (case t of Some y \<Rightarrow> y | None \<Rightarrow> 0), x))"

fun fast_path ::
  "('n, 'p, 'f::zero) expr_lang \<Rightarrow> alert_Rule \<Rightarrow> 'f AlertEnv \<Rightarrow> 'n comparison list \<Rightarrow> ('n, 'p) ViolationExtractor \<Rightarrow>
   'f Violation list \<times> ('n, 'p) ViolationExtractor" where
  "fast_path xl r env [] x = ([], x)"
| "fast_path xl r env (c # cs) x =
     (let (v, x) = buildViolation xl c r env x; (vs, x) = fast_path xl r env cs x in (v # vs, x))"

fun slow_path ::
  "('n, 'p, 'f::zero) expr_lang \<Rightarrow> alert_Rule \<Rightarrow> 'f AlertEnv \<Rightarrow> 'n comparison list \<Rightarrow> ('n, 'p) ViolationExtractor \<Rightarrow>
   'f Violation list \<times> ('n, 'p) ViolationExtractor" where
  "slow_path xl r env [] x = ([], x)"
| "slow_path xl r env (c # cs) x =
     (let (b, x) = evalBool xl (cmp_source c) env x
      in if b \<noteq> Some True then slow_path xl r env cs x
         else let (v, x) = buildViolation xl c r env x; (vs, x) = slow_path xl r env cs x in (v # vs, x))"

definition Extract ::
  "('n, 'p, 'f::zero) expr_lang \<Rightarrow> alert_Rule \<Rightarrow> 'f AlertEnv \<Rightarrow> bool \<Rightarrow> ('n, 'p) ViolationExtractor \<Rightarrow>
   'f Violation list \<times> ('n, 'p) ViolationExtractor" where
  "Extract xl r env matched x =
     (case parseCached xl (ar_Expression r) x of
        (None, x) \<Rightarrow> ([], x)
      | (Some n, x) \<Rightarrow>
          let metricFacts = filter (\<lambda>c. metricsKey xl (cmp_left c) \<noteq> None) (collectComparisons xl n)
          in if metricFacts = [] then ([], x)
             else if matched \<and> isPureConjunction (tree_size xl n) xl n then fast_path xl r env metricFacts x
             else slow_path xl r env metricFacts x)"


subsection \<open>The rule engine\<close>

record ('n, 'p) alert_engine =
  en_rules :: "(alert_Rule \<times> 'p) list"
  en_extractor :: "('n, 'p) ViolationExtractor"
  en_looping :: bool

definition NewRuleEngine :: "('n, 'p) alert_engine" where
  "NewRuleEngine = \<lparr>en_rules = [], en_extractor = extractor_Reset, en_looping = False\<rparr>"

definition compileAll :: "('n, 'p, 'f) expr_lang \<Rightarrow> alert_Rule list \<Rightarrow> (alert_Rule \<times> 'p) list" where
  "compileAll xl rules = List.map_filter (\<lambda>r. map_option (Pair r) (xl_Compile xl (ar_Expression r))) rules"

definition Load :: "('n, 'p, 'f) expr_lang \<Rightarrow> alert_Rule list \<Rightarrow> ('n, 'p) alert_engine \<Rightarrow> ('n, 'p) alert_engine" where
  "Load xl rules g = g\<lparr>en_rules := compileAll xl rules, en_extractor := extractor_Reset\<rparr>"

text \<open>\<open>listing\<close> is what the store lists, \<open>None\<close> when it fails.\<close>

definition Reload :: "('n, 'p, 'f) expr_lang \<Rightarrow> alert_Rule list option \<Rightarrow> ('n, 'p) alert_engine \<Rightarrow> bool \<times> ('n, 'p) alert_engine" where
  "Reload xl listing g = (case listing of None \<Rightarrow> (False, g) | Some rules \<Rightarrow> (True, Load xl rules g))"

record MatchedRule =
  mr_ID :: int
  mr_Name :: string

text \<open>The rules that take part in the evaluation of an event of a tenant.\<close>

definition in_scope :: "int \<Rightarrow> alert_Rule \<Rightarrow> bool" where
  "in_scope tenant r \<longleftrightarrow> ar_Enabled r \<and> (ar_TenantID r = 0 \<or> ar_TenantID r = tenant)"

fun evaluate_loop ::
  "('n, 'p, 'f::zero) expr_lang \<Rightarrow> int \<Rightarrow> 'f AlertEnv \<Rightarrow> (alert_Rule \<times> 'p) list \<Rightarrow> ('n, 'p) ViolationExtractor \<Rightarrow>
   MatchedRule list \<times> 'f Violation list \<times> ('n, 'p) ViolationExtractor" where
  "evaluate_loop xl tenant env [] x = ([], [], x)"
| "evaluate_loop xl tenant env ((r, p) # rs) x =
     (if \<not> ar_Enabled r then evaluate_loop xl tenant env rs x
      else if ar_TenantID r \<noteq> 0 \<and> ar_TenantID r \<noteq> tenant then evaluate_loop xl tenant env rs x
      else if RunBool xl p env \<noteq> Some True then evaluate_loop xl tenant env rs x
      else let (vs, x) = Extract xl r env True x;
               (ms, ws, x) = evaluate_loop xl tenant env rs x
           in (\<lparr>mr_ID = ar_ID r, mr_Name = ar_Name r\<rparr> # ms, vs @ ws, x))"

definition Evaluate ::
  "('n, 'p, 'f::zero) expr_lang \<Rightarrow> int \<Rightarrow> 'f AlertEnv \<Rightarrow> ('n, 'p) alert_engine \<Rightarrow>
   MatchedRule list \<times> 'f Violation list \<times> ('n, 'p) alert_engine" where
  "Evaluate xl tenant env g =
     (let (ms, vs, x) = evaluate_loop xl tenant env (en_rules g) (en_extractor g)
      in (ms, vs, g\<lparr>en_extractor := x\<rparr>))"

definition HasRules :: "('n, 'p) alert_engine \<Rightarrow> bool" where
  "HasRules g \<longleftrightarrow> length (en_rules g) > 0"

definition ruleEngine_Stop :: "('n, 'p) alert_engine \<Rightarrow> ('n, 'p) alert_engine" where
  "ruleEngine_Stop g = g\<lparr>en_looping := False\<rparr>"

text \<open>A tick of the reload loop.\<close>

definition reload_tick :: "('n, 'p, 'f) expr_lang \<Rightarrow> alert_Rule list option \<Rightarrow> ('n, 'p) alert_engine \<Rightarrow> ('n, 'p) alert_engine" where
  "reload_tick xl listing g = (if en_looping g then snd (Reload xl listing g) else g)"

subsection \<open>The matcher\<close>

record 'f MatchResult =
  Forward :: bool
  Matched :: "MatchedRule list"
  mrViolations :: "'f Violation list"

text \<open>
  The table of assets and the coding of a cached asset; \<open>cd_assets\<close> is \<open>None\<close> without a table, and gives \<open>None\<close>
  for an asset that it does not find.
\<close>

record 'v asset_coding =
  cd_assets :: "(int \<Rightarrow> cachedMatcherAsset option) option"
  cd_marshal :: "cachedMatcherAsset \<Rightarrow> 'v option"
  cd_unmarshal :: "'v \<Rightarrow> cachedMatcherAsset option"
  cd_tags :: "string \<Rightarrow> string \<rightharpoonup> string"

record ('n, 'p, 'v) AlertMatcher =
  am_engine :: "('n, 'p) alert_engine"
  am_cache :: "'v LRUCache"

definition matcherCacheSize :: int where "matcherCacheSize = 1024"
definition matcherCacheTTL :: duration where "matcherCacheTTL = 5 * time_Minute"

definition NewAlertMatcher :: "(nat \<Rightarrow> 'v lruEntry) \<Rightarrow> ('n, 'p) alert_engine \<Rightarrow> ('n, 'p, 'v) AlertMatcher" where
  "NewAlertMatcher mem g = \<lparr>am_engine = g, am_cache = NewLRU mem matcherCacheSize matcherCacheTTL\<rparr>"

definition loadAsset_miss ::
  "'v asset_coding \<Rightarrow> gotime \<Rightarrow> int \<Rightarrow> (int \<Rightarrow> cachedMatcherAsset option) \<Rightarrow> 'v LRUCache \<Rightarrow>
   cachedMatcherAsset option \<times> 'v LRUCache" where
  "loadAsset_miss cd now i assets c =
     (case assets i of
        None \<Rightarrow> (None, c)
      | Some a \<Rightarrow> (Some a, case cd_marshal cd a of None \<Rightarrow> c | Some raw \<Rightarrow> Set now (FormatInt i) raw c))"

definition loadAsset ::
  "'v asset_coding \<Rightarrow> gotime \<Rightarrow> int \<Rightarrow> 'v LRUCache \<Rightarrow> cachedMatcherAsset option \<times> 'v LRUCache" where
  "loadAsset cd now i c =
     (case cd_assets cd of
        None \<Rightarrow> (None, c)
      | Some assets \<Rightarrow>
          (let (hit, c) = Get now (FormatInt i) c
           in case Option.bind hit (cd_unmarshal cd) of
                Some a \<Rightarrow> (Some a, c)
              | None \<Rightarrow> loadAsset_miss cd now i assets c))"

definition Match ::
  "('n, 'p, 'f::zero) expr_lang \<Rightarrow> 'v asset_coding \<Rightarrow> gotime \<Rightarrow> 'f Event \<Rightarrow> ('n, 'p, 'v) AlertMatcher \<Rightarrow>
   'f MatchResult \<times> ('n, 'p, 'v) AlertMatcher" where
  "Match xl cd now evt a =
     (if \<not> HasRules (am_engine a) then (\<lparr>Forward = True, Matched = [], mrViolations = []\<rparr>, a)
      else let (res, c) = loadAsset cd now (AssetID evt) (am_cache a);
               (ms, vs, g) = Evaluate xl (TenantID evt) (buildAlertEnv (cd_tags cd) evt res) (am_engine a)
           in (\<lparr>Forward = (length ms > 0), Matched = ms, mrViolations = vs\<rparr>, \<lparr>am_engine = g, am_cache = c\<rparr>))"

subsection \<open>Start-up\<close>

record alert_Spec =
  sp_Name :: string
  sp_Expression :: string
  sp_Priority :: int
  sp_Metadata :: "(string \<times> string) list"

text \<open>The listing is \<open>None\<close> without a store, and \<open>Some None\<close> when the store fails to list.\<close>

record alert_Config =
  cf_Store :: "alert_Rule list option option"
  cf_Rules :: "alert_Spec list"
  cf_EvalInterval :: duration

definition IsEnabled :: "alert_Config \<Rightarrow> bool" where
  "IsEnabled cf \<longleftrightarrow> length (cf_Rules cf) > 0 \<or> cf_Store cf \<noteq> None"

definition static_rule :: "nat \<Rightarrow> alert_Spec \<Rightarrow> alert_Rule" where
  "static_rule i sp = \<lparr>ar_ID = - (int i + 1), ar_TenantID = 0, ar_Name = sp_Name sp, ar_Description = [], ar_Expression = sp_Expression sp,
     ar_Enabled = True, ar_Priority = sp_Priority sp, ar_GroupID = None, ar_Metadata = sp_Metadata sp, ar_CreatedAt = zero_time,
     ar_UpdatedAt = zero_time, ar_DeletedAt = None\<rparr>"

definition RegisterRules :: "('n, 'p, 'f) expr_lang \<Rightarrow> alert_Config \<Rightarrow> ('n, 'p) alert_engine option" where
  "RegisterRules xl cf =
     (if \<not> IsEnabled cf then None
      else let g = Load xl (map (\<lambda>(i, sp). static_rule i sp) (enumerate 0 (cf_Rules cf))) NewRuleEngine
           in Some (case cf_Store cf of
                      None \<Rightarrow> g
                    | Some listing \<Rightarrow> (snd (Reload xl listing g))\<lparr>en_looping := (cf_EvalInterval cf > 0)\<rparr>))"

subsection \<open>The caches of the extractor\<close>

text \<open>A table that remembers the results of a partial function: calls cannot tell it from the function.\<close>

locale memo_table =
  fixes tab :: "'s \<Rightarrow> 'k \<rightharpoonup> 'v"
    and call :: "'k \<Rightarrow> 's \<Rightarrow> 'v option \<times> 's"
    and compute :: "'k \<rightharpoonup> 'v"
  assumes hit: "tab s k = Some v \<Longrightarrow> call k s = (Some v, s)"
    and miss: "tab s k = None \<Longrightarrow> compute k = None \<Longrightarrow> call k s = (None, s)"
    and fill: "tab s k = None \<Longrightarrow> compute k = Some v \<Longrightarrow> \<exists>s'. call k s = (Some v, s') \<and> tab s' = (tab s)(k \<mapsto> v)"
begin

lemma call_fst: "tab s \<subseteq>\<^sub>m compute \<Longrightarrow> fst (call k s) = compute k"
  using hit [of s k] miss [of s k] fill [of s k]
  by (cases "tab s k"; cases "compute k") (auto simp: map_le_def dom_def)

lemma call_table: "tab s \<subseteq>\<^sub>m compute \<Longrightarrow> tab (snd (call k s)) \<subseteq>\<^sub>m compute"
  using hit [of s k] miss [of s k] fill [of s k]
  by (cases "tab s k"; cases "compute k") (auto simp: map_le_def dom_def split: if_splits)

end

interpretation parsed: memo_table astCache "parseCached xl" "xl_Parse xl" for xl
  by unfold_locales (auto simp: parseCached_def)

interpretation compiled: memo_table subPrograms "compileSub xl" "xl_CompileSub xl" for xl
  by unfold_locales (auto simp: compileSub_def)

definition ext_ok :: "('n, 'p, 'f) expr_lang \<Rightarrow> ('n, 'p) ViolationExtractor \<Rightarrow> bool" where
  "ext_ok xl x \<longleftrightarrow> astCache x \<subseteq>\<^sub>m xl_Parse xl \<and> subPrograms x \<subseteq>\<^sub>m xl_CompileSub xl"

lemma ext_ok_Reset [simp]: "ext_ok xl extractor_Reset"
  by (simp add: ext_ok_def extractor_Reset_def)

lemma parseCached_other: "subPrograms (snd (parseCached xl e x)) = subPrograms x"
  by (simp add: parseCached_def split: option.splits)

lemma compileSub_other: "astCache (snd (compileSub xl e x)) = astCache x"
  by (simp add: compileSub_def split: option.splits)

lemma parseCached_ok: "ext_ok xl x \<Longrightarrow> fst (parseCached xl e x) = xl_Parse xl e \<and> ext_ok xl (snd (parseCached xl e x))"
  by (simp add: ext_ok_def parsed.call_fst parsed.call_table parseCached_other)

lemma compileSub_ok: "ext_ok xl x \<Longrightarrow> fst (compileSub xl e x) = xl_CompileSub xl e \<and> ext_ok xl (snd (compileSub xl e x))"
  by (simp add: ext_ok_def compiled.call_fst compiled.call_table compileSub_other)

text \<open>What the extractor computes, without its caches.\<close>

definition expr_holds :: "('n, 'p, 'f) expr_lang \<Rightarrow> 'f AlertEnv \<Rightarrow> string \<Rightarrow> bool option" where
  "expr_holds xl env src = Option.bind (xl_CompileSub xl src) (\<lambda>p. RunBool xl p env)"

definition expr_value :: "('n, 'p, 'f::zero) expr_lang \<Rightarrow> 'f AlertEnv \<Rightarrow> 'n \<Rightarrow> 'f" where
  "expr_value xl env n =
     (case Option.bind (xl_CompileSub xl (xl_String xl n)) (\<lambda>p. Option.bind (xl_Run xl p env) toFloat64) of Some y \<Rightarrow> y | None \<Rightarrow> 0)"

definition violation_of :: "('n, 'p, 'f::zero) expr_lang \<Rightarrow> alert_Rule \<Rightarrow> 'f AlertEnv \<Rightarrow> 'n comparison \<Rightarrow> 'f Violation" where
  "violation_of xl r env c = metric_violation xl c r env (expr_value xl env (cmp_left c)) (expr_value xl env (cmp_right c))"

definition metric_facts :: "('n, 'p, 'f) expr_lang \<Rightarrow> 'n \<Rightarrow> 'n comparison list" where
  "metric_facts xl n = filter (\<lambda>c. metricsKey xl (cmp_left c) \<noteq> None) (collectComparisons xl n)"

definition true_facts :: "('n, 'p, 'f) expr_lang \<Rightarrow> 'f AlertEnv \<Rightarrow> 'n \<Rightarrow> 'n comparison list" where
  "true_facts xl env n = filter (\<lambda>c. expr_holds xl env (cmp_source c) = Some True) (metric_facts xl n)"

definition violations_of :: "('n, 'p, 'f::zero) expr_lang \<Rightarrow> alert_Rule \<Rightarrow> 'f AlertEnv \<Rightarrow> bool \<Rightarrow> 'f Violation list" where
  "violations_of xl r env matched =
     (case xl_Parse xl (ar_Expression r) of
        None \<Rightarrow> []
      | Some n \<Rightarrow> map (violation_of xl r env)
          (if matched \<and> isPureConjunction (tree_size xl n) xl n then metric_facts xl n else true_facts xl env n))"

lemma evalBool_ok: "ext_ok xl x \<Longrightarrow> fst (evalBool xl src env x) = expr_holds xl env src \<and> ext_ok xl (snd (evalBool xl src env x))"
  using compileSub_ok [of xl x src] by (cases "xl_CompileSub xl src") (auto simp: evalBool_def expr_holds_def split: prod.splits)

lemma evalValue_ok:
  "ext_ok xl x \<Longrightarrow> (case fst (evalValue xl n env x) of Some y \<Rightarrow> y | None \<Rightarrow> 0) = expr_value xl env n \<and> ext_ok xl (snd (evalValue xl n env x))"
  using compileSub_ok [of xl x "xl_String xl n"]
  by (cases "xl_CompileSub xl (xl_String xl n)") (auto simp: evalValue_def expr_value_def split: prod.splits)

lemma buildViolation_ok:
  assumes "ext_ok xl x"
  shows "fst (buildViolation xl c r env x) = violation_of xl r env c \<and> ext_ok xl (snd (buildViolation xl c r env x))"
  using evalValue_ok [OF assms, of "cmp_left c" env]
    evalValue_ok [of xl "snd (evalValue xl (cmp_left c) env x)" "cmp_right c" env]
  by (simp add: buildViolation_def violation_of_def case_prod_beta Let_def)

lemma fast_path_ok:
  "ext_ok xl x \<Longrightarrow> fst (fast_path xl r env cs x) = map (violation_of xl r env) cs \<and> ext_ok xl (snd (fast_path xl r env cs x))"
  by (induction cs arbitrary: x) (simp_all add: case_prod_beta Let_def buildViolation_ok)

lemma slow_path_ok:
  "ext_ok xl x \<Longrightarrow>
   fst (slow_path xl r env cs x) = map (violation_of xl r env) (filter (\<lambda>c. expr_holds xl env (cmp_source c) = Some True) cs) \<and>
   ext_ok xl (snd (slow_path xl r env cs x))"
  by (induction cs arbitrary: x) (simp_all add: case_prod_beta Let_def buildViolation_ok evalBool_ok)

lemma Extract_ok:
  assumes "ext_ok xl x"
  shows "fst (Extract xl r env matched x) = violations_of xl r env matched \<and> ext_ok xl (snd (Extract xl r env matched x))"
proof -
  let ?e = "ar_Expression r"
  note p = parseCached_ok [OF assms, of ?e]
  obtain n x1 where e: "parseCached xl ?e x = (n, x1)" by (cases "parseCached xl ?e x")
  show ?thesis
  proof (cases n)
    case None
    then show ?thesis using p e by (simp add: Extract_def violations_of_def)
  next
    case (Some t)
    have x1: "ext_ok xl x1" and t: "xl_Parse xl ?e = Some t" using p e Some by simp_all
    have "Extract xl r env matched x =
        (if metric_facts xl t = [] then ([], x1)
         else if matched \<and> isPureConjunction (tree_size xl t) xl t then fast_path xl r env (metric_facts xl t) x1
         else slow_path xl r env (metric_facts xl t) x1)"
      by (simp only: Extract_def e Some metric_facts_def Let_def prod.case option.case)
    then show ?thesis
      using fast_path_ok [OF x1, of r env "metric_facts xl t"] slow_path_ok [OF x1, of r env "metric_facts xl t"] x1 t
      by (simp add: violations_of_def true_facts_def)
  qed
qed

text \<open>Evaluating the loaded rules, without the caches.\<close>

definition rule_true :: "('n, 'p, 'f) expr_lang \<Rightarrow> int \<Rightarrow> 'f AlertEnv \<Rightarrow> alert_Rule \<times> 'p \<Rightarrow> bool" where
  "rule_true xl tenant env rp \<longleftrightarrow> in_scope tenant (fst rp) \<and> RunBool xl (snd rp) env = Some True"

definition rule_identity :: "alert_Rule \<Rightarrow> MatchedRule" where
  "rule_identity r = \<lparr>mr_ID = ar_ID r, mr_Name = ar_Name r\<rparr>"

lemma evaluate_loop_ok:
  assumes "ext_ok xl x"
  shows "case evaluate_loop xl tenant env rs x of (ms, vs, x') \<Rightarrow>
    ms = map (rule_identity \<circ> fst) (filter (rule_true xl tenant env) rs) \<and>
    vs = concat (map (\<lambda>rp. violations_of xl (fst rp) env True) (filter (rule_true xl tenant env) rs)) \<and> ext_ok xl x'"
  using assms
proof (induction xl tenant env rs x rule: evaluate_loop.induct)
  case (2 xl tenant env r p rs x)
  show ?case
  proof (cases "rule_true xl tenant env (r, p)")
    case True
    then have t: "ar_Enabled r" "ar_TenantID r = 0 \<or> ar_TenantID r = tenant" "RunBool xl p env = Some True"
      by (auto simp: rule_true_def in_scope_def)
    obtain vs x1 where e: "Extract xl r env True x = (vs, x1)" by (cases "Extract xl r env True x")
    then have "vs = violations_of xl r env True" "ext_ok xl x1" using Extract_ok [OF "2.prems", of r env True] by simp_all
    moreover have "case evaluate_loop xl tenant env rs x1 of (ms, vs, x') \<Rightarrow>
        ms = map (rule_identity \<circ> fst) (filter (rule_true xl tenant env) rs) \<and>
        vs = concat (map (\<lambda>rp. violations_of xl (fst rp) env True) (filter (rule_true xl tenant env) rs)) \<and> ext_ok xl x'"
      using "2.IH"(4) [of "(vs, x1)" vs x1] t e calculation(2) by auto
    ultimately show ?thesis using t True by (auto simp: e rule_identity_def split: prod.splits)
  next
    case False
    then show ?thesis
      using "2.IH"(1-3) "2.prems" by (auto simp: rule_true_def in_scope_def)
  qed
qed simp

lemma Evaluate_ok:
  assumes "ext_ok xl (en_extractor g)"
  shows "case Evaluate xl tenant env g of (ms, vs, g') \<Rightarrow>
    ms = map (rule_identity \<circ> fst) (filter (rule_true xl tenant env) (en_rules g)) \<and>
    vs = concat (map (\<lambda>rp. violations_of xl (fst rp) env True) (filter (rule_true xl tenant env) (en_rules g))) \<and>
    en_rules g' = en_rules g \<and> ext_ok xl (en_extractor g')"
  using evaluate_loop_ok [OF assms, of tenant env "en_rules g"]
  by (auto simp: Evaluate_def Let_def split: prod.splits)


subsection \<open>The shortcut for conjunctions\<close>

text \<open>
  What the shortcut relies on: a walk visits the operands of a binary node before the node, and the text of a
  node evaluates as the node does, conjunctions to true only when both operands do.
\<close>

definition walk_documented :: "('n, 'p, 'f) expr_lang \<Rightarrow> bool" where
  "walk_documented xl \<longleftrightarrow> (\<forall>n ns. xl_Walk xl n = Some ns \<longrightarrow> n \<in> set ns \<and>
     (\<forall>oper l r. xl_view xl n = BinaryNode oper l r \<longrightarrow>
        (\<exists>ls rs. xl_Walk xl l = Some ls \<and> xl_Walk xl r = Some rs \<and> ns = ls @ rs @ [n])))"

definition conj_documented :: "('n, 'p, 'f) expr_lang \<Rightarrow> 'f AlertEnv \<Rightarrow> 'n list \<Rightarrow> bool" where
  "conj_documented xl env ns \<longleftrightarrow> (\<forall>n\<in>set ns. \<forall>l r. xl_view xl n = BinaryNode ''&&'' l r \<longrightarrow>
     expr_holds xl env (xl_String xl n) = Some True \<longrightarrow>
     expr_holds xl env (xl_String xl l) = Some True \<and> expr_holds xl env (xl_String xl r) = Some True)"

definition text_documented :: "('n, 'p, 'f) expr_lang \<Rightarrow> 'f AlertEnv \<Rightarrow> string \<Rightarrow> bool" where
  "text_documented xl env e \<longleftrightarrow> (\<forall>n p. xl_Parse xl e = Some n \<longrightarrow> xl_Compile xl e = Some p \<longrightarrow>
     RunBool xl p env = Some True \<longrightarrow> expr_holds xl env (xl_String xl n) = Some True)"

text \<open>No comparison of metrics inside an operand of a comparison.\<close>

definition no_nested :: "('n, 'p, 'f) expr_lang \<Rightarrow> 'n list \<Rightarrow> bool" where
  "no_nested xl ns \<longleftrightarrow> (\<forall>n\<in>set ns. case xl_view xl n of
     BinaryNode oper l r \<Rightarrow> oper \<in> set comparisonOperators \<longrightarrow> metric_facts xl l = [] \<and> metric_facts xl r = []
   | _ \<Rightarrow> True)"

lemma documented_append [simp]:
  "conj_documented xl env (ms @ ns) \<longleftrightarrow> conj_documented xl env ms \<and> conj_documented xl env ns"
  "no_nested xl (ms @ ns) \<longleftrightarrow> no_nested xl ms \<and> no_nested xl ns"
  by (auto simp: conj_documented_def no_nested_def)

lemma walk_binary:
  assumes "walk_documented xl" "xl_view xl n = BinaryNode oper l r" "xl_Walk xl n = Some ns"
  obtains ls rs where "xl_Walk xl l = Some ls" "xl_Walk xl r = Some rs" "ns = ls @ rs @ [n]"
  using assms unfolding walk_documented_def by metis

lemma map_filter_append: "List.map_filter f (xs @ ys) = List.map_filter f xs @ List.map_filter f ys"
  by (simp add: List.map_filter_def)

lemma metric_facts_binary:
  assumes "walk_documented xl" "xl_view xl n = BinaryNode oper l r" "xl_Walk xl n = Some ns"
  shows "metric_facts xl n = metric_facts xl l @ metric_facts xl r @
    (if oper \<in> set comparisonOperators \<and> metricsKey xl l \<noteq> None then [\<lparr>cmp_source = xl_String xl n, cmp_left = l, cmp_right = r\<rparr>] else [])"
proof -
  obtain ls rs where w: "xl_Walk xl l = Some ls" "xl_Walk xl r = Some rs" "ns = ls @ rs @ [n]"
    by (rule walk_binary [OF assms])
  have "List.map_filter (comparison_Visit xl) [n] =
      (if oper \<in> set comparisonOperators then [\<lparr>cmp_source = xl_String xl n, cmp_left = l, cmp_right = r\<rparr>] else [])"
    by (simp add: comparison_Visit_def List.map_filter_simps assms(2))
  then show ?thesis
    using assms(3) w by (simp add: metric_facts_def collectComparisons_def map_filter_append)
qed

lemma pure_facts_true:
  assumes "walk_documented xl"
  shows "isPureConjunction k xl n \<Longrightarrow> expr_holds xl env (xl_String xl n) = Some True \<Longrightarrow> xl_Walk xl n = Some ns \<Longrightarrow>
    conj_documented xl env ns \<Longrightarrow> no_nested xl ns \<Longrightarrow> true_facts xl env n = metric_facts xl n"
proof (induction k arbitrary: n ns)
  case (Suc k)
  from Suc.prems(1) obtain oper l r where v: "xl_view xl n = BinaryNode oper l r"
    by (auto split: node_view.splits)
  obtain ls rs where w: "xl_Walk xl l = Some ls" "xl_Walk xl r = Some rs" "ns = ls @ rs @ [n]"
    by (rule walk_binary [OF assms v Suc.prems(3)])
  note facts = metric_facts_binary [OF assms v Suc.prems(3)]
  show ?case
  proof (cases "oper \<in> set comparisonOperators")
    case True
    then have "metric_facts xl l = []" "metric_facts xl r = []" using Suc.prems(5) v w(3) by (auto simp: no_nested_def)
    then show ?thesis using Suc.prems(2) by (simp add: true_facts_def facts)
  next
    case False
    then have op: "oper = ''&&''" "isPureConjunction k xl l" "isPureConjunction k xl r"
      using Suc.prems(1) v by (auto split: if_splits)
    then have "expr_holds xl env (xl_String xl l) = Some True" "expr_holds xl env (xl_String xl r) = Some True"
      using Suc.prems(2,4) v w(3) by (auto simp: conj_documented_def)
    then have "true_facts xl env l = metric_facts xl l" "true_facts xl env r = metric_facts xl r"
      using Suc.IH [OF op(2) _ w(1)] Suc.IH [OF op(3) _ w(2)] Suc.prems(4,5) w(3) by simp_all
    then show ?thesis using False by (simp add: true_facts_def facts)
  qed
qed simp

text \<open>The states that the engine can be in.\<close>

inductive alert_reach :: "('n, 'p, 'f::zero) expr_lang \<Rightarrow> ('n, 'p) alert_engine \<Rightarrow> bool" for xl where
  reach_new: "alert_reach xl NewRuleEngine"
| reach_load: "alert_reach xl g \<Longrightarrow> alert_reach xl (Load xl rules g)"
| reach_evaluate: "alert_reach xl g \<Longrightarrow> Evaluate xl tenant env g = (ms, vs, g') \<Longrightarrow> alert_reach xl g'"
| reach_stop: "alert_reach xl g \<Longrightarrow> alert_reach xl (g\<lparr>en_looping := b\<rparr>)"

lemma alert_reach_ok: "alert_reach xl g \<Longrightarrow> ext_ok xl (en_extractor g)"
proof (induction rule: alert_reach.induct)
  case (reach_evaluate g tenant env ms vs g')
  then show ?case using Evaluate_ok [of xl g tenant env] by simp
qed (simp_all add: NewRuleEngine_def Load_def)

text \<open>C38. A rule that has matched: the extractor reports exactly the comparisons of metrics in it that hold. The
  shortcut for conjunctions gives the result of evaluating every comparison, in any state of the caches, as long as
  no comparison of metrics is nested in another comparison.\<close>

theorem extract_exact:
  assumes "alert_reach xl g" "walk_documented xl" "text_documented xl env (ar_Expression r)"
    "xl_Parse xl (ar_Expression r) = Some n" "xl_Walk xl n = Some ns" "conj_documented xl env ns" "no_nested xl ns"
    "xl_Compile xl (ar_Expression r) = Some p" "RunBool xl p env = Some True"
  shows "fst (Extract xl r env True (en_extractor g)) = map (violation_of xl r env) (true_facts xl env n) \<and>
    fst (Extract xl r env True (en_extractor g)) = fst (Extract xl r env False (en_extractor g))"
proof -
  note x = Extract_ok [OF alert_reach_ok [OF assms(1)], of r env]
  have "expr_holds xl env (xl_String xl n) = Some True" using assms(3,4,8,9) by (simp add: text_documented_def)
  then have "isPureConjunction (tree_size xl n) xl n \<Longrightarrow> metric_facts xl n = true_facts xl env n"
    using pure_facts_true [OF assms(2) _ _ assms(5-7)] by metis
  then show ?thesis using assms(4) by (simp add: x violations_of_def)
qed


text \<open>A fragment of the language: metrics, whole numbers and binary operators, for given expressions.\<close>

datatype tiny = TMetrics | TKey string | TMetric string | TNum int | TBin string tiny tiny

fun tiny_view :: "tiny \<Rightarrow> tiny node_view" where
  "tiny_view TMetrics = IdentifierNode ''metrics''"
| "tiny_view (TKey k) = StringNode k"
| "tiny_view (TMetric k) = MemberNode TMetrics (TKey k)"
| "tiny_view (TNum i) = OtherNode"
| "tiny_view (TBin oper l r) = BinaryNode oper l r"

fun tiny_walk :: "tiny \<Rightarrow> tiny list" where
  "tiny_walk (TMetric k) = [TMetrics, TKey k, TMetric k]"
| "tiny_walk (TBin oper l r) = tiny_walk l @ tiny_walk r @ [TBin oper l r]"
| "tiny_walk n = [n]"

fun tiny_text :: "tiny \<Rightarrow> string" where
  "tiny_text TMetrics = ''metrics''"
| "tiny_text (TKey k) = CHR 0x22 # k @ [CHR 0x22]"
| "tiny_text (TMetric k) = ''metrics.'' @ k"
| "tiny_text (TNum i) = FormatInt i"
| "tiny_text (TBin oper l r) = ''('' @ tiny_text l @ '' '' @ oper @ '' '' @ tiny_text r @ '')''"

fun tiny_apply :: "string \<Rightarrow> int xval option \<Rightarrow> int xval option \<Rightarrow> int xval option" where
  "tiny_apply oper (Some (XNumber a)) (Some (XNumber b)) =
     (if oper = ''>'' then Some (XBool (a > b)) else if oper = ''=='' then Some (XBool (a = b)) else None)"
| "tiny_apply oper (Some (XBool a)) (Some (XBool b)) =
     (if oper = ''&&'' then Some (XBool (a \<and> b)) else if oper = ''!='' then Some (XBool (a \<noteq> b)) else None)"
| "tiny_apply oper _ _ = None"

fun tiny_eval :: "int AlertEnv \<Rightarrow> tiny \<Rightarrow> int xval option" where
  "tiny_eval env (TMetric k) = Some (case ae_Metrics env k of Some v \<Rightarrow> XNumber v | None \<Rightarrow> XOther)"
| "tiny_eval env (TNum i) = Some (XNumber i)"
| "tiny_eval env (TBin oper l r) = tiny_apply oper (tiny_eval env l) (tiny_eval env r)"
| "tiny_eval env _ = None"

definition tiny_lang :: "tiny list \<Rightarrow> (tiny, tiny, int) expr_lang" where
  "tiny_lang es = \<lparr>xl_Parse = (\<lambda>t. find (\<lambda>n. tiny_text n = t) es), xl_view = tiny_view, xl_Walk = (\<lambda>n. Some (tiny_walk n)),
     xl_String = tiny_text, xl_Compile = (\<lambda>t. find (\<lambda>n. tiny_text n = t) es),
     xl_CompileSub = (\<lambda>t. find (\<lambda>n. tiny_text n = t) (concat (map tiny_walk es))), xl_Run = (\<lambda>p env. tiny_eval env p)\<rparr>"

lemma tiny_walk_documented: "walk_documented (tiny_lang es)"
proof -
  have "n \<in> set (tiny_walk n)" for n by (cases n) simp_all
  moreover have "tiny_walk n = tiny_walk l @ tiny_walk r @ [n]" if "tiny_view n = BinaryNode oper l r" for n oper l r
    using that by (cases n) simp_all
  ultimately show ?thesis by (auto simp: walk_documented_def tiny_lang_def)
qed

definition cpu_high :: tiny where "cpu_high = TBin ''>'' (TMetric ''cpu'') (TNum 90)"
definition mem_high :: tiny where "mem_high = TBin ''>'' (TMetric ''mem'') (TNum 85)"

definition both_high :: tiny where "both_high = TBin ''&&'' cpu_high mem_high"
definition one_high :: tiny where "one_high = TBin ''!='' cpu_high mem_high"

definition demo_rule :: "int \<Rightarrow> tiny \<Rightarrow> alert_Rule" where
  "demo_rule i n = \<lparr>ar_ID = i, ar_TenantID = 0, ar_Name = ''load'', ar_Description = [], ar_Expression = tiny_text n, ar_Enabled = True,
     ar_Priority = 0, ar_GroupID = None, ar_Metadata = [], ar_CreatedAt = zero_time, ar_UpdatedAt = zero_time, ar_DeletedAt = None\<rparr>"

definition demo_env :: "int \<Rightarrow> int \<Rightarrow> int AlertEnv" where
  "demo_env cpu mem = (ExampleEnv cpu)\<lparr>ae_Metrics := [''cpu'' \<mapsto> cpu, ''mem'' \<mapsto> mem]\<rparr>"

definition metric_names :: "int Violation list \<Rightarrow> (string \<times> int \<times> int) list" where
  "metric_names vs = map (\<lambda>v. case Metric v of Some c \<Rightarrow> (mc_Name c, mc_Value c, mc_Threshold c) | None \<Rightarrow> ([], 0, 0)) vs"

lemma tiny_texts [simp]:
  "tiny_text cpu_high = ''(metrics.cpu > 90)''" "tiny_text mem_high = ''(metrics.mem > 85)''"
  "tiny_text both_high = ''((metrics.cpu > 90) && (metrics.mem > 85))''"
  "tiny_text one_high = ''((metrics.cpu > 90) != (metrics.mem > 85))''"
  by code_simp+

theorem extract_exact_witness:
  "metric_names (fst (Extract (tiny_lang [both_high]) (demo_rule 7 both_high) (demo_env 95 88) True (en_extractor NewRuleEngine))) =
     [(''cpu'', 95, 90), (''mem'', 88, 85)]"
proof -
  let ?xl = "tiny_lang [both_high]" and ?env = "demo_env 95 88" and ?r = "demo_rule 7 both_high"
  have p: "xl_Parse ?xl (ar_Expression ?r) = Some both_high" "xl_Compile ?xl (ar_Expression ?r) = Some both_high"
    "RunBool ?xl both_high ?env = Some True" by code_simp+
  have holds: "expr_holds ?xl ?env (tiny_text n) = Some True" if "n \<in> {both_high, cpu_high, mem_high}" for n
    using that by (elim insertE) (simp_all only: empty_iff, code_simp+)
  have w: "xl_Walk ?xl both_high = Some (tiny_walk cpu_high @ tiny_walk mem_high @ [both_high])"
    by (simp add: tiny_lang_def both_high_def)
  have v: "xl_view ?xl = tiny_view" "xl_String ?xl = tiny_text" by (simp_all add: tiny_lang_def)
  have "l = cpu_high \<and> r = mem_high"
    if "n \<in> set (tiny_walk cpu_high @ tiny_walk mem_high @ [both_high])" "tiny_view n = BinaryNode ''&&'' l r" for n l r
    using that by (auto simp: cpu_high_def mem_high_def both_high_def)
  with holds [of cpu_high] holds [of mem_high] have "conj_documented ?xl ?env (tiny_walk cpu_high @ tiny_walk mem_high @ [both_high])"
    unfolding conj_documented_def v by blast
  moreover have "no_nested ?xl (tiny_walk cpu_high @ tiny_walk mem_high @ [both_high])"
    by code_simp
  moreover have "text_documented ?xl ?env (ar_Expression ?r)"
    using holds [of both_high] p by (simp add: text_documented_def v)
  ultimately have "fst (Extract ?xl ?r ?env True (en_extractor NewRuleEngine)) = map (violation_of ?xl ?r ?env) (true_facts ?xl ?env both_high)"
    using extract_exact [OF reach_new tiny_walk_documented _ p(1) w _ _ p(2,3)] by blast
  moreover have "metric_names (map (violation_of ?xl ?r ?env) (true_facts ?xl ?env both_high)) = [(''cpu'', 95, 90), (''mem'', 88, 85)]"
    by code_simp
  ultimately show ?thesis by simp
qed

text \<open>A rule that compares two comparisons, here that exactly one of two metrics is too high: it matches, and the
  extractor reports both, although only one comparison holds. The evaluation of every comparison, which the shortcut
  skips, would have reported that one alone.\<close>

theorem nested_comparison_reported:
  "RunBool (tiny_lang [one_high]) one_high (demo_env 95 40) = Some True \<and>
   metric_names (fst (Extract (tiny_lang [one_high]) (demo_rule 7 one_high) (demo_env 95 40) True extractor_Reset)) =
     [(''cpu'', 95, 90), (''mem'', 40, 85)] \<and>
   metric_names (fst (Extract (tiny_lang [one_high]) (demo_rule 7 one_high) (demo_env 95 40) False extractor_Reset)) =
     [(''cpu'', 95, 90)]"
proof (intro conjI)
  show "RunBool (tiny_lang [one_high]) one_high (demo_env 95 40) = Some True" by code_simp
  show "metric_names (fst (Extract (tiny_lang [one_high]) (demo_rule 7 one_high) (demo_env 95 40) True extractor_Reset)) =
     [(''cpu'', 95, 90), (''mem'', 40, 85)]" by code_simp
  show "metric_names (fst (Extract (tiny_lang [one_high]) (demo_rule 7 one_high) (demo_env 95 40) False extractor_Reset)) =
     [(''cpu'', 95, 90)]" by code_simp
qed


subsection \<open>The decision of the matcher\<close>

lemma Match_core:
  assumes "alert_reach xl (am_engine a)" "Match xl cd now evt a = (res, a')"
    "env = buildAlertEnv (cd_tags cd) evt (fst (loadAsset cd now (AssetID evt) (am_cache a)))"
    "true_rules = filter (rule_true xl (TenantID evt) env) (en_rules (am_engine a))"
  shows "(Forward res \<longleftrightarrow> en_rules (am_engine a) = [] \<or> true_rules \<noteq> []) \<and>
    Matched res = map (rule_identity \<circ> fst) true_rules \<and>
    mrViolations res = concat (map (\<lambda>rp. violations_of xl (fst rp) env True) true_rules) \<and>
    en_rules (am_engine a') = en_rules (am_engine a)"
proof -
  obtain ms vs g where e: "Evaluate xl (TenantID evt) env (am_engine a) = (ms, vs, g)" by (metis prod_cases3)
  have m: "(res, a') = (if en_rules (am_engine a) = [] then (\<lparr>Forward = True, Matched = [], mrViolations = []\<rparr>, a)
      else (\<lparr>Forward = (ms \<noteq> []), Matched = ms, mrViolations = vs\<rparr>,
        \<lparr>am_engine = g, am_cache = snd (loadAsset cd now (AssetID evt) (am_cache a))\<rparr>))"
    using assms(2) e assms(3) by (auto simp: Match_def HasRules_def Let_def case_prod_beta)
  have "ms = map (rule_identity \<circ> fst) true_rules" "vs = concat (map (\<lambda>rp. violations_of xl (fst rp) env True) true_rules)"
    "en_rules g = en_rules (am_engine a)"
    using Evaluate_ok [OF alert_reach_ok [OF assms(1)], of "TenantID evt" env] by (simp_all add: e assms(4))
  then show ?thesis using m assms(4) by (auto split: if_splits)
qed

text \<open>
  The matcher forwards an event exactly when no rule is loaded or some rule is true of it: an enabled rule of the
  event's tenant or of all tenants whose expression evaluates to true in the environment of the event. It names
  exactly the true rules, in their order; a rule that fails to evaluate counts as false and affects no other.\<close>

theorem Match_decides:
  assumes "alert_reach xl (am_engine a)" "Match xl cd now evt a = (res, a')"
    "env = buildAlertEnv (cd_tags cd) evt (fst (loadAsset cd now (AssetID evt) (am_cache a)))"
    "true_rules = filter (rule_true xl (TenantID evt) env) (en_rules (am_engine a))"
  shows "(Forward res \<longleftrightarrow> en_rules (am_engine a) = [] \<or> true_rules \<noteq> []) \<and>
    Matched res = map (rule_identity \<circ> fst) true_rules \<and>
    mrViolations res = concat (map (\<lambda>rp. violations_of xl (fst rp) env True) true_rules) \<and>
    en_rules (am_engine a') = en_rules (am_engine a)"
  by (rule Match_core [OF assms])

definition no_assets :: "unit asset_coding" where
  "no_assets = \<lparr>cd_assets = None, cd_marshal = (\<lambda>_. None), cd_unmarshal = (\<lambda>_. None), cd_tags = (\<lambda>_. Map.empty)\<rparr>"

definition demo_event :: "int \<Rightarrow> int Event" where
  "demo_event cpu = zero_Event\<lparr>evType := TypeMetric, AssetID := 3, Violations :=
     [zero_Violation\<lparr>Kind := TypeMetric, vSeverity := ''warning'',
        Metric := Some \<lparr>mc_Name = ''cpu'', mc_Value = cpu, mc_Threshold = 80, mc_Metrics = [''cpu'' \<mapsto> cpu]\<rparr>\<rparr>]\<rparr>"

definition demo_matcher :: "(tiny, tiny, unit) AlertMatcher" where
  "demo_matcher = NewAlertMatcher (\<lambda>_. \<lparr>ekey = [], evalue = (), expireAt = 0\<rparr>) (Load (tiny_lang [cpu_high]) [demo_rule 7 cpu_high] NewRuleEngine)"

theorem Match_decides_witness:
  "Forward (fst (Match (tiny_lang [cpu_high]) no_assets 100 (demo_event 95) demo_matcher)) \<and>
   \<not> Forward (fst (Match (tiny_lang [cpu_high]) no_assets 100 (demo_event 85) demo_matcher))"
proof -
  let ?xl = "tiny_lang [cpu_high]"
  have r: "alert_reach ?xl (am_engine demo_matcher)"
    by (simp add: demo_matcher_def NewAlertMatcher_def reach_load reach_new)
  note d = Match_decides [OF r surjective_pairing refl refl, of no_assets 100]
  have "filter (rule_true ?xl (TenantID (demo_event cpu))
      (buildAlertEnv (cd_tags no_assets) (demo_event cpu) (fst (loadAsset no_assets 100 (AssetID (demo_event cpu)) (am_cache demo_matcher)))))
      (en_rules (am_engine demo_matcher)) = (if cpu > 90 then [(demo_rule 7 cpu_high, cpu_high)] else [])" for cpu
  proof -
    have en: "en_rules (am_engine demo_matcher) = [(demo_rule 7 cpu_high, cpu_high)]" by code_simp
    have "ae_Metrics (buildAlertEnv (cd_tags no_assets) (demo_event cpu) x) ''cpu'' = Some cpu" for x
      by (simp add: buildAlertEnv_def demo_event_def primaryViolation_def Let_def split: option.splits)
    then show ?thesis
      by (simp add: en rule_true_def in_scope_def demo_rule_def RunBool_def tiny_lang_def cpu_high_def del: tiny_texts)
  qed
  note f = this
  show ?thesis using d [of "demo_event 95"] d [of "demo_event 85"]
    by (simp add: f) (simp add: demo_matcher_def NewAlertMatcher_def Load_def compileAll_def List.map_filter_simps tiny_lang_def demo_rule_def)
qed

end
