(* ===== verification/AlertStore.thy ===== *)
theory AlertStore
  imports AlertRules
begin

text \<open>
  The tables of alert rules and alert records of \<^verbatim>\<open>pkg/prism/alert/store.go\<close>, the conversion of violations to
  records of \<^verbatim>\<open>record.go\<close>, and the alert service of \<^verbatim>\<open>service.go\<close> with the reload of the rule engine. Rules
  are deleted softly; a statement may fail, and batches of records are written without a transaction around them.
\<close>

subsection \<open>The tables\<close>

definition StatusFiring :: string where "StatusFiring = ''firing''"
definition StatusAcknowledged :: string where "StatusAcknowledged = ''acknowledged''"
definition StatusResolved :: string where "StatusResolved = ''resolved''"

record 'f alert_Record =
  ac_ID :: int
  ac_RuleID :: int
  ac_RuleName :: string
  ac_Severity :: string
  ac_Value :: 'f
  ac_Message :: string
  ac_EventID :: string
  ac_Status :: string
  ac_TriggeredAt :: gotime
  ac_AcknowledgedAt :: "gotime option"
  ac_ResolvedAt :: "gotime option"
  ac_CreatedAt :: gotime

text \<open>Both tables in the order of their identifiers, and the last identifier that each has assigned.\<close>

record 'f alert_db =
  db_rules :: "alert_Rule list"
  db_lastRule :: int
  db_records :: "'f alert_Record list"
  db_lastRecord :: int

definition empty_alert_db :: "'f alert_db" where
  "empty_alert_db = \<lparr>db_rules = [], db_lastRule = 0, db_records = [], db_lastRecord = 0\<rparr>"

datatype store_error = ErrRuleNotFound | ErrRuleCompileFailed | ErrNotFound | ErrDatabase | ErrNilModel

text \<open>Rules that are not deleted. \<open>fails\<close> says that the statement fails.\<close>

definition live_rules :: "'f alert_db \<Rightarrow> alert_Rule list" where
  "live_rules d = filter (\<lambda>r. ar_DeletedAt r = None) (db_rules d)"

definition rules_Create ::
  "(string \<Rightarrow> bool) \<Rightarrow> bool \<Rightarrow> gotime \<Rightarrow> alert_Rule \<Rightarrow> 'f alert_db \<Rightarrow> (store_error + alert_Rule) \<times> 'f alert_db" where
  "rules_Create valid fails now r d =
     (if \<not> valid (ar_Expression r) then (Inl ErrRuleCompileFailed, d)
      else if fails \<or> ar_ID r \<noteq> 0 \<and> ar_ID r \<in> ar_ID ` set (db_rules d) then (Inl ErrDatabase, d)
      else let i = (if ar_ID r = 0 then db_lastRule d + 1 else ar_ID r);
               row = r\<lparr>ar_ID := i, ar_CreatedAt := (if ar_CreatedAt r = zero_time then now else ar_CreatedAt r),
                       ar_UpdatedAt := (if ar_UpdatedAt r = zero_time then now else ar_UpdatedAt r)\<rparr>
           in (Inr row, d\<lparr>db_rules := db_rules d @ [row], db_lastRule := max (db_lastRule d) i\<rparr>))"

definition rule_columns :: "gotime \<Rightarrow> alert_Rule \<Rightarrow> alert_Rule \<Rightarrow> alert_Rule" where
  "rule_columns now r old = old\<lparr>ar_Name := ar_Name r, ar_Description := ar_Description r, ar_Expression := ar_Expression r,
     ar_Enabled := ar_Enabled r, ar_Priority := ar_Priority r, ar_GroupID := ar_GroupID r, ar_Metadata := ar_Metadata r, ar_UpdatedAt := now\<rparr>"

definition rules_change :: "int \<Rightarrow> (alert_Rule \<Rightarrow> alert_Rule) \<Rightarrow> 'f alert_db \<Rightarrow> bool \<times> 'f alert_db" where
  "rules_change i f d =
     (list_ex (\<lambda>r. ar_ID r = i \<and> ar_DeletedAt r = None) (db_rules d),
      d\<lparr>db_rules := map (\<lambda>r. if ar_ID r = i \<and> ar_DeletedAt r = None then f r else r) (db_rules d)\<rparr>)"

definition rules_Update ::
  "(string \<Rightarrow> bool) \<Rightarrow> bool \<Rightarrow> gotime \<Rightarrow> alert_Rule \<Rightarrow> 'f alert_db \<Rightarrow> store_error option \<times> 'f alert_db" where
  "rules_Update valid fails now r d =
     (if \<not> valid (ar_Expression r) then (Some ErrRuleCompileFailed, d)
      else if fails then (Some ErrDatabase, d)
      else let (hit, d') = rules_change (ar_ID r) (rule_columns now r) d
           in (if hit then None else Some ErrRuleNotFound, d'))"

definition rules_DeleteByID :: "bool \<Rightarrow> gotime \<Rightarrow> int \<Rightarrow> 'f alert_db \<Rightarrow> store_error option \<times> 'f alert_db" where
  "rules_DeleteByID fails now i d =
     (if fails then (Some ErrDatabase, d)
      else let (hit, d') = rules_change i (\<lambda>r. r\<lparr>ar_DeletedAt := Some now\<rparr>) d
           in (if hit then None else Some ErrRuleNotFound, d'))"

definition rules_GetByID :: "bool \<Rightarrow> int \<Rightarrow> 'f alert_db \<Rightarrow> store_error + alert_Rule" where
  "rules_GetByID fails i d =
     (if fails then Inl ErrDatabase
      else case find (\<lambda>r. ar_ID r = i) (live_rules d) of None \<Rightarrow> Inl ErrRuleNotFound | Some r \<Rightarrow> Inr r)"

definition ListEnabled :: "bool \<Rightarrow> int \<Rightarrow> 'f alert_db \<Rightarrow> alert_Rule list option" where
  "ListEnabled fails tenant d =
     (if fails then None
      else Some (sort_key (\<lambda>r. - ar_Priority r) (sort_key ar_ID
             (filter (\<lambda>r. ar_Enabled r \<and> (tenant > 0 \<longrightarrow> ar_TenantID r = tenant)) (live_rules d)))))"

definition rules_List :: "bool \<Rightarrow> int \<Rightarrow> int \<Rightarrow> 'f alert_db \<Rightarrow> store_error + alert_Rule list \<times> int" where
  "rules_List fails page n d =
     (if fails then Inl ErrDatabase
      else let (page, n) = Clamp page n; rows = live_rules d
           in Inr (page_of page n (rev (sort_key ar_ID rows)), int (length rows)))"

text \<open>Inserting records: identifiers are assigned in order, an empty severity or status gets its default.\<close>

definition record_row :: "gotime \<Rightarrow> int \<Rightarrow> 'f alert_Record \<Rightarrow> 'f alert_Record" where
  "record_row now i m = m\<lparr>ac_ID := i, ac_Severity := (if ac_Severity m = [] then ''warning'' else ac_Severity m),
     ac_Status := (if ac_Status m = [] then StatusFiring else ac_Status m),
     ac_CreatedAt := (if ac_CreatedAt m = zero_time then now else ac_CreatedAt m)\<rparr>"

fun insert_records :: "gotime \<Rightarrow> 'f alert_Record list \<Rightarrow> 'f alert_db \<Rightarrow> 'f alert_Record list \<times> 'f alert_db" where
  "insert_records now [] d = ([], d)"
| "insert_records now (m # ms) d =
     (let row = record_row now (db_lastRecord d + 1) m;
          (rows, d) = insert_records now ms (d\<lparr>db_records := db_records d @ [row], db_lastRecord := db_lastRecord d + 1\<rparr>)
      in (row # rows, d))"

definition records_Create ::
  "bool \<Rightarrow> gotime \<Rightarrow> 'f alert_Record option \<Rightarrow> 'f alert_db \<Rightarrow> (store_error + 'f alert_Record) \<times> 'f alert_db" where
  "records_Create fails now mo d =
     (case mo of
        None \<Rightarrow> (Inl ErrNilModel, d)
      | Some m \<Rightarrow>
          if fails then (Inl ErrDatabase, d)
          else let (rows, d) = insert_records now [m] d in (Inr (hd rows), d))"

text \<open>Batches of a hundred, without a transaction around them: \<open>faults\<close> says which batches fail.\<close>

fun insert_batches ::
  "bool list \<Rightarrow> gotime \<Rightarrow> 'f alert_Record list list \<Rightarrow> 'f alert_db \<Rightarrow> 'f alert_Record list option \<times> 'f alert_db" where
  "insert_batches faults now [] d = (Some [], d)"
| "insert_batches faults now (b # bs) d =
     (if faults \<noteq> [] \<and> hd faults then (None, d)
      else let (rows, d) = insert_records now b d; (rest, d) = insert_batches (tl faults) now bs d
           in (map_option ((@) rows) rest, d))"

fun batches :: "nat \<Rightarrow> nat \<Rightarrow> 'a list \<Rightarrow> 'a list list" where
  "batches 0 n xs = []"
| "batches (Suc k) n xs = (if xs = [] then [] else take n xs # batches k n (drop n xs))"

definition CreateBatch ::
  "bool list \<Rightarrow> gotime \<Rightarrow> 'f alert_Record list \<Rightarrow> 'f alert_db \<Rightarrow> 'f alert_Record list option \<times> 'f alert_db" where
  "CreateBatch faults now ms d = (if ms = [] then (Some [], d) else insert_batches faults now (batches (length ms) 100 ms) d)"

definition records_GetByID :: "bool \<Rightarrow> int \<Rightarrow> 'f alert_db \<Rightarrow> store_error + 'f alert_Record" where
  "records_GetByID fails i d =
     (if fails then Inl ErrDatabase
      else case find (\<lambda>m. ac_ID m = i) (db_records d) of None \<Rightarrow> Inl ErrNotFound | Some m \<Rightarrow> Inr m)"

definition FindByEventID :: "bool \<Rightarrow> string \<Rightarrow> 'f alert_db \<Rightarrow> store_error + 'f alert_Record list" where
  "FindByEventID fails e d =
     (if e = [] then Inr []
      else if fails then Inl ErrDatabase
      else Inr (sort_key ac_ID (filter (\<lambda>m. ac_EventID m = e) (db_records d))))"

record RecordFilter =
  rf_Severity :: string
  rf_Status :: string
  rf_From :: gotime
  rf_To :: gotime

text \<open>The function \<^verbatim>\<open>datetime\<close> of the database cuts a time to whole seconds.\<close>

definition db_datetime :: "gotime \<Rightarrow> int" where
  "db_datetime t = t div time_Second"

definition filter_matches :: "RecordFilter \<Rightarrow> 'f alert_Record \<Rightarrow> bool" where
  "filter_matches rf m \<longleftrightarrow>
     (rf_Severity rf \<noteq> [] \<longrightarrow> ac_Severity m = rf_Severity rf) \<and>
     (rf_Status rf \<noteq> [] \<longrightarrow> ac_Status m = rf_Status rf) \<and>
     (rf_From rf \<noteq> zero_time \<longrightarrow> db_datetime (rf_From rf) \<le> db_datetime (ac_TriggeredAt m)) \<and>
     (rf_To rf \<noteq> zero_time \<longrightarrow> db_datetime (ac_TriggeredAt m) \<le> db_datetime (rf_To rf))"

definition records_List :: "bool \<Rightarrow> int \<Rightarrow> int \<Rightarrow> RecordFilter \<Rightarrow> 'f alert_db \<Rightarrow> store_error + 'f alert_Record list \<times> int" where
  "records_List fails page n rf d =
     (if fails then Inl ErrDatabase
      else let (page, n) = Clamp page n; rows = filter (filter_matches rf) (db_records d)
           in Inr (page_of page n (rev (sort_key ac_ID rows)), int (length rows)))"

text \<open>The two transitions of a record; \<open>reread\<close> says that reading the row again fails.\<close>

definition records_change ::
  "bool \<Rightarrow> bool \<Rightarrow> int \<Rightarrow> ('f alert_Record \<Rightarrow> 'f alert_Record) \<Rightarrow> 'f alert_db \<Rightarrow> (store_error + 'f alert_Record) \<times> 'f alert_db" where
  "records_change fails reread i f d =
     (if fails then (Inl ErrDatabase, d)
      else if \<not> list_ex (\<lambda>m. ac_ID m = i) (db_records d) then (Inl ErrNotFound, d)
      else let d = d\<lparr>db_records := map (\<lambda>m. if ac_ID m = i then f m else m) (db_records d)\<rparr>
           in (records_GetByID reread i d, d))"

definition Acknowledge :: "bool \<Rightarrow> bool \<Rightarrow> gotime \<Rightarrow> int \<Rightarrow> 'f alert_db \<Rightarrow> (store_error + 'f alert_Record) \<times> 'f alert_db" where
  "Acknowledge fails reread now i d =
     records_change fails reread i (\<lambda>m. m\<lparr>ac_Status := StatusAcknowledged, ac_AcknowledgedAt := Some now\<rparr>) d"

definition Resolve :: "bool \<Rightarrow> bool \<Rightarrow> gotime \<Rightarrow> int \<Rightarrow> 'f alert_db \<Rightarrow> (store_error + 'f alert_Record) \<times> 'f alert_db" where
  "Resolve fails reread now i d =
     records_change fails reread i (\<lambda>m. m\<lparr>ac_Status := StatusResolved, ac_ResolvedAt := Some now\<rparr>) d"

subsection \<open>From events to records\<close>

definition ViolationToRecord :: "'f::zero Violation \<Rightarrow> gotime \<Rightarrow> 'f alert_Record" where
  "ViolationToRecord v triggeredAt =
     (let severity = (if vSeverity v = [] then ''warning'' else vSeverity v);
          ruleName = (if vRuleName v = [] then vSource v else vRuleName v);
          ruleName = (case Metric v of Some c \<Rightarrow> if ruleName = [] then mc_Name c else ruleName | None \<Rightarrow> ruleName);
          val = (case Metric v of Some c \<Rightarrow> mc_Value c | None \<Rightarrow> 0);
          ruleName = (case vLog v of Some c \<Rightarrow> if ruleName = [] then lc_Keyword c else ruleName | None \<Rightarrow> ruleName);
          msg = (if vMessage v = [] then ''alert '' @ Kind v @ '': '' @ ruleName else vMessage v)
      in \<lparr>ac_ID = 0, ac_RuleID = vRuleID v, ac_RuleName = ruleName, ac_Severity = severity, ac_Value = val, ac_Message = msg,
          ac_EventID = [], ac_Status = StatusFiring, ac_TriggeredAt = triggeredAt, ac_AcknowledgedAt = None, ac_ResolvedAt = None,
          ac_CreatedAt = zero_time\<rparr>)"

definition RecordAlert ::
  "bool list \<Rightarrow> gotime \<Rightarrow> 'f::zero Event \<Rightarrow> 'f alert_db option \<Rightarrow> 'f alert_Record list option \<times> 'f alert_db option" where
  "RecordAlert faults now evt st =
     (case st of
        None \<Rightarrow> (Some [], None)
      | Some d \<Rightarrow>
          if Violations evt = [] then (Some [], Some d)
          else let triggeredAt = (if Timestamp evt = zero_time then now else Timestamp evt);
                   (rows, d) = CreateBatch faults now (map (\<lambda>v. (ViolationToRecord v triggeredAt)\<lparr>ac_EventID := EventID evt\<rparr>) (Violations evt)) d
               in (rows, Some d))"


subsection \<open>The alert service\<close>

datatype alert_error = AlertInvalidRequest | AlertRuleNotFound | AlertRecordNotFound | AlertBadExpression | AlertInternal

fun mapRuleStoreError :: "store_error \<Rightarrow> alert_error" where
  "mapRuleStoreError ErrRuleNotFound = AlertRuleNotFound"
| "mapRuleStoreError ErrNotFound = AlertRuleNotFound"
| "mapRuleStoreError ErrRuleCompileFailed = AlertBadExpression"
| "mapRuleStoreError ErrDatabase = AlertInternal"
| "mapRuleStoreError ErrNilModel = AlertInternal"

fun mapRecordStoreError :: "store_error \<Rightarrow> alert_error" where
  "mapRecordStoreError ErrNotFound = AlertRecordNotFound"
| "mapRecordStoreError ErrRuleNotFound = AlertInternal"
| "mapRecordStoreError ErrRuleCompileFailed = AlertInternal"
| "mapRecordStoreError ErrDatabase = AlertInternal"
| "mapRecordStoreError ErrNilModel = AlertInternal"

text \<open>
  The service with its tables, the rule engine that it reloads, if any, and what it has published. \<open>faults\<close> are
  the failures of the statements of one request: the read, the write, and the listing of the reload.
\<close>

record ('n, 'p, 'f) AlertService =
  as_db :: "'f alert_db"
  as_engine :: "('n, 'p) alert_engine option"
  as_bus :: bool
  as_published :: "(string \<times> string) list"

record faults =
  ft_read :: bool
  ft_write :: bool
  ft_list :: bool

definition no_faults :: faults where
  "no_faults = \<lparr>ft_read = False, ft_write = False, ft_list = False\<rparr>"

definition NewAlertService :: "bool \<Rightarrow> ('n, 'p) alert_engine option \<Rightarrow> ('n, 'p, 'f) AlertService" where
  "NewAlertService bus g = \<lparr>as_db = empty_alert_db, as_engine = g, as_bus = bus, as_published = []\<rparr>"

definition reloadRules :: "('n, 'p, 'f) expr_lang \<Rightarrow> bool \<Rightarrow> ('n, 'p, 'f) AlertService \<Rightarrow> ('n, 'p, 'f) AlertService" where
  "reloadRules xl fails s = s\<lparr>as_engine := map_option (\<lambda>g. snd (Reload xl (ListEnabled fails 0 (as_db s)) g)) (as_engine s)\<rparr>"

definition alert_ListRules :: "bool \<Rightarrow> int \<Rightarrow> int \<Rightarrow> ('n, 'p, 'f) AlertService \<Rightarrow> alert_error + alert_Rule list \<times> int" where
  "alert_ListRules fails page n s =
     (let (page, n) = Clamp page n
      in case rules_List fails page n (as_db s) of Inl err \<Rightarrow> Inl (mapRuleStoreError err) | Inr res \<Rightarrow> Inr res)"

definition alert_GetRule :: "bool \<Rightarrow> int \<Rightarrow> ('n, 'p, 'f) AlertService \<Rightarrow> alert_error + alert_Rule" where
  "alert_GetRule fails i s =
     (case rules_GetByID fails i (as_db s) of Inl err \<Rightarrow> Inl (mapRuleStoreError err) | Inr r \<Rightarrow> Inr r)"

definition alert_CreateRule ::
  "('n, 'p, 'f) expr_lang \<Rightarrow> (string \<Rightarrow> bool) \<Rightarrow> faults \<Rightarrow> gotime \<Rightarrow> alert_Rule option \<Rightarrow> ('n, 'p, 'f) AlertService \<Rightarrow>
   (alert_error + alert_Rule) \<times> ('n, 'p, 'f) AlertService" where
  "alert_CreateRule xl valid ft now req s =
     (case req of
        None \<Rightarrow> (Inl AlertInvalidRequest, s)
      | Some r \<Rightarrow>
          if ar_Name r = [] \<or> ar_Expression r = [] then (Inl AlertInvalidRequest, s)
          else (case rules_Create valid (ft_write ft) now (r\<lparr>ar_ID := 0, ar_CreatedAt := zero_time, ar_UpdatedAt := zero_time\<rparr>) (as_db s) of
                  (Inl err, d) \<Rightarrow> (Inl (mapRuleStoreError err), s\<lparr>as_db := d\<rparr>)
                | (Inr row, d) \<Rightarrow> (Inr row, reloadRules xl (ft_list ft) (s\<lparr>as_db := d\<rparr>))))"

definition alert_UpdateRule ::
  "('n, 'p, 'f) expr_lang \<Rightarrow> (string \<Rightarrow> bool) \<Rightarrow> faults \<Rightarrow> gotime \<Rightarrow> int \<Rightarrow> alert_Rule option \<Rightarrow> ('n, 'p, 'f) AlertService \<Rightarrow>
   (alert_error + alert_Rule) \<times> ('n, 'p, 'f) AlertService" where
  "alert_UpdateRule xl valid ft now i req s =
     (case req of
        None \<Rightarrow> (Inl AlertInvalidRequest, s)
      | Some r \<Rightarrow>
          (case rules_GetByID (ft_read ft) i (as_db s) of
             Inl err \<Rightarrow> (Inl (mapRuleStoreError err), s)
           | Inr old \<Rightarrow>
               (let r = r\<lparr>ar_ID := ar_ID old, ar_CreatedAt := ar_CreatedAt old\<rparr>
                in case rules_Update valid (ft_write ft) now r (as_db s) of
                     (Some err, d) \<Rightarrow> (Inl (mapRuleStoreError err), s\<lparr>as_db := d\<rparr>)
                   | (None, d) \<Rightarrow> (Inr r, reloadRules xl (ft_list ft) (s\<lparr>as_db := d\<rparr>)))))"

definition alert_DeleteRule ::
  "('n, 'p, 'f) expr_lang \<Rightarrow> faults \<Rightarrow> gotime \<Rightarrow> int \<Rightarrow> ('n, 'p, 'f) AlertService \<Rightarrow>
   alert_error option \<times> ('n, 'p, 'f) AlertService" where
  "alert_DeleteRule xl ft now i s =
     (case rules_DeleteByID (ft_write ft) now i (as_db s) of
        (Some err, d) \<Rightarrow> (Some (mapRuleStoreError err), s\<lparr>as_db := d\<rparr>)
      | (None, d) \<Rightarrow> (None, reloadRules xl (ft_list ft) (s\<lparr>as_db := d\<rparr>)))"

definition alert_ListRecords ::
  "bool \<Rightarrow> int \<Rightarrow> int \<Rightarrow> RecordFilter \<Rightarrow> ('n, 'p, 'f) AlertService \<Rightarrow> alert_error + 'f alert_Record list \<times> int" where
  "alert_ListRecords fails page n rf s =
     (let (page, n) = Clamp page n
      in case records_List fails page n rf (as_db s) of Inl err \<Rightarrow> Inl (mapRecordStoreError err) | Inr res \<Rightarrow> Inr res)"

definition alert_GetRecord :: "bool \<Rightarrow> int \<Rightarrow> ('n, 'p, 'f) AlertService \<Rightarrow> alert_error + 'f alert_Record" where
  "alert_GetRecord fails i s =
     (case records_GetByID fails i (as_db s) of Inl err \<Rightarrow> Inl (mapRecordStoreError err) | Inr m \<Rightarrow> Inr m)"

definition publishLifecycle :: "string \<Rightarrow> 'f alert_Record \<Rightarrow> ('n, 'p, 'f) AlertService \<Rightarrow> ('n, 'p, 'f) AlertService" where
  "publishLifecycle action m s =
     (if \<not> as_bus s then s
      else s\<lparr>as_published := as_published s @
             [(if action = ''resolved'' then ''alert.resolved'' else ''alert.acknowledged'', FormatInt (ac_ID m))]\<rparr>)"

definition record_result ::
  "string \<Rightarrow> (store_error + 'f alert_Record) \<times> 'f alert_db \<Rightarrow> ('n, 'p, 'f) AlertService \<Rightarrow>
   (alert_error + 'f alert_Record) \<times> ('n, 'p, 'f) AlertService" where
  "record_result action res s =
     (case res of
        (Inl err, d) \<Rightarrow> (Inl (mapRecordStoreError err), s\<lparr>as_db := d\<rparr>)
      | (Inr m, d) \<Rightarrow> (Inr m, publishLifecycle action m (s\<lparr>as_db := d\<rparr>)))"

definition AcknowledgeRecord ::
  "faults \<Rightarrow> gotime \<Rightarrow> int \<Rightarrow> ('n, 'p, 'f) AlertService \<Rightarrow> (alert_error + 'f alert_Record) \<times> ('n, 'p, 'f) AlertService" where
  "AcknowledgeRecord ft now i s = record_result ''acknowledged'' (Acknowledge (ft_write ft) (ft_read ft) now i (as_db s)) s"

definition ResolveRecord ::
  "faults \<Rightarrow> gotime \<Rightarrow> int \<Rightarrow> ('n, 'p, 'f) AlertService \<Rightarrow> (alert_error + 'f alert_Record) \<times> ('n, 'p, 'f) AlertService" where
  "ResolveRecord ft now i s = record_result ''resolved'' (Resolve (ft_write ft) (ft_read ft) now i (as_db s)) s"


subsection \<open>The rules that are served\<close>

lemma Validate_compiles: "Validate xl sample e \<Longrightarrow> \<exists>p. xl_Compile xl e = Some p"
  by (auto simp: Validate_def split: option.splits)

definition rules_ok :: "('n, 'p, 'f) expr_lang \<Rightarrow> 'f AlertEnv \<Rightarrow> 'f alert_db \<Rightarrow> bool" where
  "rules_ok xl sample d \<longleftrightarrow> distinct (map ar_ID (db_rules d)) \<and>
     (\<forall>r\<in>set (db_rules d). ar_ID r \<le> db_lastRule d \<and> Validate xl sample (ar_Expression r))"

lemma rules_ok_cong: "db_rules d' = db_rules d \<Longrightarrow> db_lastRule d' = db_lastRule d \<Longrightarrow> rules_ok xl sample d' = rules_ok xl sample d"
  by (simp add: rules_ok_def)

lemma rules_Create_ok:
  assumes "rules_ok xl sample d" "ar_ID r = 0"
  shows "rules_ok xl sample (snd (rules_Create (Validate xl sample) fails now r d))"
  using assms by (force simp: rules_Create_def rules_ok_def Let_def)

lemma rules_change_ok:
  assumes "rules_ok xl sample d" "\<And>r. ar_ID (f r) = ar_ID r"
    "\<And>r. Validate xl sample (ar_Expression r) \<Longrightarrow> Validate xl sample (ar_Expression (f r))"
  shows "rules_ok xl sample (snd (rules_change i f d))"
proof -
  have "ar_ID \<circ> (\<lambda>r. if ar_ID r = i \<and> ar_DeletedAt r = None then f r else r) = ar_ID"
    by (rule ext) (simp add: assms(2))
  then show ?thesis using assms by (auto simp: rules_ok_def rules_change_def)
qed

lemma rules_Update_ok:
  "rules_ok xl sample d \<Longrightarrow> rules_ok xl sample (snd (rules_Update (Validate xl sample) fails now r d))"
  by (auto simp: rules_Update_def rule_columns_def case_prod_beta Let_def intro: rules_change_ok)

lemma rules_DeleteByID_ok: "rules_ok xl sample d \<Longrightarrow> rules_ok xl sample (snd (rules_DeleteByID fails now i d))"
  by (auto simp: rules_DeleteByID_def case_prod_beta Let_def intro: rules_change_ok)

text \<open>The requests that change rules; the first component tells whether the request succeeded.\<close>

datatype rule_request = ReqCreate "alert_Rule option" | ReqUpdate int "alert_Rule option" | ReqDelete int

definition is_ok :: "('e + 'a) \<times> 's \<Rightarrow> bool \<times> 's" where
  "is_ok res = (case fst res of Inl _ \<Rightarrow> False | Inr _ \<Rightarrow> True, snd res)"

fun rule_request_run ::
  "('n, 'p, 'f) expr_lang \<Rightarrow> (string \<Rightarrow> bool) \<Rightarrow> faults \<Rightarrow> gotime \<Rightarrow> rule_request \<Rightarrow> ('n, 'p, 'f) AlertService \<Rightarrow>
   bool \<times> ('n, 'p, 'f) AlertService" where
  "rule_request_run xl valid ft now (ReqCreate r) s = is_ok (alert_CreateRule xl valid ft now r s)"
| "rule_request_run xl valid ft now (ReqUpdate i r) s = is_ok (alert_UpdateRule xl valid ft now i r s)"
| "rule_request_run xl valid ft now (ReqDelete i) s = (let (err, s) = alert_DeleteRule xl ft now i s in (err = None, s))"

lemma request_ok:
  assumes "rules_ok xl sample (as_db s)" "rule_request_run xl (Validate xl sample) ft now req s = (b, s')"
  shows "rules_ok xl sample (as_db s')"
proof (cases req)
  case (ReqCreate ro)
  show ?thesis
  proof (cases ro)
    case (Some r)
    have "rules_ok xl sample (snd (rules_Create (Validate xl sample) (ft_write ft) now
        (r\<lparr>ar_ID := 0, ar_CreatedAt := zero_time, ar_UpdatedAt := zero_time\<rparr>) (as_db s)))"
      by (rule rules_Create_ok [OF assms(1)]) simp
    then show ?thesis using assms ReqCreate Some
      by (auto simp: alert_CreateRule_def is_ok_def reloadRules_def split: if_splits prod.splits sum.splits)
  qed (use assms ReqCreate in \<open>auto simp: alert_CreateRule_def is_ok_def\<close>)
next
  case (ReqUpdate i ro)
  show ?thesis
  proof (cases ro)
    case (Some r)
    have u: "rules_ok xl sample (snd (rules_Update (Validate xl sample) (ft_write ft) now r' (as_db s)))" for r'
      by (rule rules_Update_ok [OF assms(1)])
    show ?thesis
    proof (cases "rules_GetByID (ft_read ft) i (as_db s)")
      case (Inr old)
      then show ?thesis using assms ReqUpdate Some u [of "r\<lparr>ar_ID := ar_ID old, ar_CreatedAt := ar_CreatedAt old\<rparr>"]
        by (auto simp: alert_UpdateRule_def is_ok_def reloadRules_def Let_def split: prod.splits option.splits)
    qed (use assms ReqUpdate Some in \<open>auto simp: alert_UpdateRule_def is_ok_def\<close>)
  qed (use assms ReqUpdate in \<open>auto simp: alert_UpdateRule_def is_ok_def\<close>)
next
  case (ReqDelete i)
  then show ?thesis using assms(2) rules_DeleteByID_ok [OF assms(1), of "ft_write ft" now i]
    by (auto simp: alert_DeleteRule_def reloadRules_def Let_def split: prod.splits option.splits)
qed

text \<open>The states of the service, from empty tables: requests on rules, transitions of records, and new records.\<close>

inductive alertsvc_reach :: "('n, 'p, 'f::zero) expr_lang \<Rightarrow> 'f AlertEnv \<Rightarrow> ('n, 'p, 'f) AlertService \<Rightarrow> bool" for xl sample where
  svc_new: "alertsvc_reach xl sample (NewAlertService bus g)"
| svc_request: "alertsvc_reach xl sample s \<Longrightarrow> rule_request_run xl (Validate xl sample) ft now req s = (b, s') \<Longrightarrow> alertsvc_reach xl sample s'"
| svc_acknowledge: "alertsvc_reach xl sample s \<Longrightarrow> alertsvc_reach xl sample (snd (AcknowledgeRecord ft now i s))"
| svc_resolve: "alertsvc_reach xl sample s \<Longrightarrow> alertsvc_reach xl sample (snd (ResolveRecord ft now i s))"
| svc_record: "alertsvc_reach xl sample s \<Longrightarrow> RecordAlert fs now evt (Some (as_db s)) = (rows, Some d) \<Longrightarrow> alertsvc_reach xl sample (s\<lparr>as_db := d\<rparr>)"

lemma insert_records_rules:
  "db_rules (snd (insert_records now ms d)) = db_rules d \<and> db_lastRule (snd (insert_records now ms d)) = db_lastRule d"
  by (induction ms arbitrary: d) (simp_all add: case_prod_beta Let_def)

lemma insert_batches_rules:
  "db_rules (snd (insert_batches fs now bs d)) = db_rules d \<and> db_lastRule (snd (insert_batches fs now bs d)) = db_lastRule d"
  by (induction bs arbitrary: fs d) (simp_all add: case_prod_beta Let_def insert_records_rules)

lemma CreateBatch_rules:
  "db_rules (snd (CreateBatch fs now ms d)) = db_rules d \<and> db_lastRule (snd (CreateBatch fs now ms d)) = db_lastRule d"
  by (simp add: CreateBatch_def insert_batches_rules)

lemma RecordAlert_rules:
  "RecordAlert fs now evt (Some d) = (rows, Some d') \<Longrightarrow> db_rules d' = db_rules d \<and> db_lastRule d' = db_lastRule d"
  by (auto simp: RecordAlert_def CreateBatch_rules case_prod_beta Let_def split: if_splits)

lemma records_change_rules:
  "db_rules (snd (records_change fails reread i f d)) = db_rules d \<and> db_lastRule (snd (records_change fails reread i f d)) = db_lastRule d"
  by (simp add: records_change_def Let_def)

lemma record_result_db: "as_db (snd (record_result action res s)) = snd res"
  by (auto simp: record_result_def publishLifecycle_def split: prod.splits sum.splits)

lemma alertsvc_rules_ok: "alertsvc_reach xl sample s \<Longrightarrow> rules_ok xl sample (as_db s)"
proof (induction rule: alertsvc_reach.induct)
  case (svc_request s ft now req b s')
  then show ?case using request_ok by blast
next
  case (svc_record s fs now evt rows d)
  then show ?case using RecordAlert_rules [OF svc_record.hyps(2)] by (simp add: rules_ok_def)
next
  case (svc_acknowledge s ft now i)
  then show ?case by (simp add: AcknowledgeRecord_def record_result_db Acknowledge_def rules_ok_def records_change_rules)
next
  case (svc_resolve s ft now i)
  then show ?case by (simp add: ResolveRecord_def record_result_db Resolve_def rules_ok_def records_change_rules)
qed (simp add: NewAlertService_def rules_ok_def empty_alert_db_def)


lemma sorted_wrt_groups:
  "sorted (map f ys) \<Longrightarrow> (\<And>k. sorted_wrt R (filter (\<lambda>y. f y = k) ys)) \<Longrightarrow>
   sorted_wrt (\<lambda>a b. f a < f b \<or> f a = f b \<and> R a b) ys"
proof (induction ys)
  case (Cons a ys)
  have "sorted_wrt R (filter (\<lambda>y. f y = k) ys)" for k
    using Cons.prems(2) [of k] by (cases "f a = k") simp_all
  moreover have "f a < f b \<or> f a = f b \<and> R a b" if "b \<in> set ys" for b
  proof (cases "f a = f b")
    case True
    then show ?thesis using Cons.prems(2) [of "f a"] that by auto
  qed (use Cons.prems(1) that in force)
  ultimately show ?case using Cons.IH Cons.prems(1) by simp
qed simp

definition rule_before :: "alert_Rule \<Rightarrow> alert_Rule \<Rightarrow> bool" where
  "rule_before r r' \<longleftrightarrow> ar_Priority r > ar_Priority r' \<or> ar_Priority r = ar_Priority r' \<and> ar_ID r < ar_ID r'"

lemma ListEnabled_sorted:
  assumes "distinct (map ar_ID (db_rules d))"
  shows "sorted_wrt rule_before (the (ListEnabled False 0 d))"
proof -
  let ?rs = "filter (\<lambda>r. ar_Enabled r \<and> (0 > (0::int) \<longrightarrow> ar_TenantID r = 0)) (live_rules d)"
  have "distinct (map ar_ID ?rs)" using assms by (simp add: live_rules_def distinct_map_filter)
  then have "distinct (map ar_ID (sort_key ar_ID ?rs))" by (simp add: distinct_map)
  then have "sorted_wrt (<) (map ar_ID (sort_key ar_ID ?rs))" by (simp add: strict_sorted_iff)
  then have "sorted_wrt (\<lambda>a b. ar_ID a < ar_ID b) (sort_key ar_ID ?rs)" by (simp only: sorted_wrt_map)
  then have "sorted_wrt (\<lambda>a b. ar_ID a < ar_ID b) (filter (\<lambda>y. - ar_Priority y = k) (sort_key (\<lambda>r. - ar_Priority r) (sort_key ar_ID ?rs)))" for k
    by (simp only: sort_key_stable sorted_wrt_filter)
  then have "sorted_wrt (\<lambda>a b. - ar_Priority a < - ar_Priority b \<or> - ar_Priority a = - ar_Priority b \<and> ar_ID a < ar_ID b)
      (sort_key (\<lambda>r. - ar_Priority r) (sort_key ar_ID ?rs))"
    by (intro sorted_wrt_groups) simp_all
  then show ?thesis by (simp add: ListEnabled_def rule_before_def [abs_def])
qed

lemma ListEnabled_set: "set (the (ListEnabled False 0 d)) = {r \<in> set (db_rules d). ar_DeletedAt r = None \<and> ar_Enabled r}"
  by (auto simp: ListEnabled_def live_rules_def)

lemma compileAll_all:
  assumes "\<And>r. r \<in> set rs \<Longrightarrow> \<exists>p. xl_Compile xl (ar_Expression r) = Some p"
  shows "map fst (compileAll xl rs) = rs" "\<forall>rp\<in>set (compileAll xl rs). xl_Compile xl (ar_Expression (fst rp)) = Some (snd rp)"
proof -
  show "map fst (compileAll xl rs) = rs"
    using assms by (induction rs) (fastforce simp: compileAll_def List.map_filter_simps)+
  show "\<forall>rp\<in>set (compileAll xl rs). xl_Compile xl (ar_Expression (fst rp)) = Some (snd rp)"
    by (auto simp: compileAll_def List.map_filter_def)
qed

text \<open>What a successful request leaves in the engine.\<close>

lemma request_reloads:
  assumes "rule_request_run xl valid ft now req s = (True, s')"
  shows "\<exists>s1. s' = reloadRules xl (ft_list ft) s1"
  using assms
  by (cases req) (auto simp: is_ok_def alert_CreateRule_def alert_UpdateRule_def alert_DeleteRule_def Let_def
      split: option.splits sum.splits prod.splits if_splits)

text \<open>C39. After any history of requests, a request that succeeds, and whose listing of the rules does not fail, leaves
  the engine with exactly the enabled rules that are not deleted, none skipped, each with its compiled expression, by
  descending priority and ascending identifier.\<close>

theorem rules_served:
  assumes "alertsvc_reach xl sample s" "rule_request_run xl (Validate xl sample) ft now req s = (True, s')"
    "\<not> ft_list ft" "as_engine s' = Some g"
  shows "set (map fst (en_rules g)) = {r \<in> set (db_rules (as_db s')). ar_DeletedAt r = None \<and> ar_Enabled r} \<and>
    sorted_wrt rule_before (map fst (en_rules g)) \<and>
    (\<forall>rp\<in>set (en_rules g). xl_Compile xl (ar_Expression (fst rp)) = Some (snd rp))"
proof -
  have ok: "rules_ok xl sample (as_db s')" by (rule request_ok [OF alertsvc_rules_ok [OF assms(1)] assms(2)])
  obtain s1 where "s' = reloadRules xl (ft_list ft) s1" using request_reloads [OF assms(2)] by blast
  then have g: "en_rules g = compileAll xl (the (ListEnabled False 0 (as_db s')))"
    using assms(3,4) by (auto simp: reloadRules_def Reload_def Load_def ListEnabled_def)
  have "\<exists>p. xl_Compile xl (ar_Expression r) = Some p" if "r \<in> set (the (ListEnabled False 0 (as_db s')))" for r
    using ok that unfolding ListEnabled_set rules_ok_def by (blast intro: Validate_compiles)
  note c = compileAll_all [of "the (ListEnabled False 0 (as_db s'))" xl, OF this]
  have m: "map fst (en_rules g) = the (ListEnabled False 0 (as_db s'))" by (simp add: g c(1))
  show ?thesis unfolding m ListEnabled_set using c(2) ListEnabled_sorted [of "as_db s'"] ok by (simp add: g rules_ok_def)
qed


definition demo_service :: "(tiny, tiny, int) AlertService" where
  "demo_service = NewAlertService False (Some NewRuleEngine)"

definition demo_created :: "(tiny, tiny, int) AlertService" where
  "demo_created = snd (rule_request_run (tiny_lang [cpu_high]) (Validate (tiny_lang [cpu_high]) (ExampleEnv 91)) no_faults 5
     (ReqCreate (Some (demo_rule 9 cpu_high))) demo_service)"

theorem rules_served_witness:
  "fst ` set (en_rules (the (as_engine demo_created))) = {r \<in> set (db_rules (as_db demo_created)). ar_DeletedAt r = None \<and> ar_Enabled r} \<and>
   map ar_ID (db_rules (as_db demo_created)) = [1]"
proof -
  let ?xl = "tiny_lang [cpu_high]" and ?v = "ExampleEnv 91"
  have ok: "fst (rule_request_run ?xl (Validate ?xl ?v) no_faults 5 (ReqCreate (Some (demo_rule 9 cpu_high))) demo_service)"
    by code_simp
  have run: "rule_request_run ?xl (Validate ?xl ?v) no_faults 5 (ReqCreate (Some (demo_rule 9 cpu_high))) demo_service = (True, demo_created)"
    using ok by (simp only: demo_created_def prod_eq_iff fst_conv snd_conv)
  have "\<not> Option.is_none (as_engine demo_created)" by code_simp
  then have g: "as_engine demo_created = Some (the (as_engine demo_created))" by (cases "as_engine demo_created") simp_all
  have "alertsvc_reach ?xl ?v demo_service" by (simp only: demo_service_def svc_new)
  from rules_served [OF this run _ g] have "set (map fst (en_rules (the (as_engine demo_created)))) =
      {r \<in> set (db_rules (as_db demo_created)). ar_DeletedAt r = None \<and> ar_Enabled r}"
    by (simp add: no_faults_def)
  moreover have "map ar_ID (db_rules (as_db demo_created)) = [1]" by code_simp
  ultimately show ?thesis by simp
qed

subsection \<open>The life of a record\<close>

definition records_ok :: "'f alert_db \<Rightarrow> bool" where
  "records_ok d \<longleftrightarrow> distinct (map ac_ID (db_records d)) \<and> (\<forall>m\<in>set (db_records d). ac_ID m \<le> db_lastRecord d)"

lemma insert_records_ok: "records_ok d \<Longrightarrow> records_ok (snd (insert_records now ms d))"
proof (induction ms arbitrary: d)
  case (Cons m ms)
  have "records_ok (d\<lparr>db_records := db_records d @ [record_row now (db_lastRecord d + 1) m], db_lastRecord := db_lastRecord d + 1\<rparr>)"
    using Cons.prems by (force simp: records_ok_def record_row_def)
  then show ?case by (simp add: case_prod_beta Let_def Cons.IH)
qed simp

lemma insert_batches_ok: "records_ok d \<Longrightarrow> records_ok (snd (insert_batches fs now bs d))"
  by (induction bs arbitrary: fs d) (simp_all add: case_prod_beta Let_def insert_records_ok)

lemma RecordAlert_ok: "records_ok d \<Longrightarrow> RecordAlert fs now evt (Some d) = (rows, Some d') \<Longrightarrow> records_ok d'"
  by (auto simp: RecordAlert_def CreateBatch_def insert_batches_ok case_prod_beta Let_def split: if_splits)

lemma records_change_ok:
  assumes "records_ok d" "\<And>m. ac_ID (f m) = ac_ID m"
  shows "records_ok (snd (records_change fails reread i f d))"
proof -
  have "ac_ID \<circ> (\<lambda>m. if ac_ID m = i then f m else m) = ac_ID" by (rule ext) (simp add: assms(2))
  then show ?thesis using assms by (auto simp: records_ok_def records_change_def Let_def)
qed

lemma request_records:
  assumes "rule_request_run xl valid ft now req s = (b, s')"
  shows "db_records (as_db s') = db_records (as_db s) \<and> db_lastRecord (as_db s') = db_lastRecord (as_db s)"
  using assms
  by (cases req) (auto simp: is_ok_def alert_CreateRule_def alert_UpdateRule_def alert_DeleteRule_def reloadRules_def rules_Create_def
      rules_Update_def rules_DeleteByID_def rules_change_def Let_def split: option.splits sum.splits prod.splits if_splits)

lemma alertsvc_records_ok: "alertsvc_reach xl sample s \<Longrightarrow> records_ok (as_db s)"
proof (induction rule: alertsvc_reach.induct)
  case (svc_request s ft now req b s')
  then show ?case using request_records [OF svc_request.hyps(2)] by (simp add: records_ok_def)
next
  case (svc_record s fs now evt rows d)
  then show ?case using RecordAlert_ok by simp
next
  case (svc_acknowledge s ft now i)
  then show ?case by (simp add: AcknowledgeRecord_def record_result_db Acknowledge_def records_change_ok)
next
  case (svc_resolve s ft now i)
  then show ?case by (simp add: ResolveRecord_def record_result_db Resolve_def records_change_ok)
qed (simp add: NewAlertService_def records_ok_def empty_alert_db_def)

lemma records_change_result:
  assumes "records_ok d" "m \<in> set (db_records d)" "\<And>m. ac_ID (f m) = ac_ID m"
  shows "records_change False False (ac_ID m) f d =
    (Inr (f m), d\<lparr>db_records := map (\<lambda>m'. if ac_ID m' = ac_ID m then f m' else m') (db_records d)\<rparr>)"
proof -
  let ?g = "\<lambda>m'. if ac_ID m' = ac_ID m then f m' else m'"
  have "find (\<lambda>m'. ac_ID m' = ac_ID m) (map ?g ms) = Some (f m)" if "distinct (map ac_ID ms)" "m \<in> set ms" for ms
    using that by (induction ms) (auto simp: assms(3))
  then show ?thesis using assms by (auto simp: records_change_def records_GetByID_def records_ok_def list_ex_iff Let_def)
qed

text \<open>Acknowledging has no condition on the status: in every state that the service can be in, a record that was
  resolved is acknowledged like any other. It leaves the state ``resolved'' for good, keeps the time at which it was
  resolved, and no longer appears among the resolved records.\<close>

theorem resolved_reopens:
  assumes "alertsvc_reach xl sample s" "m \<in> set (db_records (as_db s))" "ac_Status m = StatusResolved"
    "m' = m\<lparr>ac_Status := StatusAcknowledged, ac_AcknowledgedAt := Some now\<rparr>"
    "AcknowledgeRecord no_faults now (ac_ID m) s = (res, s')"
  shows "res = Inr m' \<and> m' \<in> set (db_records (as_db s')) \<and> m \<notin> set (db_records (as_db s')) \<and> ac_ResolvedAt m' = ac_ResolvedAt m"
proof -
  let ?f = "\<lambda>m. m\<lparr>ac_Status := StatusAcknowledged, ac_AcknowledgedAt := Some now\<rparr>"
  have c: "Acknowledge False False now (ac_ID m) (as_db s) =
      (Inr m', (as_db s)\<lparr>db_records := map (\<lambda>x. if ac_ID x = ac_ID m then ?f x else x) (db_records (as_db s))\<rparr>)"
    using records_change_result [OF alertsvc_records_ok [OF assms(1)] assms(2), of ?f] by (simp add: Acknowledge_def assms(4))
  then have r: "res = Inr m'" "db_records (as_db s') = map (\<lambda>x. if ac_ID x = ac_ID m then ?f x else x) (db_records (as_db s))"
    using assms(5) by (auto simp: AcknowledgeRecord_def record_result_def no_faults_def publishLifecycle_def split: if_splits)
  have ne: "(if ac_ID x = ac_ID m then ?f x else x) \<noteq> m" for x
  proof
    assume eq: "(if ac_ID x = ac_ID m then ?f x else x) = m"
    have "ac_ID x = ac_ID m" using arg_cong [OF eq, of ac_ID] by (simp split: if_splits)
    then have "ac_Status m = StatusAcknowledged" using arg_cong [OF eq, of ac_Status] by simp
    then show False using assms(3) by (simp add: StatusAcknowledged_def StatusResolved_def)
  qed
  have "m \<notin> set (db_records (as_db s'))"
    unfolding r(2) set_map by (rule notI, erule imageE, drule sym, erule notE [OF ne])
  moreover have "m' \<in> (\<lambda>x. if ac_ID x = ac_ID m then ?f x else x) ` set (db_records (as_db s))"
    using assms(2) by (rule rev_image_eqI) (simp add: assms(4))
  then have "m' \<in> set (db_records (as_db s'))" by (simp only: r(2) set_map)
  ultimately show ?thesis using r(1) assms(4) by simp
qed

definition demo_resolved :: "(tiny, tiny, int) AlertService" where
  "demo_resolved = snd (ResolveRecord no_faults 20 1 (demo_service\<lparr>as_db := the (snd (RecordAlert [] 10 (demo_event 95) (Some empty_alert_db)))\<rparr>))"

theorem resolved_reopens_witness:
  "map ac_Status (db_records (as_db demo_resolved)) = [StatusResolved] \<and>
   map ac_Status (db_records (as_db (snd (AcknowledgeRecord no_faults 30 1 demo_resolved)))) = [StatusAcknowledged]"
proof -
  let ?xl = "tiny_lang [cpu_high]" and ?m = "hd (db_records (as_db demo_resolved))"
  have rec: "RecordAlert [] 10 (demo_event 95) (Some (as_db demo_service)) =
      (fst (RecordAlert [] 10 (demo_event 95) (Some (as_db demo_service))), Some (the (snd (RecordAlert [] 10 (demo_event 95) (Some empty_alert_db)))))"
    by (simp add: demo_service_def NewAlertService_def RecordAlert_def case_prod_beta Let_def)
  have "alertsvc_reach ?xl (ExampleEnv 91) demo_service" by (simp only: demo_service_def svc_new)
  then have "alertsvc_reach ?xl (ExampleEnv 91) demo_resolved"
    unfolding demo_resolved_def by (rule svc_resolve [OF svc_record [OF _ rec]])
  moreover have l: "length (db_records (as_db demo_resolved)) = 1" by code_simp
  moreover have "?m \<in> set (db_records (as_db demo_resolved))" using l by (auto simp: length_Suc_conv)
  moreover have "ac_Status ?m = StatusResolved" by code_simp
  moreover have "ac_ID ?m = 1" by code_simp
  ultimately have "?m\<lparr>ac_Status := StatusAcknowledged, ac_AcknowledgedAt := Some 30\<rparr>
      \<in> set (db_records (as_db (snd (AcknowledgeRecord no_faults 30 1 demo_resolved))))"
    using resolved_reopens [OF _ _ _ refl surjective_pairing, of ?xl "ExampleEnv 91" demo_resolved ?m 30] by simp
  moreover have "length (db_records (as_db (snd (AcknowledgeRecord no_faults 30 1 demo_resolved)))) = 1" by code_simp
  ultimately have "map ac_Status (db_records (as_db (snd (AcknowledgeRecord no_faults 30 1 demo_resolved)))) = [StatusAcknowledged]"
    by (auto simp: length_Suc_conv)
  moreover have "map ac_Status (db_records (as_db demo_resolved)) = [StatusResolved]" by code_simp
  ultimately show ?thesis by simp
qed


text \<open>Inserting in batches is inserting one by one.\<close>

lemma insert_records_append:
  "insert_records now (xs @ ys) d =
     (let (r, d) = insert_records now xs d; (r', d) = insert_records now ys d in (r @ r', d))"
  by (induction xs arbitrary: d) (simp_all add: case_prod_beta Let_def)

lemma insert_batches_all:
  "True \<notin> set fs \<Longrightarrow> insert_batches fs now bs d = (let (rows, d) = insert_records now (concat bs) d in (Some rows, d))"
proof (induction bs arbitrary: fs d)
  case (Cons b bs)
  have fs: "\<not> (fs \<noteq> [] \<and> hd fs)" "True \<notin> set (tl fs)" using Cons.prems by (cases fs; auto)+
  show ?case using fs Cons.IH [OF fs(2)] by (simp add: insert_records_append case_prod_beta Let_def)
qed simp

lemma batches_concat: "length xs \<le> k \<Longrightarrow> 0 < n \<Longrightarrow> concat (batches k n xs) = xs"
proof (induction k arbitrary: xs)
  case (Suc k)
  then show ?case by (cases "xs = []") (simp_all add: Suc.IH)
qed simp

lemma CreateBatch_all: "True \<notin> set fs \<Longrightarrow> CreateBatch fs now ms d = (let (rows, d) = insert_records now ms d in (Some rows, d))"
  by (simp add: CreateBatch_def insert_batches_all batches_concat)

lemma insert_records_rows:
  "insert_records now ms d = (rows, d') \<Longrightarrow> db_records d' = db_records d @ rows \<and>
   rows = map (\<lambda>(k, m). record_row now (db_lastRecord d + 1 + int k) m) (enumerate 0 ms)"
proof (induction ms arbitrary: d rows)
  case (Cons m ms)
  let ?d = "d\<lparr>db_records := db_records d @ [record_row now (db_lastRecord d + 1) m], db_lastRecord := db_lastRecord d + 1\<rparr>"
  obtain rs where r: "insert_records now ms ?d = (rs, d')" "rows = record_row now (db_lastRecord d + 1) m # rs"
    using Cons.prems by (auto simp: Let_def split: prod.splits)
  have "map (\<lambda>(k, m). record_row now (2 + db_lastRecord d + int k) m) (enumerate 0 ms) =
      map (\<lambda>(k, m). record_row now (db_lastRecord d + 1 + int k) m) (enumerate (Suc 0) ms)"
    by (auto simp: list_eq_iff_nth_eq nth_enumerate_eq algebra_simps)
  then show ?case using Cons.IH [OF r(1)] by (simp add: r(2))
qed simp

text \<open>
  C40. Recording an alert when the database accepts every batch: one record for each violation, in order, with consecutive
  identifiers, the rule of the violation and the identifier of the event, all firing; and asking for the records of
  that event gives back exactly these, in order.\<close>

theorem recorded_alert_found:
  assumes "alertsvc_reach xl sample s" "True \<notin> set fs" "EventID evt \<noteq> []" "\<forall>m\<in>set (db_records (as_db s)). ac_EventID m \<noteq> EventID evt"
    "RecordAlert fs now evt (Some (as_db s)) = (res, Some d)"
  shows "\<exists>rows. res = Some rows \<and> db_records d = db_records (as_db s) @ rows \<and> FindByEventID False (EventID evt) d = Inr rows \<and>
    map ac_RuleID rows = map vRuleID (Violations evt) \<and> (\<forall>m\<in>set rows. ac_Status m = StatusFiring) \<and>
    map ac_ID rows = map (\<lambda>k. db_lastRecord (as_db s) + 1 + int k) [0..<length (Violations evt)]"
proof -
  let ?t = "if Timestamp evt = zero_time then now else Timestamp evt" and ?d = "as_db s"
  let ?ms = "map (\<lambda>v. (ViolationToRecord v ?t)\<lparr>ac_EventID := EventID evt\<rparr>) (Violations evt)"
  obtain rows d1 where i: "insert_records now ?ms ?d = (rows, d1)" by fastforce
  then have r: "res = Some rows" "d = d1" using assms(2,5) by (auto simp: RecordAlert_def CreateBatch_all split: if_splits)
  note ins = insert_records_rows [OF i]
  have len: "length rows = length (Violations evt)" using ins by simp
  have nth: "rows ! k = record_row now (db_lastRecord ?d + 1 + int k) ((ViolationToRecord (Violations evt ! k) ?t)\<lparr>ac_EventID := EventID evt\<rparr>)"
    if "k < length (Violations evt)" for k
    using that ins by (simp add: nth_enumerate_eq)
  have ids: "map ac_ID rows = map (\<lambda>k. db_lastRecord ?d + 1 + int k) [0..<length (Violations evt)]"
    by (rule nth_equalityI) (simp_all add: len nth record_row_def)
  have "map ac_RuleID rows = map vRuleID (Violations evt)"
    by (rule nth_equalityI) (simp_all add: len nth record_row_def ViolationToRecord_def Let_def)
  moreover have st: "ac_Status m = StatusFiring \<and> ac_EventID m = EventID evt" if "m \<in> set rows" for m
    using that by (auto simp: in_set_conv_nth len nth record_row_def ViolationToRecord_def StatusFiring_def Let_def)
  moreover have "FindByEventID False (EventID evt) d = Inr rows"
  proof -
    have "filter (\<lambda>m. ac_EventID m = EventID evt) (db_records d) = rows"
      using ins assms(4) st by (simp add: r(2) filter_empty_conv filter_id_conv)
    moreover have "sorted (map ac_ID rows)" by (simp add: ids sorted_iff_nth_mono)
    ultimately show ?thesis using assms(3) by (simp add: FindByEventID_def sort_key_id_if_sorted)
  qed
  ultimately show ?thesis using ins r ids by auto
qed


lemma RecordAlert_store: "\<exists>res d'. RecordAlert fs now evt (Some d) = (res, Some d')"
  by (simp add: RecordAlert_def case_prod_beta Let_def)

theorem recorded_alert_found_witness:
  "\<exists>rows d. RecordAlert [] 10 ((demo_event 95)\<lparr>EventID := ''ff-1''\<rparr>) (Some empty_alert_db) = (Some rows, Some d) \<and>
     FindByEventID False ''ff-1'' d = Inr rows \<and> map ac_ID rows = [1]"
proof -
  let ?evt = "(demo_event 95)\<lparr>EventID := ''ff-1''\<rparr>"
  have "alertsvc_reach (tiny_lang []) (ExampleEnv 91) demo_service" by (simp only: demo_service_def svc_new)
  moreover have db: "as_db demo_service = empty_alert_db" by (simp add: demo_service_def NewAlertService_def)
  moreover obtain res d where r: "RecordAlert [] 10 ?evt (Some empty_alert_db) = (res, Some d)"
    using RecordAlert_store by blast
  ultimately obtain rows where "res = Some rows" "FindByEventID False ''ff-1'' d = Inr rows"
    "map ac_ID rows = map (\<lambda>k. db_lastRecord (empty_alert_db :: int alert_db) + 1 + int k) [0..<length (Violations ?evt)]"
    using recorded_alert_found [of "tiny_lang []" "ExampleEnv 91" demo_service "[]" ?evt 10 res d] by (auto simp: empty_alert_db_def)
  moreover have "Violations ?evt = [hd (Violations ?evt)]" by (simp add: demo_event_def)
  then have "length (Violations ?evt) = 1" by (metis length_Cons list.size(3) One_nat_def)
  ultimately show ?thesis using r by (auto simp: empty_alert_db_def)
qed

end
