(* ===== verification/AlertDispatch.thy ===== *)
theory AlertDispatch
  imports AlertStore Pool "HOL-Library.Word"
begin

text \<open>
  The alert engine, \<^verbatim>\<open>pkg/prism\<close>: the dispatch of \<^verbatim>\<open>dispatch.go\<close> and \<^verbatim>\<open>evaluate.go\<close>, the
  options, registration and life cycle of \<^verbatim>\<open>engine.go\<close>, and the wiring of \<^verbatim>\<open>config.go\<close>.
  Guards, rules, channels and callbacks are functions on a state \<open>'w\<close> that belongs to them and may panic; the
  answers of the worker pool are an argument. Beside that state the model keeps what the engine has done: the
  events handed to the callback and to the dead-letter handler, the notifications that the pool has accepted and
  those that were sent. Logging and the time limit of a send are left out.
\<close>

subsection \<open>The engine\<close>

datatype 'a outcome = Ret 'a | Panic

record ('f, 'w) prism_channel =
  ch_Name :: string
  ch_Send :: "'f Event \<Rightarrow> 'w \<Rightarrow> bool outcome \<times> 'w"

type_synonym ('f, 'w) prism_guard = "'f Event \<Rightarrow> 'w \<Rightarrow> Decision outcome \<times> 'f Event \<times> 'w"
type_synonym ('f, 'w) prism_matcher = "'f Event \<Rightarrow> 'w \<Rightarrow> 'f MatchResult outcome \<times> 'w"

record ('f, 'w) prism_engine =
  pe_rules :: "('f, 'w) prism_matcher list"
  pe_channels :: "('f, 'w) prism_channel list"
  pe_guards :: "('f, 'w) prism_guard list"
  pe_onAlert :: "('f Event \<Rightarrow> 'w \<Rightarrow> unit outcome \<times> 'w) option"
  pe_hook :: "('f Event \<Rightarrow> 'w \<Rightarrow> unit outcome \<times> 'f Event \<times> 'w) option"
  pe_dead :: "('f Event \<Rightarrow> string \<Rightarrow> 'w \<Rightarrow> unit outcome \<times> 'w) option"

text \<open>Registration; \<open>None\<close> is a nil argument.\<close>

definition AddRule :: "('f, 'w) prism_matcher option \<Rightarrow> ('f, 'w) prism_engine \<Rightarrow> ('f, 'w) prism_engine" where
  "AddRule r e = (case r of None \<Rightarrow> e | Some r \<Rightarrow> e\<lparr>pe_rules := pe_rules e @ [r]\<rparr>)"

definition AddChannel :: "('f, 'w) prism_channel option \<Rightarrow> ('f, 'w) prism_engine \<Rightarrow> ('f, 'w) prism_engine" where
  "AddChannel c e = (case c of None \<Rightarrow> e | Some c \<Rightarrow> e\<lparr>pe_channels := pe_channels e @ [c]\<rparr>)"

definition SetChannels :: "('f, 'w) prism_channel option list \<Rightarrow> ('f, 'w) prism_engine \<Rightarrow> ('f, 'w) prism_engine" where
  "SetChannels cs e = e\<lparr>pe_channels := List.map_filter (\<lambda>c. c) cs\<rparr>"

definition AddGuard :: "('f, 'w) prism_guard option \<Rightarrow> ('f, 'w) prism_engine \<Rightarrow> ('f, 'w) prism_engine" where
  "AddGuard g e = (case g of None \<Rightarrow> e | Some g \<Rightarrow> e\<lparr>pe_guards := pe_guards e @ [g]\<rparr>)"

text \<open>
  Building the channels of the enabled definitions: the ones that fail are left out. \<open>defs\<close> is \<open>None\<close> without a
  channel store and \<open>Some None\<close> when the listing fails. New options for building take effect with a reload.
\<close>

definition ReloadChannels ::
  "('d \<Rightarrow> ('f, 'w) prism_channel option) \<Rightarrow> 'd list option option \<Rightarrow> ('f, 'w) prism_engine \<Rightarrow> bool \<times> ('f, 'w) prism_engine" where
  "ReloadChannels build defs e =
     (case defs of
        None \<Rightarrow> (True, e)
      | Some None \<Rightarrow> (False, e)
      | Some (Some ds) \<Rightarrow> (True, SetChannels (map Some (List.map_filter build ds)) e))"

definition SetChannelBuildOptions ::
  "('o \<Rightarrow> 'd \<Rightarrow> ('f, 'w) prism_channel option) \<Rightarrow> 'o \<Rightarrow> 'd list option option \<Rightarrow> 'o \<times> ('f, 'w) prism_engine \<Rightarrow>
   bool \<times> 'o \<times> ('f, 'w) prism_engine" where
  "SetChannelBuildOptions build opts defs oe = (let (ok, e) = ReloadChannels (build opts) defs (snd oe) in (ok, opts, e))"

subsection \<open>Options\<close>

text \<open>\<open>None\<close> is a nil argument of the caller. The logger is left out.\<close>

datatype ('f, 'w) prism_option =
    WithEventBus bool
  | WithNotificationPoolSize int
  | WithPool bool
  | WithOnAlert "('f Event \<Rightarrow> 'w \<Rightarrow> unit outcome \<times> 'w) option"
  | WithPostGuardHook "('f Event \<Rightarrow> 'w \<Rightarrow> unit outcome \<times> 'f Event \<times> 'w) option"
  | WithDeadLetterHandler "('f Event \<Rightarrow> string \<Rightarrow> 'w \<Rightarrow> unit outcome \<times> 'w) option"
  | WithGuards "('f, 'w) prism_guard option list"

record ('f, 'w) engineOptions =
  po_bus :: bool
  po_poolSize :: int
  po_pool :: bool
  po_onAlert :: "('f Event \<Rightarrow> 'w \<Rightarrow> unit outcome \<times> 'w) option"
  po_hook :: "('f Event \<Rightarrow> 'w \<Rightarrow> unit outcome \<times> 'f Event \<times> 'w) option"
  po_dead :: "('f Event \<Rightarrow> string \<Rightarrow> 'w \<Rightarrow> unit outcome \<times> 'w) option"
  po_guards :: "('f, 'w) prism_guard list"

fun prism_apply :: "('f, 'w) prism_option \<Rightarrow> ('f, 'w) engineOptions \<Rightarrow> ('f, 'w) engineOptions" where
  "prism_apply (WithEventBus b) o' = o'\<lparr>po_bus := b\<rparr>"
| "prism_apply (WithNotificationPoolSize n) o' = o'\<lparr>po_poolSize := n\<rparr>"
| "prism_apply (WithPool p) o' = o'\<lparr>po_pool := p\<rparr>"
| "prism_apply (WithOnAlert f) o' = o'\<lparr>po_onAlert := f\<rparr>"
| "prism_apply (WithPostGuardHook h) o' = o'\<lparr>po_hook := h\<rparr>"
| "prism_apply (WithDeadLetterHandler h) o' = o'\<lparr>po_dead := h\<rparr>"
| "prism_apply (WithGuards gs) o' = o'\<lparr>po_guards := po_guards o' @ List.map_filter (\<lambda>g. g) gs\<rparr>"

definition defaultNotificationPoolSize :: int where
  "defaultNotificationPoolSize = 8"

text \<open>The pool for notifications: the caller's, or one of the engine's own, which \<^verbatim>\<open>Stop\<close> shuts down.\<close>

datatype 'j notify_pool = InjectedPool | OwnedPool "'j pool"

text \<open>The engine, whether it has a bus, and its pool.\<close>

definition New_prism ::
  "int \<Rightarrow> ('f, 'w) prism_option list \<Rightarrow> pool_error + (('f, 'w) prism_engine \<times> bool \<times> 'j notify_pool)" where
  "New_prism NumCPU options =
     (let o' = fold prism_apply options
            \<lparr>po_bus = False, po_poolSize = defaultNotificationPoolSize, po_pool = False, po_onAlert = None, po_hook = None,
             po_dead = None, po_guards = []\<rparr>;
          e = \<lparr>pe_rules = [], pe_channels = [], pe_guards = po_guards o', pe_onAlert = po_onAlert o', pe_hook = po_hook o',
               pe_dead = po_dead o'\<rparr>;
          sz = (if po_poolSize o' \<le> 0 then defaultNotificationPoolSize else po_poolSize o')
      in if po_pool o' then Inr (e, po_bus o', InjectedPool)
         else case New_pool NumCPU [WithWorkers sz, WithRejectionPolicy RejectionCallerRuns] of
                Inl err \<Rightarrow> Inl err
              | Inr p \<Rightarrow> Inr (e, po_bus o', OwnedPool p))"

text \<open>What the engine has done so far. The wait group counts the notifications under way.\<close>

record ('f, 'w) prism_state =
  ps_world :: 'w
  ps_counter :: "64 word"
  ps_wg :: int
  ps_jobs :: "(('f, 'w) prism_channel \<times> 'f Event) list"
  ps_sent :: "(string \<times> 'f Event) list"
  ps_dead :: "(string \<times> 'f Event) list"
  ps_recorded :: "'f Event list"

definition new_prism :: "'w \<Rightarrow> 64 word \<Rightarrow> ('f, 'w) prism_state" where
  "new_prism w seed = \<lparr>ps_world = w, ps_counter = seed, ps_wg = 0, ps_jobs = [], ps_sent = [], ps_dead = [], ps_recorded = []\<rparr>"

subsection \<open>Identifiers of events\<close>

definition hex_digit :: "nat \<Rightarrow> char" where
  "hex_digit d = ''0123456789abcdef'' ! d"

fun hex_nat :: "nat \<Rightarrow> string" where
  "hex_nat n = (if n < 16 then [hex_digit n] else hex_nat (n div 16) @ [hex_digit (n mod 16)])"

declare hex_nat.simps [simp del]

definition hex_int :: "int \<Rightarrow> string" where
  "hex_int i = (if i < 0 then CHR ''-'' # hex_nat (nat (- i)) else hex_nat (nat i))"

definition newEventID :: "int \<Rightarrow> 64 word \<Rightarrow> string \<times> 64 word" where
  "newEventID ts c = (hex_int ts @ ''-'' @ hex_nat (unat (c + 1)), c + 1)"

subsection \<open>Dispatch\<close>

record DispatchResult =
  dr_Accepted :: bool
  dr_EventID :: string
  dr_Channels :: "string list"
  dr_Message :: string

text \<open>The callbacks, with recovery from panics.\<close>

definition recordAlert :: "('f, 'w) prism_engine \<Rightarrow> 'f Event \<Rightarrow> ('f, 'w) prism_state \<Rightarrow> ('f, 'w) prism_state" where
  "recordAlert e evt s =
     (case pe_onAlert e of
        None \<Rightarrow> s
      | Some fn \<Rightarrow> s\<lparr>ps_world := snd (fn evt (ps_world s)), ps_recorded := ps_recorded s @ [evt]\<rparr>)"

definition guard_process :: "('f, 'w) prism_guard \<Rightarrow> 'f Event \<Rightarrow> 'w \<Rightarrow> Decision \<times> 'f Event \<times> 'w" where
  "guard_process g evt w =
     (case g evt w of (Ret dec, evt', w') \<Rightarrow> (dec, evt', w') | (Panic, evt', w') \<Rightarrow> (DecisionPass, evt', w'))"

definition postGuardHook :: "('f, 'w) prism_engine \<Rightarrow> 'f Event \<Rightarrow> ('f, 'w) prism_state \<Rightarrow> 'f Event \<times> ('f, 'w) prism_state" where
  "postGuardHook e evt s =
     (case pe_hook e of
        None \<Rightarrow> (evt, s)
      | Some h \<Rightarrow> (case h evt (ps_world s) of (_, evt', w) \<Rightarrow> (evt', s\<lparr>ps_world := w\<rparr>)))"

definition handleDeadLetter :: "('f, 'w) prism_engine \<Rightarrow> 'f Event \<Rightarrow> string \<Rightarrow> ('f, 'w) prism_state \<Rightarrow> ('f, 'w) prism_state" where
  "handleDeadLetter e evt nm s =
     (case pe_dead e of
        None \<Rightarrow> s
      | Some h \<Rightarrow> s\<lparr>ps_world := snd (h evt nm (ps_world s)), ps_dead := ps_dead s @ [(nm, evt)]\<rparr>)"

definition rule_match :: "('f, 'w) prism_matcher \<Rightarrow> 'f Event \<Rightarrow> 'w \<Rightarrow> 'f MatchResult \<times> 'w" where
  "rule_match r evt w =
     (case r evt w of (Ret res, w') \<Rightarrow> (res, w') | (Panic, w') \<Rightarrow> (\<lparr>Forward = False, Matched = [], mrViolations = []\<rparr>, w'))"

fun runGovernanceGuards ::
  "('f, 'w) prism_engine \<Rightarrow> string \<Rightarrow> ('f, 'w) prism_guard list \<Rightarrow> 'f Event \<Rightarrow> ('f, 'w) prism_state \<Rightarrow>
   DispatchResult option \<times> 'f Event \<times> ('f, 'w) prism_state" where
  "runGovernanceGuards e eid [] evt s = (None, evt, s)"
| "runGovernanceGuards e eid (g # gs) evt s =
     (let (dec, evt, w) = guard_process g evt (ps_world s); s = s\<lparr>ps_world := w\<rparr>
      in case dec of
           DecisionPass \<Rightarrow> runGovernanceGuards e eid gs evt s
         | DecisionSuppress \<Rightarrow>
             (Some \<lparr>dr_Accepted = False, dr_EventID = eid, dr_Channels = [], dr_Message = ''alert suppressed by governance guard''\<rparr>,
              evt, recordAlert e evt s)
         | DecisionAggregate \<Rightarrow>
             (Some \<lparr>dr_Accepted = False, dr_EventID = eid, dr_Channels = [], dr_Message = ''alert aggregated by governance guard''\<rparr>,
              evt, recordAlert e evt s))"

fun evaluateRules ::
  "('f, 'w) prism_matcher list \<Rightarrow> 'f Event \<Rightarrow> 'w \<Rightarrow> 'f Violation list \<times> bool \<times> MatchedRule list \<times> 'w" where
  "evaluateRules [] evt w = ([], False, [], w)"
| "evaluateRules (r # rs) evt w =
     (let (res, w) = rule_match r evt w; (vs, matched, ms, w) = evaluateRules rs evt w
      in if \<not> Forward res then (vs, matched, ms, w) else (mrViolations res @ vs, True, Matched res @ ms, w))"

text \<open>The violations that the rules measured replace those of the payload; otherwise these are attributed to the first rule.\<close>

definition settle_violations :: "'f Violation list \<Rightarrow> MatchedRule list \<Rightarrow> 'f Event \<Rightarrow> 'f Event" where
  "settle_violations vs ms evt =
     (if vs \<noteq> [] then evt\<lparr>Violations := vs\<rparr>
      else if ms \<noteq> [] then
        evt\<lparr>Violations := map (\<lambda>v. v\<lparr>vRuleID := mr_ID (hd ms), vRuleName := mr_Name (hd ms)\<rparr>) (Violations evt)\<rparr>
      else evt)"

text \<open>
  Submission to the pool: the job is queued, or run by the caller before the call returns, or refused; or the call
  panics, as \<open>Submit\<close> can while the pool is being shut down.
\<close>

datatype pool_answer = PoolQueued | PoolCallerRan | PoolRefused | PoolPanicked

text \<open>A notification runs: it is sent, and the wait group goes down even when the channel panics.\<close>

definition run_send :: "('f, 'w) prism_channel \<Rightarrow> 'f Event \<Rightarrow> ('f, 'w) prism_state \<Rightarrow> ('f, 'w) prism_state" where
  "run_send c evt s =
     s\<lparr>ps_world := snd (ch_Send c evt (ps_world s)), ps_sent := ps_sent s @ [(ch_Name c, evt)], ps_wg := ps_wg s - 1\<rparr>"

definition submit_job ::
  "('f, 'w) prism_engine \<Rightarrow> pool_answer \<Rightarrow> ('f, 'w) prism_channel \<Rightarrow> 'f Event \<Rightarrow> ('f, 'w) prism_state \<Rightarrow> ('f, 'w) prism_state" where
  "submit_job e ans c evt s =
     (let s = s\<lparr>ps_wg := ps_wg s + 1\<rparr>
      in case ans of
           PoolQueued \<Rightarrow> s\<lparr>ps_jobs := ps_jobs s @ [(c, evt)]\<rparr>
         | PoolCallerRan \<Rightarrow> run_send c evt s
         | PoolRefused \<Rightarrow> handleDeadLetter e evt (ch_Name c) (s\<lparr>ps_wg := ps_wg s - 1\<rparr>)
         | PoolPanicked \<Rightarrow> s)"

text \<open>\<open>None\<close>: a submission has panicked.\<close>

fun dispatchToChannels ::
  "('f, 'w) prism_engine \<Rightarrow> (nat \<Rightarrow> pool_answer) \<Rightarrow> nat \<Rightarrow> ('f, 'w) prism_channel list \<Rightarrow> 'f Event \<Rightarrow> ('f, 'w) prism_state \<Rightarrow>
   string list option \<times> ('f, 'w) prism_state" where
  "dispatchToChannels e ans i [] evt s = (Some [], s)"
| "dispatchToChannels e ans i (c # cs) evt s =
     (let s = submit_job e (ans i) c evt s
      in if ans i = PoolPanicked then (None, s)
         else let (names, s) = dispatchToChannels e ans (Suc i) cs evt s in (map_option ((#) (ch_Name c)) names, s))"

definition default_violation :: "'f Event \<Rightarrow> 'f Event" where
  "default_violation evt = (if Violations evt = [] then evt\<lparr>Violations := [zero_Violation\<lparr>Kind := evType evt\<rparr>]\<rparr> else evt)"

text \<open>What follows the guards: the rules, the callback and the channels.\<close>

definition dispatch_rules ::
  "('f, 'w) prism_engine \<Rightarrow> (nat \<Rightarrow> pool_answer) \<Rightarrow> string \<Rightarrow> 'f Event \<Rightarrow> ('f, 'w) prism_state \<Rightarrow>
   DispatchResult option \<times> ('f, 'w) prism_state" where
  "dispatch_rules e ans eid evt s =
     (let (vs, matched, ms, w) = evaluateRules (pe_rules e) evt (ps_world s);
          s = s\<lparr>ps_world := w\<rparr>;
          evt = settle_violations vs ms evt
      in if \<not> (pe_rules e = [] \<or> matched) then
           (Some \<lparr>dr_Accepted = False, dr_EventID = eid, dr_Channels = [], dr_Message = ''alert suppressed by rules''\<rparr>, s)
         else
           let s = recordAlert e evt s
           in if pe_channels e = [] then
                (Some \<lparr>dr_Accepted = True, dr_EventID = eid, dr_Channels = [], dr_Message = ''alert accepted; no channels registered''\<rparr>, s)
              else
                let (names, s) = dispatchToChannels e ans 0 (pe_channels e) evt s
                in (map_option (\<lambda>ns. \<lparr>dr_Accepted = True, dr_EventID = eid, dr_Channels = ns, dr_Message = ''alert accepted''\<rparr>) names, s))"

definition Dispatch ::
  "('f, 'w) prism_engine \<Rightarrow> int \<Rightarrow> (nat \<Rightarrow> pool_answer) \<Rightarrow> 'f Event \<Rightarrow> ('f, 'w) prism_state \<Rightarrow>
   DispatchResult option \<times> ('f, 'w) prism_state" where
  "Dispatch e ts ans evt s =
     (let (eid, c) = newEventID ts (ps_counter s);
          evt = (default_violation evt)\<lparr>EventID := eid\<rparr>;
          (stop, evt, s) = runGovernanceGuards e eid (pe_guards e) evt (s\<lparr>ps_counter := c\<rparr>)
      in case stop of
           Some res \<Rightarrow> (Some res, s)
         | None \<Rightarrow> (let (evt, s) = postGuardHook e evt s in dispatch_rules e ans eid evt s))"

text \<open>A worker of the pool runs the job at place \<open>i\<close> of the accepted ones.\<close>

definition run_job :: "nat \<Rightarrow> ('f, 'w) prism_state \<Rightarrow> ('f, 'w) prism_state" where
  "run_job i s =
     (if i < length (ps_jobs s) then
        run_send (fst (ps_jobs s ! i)) (snd (ps_jobs s ! i)) (s\<lparr>ps_jobs := take i (ps_jobs s) @ drop (Suc i) (ps_jobs s)\<rparr>)
      else s)"


subsection \<open>From bus events to alerts\<close>

text \<open>The further fields of the payloads that the alert engine reads.\<close>

record 'f metric_payload = "'f MetricExceededPayload" +
  me_Severity :: string
  me_Resources :: "string \<rightharpoonup> 'f"

record status_payload = StatusChangePayload +
  sp_Reason :: string
  sp_Source :: string

definition event_time :: "gotime \<Rightarrow> gotime \<Rightarrow> gotime" where
  "event_time now ts = (if ts = zero_time then now else ts)"

definition metricPayloadToAlert :: "gotime \<Rightarrow> gotime \<Rightarrow> 'f metric_payload \<Rightarrow> 'f Event" where
  "metricPayloadToAlert now ts p = zero_Event\<lparr>evType := TypeMetric, AssetID := ParseInt_value (me_AssetID p),
     TenantID := ParseInt_value (me_TenantID p), Timestamp := event_time now ts,
     Violations := [zero_Violation\<lparr>Kind := TypeMetric, vSeverity := (if me_Severity p = [] then ''warning'' else me_Severity p),
       Metric := Some \<lparr>mc_Name = me_MetricName p, mc_Value = me_MetricValue p, mc_Threshold = me_Threshold p, mc_Metrics = me_Resources p\<rparr>\<rparr>]\<rparr>"

definition mapLogLevel :: "string \<Rightarrow> string" where
  "mapLogLevel level =
     (if level = ''fatal'' \<or> level = ''critical'' then ''critical''
      else if level = ''error'' then ''error''
      else if level = ''warn'' \<or> level = ''warning'' then ''warning''
      else if level = ''info'' \<or> level = ''notice'' then ''info''
      else if level = ''debug'' then ''debug''
      else level)"

definition logPayloadToAlert :: "gotime \<Rightarrow> gotime \<Rightarrow> LogMatchedPayload \<Rightarrow> 'f Event" where
  "logPayloadToAlert now ts p = zero_Event\<lparr>evType := TypeLog, AssetID := ParseInt_value (lm_AssetID p),
     TenantID := ParseInt_value (lm_TenantID p), Timestamp := event_time now ts,
     Violations := [zero_Violation\<lparr>Kind := TypeLog, vSeverity := mapLogLevel (lm_Level p), vSource := lm_SourceIP p,
       vLog := Some \<lparr>lc_Keyword = lm_Keyword p, lc_Content = lm_Content p\<rparr>\<rparr>]\<rparr>"

definition isAbnormalStatus :: "string \<Rightarrow> bool" where
  "isAbnormalStatus st \<longleftrightarrow> st = ''offline'' \<or> st = ''abnormal''"

definition status_message :: "status_payload \<Rightarrow> string" where
  "status_message p =
     (let msg = (if sp_Source p = ''timeout'' then ''asset '' @ sp_AssetID p @ '' heartbeat lost, marked offline''
                 else ''asset '' @ sp_AssetID p @ '' transitioned '' @ sp_PrevStatus p @ '' -> '' @ sp_CurrStatus p)
      in if sp_Reason p \<noteq> [] then msg @ '' ('' @ sp_Reason p @ '')'' else msg)"

definition statusPayloadToAlert :: "gotime \<Rightarrow> gotime \<Rightarrow> status_payload \<Rightarrow> 'f Event option" where
  "statusPayloadToAlert now ts p =
     (if \<not> isAbnormalStatus (sp_CurrStatus p) then None
      else let ty = (if sp_Source p = ''timeout'' then TypeHeartbeat else TypeStatus);
               severity = (if sp_Source p = ''timeout'' then ''critical'' else ''error'')
           in Some (zero_Event\<lparr>evType := ty, AssetID := ParseInt_value (sp_AssetID p), TenantID := ParseInt_value (sp_TenantID p),
                Timestamp := event_time now ts,
                Violations := [zero_Violation\<lparr>Kind := ty, vSeverity := severity, vSource := sp_AssetKey p, vMessage := status_message p,
                  vStatus := Some \<lparr>sc_PrevStatus = sp_PrevStatus p, sc_CurrStatus = sp_CurrStatus p\<rparr>\<rparr>]\<rparr>))"

datatype 'f bus_payload = MetricEvent "'f metric_payload" | LogEvent LogMatchedPayload | StatusEvent status_payload

fun payload_type :: "'f bus_payload \<Rightarrow> string" where
  "payload_type (MetricEvent _) = ''telemetry.metric_exceeded''"
| "payload_type (LogEvent _) = ''telemetry.log_matched''"
| "payload_type (StatusEvent _) = ''asset.status_changed''"

fun payload_alert :: "gotime \<Rightarrow> gotime \<Rightarrow> 'f bus_payload \<Rightarrow> 'f Event option" where
  "payload_alert now ts (MetricEvent p) = Some (metricPayloadToAlert now ts p)"
| "payload_alert now ts (LogEvent p) = Some (logPayloadToAlert now ts p)"
| "payload_alert now ts (StatusEvent p) = statusPayloadToAlert now ts p"

text \<open>The handler of a subscription; \<open>now\<close> is also the time of the identifier. A panic is caught by the bus.\<close>

definition onBusEvent ::
  "('f, 'w) prism_engine \<Rightarrow> gotime \<Rightarrow> gotime \<Rightarrow> (nat \<Rightarrow> pool_answer) \<Rightarrow> 'f bus_payload \<Rightarrow> ('f, 'w) prism_state \<Rightarrow> ('f, 'w) prism_state" where
  "onBusEvent e now ts ans p s =
     (case payload_alert now ts p of None \<Rightarrow> s | Some evt \<Rightarrow> snd (Dispatch e now ans evt s))"

subsection \<open>Life cycle\<close>

text \<open>Whether the engine is started and, with their multiplicity, the event types that it is subscribed to.\<close>

record prism_life =
  pl_started :: bool
  pl_subs :: "string list"
  pl_poolClosed :: bool

definition new_life :: prism_life where
  "new_life = \<lparr>pl_started = False, pl_subs = [], pl_poolClosed = False\<rparr>"

datatype prism_start_error = PrismBusNotConfigured | PrismRemediation | PrismSubscribe

text \<open>\<open>rem\<close> is the outcome of starting the remediation engine, \<open>oks\<close> are those of the three subscriptions.\<close>

definition prism_Start :: "bool \<Rightarrow> bool \<Rightarrow> bool \<times> bool \<times> bool \<Rightarrow> prism_life \<Rightarrow> prism_start_error option \<times> prism_life" where
  "prism_Start bus rem oks l =
     (if pl_started l then (None, l)
      else if \<not> bus then (Some PrismBusNotConfigured, l)
      else if \<not> rem then (Some PrismRemediation, l\<lparr>pl_started := False\<rparr>)
      else let (ok1, ok2, ok3) = oks;
               (ok, subs) = subscribe_all [(''telemetry.metric_exceeded'', ok1), (''telemetry.log_matched'', ok2), (''asset.status_changed'', ok3)] (pl_subs l)
           in (if ok then None else Some PrismSubscribe, l\<lparr>pl_started := True, pl_subs := subs\<rparr>))"

text \<open>
  Stopping waits for the wait group; \<open>wg\<close> is its value and \<open>None\<close> says that the context has ended first. The owned
  pool is shut down afterwards. The remediation and the rule engine are stopped too; they have models of their own, and
  their errors are only logged.
\<close>

definition prism_Stop :: "bool \<Rightarrow> int \<Rightarrow> prism_life \<Rightarrow> bool option \<times> prism_life" where
  "prism_Stop owned wg l =
     (if \<not> pl_started l then (Some True, l)
      else let l = l\<lparr>pl_started := False\<rparr>
           in if wg \<noteq> 0 then (None, l) else (Some True, l\<lparr>pl_poolClosed := pl_poolClosed l \<or> owned\<rparr>))"

text \<open>An event of the bus reaches the handler once for each subscription to its type.\<close>

definition prism_deliver ::
  "('f, 'w) prism_engine \<Rightarrow> gotime \<Rightarrow> gotime \<Rightarrow> (nat \<Rightarrow> pool_answer) \<Rightarrow> 'f bus_payload \<Rightarrow> prism_life \<Rightarrow> ('f, 'w) prism_state \<Rightarrow> ('f, 'w) prism_state" where
  "prism_deliver e now ts ans p l s = (onBusEvent e now ts ans p ^^ count_list (pl_subs l) (payload_type p)) s"

subsection \<open>Wiring\<close>

record alert_payload =
  ap_AlertID :: string
  ap_RuleID :: string
  ap_RuleName :: string
  ap_AssetID :: string
  ap_TenantID :: string
  ap_AlertType :: string
  ap_Severity :: string
  ap_Title :: string
  ap_Message :: string
  ap_TriggeredAt :: gotime

text \<open>The state of the parts that the default configuration installs, and the clock.\<close>

record ('n, 'p, 'v, 'f) prism_parts =
  pw_now :: gotime
  pw_dedup :: Dedup
  pw_matcher :: "('n, 'p, 'v) AlertMatcher"
  pw_db :: "'f alert_db"
  pw_faults :: "bool list"
  pw_published :: "alert_payload list"

definition dedup_guard :: "('f, ('n, 'p, 'v, 'f) prism_parts) prism_guard" where
  "dedup_guard evt w =
     (let (dec, d) = Process (pw_now w) (Some evt) (pw_dedup w) in (Ret dec, evt, w\<lparr>pw_dedup := d\<rparr>))"

definition DefaultGuards :: "('f, ('n, 'p, 'v, 'f) prism_parts) prism_guard list" where
  "DefaultGuards = [dedup_guard]"

definition rule_matcher ::
  "('n, 'p, 'f::zero) expr_lang \<Rightarrow> 'v asset_coding \<Rightarrow> ('f, ('n, 'p, 'v, 'f) prism_parts) prism_matcher" where
  "rule_matcher xl cd evt w =
     (let (res, a) = Match xl cd (pw_now w) evt (pw_matcher w) in (Ret res, w\<lparr>pw_matcher := a\<rparr>))"

definition alert_payload_of :: "'f Event \<Rightarrow> 'f alert_Record \<Rightarrow> alert_payload" where
  "alert_payload_of evt rec = \<lparr>ap_AlertID = FormatInt (ac_ID rec), ap_RuleID = FormatInt (ac_RuleID rec), ap_RuleName = ac_RuleName rec,
     ap_AssetID = FormatInt (AssetID evt), ap_TenantID = FormatInt (TenantID evt), ap_AlertType = evType evt,
     ap_Severity = ac_Severity rec, ap_Title = ac_RuleName rec, ap_Message = ac_Message rec, ap_TriggeredAt = ac_TriggeredAt rec\<rparr>"

definition defaultOnAlert ::
  "bool \<Rightarrow> 'f::zero Event \<Rightarrow> ('n, 'p, 'v, 'f) prism_parts \<Rightarrow> unit outcome \<times> ('n, 'p, 'v, 'f) prism_parts" where
  "defaultOnAlert bus evt w =
     (case RecordAlert (pw_faults w) (pw_now w) evt (Some (pw_db w)) of
        (None, d) \<Rightarrow> (Ret (), w\<lparr>pw_db := the d\<rparr>)
      | (Some recs, d) \<Rightarrow>
          (Ret (), w\<lparr>pw_db := the d, pw_published := pw_published w @ (if bus then map (alert_payload_of evt) recs else [])\<rparr>))"

text \<open>
  The configuration. Of the asset store, the logger and the options for building channels only what the operations above
  take as arguments matters; the remediation engine has a model of its own.
\<close>

record ('f, 'w) prism_Config =
  pc_DB :: bool
  pc_Bus :: bool
  pc_NotificationPoolSize :: int
  pc_Guards :: "('f, 'w) prism_guard option list"
  pc_PostGuardHook :: "('f Event \<Rightarrow> 'w \<Rightarrow> unit outcome \<times> 'f Event \<times> 'w) option"
  pc_DeadLetterHandler :: "('f Event \<Rightarrow> string \<Rightarrow> 'w \<Rightarrow> unit outcome \<times> 'w) option"
  pc_OnAlert :: "('f Event \<Rightarrow> 'w \<Rightarrow> unit outcome \<times> 'w) option"
  pc_RuleConfig :: alert_Config

definition newDispatchEngine ::
  "int \<Rightarrow> ('f, 'w) prism_Config \<Rightarrow> ('f Event \<Rightarrow> 'w \<Rightarrow> unit outcome \<times> 'w) \<Rightarrow>
   pool_error + (('f, 'w) prism_engine \<times> bool \<times> 'j notify_pool)" where
  "newDispatchEngine NumCPU cfg onAlert = New_prism NumCPU
     ([WithEventBus (pc_Bus cfg), WithNotificationPoolSize (pc_NotificationPoolSize cfg), WithOnAlert (Some onAlert)]
      @ (if pc_Guards cfg \<noteq> [] then [WithGuards (pc_Guards cfg)] else [])
      @ (if Option.is_none (pc_PostGuardHook cfg) then [] else [WithPostGuardHook (pc_PostGuardHook cfg)])
      @ (if Option.is_none (pc_DeadLetterHandler cfg) then [] else [WithDeadLetterHandler (pc_DeadLetterHandler cfg)]))"

definition loadEnabledChannels ::
  "('d \<Rightarrow> ('f, 'w) prism_channel option) \<Rightarrow> 'd list option \<Rightarrow> ('f, 'w) prism_engine \<Rightarrow> ('f, 'w) prism_engine option" where
  "loadEnabledChannels build defs e =
     map_option (\<lambda>ds. fold (\<lambda>c. AddChannel (Some c)) (List.map_filter build ds) e) defs"

definition resolveRuleConfig :: "alert_Rule list option \<Rightarrow> alert_Config \<Rightarrow> alert_Config" where
  "resolveRuleConfig listing cf = (if cf_Store cf = None then cf\<lparr>cf_Store := Some listing\<rparr> else cf)"

datatype config_error = ConfigNoDB | ConfigNoBus | ConfigMigrate | ConfigPool pool_error | ConfigListChannels | ConfigRemediation

text \<open>
  \<open>migrated\<close> and \<open>rem\<close> say whether the migration of the tables and the creation of the remediation engine succeed;
  \<open>defs\<close> and \<open>listing\<close> are the enabled channels and rules of the database. The result has the engine, its pool, and the
  rule engine that was registered.
\<close>

definition NewFromConfig ::
  "('n, 'p, 'f::zero) expr_lang \<Rightarrow> 'v asset_coding \<Rightarrow> int \<Rightarrow> bool \<Rightarrow> ('d \<Rightarrow> ('f, ('n, 'p, 'v, 'f) prism_parts) prism_channel option) \<Rightarrow>
   'd list option \<Rightarrow> alert_Rule list option \<Rightarrow> bool \<Rightarrow> ('f, ('n, 'p, 'v, 'f) prism_parts) prism_Config \<Rightarrow>
   config_error + (('f, ('n, 'p, 'v, 'f) prism_parts) prism_engine \<times> 'j notify_pool \<times> ('n, 'p) alert_engine option)" where
  "NewFromConfig xl cd NumCPU migrated build defs listing rem cfg =
     (if \<not> pc_DB cfg then Inl ConfigNoDB
      else if \<not> pc_Bus cfg then Inl ConfigNoBus
      else if \<not> migrated then Inl ConfigMigrate
      else case newDispatchEngine NumCPU cfg (case pc_OnAlert cfg of None \<Rightarrow> defaultOnAlert (pc_Bus cfg) | Some f \<Rightarrow> f) of
             Inl err \<Rightarrow> Inl (ConfigPool err)
           | Inr (e, _, p) \<Rightarrow>
               (case loadEnabledChannels build defs e of
                  None \<Rightarrow> Inl ConfigListChannels
                | Some e \<Rightarrow>
                    let g = RegisterRules xl (resolveRuleConfig listing (pc_RuleConfig cfg));
                        e = (if Option.is_none g then e else AddRule (Some (rule_matcher xl cd)) e)
                    in if \<not> rem then Inl ConfigRemediation else Inr (e, p, g)))"

text \<open>The configuration of the server, \<^verbatim>\<open>internal/service/prism.go\<close>.\<close>

definition server_Config :: "int \<Rightarrow> duration \<Rightarrow> ('f, ('n, 'p, 'v, 'f) prism_parts) prism_Config" where
  "server_Config sz ival = \<lparr>pc_DB = True, pc_Bus = True, pc_NotificationPoolSize = sz, pc_Guards = map Some DefaultGuards,
     pc_PostGuardHook = None, pc_DeadLetterHandler = None, pc_OnAlert = None,
     pc_RuleConfig = \<lparr>cf_Store = None, cf_Rules = [], cf_EvalInterval = ival\<rparr>\<rparr>"

subsection \<open>Where an alert goes\<close>

text \<open>What the steps of a dispatch leave of the account.\<close>

definition same_account :: "('f, 'w) prism_state \<Rightarrow> ('f, 'w) prism_state \<Rightarrow> bool" where
  "same_account s s' \<longleftrightarrow> ps_wg s' = ps_wg s \<and> ps_jobs s' = ps_jobs s \<and> ps_sent s' = ps_sent s \<and> ps_dead s' = ps_dead s"

lemma recordAlert_account [simp]: "same_account s0 (recordAlert e evt s) = same_account s0 s"
  by (simp add: recordAlert_def same_account_def split: option.splits)

lemma recordAlert_recorded: "ps_recorded (recordAlert e evt s) = ps_recorded s @ (if pe_onAlert e = None then [] else [evt])"
  by (simp add: recordAlert_def split: option.splits)

lemma same_account_world [simp]: "same_account s0 (s\<lparr>ps_world := w\<rparr>) = same_account s0 s" "same_account s0 (s\<lparr>ps_counter := c\<rparr>) = same_account s0 s"
  by (simp_all add: same_account_def)

lemma same_account_refl [simp]: "same_account s s"
  by (simp add: same_account_def)

definition keeps_id :: "('f, 'w) prism_engine \<Rightarrow> bool" where
  "keeps_id e \<longleftrightarrow> (\<forall>g\<in>set (pe_guards e). \<forall>evt w. EventID (fst (snd (g evt w))) = EventID evt) \<and>
     (case pe_hook e of None \<Rightarrow> True | Some h \<Rightarrow> \<forall>evt w. EventID (fst (snd (h evt w))) = EventID evt)"

lemma guard_process_id: "\<forall>evt w. EventID (fst (snd (g evt w))) = EventID evt \<Longrightarrow> EventID (fst (snd (guard_process g evt w))) = EventID evt"
  by (auto simp: guard_process_def split: prod.splits outcome.splits) (metis fst_conv snd_conv)+

text \<open>The guards: they stop the alert, which is recorded once, or let it pass unrecorded.\<close>

lemma guards_account:
  assumes "runGovernanceGuards e eid gs evt s = (stop, evt', s')"
  shows "same_account s s'"
    "stop = None \<Longrightarrow> ps_recorded s' = ps_recorded s"
    "stop = Some res \<Longrightarrow> ps_recorded s' = ps_recorded s @ (if pe_onAlert e = None then [] else [evt']) \<and> \<not> dr_Accepted res \<and>
       dr_EventID res = eid \<and> dr_Channels res = []"
    "\<forall>g\<in>set gs. \<forall>evt w. EventID (fst (snd (g evt w))) = EventID evt \<Longrightarrow> EventID evt' = EventID evt"
proof -
  have "same_account s s' \<and> (stop = None \<longrightarrow> ps_recorded s' = ps_recorded s) \<and>
    (\<forall>res. stop = Some res \<longrightarrow> ps_recorded s' = ps_recorded s @ (if pe_onAlert e = None then [] else [evt']) \<and> \<not> dr_Accepted res \<and>
       dr_EventID res = eid \<and> dr_Channels res = []) \<and>
    ((\<forall>g\<in>set gs. \<forall>evt w. EventID (fst (snd (g evt w))) = EventID evt) \<longrightarrow> EventID evt' = EventID evt)"
    using assms
  proof (induction gs arbitrary: evt s)
    case (Cons g gs)
    obtain dec evt1 w where g: "guard_process g evt (ps_world s) = (dec, evt1, w)" by (metis prod_cases3)
    have id: "\<forall>evt w. EventID (fst (snd (g evt w))) = EventID evt \<Longrightarrow> EventID evt1 = EventID evt"
      using guard_process_id [of g evt "ps_world s"] by (simp add: g)
    show ?case
    proof (cases dec)
      case DecisionPass
      then show ?thesis using Cons.IH [of evt1 "s\<lparr>ps_world := w\<rparr>"] Cons.prems id by (auto simp: g same_account_def)
    qed (use Cons.prems id in \<open>auto simp: g recordAlert_recorded\<close>)
  qed simp
  then show "same_account s s'" "stop = None \<Longrightarrow> ps_recorded s' = ps_recorded s"
    "stop = Some res \<Longrightarrow> ps_recorded s' = ps_recorded s @ (if pe_onAlert e = None then [] else [evt']) \<and> \<not> dr_Accepted res \<and>
       dr_EventID res = eid \<and> dr_Channels res = []"
    "\<forall>g\<in>set gs. \<forall>evt w. EventID (fst (snd (g evt w))) = EventID evt \<Longrightarrow> EventID evt' = EventID evt"
    by blast+
qed

text \<open>The channels at which the pool gave a certain answer.\<close>

definition answered :: "(nat \<Rightarrow> pool_answer) \<Rightarrow> pool_answer \<Rightarrow> nat \<Rightarrow> 'c list \<Rightarrow> 'c list" where
  "answered ans a i cs = map snd (filter (\<lambda>ic. ans (fst ic) = a) (enumerate i cs))"

lemma answered_simps [simp]:
  "answered ans a i [] = []"
  "answered ans a i (c # cs) = (if ans i = a then [c] else []) @ answered ans a (Suc i) cs"
  by (simp_all add: answered_def)

lemma channels_account:
  "dispatchToChannels e ans i cs evt s = (names, s') \<Longrightarrow>
   ps_recorded s' = ps_recorded s \<and> (case names of
     Some ns \<Rightarrow> ns = map ch_Name cs \<and> (\<forall>k<length cs. ans (i + k) \<noteq> PoolPanicked) \<and>
       ps_jobs s' = ps_jobs s @ map (\<lambda>c. (c, evt)) (answered ans PoolQueued i cs) \<and>
       ps_sent s' = ps_sent s @ map (\<lambda>c. (ch_Name c, evt)) (answered ans PoolCallerRan i cs) \<and>
       ps_dead s' = ps_dead s @ (if pe_dead e = None then [] else map (\<lambda>c. (ch_Name c, evt)) (answered ans PoolRefused i cs)) \<and>
       ps_wg s' - int (length (ps_jobs s')) = ps_wg s - int (length (ps_jobs s))
   | None \<Rightarrow> ps_wg s' - int (length (ps_jobs s')) = ps_wg s - int (length (ps_jobs s)) + 1)"
proof (induction cs arbitrary: i s names s')
  case (Cons c cs)
  let ?s = "submit_job e (ans i) c evt s"
  have s: "ps_recorded ?s = ps_recorded s"
    "ps_jobs ?s = ps_jobs s @ (if ans i = PoolQueued then [(c, evt)] else [])"
    "ps_sent ?s = ps_sent s @ (if ans i = PoolCallerRan then [(ch_Name c, evt)] else [])"
    "ps_dead ?s = ps_dead s @ (if ans i = PoolRefused \<and> pe_dead e \<noteq> None then [(ch_Name c, evt)] else [])"
    "ps_wg ?s - int (length (ps_jobs ?s)) = ps_wg s - int (length (ps_jobs s)) + (if ans i = PoolPanicked then 1 else 0)"
    by (cases "ans i"; auto simp: submit_job_def run_send_def handleDeadLetter_def Let_def split: option.splits)+
  show ?case
  proof (cases "ans i = PoolPanicked")
    case True
    then show ?thesis using Cons.prems s by auto
  next
    case False
    obtain ns s2 where r: "dispatchToChannels e ans (Suc i) cs evt ?s = (ns, s2)" by fastforce
    then have names: "names = map_option ((#) (ch_Name c)) ns" "s' = s2" using Cons.prems False by (simp_all add: Let_def)
    have sh: "(\<forall>k<Suc (length cs). ans (i + k) \<noteq> PoolPanicked) \<longleftrightarrow> (\<forall>k<length cs. ans (Suc i + k) \<noteq> PoolPanicked)"
      using False by (auto simp: less_Suc_eq_0_disj)
    show ?thesis
      using Cons.IH [OF r] s False by (cases ns; cases "ans i") (auto simp: names sh)
  qed
qed simp


definition balance :: "('f, 'w) prism_state \<Rightarrow> int" where
  "balance s = ps_wg s - int (length (ps_jobs s))"

text \<open>An alert that was accepted: recorded once, and each channel is served in the way the pool answered.\<close>

definition served ::
  "('f, 'w) prism_engine \<Rightarrow> (nat \<Rightarrow> pool_answer) \<Rightarrow> 'f Event \<Rightarrow> DispatchResult \<Rightarrow> ('f, 'w) prism_state \<Rightarrow> ('f, 'w) prism_state \<Rightarrow> bool" where
  "served e ans evt res s s' \<longleftrightarrow>
     ps_recorded s' = ps_recorded s @ (if pe_onAlert e = None then [] else [evt]) \<and>
     dr_Channels res = map ch_Name (pe_channels e) \<and> (\<forall>k<length (pe_channels e). ans k \<noteq> PoolPanicked) \<and>
     ps_jobs s' = ps_jobs s @ map (\<lambda>c. (c, evt)) (answered ans PoolQueued 0 (pe_channels e)) \<and>
     ps_sent s' = ps_sent s @ map (\<lambda>c. (ch_Name c, evt)) (answered ans PoolCallerRan 0 (pe_channels e)) \<and>
     ps_dead s' = ps_dead s @ (if pe_dead e = None then [] else map (\<lambda>c. (ch_Name c, evt)) (answered ans PoolRefused 0 (pe_channels e)))"

text \<open>An alert that was not accepted: it reaches no channel, and is recorded at most once.\<close>

definition withheld ::
  "'f Event \<Rightarrow> DispatchResult \<Rightarrow> ('f, 'w) prism_state \<Rightarrow> ('f, 'w) prism_state \<Rightarrow> bool" where
  "withheld evt res s s' \<longleftrightarrow>
     dr_Channels res = [] \<and> ps_jobs s' = ps_jobs s \<and> ps_sent s' = ps_sent s \<and> ps_dead s' = ps_dead s \<and>
     ps_recorded s' \<in> {ps_recorded s, ps_recorded s @ [evt]}"

lemma settle_violations_id [simp]: "EventID (settle_violations vs ms evt) = EventID evt"
  by (simp add: settle_violations_def)

lemma dispatch_rules_account:
  assumes "dispatch_rules e ans eid evt s = (r, s')"
  shows "\<exists>evt'. EventID evt' = EventID evt \<and> (case r of
     None \<Rightarrow> balance s' = balance s + 1
   | Some res \<Rightarrow> balance s' = balance s \<and> dr_EventID res = eid \<and>
       (if dr_Accepted res then served e ans evt' res s s' else withheld evt' res s s'))"
proof -
  obtain vs matched ms w where ev: "evaluateRules (pe_rules e) evt (ps_world s) = (vs, matched, ms, w)" by (metis prod_cases4)
  let ?evt = "settle_violations vs ms evt" and ?s = "recordAlert e (settle_violations vs ms evt) (s\<lparr>ps_world := w\<rparr>)"
  have rec: "ps_recorded ?s = ps_recorded s @ (if pe_onAlert e = None then [] else [?evt])" "same_account s ?s"
    by (simp_all add: recordAlert_recorded)
  consider (no) "\<not> (pe_rules e = [] \<or> matched)" | (none) "pe_rules e = [] \<or> matched" "pe_channels e = []"
    | (some) "pe_rules e = [] \<or> matched" "pe_channels e \<noteq> []" by blast
  then show ?thesis
  proof cases
    case no
    then show ?thesis using assms by (intro exI [of _ evt]) (auto simp: dispatch_rules_def ev Let_def balance_def withheld_def)
  next
    case none
    then show ?thesis using assms rec
      by (intro exI [of _ ?evt]) (auto simp: dispatch_rules_def ev Let_def balance_def served_def same_account_def)
  next
    case some
    obtain names s2 where d: "dispatchToChannels e ans 0 (pe_channels e) ?evt ?s = (names, s2)" by fastforce
    then have r: "s' = s2" "r = map_option (\<lambda>ns. \<lparr>dr_Accepted = True, dr_EventID = eid, dr_Channels = ns, dr_Message = ''alert accepted''\<rparr>) names"
      using assms some by (auto simp: dispatch_rules_def ev Let_def)
    show ?thesis using channels_account [OF d] rec
      by (intro exI [of _ ?evt]) (cases names; auto simp: r balance_def served_def same_account_def)
  qed
qed

lemma hook_account:
  assumes "postGuardHook e evt s = (evt', s')"
  shows "same_account s s'" "ps_recorded s' = ps_recorded s" "keeps_id e \<Longrightarrow> EventID evt' = EventID evt"
  using assms by (auto simp: postGuardHook_def keeps_id_def split: option.splits prod.splits) (metis fst_conv snd_conv)+

lemma Dispatch_account:
  assumes "Dispatch e ts ans evt s = (r, s')"
  shows "\<exists>evt'. case r of
     None \<Rightarrow> balance s' = balance s + 1
   | Some res \<Rightarrow> balance s' = balance s \<and> (keeps_id e \<longrightarrow> EventID evt' = dr_EventID res) \<and>
       (if dr_Accepted res then served e ans evt' res s s' else withheld evt' res s s')"
proof -
  obtain eid c where i: "newEventID ts (ps_counter s) = (eid, c)" by fastforce
  let ?e1 = "(default_violation evt)\<lparr>EventID := eid\<rparr>" and ?s1 = "s\<lparr>ps_counter := c\<rparr>"
  obtain stop evt2 s2 where g: "runGovernanceGuards e eid (pe_guards e) ?e1 ?s1 = (stop, evt2, s2)" by (metis prod_cases3)
  note ga = guards_account [OF g]
  have s2: "same_account s s2" using ga(1) by (simp add: same_account_def)
  have id2: "keeps_id e \<Longrightarrow> EventID evt2 = eid" using ga(4) by (simp add: keeps_id_def)
  show ?thesis
  proof (cases stop)
    case (Some res)
    then have r: "r = Some res" "s' = s2" using assms by (simp_all add: Dispatch_def i g)
    show ?thesis using ga(3) [OF Some] s2 id2
      by (intro exI [of _ evt2]) (auto simp: r balance_def withheld_def same_account_def)
  next
    case None
    obtain evt3 s3 where h: "postGuardHook e evt2 s2 = (evt3, s3)" by fastforce
    have s3: "same_account s s3" "ps_recorded s3 = ps_recorded s" "balance s3 = balance s"
      using hook_account [OF h] s2 ga(2) [OF None] by (simp_all add: same_account_def balance_def)
    have "dispatch_rules e ans eid evt3 s3 = (r, s')" using assms None by (simp add: Dispatch_def i g h)
    from dispatch_rules_account [OF this] obtain evt' where e': "EventID evt' = EventID evt3" and c: "case r of
       None \<Rightarrow> balance s' = balance s3 + 1
     | Some res \<Rightarrow> balance s' = balance s3 \<and> dr_EventID res = eid \<and>
         (if dr_Accepted res then served e ans evt' res s3 s' else withheld evt' res s3 s')" by blast
    have eq: "served e ans evt' res s3 s' = served e ans evt' res s s'" "withheld evt' res s3 s' = withheld evt' res s s'" for res
      using s3 by (simp_all add: served_def withheld_def same_account_def)
    show ?thesis using c e' id2 hook_account(3) [OF h] s3(3)
      by (intro exI [of _ evt']) (auto simp: eq split: option.splits)
  qed
qed


subsection \<open>Stopping\<close>

text \<open>
  The histories of an engine: dispatches, in any configuration, and workers that run jobs; the state of the callbacks
  may change in between. \<open>n\<close> counts the dispatches that a panicking submission has cut short.
\<close>

inductive prism_reach :: "nat \<Rightarrow> ('f, 'w) prism_state \<Rightarrow> bool" where
  prism_new: "prism_reach 0 (new_prism w seed)"
| prism_dispatch: "prism_reach n s \<Longrightarrow> Dispatch e ts ans evt s = (r, s') \<Longrightarrow> prism_reach (if r = None then Suc n else n) s'"
| prism_job: "prism_reach n s \<Longrightarrow> prism_reach n (run_job i s)"
| prism_world: "prism_reach n s \<Longrightarrow> prism_reach n (s\<lparr>ps_world := w\<rparr>)"

lemma run_job_balance: "balance (run_job i s) = balance s"
  by (simp add: run_job_def run_send_def balance_def)

lemma prism_balance: "prism_reach n s \<Longrightarrow> balance s = int n"
proof (induction rule: prism_reach.induct)
  case (prism_dispatch n s e ts ans evt r s')
  then show ?case using Dispatch_account [OF prism_dispatch.hyps(2)] by (cases r) auto
next
  case (prism_job n s i)
  then show ?case by (simp add: run_job_balance)
qed (simp_all add: new_prism_def balance_def)

text \<open>C35. In every history the wait group counts the accepted notifications that have not run yet, and one more for each
  dispatch that a panicking submission has cut short; it is never negative. Stopping a started engine therefore
  completes exactly when every accepted notification has been sent, and never again once a submission has panicked.\<close>

theorem stop_drains:
  assumes "prism_reach n s" "pl_started l"
  shows "0 \<le> ps_wg s \<and> ps_wg s = int (length (ps_jobs s)) + int n \<and>
    (fst (prism_Stop owned (ps_wg s) l) = Some True \<longleftrightarrow> ps_jobs s = [] \<and> n = 0)"
  using prism_balance [OF assms(1)] assms(2) by (auto simp: balance_def prism_Stop_def Let_def)


definition demo_channel :: "string \<Rightarrow> (int, unit) prism_channel" where
  "demo_channel nm = \<lparr>ch_Name = nm, ch_Send = (\<lambda>_ w. (Ret True, w))\<rparr>"

definition demo_engine :: "(int, unit) prism_engine" where
  "demo_engine = \<lparr>pe_rules = [], pe_channels = [demo_channel ''mail'', demo_channel ''hook''], pe_guards = [],
     pe_onAlert = Some (\<lambda>_ w. (Ret (), w)), pe_hook = None, pe_dead = Some (\<lambda>_ _ w. (Ret (), w))\<rparr>"

definition demo_answers :: "nat \<Rightarrow> pool_answer" where
  "demo_answers i = (if i = 0 then PoolQueued else PoolRefused)"

definition demo_dispatch :: "DispatchResult option \<times> (int, unit) prism_state" where
  "demo_dispatch = Dispatch demo_engine 255 demo_answers (demo_event 95) (new_prism () 14)"

definition accepted_result :: DispatchResult where
  "accepted_result = \<lparr>dr_Accepted = True, dr_EventID = ''ff-f'', dr_Channels = [''mail'', ''hook''], dr_Message = ''alert accepted''\<rparr>"

lemma demo_id: "newEventID 255 14 = (''ff-f'', 15)"
  by (simp add: newEventID_def hex_int_def hex_nat.simps hex_digit_def)

lemma demo_dispatch_run:
  "Dispatch demo_engine 255 demo_answers (demo_event 95) (new_prism () 14) = (Some accepted_result, snd demo_dispatch)"
proof -
  have "fst demo_dispatch = Some accepted_result"
    by (simp add: demo_dispatch_def Dispatch_def demo_id new_prism_def demo_engine_def postGuardHook_def dispatch_rules_def
      demo_answers_def accepted_result_def demo_channel_def Let_def)
  then show ?thesis by (simp only: demo_dispatch_def [symmetric] prod_eq_iff fst_conv snd_conv)
qed


definition started_life :: prism_life where
  "started_life = snd (prism_Start True True (True, True, True) new_life)"

theorem stop_drains_witness:
  "ps_wg (snd demo_dispatch) = 1 \<and> fst (prism_Stop True (ps_wg (snd demo_dispatch)) started_life) = None \<and>
   fst (prism_Stop True (ps_wg (run_job 0 (snd demo_dispatch))) started_life) = Some True"
proof -
  have "prism_reach (if Some accepted_result = None then Suc 0 else 0) (snd demo_dispatch)"
    by (rule prism_dispatch [OF prism_new demo_dispatch_run])
  then have r: "prism_reach 0 (snd demo_dispatch)" by simp
  have l: "pl_started started_life" by code_simp
  have j: "length (ps_jobs (snd demo_dispatch)) = 1"
    by (simp add: demo_dispatch_def Dispatch_def demo_id new_prism_def demo_engine_def postGuardHook_def dispatch_rules_def
      demo_answers_def submit_job_def recordAlert_def handleDeadLetter_def Let_def)
  have "ps_jobs (run_job 0 (snd demo_dispatch)) = []" using j by (simp add: run_job_def run_send_def)
  then show ?thesis
    using stop_drains [OF r l, of True] stop_drains [OF prism_job [OF r, of 0] l, of True] j l by (auto simp: prism_Stop_def Let_def)
qed

subsection \<open>Identifiers are distinct\<close>

definition hex_value :: "char \<Rightarrow> nat" where
  "hex_value c = (let n = of_char c in if n \<le> (57::nat) then n - 48 else n - 87)"

lemma hex_value_digit: "d < 16 \<Longrightarrow> hex_value (hex_digit d) = d"
  by (auto simp: less_Suc_eq numeral_eq_Suc hex_value_def hex_digit_def)

lemma hex_digit_plain: "d < 16 \<Longrightarrow> hex_digit d \<noteq> CHR ''-''"
  by (auto simp: less_Suc_eq numeral_eq_Suc hex_digit_def)

lemma hex_nat_value: "foldl (\<lambda>a c. 16 * a + hex_value c) 0 (hex_nat n) = n"
proof (induction n rule: hex_nat.induct)
  case (1 n)
  then show ?case by (subst hex_nat.simps) (simp add: hex_value_digit)
qed

lemma hex_nat_plain: "CHR ''-'' \<notin> set (hex_nat n)"
proof (induction n rule: hex_nat.induct)
  case (1 n)
  have "hex_digit (n mod 16) \<noteq> CHR ''-''" by (rule hex_digit_plain) simp
  then show ?case using 1 hex_digit_plain [of n] by (subst hex_nat.simps) auto
qed

lemma append_sep_inj:
  assumes "c \<notin> set y" "c \<notin> set y'" "x @ c # y = x' @ c # y'"
  shows "y = y'"
proof -
  have "takeWhile (\<lambda>d. d \<noteq> c) (rev (u @ c # v)) = rev v" if "c \<notin> set v" for u v
    using that takeWhile_append2 [of "rev v" "\<lambda>d. d \<noteq> c" "c # rev u"] by auto
  from this [OF assms(1), of x] this [OF assms(2), of x'] show ?thesis using assms(3) by simp
qed

lemma newEventID_counter: "fst (newEventID ts c) = fst (newEventID ts' c') \<Longrightarrow> c = c'"
proof -
  assume "fst (newEventID ts c) = fst (newEventID ts' c')"
  then have "hex_nat (unat (c + 1)) = hex_nat (unat (c' + 1))"
    using append_sep_inj [OF hex_nat_plain hex_nat_plain, of "hex_int ts" _ "hex_int ts'"] by (simp add: newEventID_def)
  then have "unat (c + 1) = unat (c' + 1)" by (metis hex_nat_value)
  then have "c + 1 = c' + 1" by (simp only: word_unat_eq_iff)
  then show "c = c'" by simp
qed

text \<open>The identifiers of successive alerts, with the clock readings \<open>ts\<close>.\<close>

fun event_ids :: "int list \<Rightarrow> 64 word \<Rightarrow> string list" where
  "event_ids [] c = []"
| "event_ids (t # ts) c = (let (i, c) = newEventID t c in i # event_ids ts c)"

lemma event_ids_nth: "k < length ts \<Longrightarrow> event_ids ts c ! k = fst (newEventID (ts ! k) (c + of_nat k))"
  by (induction ts arbitrary: c k) (auto simp: nth_Cons newEventID_def Let_def add.assoc split: nat.splits)

lemma event_ids_length [simp]: "length (event_ids ts c) = length ts"
  by (induction ts arbitrary: c) (simp_all add: case_prod_beta Let_def)

text \<open>Whatever the clock does, and wherever the counter starts, no two of up to \<open>2^64\<close> alerts of a process get the
  same identifier, although the counter wraps around.\<close>

theorem event_ids_distinct:
  assumes "length ts \<le> 2 ^ 64"
  shows "distinct (event_ids ts c)"
proof (subst distinct_conv_nth, intro allI impI)
  fix i j assume ij: "i < length (event_ids ts c)" "j < length (event_ids ts c)" "i \<noteq> j"
  show "event_ids ts c ! i \<noteq> event_ids ts c ! j"
  proof
    assume "event_ids ts c ! i = event_ids ts c ! j"
    then have "c + of_nat i = c + of_nat j" using ij by (auto simp: event_ids_nth dest: newEventID_counter)
    then have "(of_nat i :: 64 word) = of_nat j" by simp
    then have "i mod 2 ^ 64 = j mod 2 ^ 64" by (simp add: word_of_nat_eq_iff take_bit_eq_mod)
    then show False using ij assms by simp
  qed
qed

theorem event_ids_distinct_witness: "distinct (event_ids [7, 7, 3] (- 2))"
  by (rule event_ids_distinct) simp


subsection \<open>Duplicates of alerts that no rule wants\<close>

text \<open>What the theorems below need to know of an engine with the configuration of the server.\<close>

definition server_engine :: "('n, 'p, 'f::zero) expr_lang \<Rightarrow> 'v asset_coding \<Rightarrow> ('f, ('n, 'p, 'v, 'f) prism_parts) prism_engine \<Rightarrow> bool" where
  "server_engine xl cd e \<longleftrightarrow> pe_rules e = [rule_matcher xl cd] \<and> pe_guards e = [dedup_guard] \<and>
     pe_onAlert e = Some (defaultOnAlert True) \<and> pe_hook e = None"

lemma AddChannels_fields:
  "pe_rules (fold (\<lambda>c. AddChannel (Some c)) chs e) = pe_rules e" "pe_guards (fold (\<lambda>c. AddChannel (Some c)) chs e) = pe_guards e"
  "pe_onAlert (fold (\<lambda>c. AddChannel (Some c)) chs e) = pe_onAlert e" "pe_hook (fold (\<lambda>c. AddChannel (Some c)) chs e) = pe_hook e"
  "pe_channels (fold (\<lambda>c. AddChannel (Some c)) chs e) = pe_channels e @ chs"
  by (induction chs arbitrary: e) (simp_all add: AddChannel_def)

text \<open>The pool can always be created: the size that \<^verbatim>\<open>New\<close> asks for is positive.\<close>

lemma New_prism_total:
  "\<exists>e bus p. New_prism NumCPU opts = Inr (e, bus, p) \<and> pe_rules e = [] \<and> pe_channels e = [] \<and> (\<forall>q. p = OwnedPool q \<longrightarrow> 0 < workers (pcfg q))"
  by (auto simp: New_prism_def New_pool_def defaultNotificationPoolSize_def defaultQueueSize_def Let_def)

lemma notification_pool: "0 < n \<Longrightarrow> \<exists>q. New_pool NumCPU [WithWorkers n, WithRejectionPolicy RejectionCallerRuns] = Inr q"
  by (simp add: New_pool_def defaultQueueSize_def Let_def)

lemma newDispatchEngine_server:
  "\<exists>q :: 'j pool. newDispatchEngine NumCPU (server_Config sz ival) f = Inr (\<lparr>pe_rules = [], pe_channels = [], pe_guards = [dedup_guard],
     pe_onAlert = Some f, pe_hook = None, pe_dead = None\<rparr>, True, OwnedPool q)"
proof -
  obtain q :: "'j pool" where "New_pool NumCPU [WithWorkers (if sz \<le> 0 then 8 else sz), WithRejectionPolicy RejectionCallerRuns] = Inr q"
    by (rule exE [OF notification_pool [of "if sz \<le> 0 then 8 else sz" NumCPU]]) simp
  then have "newDispatchEngine NumCPU (server_Config sz ival) f = Inr (\<lparr>pe_rules = [], pe_channels = [], pe_guards = [dedup_guard],
     pe_onAlert = Some f, pe_hook = None, pe_dead = None\<rparr>, True, OwnedPool q)"
    by (cases "sz \<le> 0") (simp_all add: newDispatchEngine_def New_prism_def server_Config_def DefaultGuards_def defaultNotificationPoolSize_def Let_def List.map_filter_def)
  then show ?thesis by blast
qed

lemma NewFromConfig_server:
  fixes e :: "('f::zero, ('n, 'p, 'v, 'f) prism_parts) prism_engine" and p :: "'j notify_pool"
  assumes "NewFromConfig xl cd NumCPU migrated build defs listing rem (server_Config sz ival) = Inr (e, p, g)"
  shows "server_engine xl cd e" "\<exists>ds. defs = Some ds \<and> pe_channels e = List.map_filter build ds"
    "g = RegisterRules xl \<lparr>cf_Store = Some listing, cf_Rules = [], cf_EvalInterval = ival\<rparr>"
proof -
  let ?e = "\<lparr>pe_rules = [], pe_channels = [], pe_guards = [dedup_guard], pe_onAlert = Some (defaultOnAlert True), pe_hook = None,
    pe_dead = None\<rparr> :: ('f, ('n, 'p, 'v, 'f) prism_parts) prism_engine"
  obtain q :: "'j pool" where q: "newDispatchEngine NumCPU (server_Config sz ival) (defaultOnAlert True) = Inr (?e, True, OwnedPool q)"
    using newDispatchEngine_server by blast
  let ?c = "server_Config sz ival :: ('f, ('n, 'p, 'v, 'f) prism_parts) prism_Config"
  have c: "pc_DB ?c" "pc_Bus ?c" "pc_OnAlert ?c = None" "resolveRuleConfig listing (pc_RuleConfig ?c) = \<lparr>cf_Store = Some listing, cf_Rules = [], cf_EvalInterval = ival\<rparr>"
    by (simp_all add: server_Config_def resolveRuleConfig_def)
  have r: "RegisterRules xl \<lparr>cf_Store = Some listing, cf_Rules = [], cf_EvalInterval = ival\<rparr> \<noteq> None"
    by (simp add: RegisterRules_def IsEnabled_def Let_def)
  obtain ds where "defs = Some ds" "e = AddRule (Some (rule_matcher xl cd)) (fold (\<lambda>c. AddChannel (Some c)) (List.map_filter build ds) ?e)"
    and g: "g = RegisterRules xl \<lparr>cf_Store = Some listing, cf_Rules = [], cf_EvalInterval = ival\<rparr>"
    using assms r by (cases defs) (auto simp: NewFromConfig_def c q loadEnabledChannels_def Let_def Option.is_none_def split: if_splits)
  then show "server_engine xl cd e" "\<exists>ds. defs = Some ds \<and> pe_channels e = List.map_filter build ds"
    by (auto simp: server_engine_def AddRule_def AddChannels_fields)
  show "g = RegisterRules xl \<lparr>cf_Store = Some listing, cf_Rules = [], cf_EvalInterval = ival\<rparr>" by (rule g)
qed

lemma fingerprint_EventID [simp]: "fingerprint (evt\<lparr>EventID := i\<rparr>) = fingerprint evt"
  by (simp add: fingerprint_def)

text \<open>The engine of the server, by the decision of its guard.\<close>

lemma Dispatch_default:
  assumes "server_engine xl cd e" "newEventID ts (ps_counter s) = (eid, c)"
    "Process (pw_now (ps_world s)) (Some ((default_violation evt)\<lparr>EventID := eid\<rparr>)) (pw_dedup (ps_world s)) = (dec, d)"
  shows "Dispatch e ts ans evt s =
    (let evt = (default_violation evt)\<lparr>EventID := eid\<rparr>; s = s\<lparr>ps_counter := c, ps_world := (ps_world s)\<lparr>pw_dedup := d\<rparr>\<rparr>
     in case dec of
          DecisionPass \<Rightarrow> dispatch_rules e ans eid evt s
        | DecisionSuppress \<Rightarrow>
            (Some \<lparr>dr_Accepted = False, dr_EventID = eid, dr_Channels = [], dr_Message = ''alert suppressed by governance guard''\<rparr>, recordAlert e evt s)
        | DecisionAggregate \<Rightarrow>
            (Some \<lparr>dr_Accepted = False, dr_EventID = eid, dr_Channels = [], dr_Message = ''alert aggregated by governance guard''\<rparr>, recordAlert e evt s))"
  using assms
  by (simp add: Dispatch_def server_engine_def guard_process_def dedup_guard_def postGuardHook_def Let_def split: Decision.splits)

lemma Process_twice:
  assumes "Process now (Some evt) d = (DecisionPass, d')" "fingerprint evt' = fingerprint evt" "time_sub now' now < window d"
  shows "fst (Process now' (Some evt') d') = DecisionSuppress"
proof -
  have d': "seen d' (fingerprint evt) = Some now" "window d' = window d"
    using assms(1) by (auto simp: Process_def Let_def split: option.splits if_splits)
  then have "seen (maybeSweepLocked now' d') (fingerprint evt) = Some now"
    using assms(3) by (simp add: maybeSweepLocked_def)
  then show ?thesis using assms(2,3) d'(2) by (simp add: Process_def Let_def)
qed

lemma dispatch_rules_rejects:
  assumes "dispatch_rules e ans eid evt s = (Some res, s')" "\<not> dr_Accepted res"
  shows "ps_recorded s' = ps_recorded s" "ps_counter s' = ps_counter s" "\<exists>w. evaluateRules (pe_rules e) evt (ps_world s) = w \<and> ps_world s' = snd (snd (snd w))"
proof -
  obtain vs matched ms w where ev: "evaluateRules (pe_rules e) evt (ps_world s) = (vs, matched, ms, w)" by (metis prod_cases4)
  have "\<not> (pe_rules e = [] \<or> matched)"
    using assms by (auto simp: dispatch_rules_def ev Let_def split: if_splits prod.splits option.splits)
  then have "s' = s\<lparr>ps_world := w\<rparr>" using assms(1) by (auto simp: dispatch_rules_def ev Let_def)
  then show "ps_recorded s' = ps_recorded s" "ps_counter s' = ps_counter s"
    "\<exists>w. evaluateRules (pe_rules e) evt (ps_world s) = w \<and> ps_world s' = snd (snd (snd w))" by (simp_all add: ev)
qed

lemma rules_keep_dedup:
  "pw_dedup (snd (snd (snd (evaluateRules [rule_matcher xl cd] evt w)))) = pw_dedup w"
  "pw_db (snd (snd (snd (evaluateRules [rule_matcher xl cd] evt w)))) = pw_db w"
  by (simp_all add: rule_match_def rule_matcher_def case_prod_beta Let_def)

text \<open>C37. The engine with the configuration of the server. An alert that no rule wants is neither recorded nor sent. When it is
  raised again within the window of the deduplication, the guard, which runs before the rules and has noted it,
  suppresses it, and a suppressed alert is recorded: the repetition of an unwanted alert enters the history.\<close>

theorem rejected_duplicate_recorded:
  assumes "NewFromConfig xl cd NumCPU migrated build defs listing rem (server_Config sz ival) = Inr (e, p, g)"
    "Dispatch e ts ans evt s = (Some res, s1)" "dr_Message res = ''alert suppressed by rules''"
    "time_sub now' (pw_now (ps_world s)) < window (pw_dedup (ps_world s))"
    "Dispatch e ts' ans' evt (s1\<lparr>ps_world := (ps_world s1)\<lparr>pw_now := now'\<rparr>\<rparr>) = (res', s2)"
  shows "ps_recorded s1 = ps_recorded s \<and> pw_db (ps_world s1) = pw_db (ps_world s) \<and>
    res' \<noteq> None \<and> \<not> dr_Accepted (the res') \<and> (\<exists>evt'. ps_recorded s2 = ps_recorded s1 @ [evt'] \<and> fingerprint evt' = fingerprint (default_violation evt))"
proof -
  obtain eid c where i: "newEventID ts (ps_counter s) = (eid, c)" by fastforce
  let ?evt = "(default_violation evt)\<lparr>EventID := eid\<rparr>" and ?w = "ps_world s"
  obtain dec d where pr: "Process (pw_now ?w) (Some ?evt) (pw_dedup ?w) = (dec, d)" by fastforce
  note E = NewFromConfig_server(1) [OF assms(1)]
  note D = Dispatch_default [OF E i pr, of ans, unfolded Let_def]
  have pass: "dec = DecisionPass" using assms(2,3) by (cases dec) (auto simp: D)
  let ?s = "s\<lparr>ps_counter := c, ps_world := ?w\<lparr>pw_dedup := d\<rparr>\<rparr>"
  have run: "dispatch_rules e ans eid ?evt ?s = (Some res, s1)" using assms(2) by (simp add: D pass)
  have nacc: "\<not> dr_Accepted res"
    using run assms(3) by (auto simp: dispatch_rules_def Let_def split: prod.splits if_splits)
  note rej = dispatch_rules_rejects [OF run nacc]
  have rules: "pe_rules e = [rule_matcher xl cd]" using E by (simp add: server_engine_def)
  have w1: "pw_dedup (ps_world s1) = d" "pw_db (ps_world s1) = pw_db ?w"
    using rej(3) by (auto simp: rules rules_keep_dedup simp del: evaluateRules.simps)
  let ?s1 = "s1\<lparr>ps_world := (ps_world s1)\<lparr>pw_now := now'\<rparr>\<rparr>"
  obtain eid' c' where i': "newEventID ts' (ps_counter ?s1) = (eid', c')" by fastforce
  let ?evt' = "(default_violation evt)\<lparr>EventID := eid'\<rparr>"
  obtain dec' d' where pr': "Process (pw_now (ps_world ?s1)) (Some ?evt') (pw_dedup (ps_world ?s1)) = (dec', d')" by fastforce
  have "dec' = DecisionSuppress"
    using Process_twice [OF pr [unfolded pass], of ?evt' now'] assms(4) pr' w1(1) by simp
  then have "res' = Some \<lparr>dr_Accepted = False, dr_EventID = eid', dr_Channels = [], dr_Message = ''alert suppressed by governance guard''\<rparr>"
    "s2 = recordAlert e ?evt' (?s1\<lparr>ps_counter := c', ps_world := (ps_world ?s1)\<lparr>pw_dedup := d'\<rparr>\<rparr>)"
    using assms(5) Dispatch_default [OF E i' pr', of ans', unfolded Let_def] by simp_all
  then show ?thesis using rej(1) w1(2) E by (simp add: recordAlert_recorded server_engine_def)
qed


definition demo_parts :: "(tiny, tiny, unit, int) prism_parts" where
  "demo_parts = \<lparr>pw_now = 100, pw_dedup = NewDedup (60 * time_Second), pw_matcher = demo_matcher, pw_db = empty_alert_db, pw_faults = [], pw_published = []\<rparr>"

definition demo_built ::
  "config_error + ((int, (tiny, tiny, unit, int) prism_parts) prism_engine \<times> unit notify_pool \<times> (tiny, tiny) alert_engine option)" where
  "demo_built = NewFromConfig (tiny_lang [cpu_high]) no_assets 4 True (\<lambda>c. Some c) (Some []) (Some []) True (server_Config 0 time_Minute)"

definition demo_default :: "(int, (tiny, tiny, unit, int) prism_parts) prism_engine" where
  "demo_default = fst (projr demo_built)"

lemma demo_default_built:
  "NewFromConfig (tiny_lang [cpu_high]) no_assets 4 True (\<lambda>c. Some c) (Some []) (Some []) True (server_Config 0 time_Minute) =
   Inr (demo_default, fst (snd (projr demo_built)), snd (snd (projr demo_built)))"
proof -
  have "\<not> isl demo_built" by code_simp
  then show ?thesis unfolding demo_built_def [symmetric] demo_default_def by simp
qed

definition first_try :: "DispatchResult option \<times> (int, (tiny, tiny, unit, int) prism_parts) prism_state" where
  "first_try = Dispatch demo_default 255 (\<lambda>_. PoolQueued) (demo_event 85) (new_prism demo_parts 14)"

definition again_try :: "DispatchResult option \<times> (int, (tiny, tiny, unit, int) prism_parts) prism_state" where
  "again_try = Dispatch demo_default 256 (\<lambda>_. PoolQueued) (demo_event 85)
     ((snd first_try)\<lparr>ps_world := (ps_world (snd first_try))\<lparr>pw_now := 200\<rparr>\<rparr>)"

theorem rejected_duplicate_recorded_witness:
  "ps_recorded (snd first_try) = [] \<and> length (ps_recorded (snd again_try)) = 1"
proof -
  have m: "fst first_try \<noteq> None" "dr_Message (the (fst first_try)) = ''alert suppressed by rules''" by code_simp+
  then obtain res where res: "fst first_try = Some res" "dr_Message res = ''alert suppressed by rules''" by auto
  have r1: "Dispatch demo_default 255 (\<lambda>_. PoolQueued) (demo_event 85) (new_prism demo_parts 14) = (Some res, snd first_try)"
    using res(1) by (simp add: first_try_def prod_eq_iff)
  have r2: "Dispatch demo_default 256 (\<lambda>_. PoolQueued) (demo_event 85)
      ((snd first_try)\<lparr>ps_world := (ps_world (snd first_try))\<lparr>pw_now := 200\<rparr>\<rparr>) = (fst again_try, snd again_try)"
    by (simp add: again_try_def)
  have w: "time_sub 200 (pw_now (ps_world (new_prism demo_parts 14))) < window (pw_dedup (ps_world (new_prism demo_parts 14)))"
    by (simp add: new_prism_def demo_parts_def NewDedup_def time_sub_def time_defs)
  have "ps_recorded (new_prism demo_parts 14 :: (int, (tiny, tiny, unit, int) prism_parts) prism_state) = []" by (simp add: new_prism_def)
  then show ?thesis
    using rejected_duplicate_recorded [OF demo_default_built r1 res(2) w r2] by auto
qed


subsection \<open>Which rule an alert is attributed to\<close>

lemma default_violation_fields [simp]:
  "AssetID (default_violation evt) = AssetID evt" "TenantID (default_violation evt) = TenantID evt" "Violations (default_violation evt) \<noteq> []"
  by (simp_all add: default_violation_def)

lemma primaryViolation_EventID [simp]: "primaryViolation (evt\<lparr>EventID := i\<rparr>) = primaryViolation evt"
  by (simp add: primaryViolation_def)

lemma buildAlertEnv_EventID [simp]: "buildAlertEnv tags (evt\<lparr>EventID := i\<rparr>) res = buildAlertEnv tags evt res"
  by (simp add: buildAlertEnv_def)

lemma violations_of_rule: "v \<in> set (violations_of xl r env b) \<Longrightarrow> vRuleID v = ar_ID r \<and> vRuleName v = ar_Name r"
  by (auto simp: violations_of_def violation_of_def metric_violation_def split: option.splits)

text \<open>The event that the rules leave: its violations are those that the true rules measured, or else the payload's,
  in the name of the first true rule.\<close>

lemma settled_attribution:
  assumes "vs = concat (map (\<lambda>rp. violations_of xl (fst rp) env True) rps)" "ms = map (rule_identity \<circ> fst) rps" "rps \<noteq> []" "Violations evt \<noteq> []"
  shows "Violations (settle_violations vs ms evt) \<noteq> [] \<and>
    (\<forall>v\<in>set (Violations (settle_violations vs ms evt)). \<exists>rp\<in>set rps. vRuleID v = ar_ID (fst rp) \<and> vRuleName v = ar_Name (fst rp))"
proof (cases "vs = []")
  case True
  have "mr_ID (hd ms) = ar_ID (fst (hd rps)) \<and> mr_Name (hd ms) = ar_Name (fst (hd rps)) \<and> hd rps \<in> set rps" "ms \<noteq> []"
    using assms(2,3) by (simp_all add: hd_map rule_identity_def)
  then show ?thesis using True assms(4) by (auto simp: settle_violations_def)
next
  case False
  have "\<exists>rp\<in>set rps. vRuleID v = ar_ID (fst rp) \<and> vRuleName v = ar_Name (fst rp)" if "v \<in> set vs" for v
  proof -
    have "v \<in> (\<Union>rp\<in>set rps. set (violations_of xl (fst rp) env True))" using that unfolding assms(1) by simp
    then obtain rp where "rp \<in> set rps" "v \<in> set (violations_of xl (fst rp) env True)" by blast
    then show ?thesis using violations_of_rule by blast
  qed
  then show ?thesis using False by (simp add: settle_violations_def)
qed

lemma dispatch_rules_accepts:
  assumes "dispatch_rules e ans eid evt s = (Some res, s')" "dr_Accepted res" "evaluateRules (pe_rules e) evt (ps_world s) = (vs, matched, ms, w)"
  shows "pe_rules e = [] \<or> matched" "ps_recorded s' = ps_recorded s @ (if pe_onAlert e = None then [] else [settle_violations vs ms evt])"
proof -
  show m: "pe_rules e = [] \<or> matched" using assms by (auto simp: dispatch_rules_def Let_def split: if_splits)
  let ?evt = "settle_violations vs ms evt"
  obtain names s2 where dc: "dispatchToChannels e ans 0 (pe_channels e) ?evt (recordAlert e ?evt (s\<lparr>ps_world := w\<rparr>)) = (names, s2)" by fastforce
  show "ps_recorded s' = ps_recorded s @ (if pe_onAlert e = None then [] else [?evt])"
    using assms m dc channels_account [OF dc]
    by (cases "pe_channels e = []") (auto simp: dispatch_rules_def Let_def recordAlert_recorded)
qed

text \<open>C36. The engine with the configuration of the server, with rules loaded: an accepted alert is recorded once, with at least
  one violation, and every violation of it names a loaded rule that is enabled, belongs to the tenant of the alert or
  to all, and is true of it. No accepted alert goes into the history unattributed.\<close>

theorem alert_attributed:
  assumes "NewFromConfig xl cd NumCPU migrated build defs listing rem (server_Config sz ival) = Inr (e, p, g)"
    "w = ps_world s" "rules = en_rules (am_engine (pw_matcher w))"
    "alert_reach xl (am_engine (pw_matcher w))" "rules \<noteq> []"
    "Dispatch e ts ans evt s = (Some res, s')" "dr_Accepted res"
    "env = buildAlertEnv (cd_tags cd) (default_violation evt) (fst (loadAsset cd (pw_now w) (AssetID evt) (am_cache (pw_matcher w))))"
  shows "\<exists>evt'. ps_recorded s' = ps_recorded s @ [evt'] \<and> Violations evt' \<noteq> [] \<and>
    (\<forall>v\<in>set (Violations evt'). \<exists>rp\<in>set rules. rule_true xl (TenantID evt) env rp \<and> vRuleID v = ar_ID (fst rp) \<and> vRuleName v = ar_Name (fst rp))"
proof -
  obtain eid c where i: "newEventID ts (ps_counter s) = (eid, c)" by fastforce
  let ?evt = "(default_violation evt)\<lparr>EventID := eid\<rparr>"
  obtain dec d where pr: "Process (pw_now w) (Some ?evt) (pw_dedup w) = (dec, d)" by fastforce
  note E = NewFromConfig_server(1) [OF assms(1)]
  note D = Dispatch_default [OF E i pr [unfolded assms(2)], of ans, unfolded Let_def]
  have pass: "dec = DecisionPass" using assms(6,7) by (cases dec) (auto simp: D)
  let ?s = "s\<lparr>ps_counter := c, ps_world := w\<lparr>pw_dedup := d\<rparr>\<rparr>"
  have run: "dispatch_rules e ans eid ?evt ?s = (Some res, s')" using assms(2,6) by (simp add: D pass)
  obtain mres a where m: "Match xl cd (pw_now w) ?evt (pw_matcher w) = (mres, a)" by fastforce
  define rps where "rps = filter (rule_true xl (TenantID ?evt) env) rules"
  have mm: "(Forward mres \<longleftrightarrow> rules = [] \<or> rps \<noteq> []) \<and> Matched mres = map (rule_identity \<circ> fst) rps \<and>
      mrViolations mres = concat (map (\<lambda>rp. violations_of xl (fst rp) env True) rps) \<and>
      en_rules (am_engine a) = rules"
    unfolding rps_def assms(3) by (rule Match_core [OF assms(4) m]) (simp_all add: assms(8))
  have ev: "evaluateRules (pe_rules e) ?evt (w\<lparr>pw_dedup := d\<rparr>) =
      (if Forward mres then (mrViolations mres, True, Matched mres, w\<lparr>pw_dedup := d, pw_matcher := a\<rparr>)
       else ([], False, [], w\<lparr>pw_dedup := d, pw_matcher := a\<rparr>))"
    using E by (simp add: server_engine_def rule_match_def rule_matcher_def m)
  have acc: "Forward mres" "ps_recorded s' = ps_recorded s @ [settle_violations (mrViolations mres) (Matched mres) ?evt]"
    using dispatch_rules_accepts [OF run assms(7), of "if Forward mres then mrViolations mres else []" "Forward mres"
        "if Forward mres then Matched mres else []" "w\<lparr>pw_dedup := d, pw_matcher := a\<rparr>"] ev E
    by (auto simp: server_engine_def split: if_splits)
  let ?evt' = "settle_violations (mrViolations mres) (Matched mres) ?evt"
  have "rps \<noteq> []" using mm acc(1) assms(5) by simp
  then have "Violations ?evt' \<noteq> [] \<and> (\<forall>v\<in>set (Violations ?evt'). \<exists>rp\<in>set rps. vRuleID v = ar_ID (fst rp) \<and> vRuleName v = ar_Name (fst rp))"
    using mm by (intro settled_attribution) simp_all
  moreover have "rp \<in> set rps \<Longrightarrow> rp \<in> set rules \<and> rule_true xl (TenantID evt) env rp" for rp by (simp add: rps_def)
  ultimately show ?thesis using acc(2) by blast
qed

definition hot_try :: "DispatchResult option \<times> (int, (tiny, tiny, unit, int) prism_parts) prism_state" where
  "hot_try = Dispatch demo_default 255 (\<lambda>_. PoolQueued) (demo_event 95) (new_prism demo_parts 14)"

theorem alert_attributed_witness:
  "\<exists>evt'. ps_recorded (snd hot_try) = [evt'] \<and> Violations evt' \<noteq> [] \<and> (\<forall>v\<in>set (Violations evt'). vRuleID v = 7)"
proof -
  have m: "fst hot_try \<noteq> None" "dr_Accepted (the (fst hot_try))" by code_simp+
  then obtain res where res: "fst hot_try = Some res" "dr_Accepted res" by auto
  have r: "Dispatch demo_default 255 (\<lambda>_. PoolQueued) (demo_event 95) (new_prism demo_parts 14) = (Some res, snd hot_try)"
    using res(1) by (simp add: hot_try_def prod_eq_iff)
  have rules: "en_rules (am_engine (pw_matcher demo_parts)) = [(demo_rule 7 cpu_high, cpu_high)]" by code_simp
  have reach: "alert_reach (tiny_lang [cpu_high]) (am_engine (pw_matcher demo_parts))"
    by (simp add: demo_parts_def demo_matcher_def NewAlertMatcher_def reach_load reach_new)
  have w: "demo_parts = ps_world (new_prism demo_parts 14 :: (int, (tiny, tiny, unit, int) prism_parts) prism_state)"
    "ps_recorded (new_prism demo_parts 14 :: (int, (tiny, tiny, unit, int) prism_parts) prism_state) = []" by (simp_all add: new_prism_def)
  have "ar_ID (demo_rule 7 cpu_high) = 7" by (simp add: demo_rule_def)
  then show ?thesis
    using alert_attributed [OF demo_default_built w(1) refl reach _ r res(2) refl] by (auto simp: rules w(2))
qed

subsection \<open>Starting and stopping\<close>

text \<open>Stopping an engine does not end its subscriptions: a stopped engine goes on handling every event, and one
  that is started again handles every event twice. A start whose second or third subscription fails leaves the
  engine marked as started, so that starting it again reports success and subscribes to nothing.\<close>

theorem subscriptions_outlive_stop:
  "snd (prism_Stop owned 0 started_life) = l \<Longrightarrow>
   \<not> pl_started l \<and> prism_deliver e now ts ans p l s = onBusEvent e now ts ans p s \<and>
   prism_deliver e now ts ans p (snd (prism_Start True True (True, True, True) l)) s =
     onBusEvent e now ts ans p (onBusEvent e now ts ans p s) \<and>
   (\<forall>ok. prism_Start True True (True, True, True) (snd (prism_Start True True (True, False, ok) new_life)) =
     (None, \<lparr>pl_started = True, pl_subs = [''telemetry.metric_exceeded''], pl_poolClosed = False\<rparr>))"
  by (cases p) (auto simp: started_life_def prism_Start_def prism_Stop_def new_life_def prism_deliver_def Let_def numeral_2_eq_2)

theorem subscriptions_outlive_stop_witness:
  "length (ps_recorded (prism_deliver demo_engine 255 0 demo_answers
     (LogEvent \<lparr>lm_AssetID = ''3'', lm_TenantID = [], lm_Level = ''fatal'', lm_Keyword = ''oom'', lm_Content = ''oom'', lm_SourceIP = ''10.0.0.1''\<rparr>)
     (snd (prism_Stop True 0 started_life)) (new_prism () 14))) = 1"
proof -
  let ?p = "LogEvent \<lparr>lm_AssetID = ''3'', lm_TenantID = [], lm_Level = ''fatal'', lm_Keyword = ''oom'', lm_Content = ''oom'', lm_SourceIP = ''10.0.0.1''\<rparr>"
  have "length (ps_recorded (onBusEvent demo_engine 255 0 demo_answers ?p (new_prism () 14))) = 1"
    by (simp add: onBusEvent_def Dispatch_def demo_id new_prism_def demo_engine_def postGuardHook_def dispatch_rules_def
      demo_answers_def submit_job_def recordAlert_def handleDeadLetter_def Let_def)
  then show ?thesis using subscriptions_outlive_stop [OF refl, of True demo_engine 255 0 demo_answers ?p "new_prism () 14"] by simp
qed

end
