(* ===== verification/TaskSchedule.thy ===== *)
theory TaskSchedule
  imports Crontab
begin

text \<open>
  The schedules of tasks: \<^verbatim>\<open>pkg/scheduler/schedule.go\<close>, \<^verbatim>\<open>pkg/task/schedule.go\<close> and the
  functions of \<^verbatim>\<open>pkg/task/catchup.go\<close> that do not touch the engine (sleep windows and missed
  slots). Go times carry the location in which their wall clock is read, so a time is a pair here where
  the wall clock matters. The functions of the \<^verbatim>\<open>time\<close> package that need data from outside are
  collected in an environment.
\<close>

record go_env =
  env_LoadLocation :: "string \<Rightarrow> location option"
  env_Local :: location
  env_ParseDuration :: "string \<Rightarrow> duration option"

type_synonym ltime = "gotime \<times> location"

abbreviation UTC :: location where "UTC \<equiv> FixedZone 0"

subsection \<open>Schedules of the timing engine\<close>

datatype sched =
    CronSchedule "location Schedule"
  | ConstantIntervalSchedule duration
  | OneTimeSchedule gotime bool
  | ImmediateOnceSchedule bool
  | NeverSchedule

text \<open>\<^verbatim>\<open>Next\<close> with the new value of the flag \<^verbatim>\<open>fired\<close>.\<close>

fun sched_Next :: "location \<Rightarrow> sched \<Rightarrow> gotime \<Rightarrow> gotime \<times> sched" where
  "sched_Next Local (CronSchedule s) from = (Schedule_Next Local s from, CronSchedule s)"
| "sched_Next Local (ConstantIntervalSchedule d) from = (from + d, ConstantIntervalSchedule d)"
| "sched_Next Local (OneTimeSchedule at fired) from =
     (if fired then (zero_time, OneTimeSchedule at fired)
      else if from > at then (zero_time, OneTimeSchedule at True)
      else (at, OneTimeSchedule at fired))"
| "sched_Next Local (ImmediateOnceSchedule fired) from =
     (if fired then (zero_time, ImmediateOnceSchedule True) else (from, ImmediateOnceSchedule True))"
| "sched_Next Local NeverSchedule from = (zero_time, NeverSchedule)"

subsection \<open>Schedule strings\<close>

datatype ScheduleType = ScheduleTypeCron | ScheduleTypeInterval | ScheduleTypeEvent

datatype schedule_error = ParseIntervalError | IntervalNotPositive | ErrInvalidCronExpr cron_error

definition isIntervalSchedule :: "go_env \<Rightarrow> string \<Rightarrow> bool" where
  "isIntervalSchedule env s \<longleftrightarrow> env_ParseDuration env s \<noteq> None"

definition cron_Parse :: "go_env \<Rightarrow> string \<Rightarrow> cron_error + location Schedule" where
  "cron_Parse env = Parse (env_LoadLocation env) (env_Local env) (env_ParseDuration env)"

definition ClassifySchedule :: "go_env \<Rightarrow> string \<Rightarrow> ScheduleType \<times> duration \<times> schedule_error option" where
  "ClassifySchedule env s =
     (if s = [] then (ScheduleTypeEvent, 0, None)
      else if isIntervalSchedule env s then
        (case env_ParseDuration env s of
           None \<Rightarrow> (ScheduleTypeCron, 0, Some ParseIntervalError)
         | Some d \<Rightarrow> if d \<le> 0 then (ScheduleTypeInterval, d, Some IntervalNotPositive)
                     else (ScheduleTypeInterval, d, None))
      else case cron_Parse env s of
        Inl e \<Rightarrow> (ScheduleTypeCron, 0, Some (ErrInvalidCronExpr e))
      | Inr _ \<Rightarrow> (ScheduleTypeCron, 0, None))"

definition parseSchedule :: "go_env \<Rightarrow> string \<Rightarrow> schedule_error + sched" where
  "parseSchedule env s =
     (if s = [] then Inr NeverSchedule
      else if isIntervalSchedule env s then
        (case env_ParseDuration env s of
           None \<Rightarrow> Inl ParseIntervalError
         | Some d \<Rightarrow> if d \<le> 0 then Inl IntervalNotPositive else Inr (ConstantIntervalSchedule d))
      else case cron_Parse env s of
        Inl e \<Rightarrow> Inl (ErrInvalidCronExpr e)
      | Inr c \<Rightarrow> Inr (CronSchedule c))"

subsection \<open>Sleep windows\<close>

record SleepWindow =
  Start :: string
  End :: string
  Days :: "int list"

definition minutesPerDay :: int where "minutesPerDay = 24 * 60"

definition sleepWindowMaxCount :: nat where "sleepWindowMaxCount = 8"

definition parseTimeOfDay :: "string \<Rightarrow> int option" where
  "parseTimeOfDay s =
     (case Split s (CHR '':'') of
        [hh, mm] \<Rightarrow>
          if length hh \<noteq> 2 \<or> length mm \<noteq> 2 then None
          else (case Atoi hh of
              None \<Rightarrow> None
            | Some h \<Rightarrow> (case Atoi mm of
                None \<Rightarrow> None
              | Some m \<Rightarrow>
                  if h < 0 \<or> h > 24 \<or> m < 0 \<or> m \<ge> 60 \<or> h * 60 + m > minutesPerDay then None
                  else Some (h * 60 + m)))
      | _ \<Rightarrow> None)"

definition CatchupPolicySkip :: string where "CatchupPolicySkip = ''skip''"
definition CatchupPolicyOnce :: string where "CatchupPolicyOnce = ''once''"
definition CatchupPolicyAll :: string where "CatchupPolicyAll = ''all''"

datatype catchup_error =
    InvalidPolicy | TooManyWindows | InvalidStart nat | InvalidEnd nat | StartEqualsEnd nat
  | DaysRequired nat | DayOutOfRange nat int

definition validate_window :: "nat \<Rightarrow> SleepWindow \<Rightarrow> catchup_error option" where
  "validate_window i w =
     (case parseTimeOfDay (Start w) of
        None \<Rightarrow> Some (InvalidStart i)
      | Some s1 \<Rightarrow> (case parseTimeOfDay (End w) of
          None \<Rightarrow> Some (InvalidEnd i)
        | Some e1 \<Rightarrow>
            if s1 = e1 then Some (StartEqualsEnd i)
            else if length (Days w) = 0 then Some (DaysRequired i)
            else map_option (DayOutOfRange i) (find (\<lambda>d. d < 0 \<or> d > 6) (Days w))))"

fun validate_windows :: "nat \<Rightarrow> SleepWindow list \<Rightarrow> catchup_error option" where
  "validate_windows i [] = None"
| "validate_windows i (w # ws) =
     (case validate_window i w of Some e \<Rightarrow> Some e | None \<Rightarrow> validate_windows (i + 1) ws)"

definition ValidateCatchupConfig :: "string \<Rightarrow> SleepWindow list \<Rightarrow> catchup_error option" where
  "ValidateCatchupConfig policy windows =
     (if policy \<notin> {[], CatchupPolicySkip, CatchupPolicyOnce, CatchupPolicyAll} then Some InvalidPolicy
      else if length windows > sleepWindowMaxCount then Some TooManyWindows
      else validate_windows 0 windows)"

fun containsDay :: "int list \<Rightarrow> int \<Rightarrow> bool" where
  "containsDay [] day \<longleftrightarrow> False"
| "containsDay (d # ds) day \<longleftrightarrow> d = day \<or> containsDay ds day"

definition window_covers :: "int \<Rightarrow> int \<Rightarrow> SleepWindow \<Rightarrow> bool" where
  "window_covers tod wd w \<longleftrightarrow>
     (case (parseTimeOfDay (Start w), parseTimeOfDay (End w)) of
        (Some s1, Some e1) \<Rightarrow>
          if s1 = e1 \<or> length (Days w) = 0 then False
          else if s1 < e1 then containsDay (Days w) wd \<and> tod \<ge> s1 \<and> tod < e1
          else (containsDay (Days w) wd \<and> tod \<ge> s1) \<or> (containsDay (Days w) ((wd + 6) mod 7) \<and> tod < e1)
      | _ \<Rightarrow> False)"

fun sleep_loop :: "int \<Rightarrow> int \<Rightarrow> SleepWindow list \<Rightarrow> bool" where
  "sleep_loop tod wd [] \<longleftrightarrow> False"
| "sleep_loop tod wd (w # ws) \<longleftrightarrow> (if window_covers tod wd w then True else sleep_loop tod wd ws)"

definition InSleepWindow :: "SleepWindow list \<Rightarrow> ltime \<Rightarrow> bool" where
  "InSleepWindow windows at =
     (case at of (t, loc) \<Rightarrow>
        sleep_loop (Time_Hour loc t * 60 + Time_Minute loc t) (Time_Weekday loc t) windows)"

subsection \<open>Missed slots\<close>

definition catchupMaxSlots :: int where "catchupMaxSlots = 10"

definition catchupMaxIterations :: int where "catchupMaxIterations = 1000000"

text \<open>\<^verbatim>\<open>Next\<close> of a cron schedule on times with their location.\<close>

definition Next_at :: "location \<Rightarrow> location Schedule \<Rightarrow> ltime \<Rightarrow> ltime" where
  "Next_at Local s at =
     (let n = Schedule_Next Local s (fst at)
      in (n, if n = zero_time then UTC else case s of SpecSchedule ss \<Rightarrow> zone_of Local ss | _ \<Rightarrow> snd at))"

function missed_loop ::
  "(ltime \<Rightarrow> ltime) \<Rightarrow> gotime \<Rightarrow> ltime \<Rightarrow> int \<Rightarrow> ltime list \<Rightarrow> int \<Rightarrow> ltime list \<times> int \<times> int" where
  "missed_loop Next now nxt enumerated slots dropped =
     (if \<not> fst nxt > now \<and> enumerated < catchupMaxIterations then
        (if int (length slots) = catchupMaxSlots
         then missed_loop Next now (Next nxt) (enumerated + 1) (tl slots @ [nxt]) (dropped + 1)
         else missed_loop Next now (Next nxt) (enumerated + 1) (slots @ [nxt]) dropped)
      else (slots, dropped, enumerated))"
  by pat_completeness auto
termination
  by (relation "measure (\<lambda>(_, _, _, e, _, _). nat (catchupMaxIterations - e))") auto

declare missed_loop.simps [simp del]

definition missedSlots ::
  "go_env \<Rightarrow> string \<Rightarrow> ScheduleType \<Rightarrow> duration \<Rightarrow> ltime \<Rightarrow> gotime \<Rightarrow> ltime list \<times> int" where
  "missedSlots env schedule scheduleType interval watermark now =
     (if \<not> fst watermark < now then ([], 0)
      else case scheduleType of
        ScheduleTypeInterval \<Rightarrow>
          if interval \<le> 0 then ([], 0)
          else
            let total = go_div (time_sub now (fst watermark)) interval
            in if total \<le> 0 then ([], 0)
               else
                 let first = max (total - catchupMaxSlots + 1) 1;
                     slots = map (\<lambda>k. (fst watermark + wrap64 (k * interval), snd watermark)) [first..total]
                 in (slots, total - int (length slots))
      | ScheduleTypeCron \<Rightarrow>
          (case cron_Parse env schedule of
             Inl _ \<Rightarrow> ([], 0)
           | Inr s \<Rightarrow>
               let (slots, dropped, enumerated) =
                     missed_loop (Next_at (env_Local env) s) now (Next_at (env_Local env) s watermark) 0 [] 0
               in if enumerated = catchupMaxIterations then ([], enumerated) else (slots, dropped))
      | ScheduleTypeEvent \<Rightarrow> ([], 0))"

subsection \<open>Sleep windows as intervals of the week\<close>

text \<open>The minute of the week at a wall clock, and the length of a window in minutes.\<close>

definition minute_of_week :: "ltime \<Rightarrow> int" where
  "minute_of_week at =
     (case at of (t, loc) \<Rightarrow> Time_Weekday loc t * 1440 + Time_Hour loc t * 60 + Time_Minute loc t)"

definition window_start :: "SleepWindow \<Rightarrow> int" where
  "window_start w = the (parseTimeOfDay (Start w))"

definition window_length :: "SleepWindow \<Rightarrow> int" where
  "window_length w =
     (let l = the (parseTimeOfDay (End w)) - window_start w in if l < 0 then l + 1440 else l)"

lemma containsDay_set [simp]: "containsDay ds d \<longleftrightarrow> d \<in> set ds"
  by (induction ds) auto

lemma sleep_loop_ex: "sleep_loop tod wd ws \<longleftrightarrow> (\<exists>w\<in>set ws. window_covers tod wd w)"
  by (induction ws) auto

lemma parseTimeOfDay_range: "parseTimeOfDay s = Some m \<Longrightarrow> 0 \<le> m \<and> m \<le> 1440"
  by (auto simp: parseTimeOfDay_def minutesPerDay_def split: list.splits option.splits if_splits)

lemma validate_windows_None:
  "validate_windows i ws = None \<Longrightarrow> w \<in> set ws \<Longrightarrow>
   \<exists>s e. parseTimeOfDay (Start w) = Some s \<and> parseTimeOfDay (End w) = Some e \<and> s \<noteq> e \<and>
     Days w \<noteq> [] \<and> (\<forall>d\<in>set (Days w). 0 \<le> d \<and> d \<le> 6)"
proof (induction ws arbitrary: i)
  case (Cons v ws)
  then have "validate_window i v = None" "validate_windows (i + 1) ws = None" by (auto split: option.splits)
  then show ?case
    using Cons.IH [of "i + 1"] Cons.prems(2)
    by (auto simp: validate_window_def find_None_iff not_less split: option.splits if_splits)
qed simp

lemma mod_week: "- 10080 \<le> x \<Longrightarrow> x < 10080 \<Longrightarrow> x mod 10080 = (if x < 0 then x + 10080 else (x :: int))"
  using mod_add_self2 [of x 10080] by (auto simp: mod_pos_pos_trivial simp del: mod_add_self2)

lemma day_window:
  fixes s e tod wd d :: int
  assumes "0 \<le> s" "s < e" "e \<le> 1440" "0 \<le> tod" "tod < 1440" "0 \<le> wd" "wd \<le> 6" "0 \<le> d" "d \<le> 6"
  shows "(wd * 1440 + tod - (d * 1440 + s)) mod 10080 < e - s \<longleftrightarrow> d = wd \<and> s \<le> tod \<and> tod < e"
proof -
  have m: "(wd * 1440 + tod - (d * 1440 + s)) mod 10080 = (if wd * 1440 + tod - (d * 1440 + s) < 0
     then wd * 1440 + tod - (d * 1440 + s) + 10080 else wd * 1440 + tod - (d * 1440 + s))"
    by (rule mod_week) (use assms in linarith)+
  consider "d = wd" | "d + 1 \<le> wd" | "wd + 1 \<le> d" by linarith
  then show ?thesis unfolding m by cases (use assms in \<open>auto split: if_splits\<close>)
qed

lemma night_window:
  fixes s e tod wd d :: int
  assumes "0 \<le> e" "e < s" "s \<le> 1440" "0 \<le> tod" "tod < 1440" "0 \<le> wd" "wd \<le> 6" "0 \<le> d" "d \<le> 6"
  shows "(wd * 1440 + tod - (d * 1440 + s)) mod 10080 < e - s + 1440 \<longleftrightarrow>
     d = wd \<and> s \<le> tod \<or> d = (wd + 6) mod 7 \<and> tod < e"
proof -
  have m: "(wd * 1440 + tod - (d * 1440 + s)) mod 10080 = (if wd * 1440 + tod - (d * 1440 + s) < 0
     then wd * 1440 + tod - (d * 1440 + s) + 10080 else wd * 1440 + tod - (d * 1440 + s))"
    by (rule mod_week) (use assms in linarith)+
  have y: "(wd + 6) mod 7 = (if wd = 0 then 6 else wd - 1)"
    using assms(6,7) mod_pos_pos_trivial [of "wd - 1" 7] mod_add_self2 [of "wd - 1" 7] by (auto simp: add.commute)
  consider "d = wd" | "d + 1 = wd" | "d + 2 \<le> wd" | "wd = 0" "d = 6" | "wd + 1 \<le> d" "wd \<noteq> 0 \<or> d \<noteq> 6" by linarith
  then show ?thesis unfolding m y by cases (use assms in \<open>auto split: if_splits\<close>)
qed

lemma window_covers_week:
  assumes "parseTimeOfDay (Start w) = Some s" "parseTimeOfDay (End w) = Some e" "s \<noteq> e" "Days w \<noteq> []"
    "\<And>d. d \<in> set (Days w) \<Longrightarrow> 0 \<le> d \<and> d \<le> 6" "0 \<le> tod" "tod < 1440" "0 \<le> wd" "wd \<le> 6"
  shows "window_covers tod wd w \<longleftrightarrow>
    (\<exists>d\<in>set (Days w). (wd * 1440 + tod - (d * 1440 + window_start w)) mod 10080 < window_length w)"
proof (cases "s < e")
  case True
  then have "window_length w = e - s" "window_start w = s"
    by (simp_all add: window_length_def window_start_def assms(1,2))
  then show ?thesis
    using True assms day_window [of s e tod wd] parseTimeOfDay_range [OF assms(1)] parseTimeOfDay_range [OF assms(2)]
    by (auto simp: window_covers_def)
next
  case False
  then have "window_length w = e - s + 1440" "window_start w = s" "e < s"
    using assms(3) by (simp_all add: window_length_def window_start_def assms(1,2))
  then show ?thesis
    using assms night_window [of e s tod wd] parseTimeOfDay_range [OF assms(1)] parseTimeOfDay_range [OF assms(2)]
    by (auto simp: window_covers_def)
qed

lemma wall_clock_range:
  "0 \<le> Time_Hour loc t * 60 + Time_Minute loc t" "Time_Hour loc t * 60 + Time_Minute loc t < 1440"
  "0 \<le> Time_Weekday loc t" "Time_Weekday loc t \<le> 6"
proof -
  have "Time_Hour loc t \<le> 23" "0 \<le> Time_Hour loc t" "Time_Minute loc t \<le> 59" "0 \<le> Time_Minute loc t"
    by (simp_all add: Time_Hour_def Time_Minute_def)
  then show "0 \<le> Time_Hour loc t * 60 + Time_Minute loc t" "Time_Hour loc t * 60 + Time_Minute loc t < 1440" by linarith+
  show "0 \<le> Time_Weekday loc t" "Time_Weekday loc t \<le> 6"
    using pos_mod_bound [of 7 "t_day loc t + 1"] by (simp_all add: Time_Weekday_def weekday_of_def)
qed

text \<open>A validated list of sleep windows covers a moment exactly when the wall clock lies in one of
  the intervals of the week that the windows describe: for some window and one of its days the minutes
  that have passed since the window opened on that day, counted around the week, are fewer than its
  length. Midnight and the end of the week need no exception.\<close>

theorem InSleepWindow_week:
  assumes "ValidateCatchupConfig policy ws = None"
  shows "InSleepWindow ws at \<longleftrightarrow>
    (\<exists>w\<in>set ws. \<exists>d\<in>set (Days w). (minute_of_week at - (d * 1440 + window_start w)) mod 10080 < window_length w)"
proof (cases at)
  case (Pair t loc)
  have v: "validate_windows 0 ws = None" using assms by (auto simp: ValidateCatchupConfig_def split: if_splits)
  have "window_covers (Time_Hour loc t * 60 + Time_Minute loc t) (Time_Weekday loc t) w \<longleftrightarrow>
    (\<exists>d\<in>set (Days w). (minute_of_week at - (d * 1440 + window_start w)) mod 10080 < window_length w)"
    if "w \<in> set ws" for w
    using validate_windows_None [OF v that] window_covers_week [OF _ _ _ _ _ wall_clock_range, of w]
    by (auto simp: minute_of_week_def Pair add.assoc)
  then show ?thesis by (simp add: InSleepWindow_def Pair sleep_loop_ex)
qed

definition friday_night :: SleepWindow where
  "friday_night = \<lparr>Start = ''22:00'', End = ''06:00'', Days = [5]\<rparr>"

theorem InSleepWindow_week_witness:
  "ValidateCatchupConfig ''once'' [friday_night] = None \<and>
   InSleepWindow [friday_night] (Time_Date UTC 2024 1 20 5 59 0, UTC) \<and>
   \<not> InSleepWindow [friday_night] (Time_Date UTC 2024 1 20 6 0 0, UTC)"
proof -
  have v: "ValidateCatchupConfig ''once'' [friday_night] = None" by code_simp
  have "minute_of_week (Time_Date UTC 2024 1 20 5 59 0, UTC) = 6 * 1440 + 359"
    "minute_of_week (Time_Date UTC 2024 1 20 6 0 0, UTC) = 6 * 1440 + 360"
    "window_start friday_night = 1320" "window_length friday_night = 480" "Days friday_night = [5]"
    by code_simp+
  then show ?thesis using v InSleepWindow_week [OF v] by simp
qed

subsection \<open>The missed slots\<close>

text \<open>The slots that repeated calls of \<^verbatim>\<open>Next\<close> produce up to \<open>now\<close>, at most \<open>n\<close>.\<close>

fun slots_from :: "nat \<Rightarrow> ('a \<Rightarrow> 'a) \<Rightarrow> ('a \<Rightarrow> bool) \<Rightarrow> 'a \<Rightarrow> 'a list" where
  "slots_from 0 Next past t = []"
| "slots_from (Suc n) Next past t = (if past t then t # slots_from n Next past (Next t) else [])"

definition latest :: "'a list \<Rightarrow> 'a list" where
  "latest xs = drop (length xs - 10) xs"

lemma latest_tl: "length xs = 10 \<Longrightarrow> latest (tl xs @ ys) = latest (xs @ ys) \<or> ys = []"
  by (cases xs) (auto simp: latest_def neq_Nil_conv)

lemma slots_from_length: "length (slots_from n Next past t) \<le> n"
  by (induction n arbitrary: t) auto

lemma missed_loop_slots:
  assumes "int (length slots) \<le> 10" "0 \<le> e" "e \<le> catchupMaxIterations"
  shows "missed_loop Next now t e slots dropped =
    (let L = slots_from (nat (catchupMaxIterations - e)) Next (\<lambda>x. \<not> fst x > now) t
     in (latest (slots @ L), dropped + max 0 (int (length slots) + int (length L) - 10), e + int (length L)))"
  using assms
proof (induction Next now t e slots dropped rule: missed_loop.induct)
  case (1 Next now t e slots dropped)
  let ?p = "\<lambda>x :: ltime. \<not> fst x > now"
  show ?case
  proof (cases "\<not> fst t > now \<and> e < catchupMaxIterations")
    case False
    then have "slots_from (nat (catchupMaxIterations - e)) Next ?p t = []"
      by (cases "nat (catchupMaxIterations - e)") auto
    then show ?thesis using False 1(3) by (subst missed_loop.simps) (auto simp: latest_def)
  next
    case True
    then have n: "nat (catchupMaxIterations - e) = Suc (nat (catchupMaxIterations - (e + 1)))" by linarith
    define L where "L = slots_from (nat (catchupMaxIterations - (e + 1))) Next ?p (Next t)"
    have L: "slots_from (nat (catchupMaxIterations - e)) Next ?p t = t # L"
      unfolding n L_def using True by simp
    show ?thesis
    proof (cases "int (length slots) = catchupMaxSlots")
      case full: True
      then have "length slots = 10" by (simp add: catchupMaxSlots_def)
      moreover have "missed_loop Next now t e slots dropped =
        missed_loop Next now (Next t) (e + 1) (tl slots @ [t]) (dropped + 1)"
        using True full by (subst missed_loop.simps) simp
      ultimately show ?thesis
        using 1(1) [OF True full] 1(4) True latest_tl [of slots "t # L"]
        by (simp add: L Let_def flip: L_def)
    next
      case room: False
      have "missed_loop Next now t e slots dropped = missed_loop Next now (Next t) (e + 1) (slots @ [t]) dropped"
        using True room by (subst missed_loop.simps) simp
      then show ?thesis
        using 1(2) [OF True room] 1(3,4) True room
        by (simp add: L Let_def catchupMaxSlots_def flip: L_def)
    qed
  qed
qed

text \<open>
  Schedules whose \<^verbatim>\<open>Next\<close> is exact: a nonzero result is a firing time and none is skipped.
  Repeated calls then enumerate the firing times.
\<close>

locale exact_schedule = progressing_schedule Next usable
  for Next :: "'s \<Rightarrow> gotime \<Rightarrow> gotime" and usable :: "'s \<Rightarrow> gotime \<Rightarrow> bool" +
  fixes fires_at :: "'s \<Rightarrow> gotime \<Rightarrow> bool"
  assumes exact: "usable s t \<Longrightarrow> Next s t \<noteq> 0 \<Longrightarrow>
    fires_at s (Next s t) \<and> (\<forall>u. t < u \<and> u < Next s t \<longrightarrow> \<not> fires_at s u)"
begin

lemma enumerates:
  assumes "\<And>t. wm \<le> t \<Longrightarrow> t \<le> now \<Longrightarrow> usable s t \<and> Next s t \<noteq> 0" "wm \<le> now"
  defines "L n t \<equiv> slots_from n (Next s) (\<lambda>x. \<not> x > now) t"
  shows "sorted_wrt (<) (L n (Next s wm)) \<and> set (L n (Next s wm)) \<subseteq> {u. wm < u \<and> u \<le> now \<and> fires_at s u} \<and>
    (length (L n (Next s wm)) < n \<longrightarrow> set (L n (Next s wm)) = {u. wm < u \<and> u \<le> now \<and> fires_at s u})"
  using assms(1,2)
proof (induction n arbitrary: wm)
  case 0
  then show ?case by (simp add: L_def)
next
  case (Suc n)
  have u: "usable s wm" "Next s wm \<noteq> 0" using Suc.prems by auto
  note x = later [OF u(1)] exact [OF u]
  show ?case
  proof (cases "Next s wm > now")
    case True
    then show ?thesis using x by (fastforce simp: L_def)
  next
    case False
    then have ih: "sorted_wrt (<) (L n (Next s (Next s wm)))"
        "set (L n (Next s (Next s wm))) \<subseteq> {u. Next s wm < u \<and> u \<le> now \<and> fires_at s u}"
        "length (L n (Next s (Next s wm))) < n \<Longrightarrow>
          set (L n (Next s (Next s wm))) = {u. Next s wm < u \<and> u \<le> now \<and> fires_at s u}"
      using Suc.IH [of "Next s wm"] Suc.prems x u by auto
    have L: "L (Suc n) (Next s wm) = Next s wm # L n (Next s (Next s wm))" using False by (simp add: L_def)
    have "{u. wm < u \<and> u \<le> now \<and> fires_at s u} =
        insert (Next s wm) {u. Next s wm < u \<and> u \<le> now \<and> fires_at s u}"
      using x u False by (auto simp: not_less)
    then show ?thesis unfolding L using ih by auto
  qed
qed

lemma enumerates_all:
  assumes "\<And>t. wm \<le> t \<Longrightarrow> t \<le> now \<Longrightarrow> usable s t \<and> Next s t \<noteq> 0" "wm \<le> now"
    "card {u. wm < u \<and> u \<le> now \<and> fires_at s u} < n"
  defines "L \<equiv> slots_from n (Next s) (\<lambda>x. \<not> x > now) (Next s wm)"
  shows "sorted_wrt (<) L \<and> set L = {u. wm < u \<and> u \<le> now \<and> fires_at s u} \<and> length L < n"
proof -
  note e = enumerates [OF assms(1,2), of n, folded L_def]
  have "finite {u. wm < u \<and> u \<le> now \<and> fires_at s u}" by (rule finite_subset [of _ "{wm..now}"]) auto
  then have "length L \<le> card {u. wm < u \<and> u \<le> now \<and> fires_at s u}"
    using e card_mono distinct_card strict_sorted_iff by (metis strict_sorted_imp_sorted)
  then show ?thesis using e assms(3) by simp
qed

end

definition sched_fires :: "location \<Rightarrow> location Schedule \<Rightarrow> gotime \<Rightarrow> bool" where
  "sched_fires Local s u \<longleftrightarrow>
     (case s of
        SpecSchedule ss \<Rightarrow> fires (zone_of Local ss) ss u
      | ConstantDelaySchedule d \<Rightarrow> d dvd u
      | ImmediateSchedule \<Rightarrow> False)"

lemma constantDelay_exact:
  assumes "0 < d"
  shows "d dvd constantDelay_Next d t \<and> (\<forall>u. t < u \<and> u < constantDelay_Next d t \<longrightarrow> \<not> d dvd u)"
proof -
  have n: "constantDelay_Next d t = time_trunc t d + d"
    using time_trunc_gt [OF assms, of t] by (simp add: constantDelay_Next_def Let_def)
  have "\<not> d dvd u" if "t < u" "u < time_trunc t d + d" for u
  proof
    assume "d dvd u"
    then have "d dvd u - time_trunc t d" using time_trunc_dvd [OF assms] by (rule dvd_diff)
    moreover have "0 < u - time_trunc t d" "u - time_trunc t d < d" using that time_trunc_le [OF assms, of t] by auto
    ultimately show False using zdvd_not_zless by blast
  qed
  then show ?thesis using n time_trunc_dvd [OF assms, of t] by auto
qed

interpretation xs: exact_schedule "Schedule_Next Local" "usable_schedule Local" "sched_fires Local" for Local
proof unfold_locales
  fix s t
  assume "usable_schedule Local s t" "Schedule_Next Local s t \<noteq> 0"
  then show "sched_fires Local s (Schedule_Next Local s t) \<and>
      (\<forall>u. t < u \<and> u < Schedule_Next Local s t \<longrightarrow> \<not> sched_fires Local s u)"
    using spec_Next_exact constantDelay_exact
    by (cases s) (auto simp: Schedule_Next_def sched_fires_def usable_schedule_def)
qed

text \<open>
  The slots that are due after the watermark, and the conditions under which the enumeration is
  complete: for an interval, a gap that a \<^verbatim>\<open>time.Duration\<close> can hold; for a cron expression, a
  schedule whose \<^verbatim>\<open>Next\<close> is exact in its zone and finds a next firing time throughout the gap,
  and fewer slots than the safety valve admits.
\<close>

definition due_slots :: "go_env \<Rightarrow> string \<Rightarrow> ScheduleType \<Rightarrow> duration \<Rightarrow> gotime \<Rightarrow> gotime \<Rightarrow> gotime set" where
  "due_slots env schedule st interval wm now =
     {u. wm < u \<and> u \<le> now \<and>
        (case st of
           ScheduleTypeInterval \<Rightarrow> interval dvd u - wm
         | ScheduleTypeCron \<Rightarrow> (case cron_Parse env schedule of Inl _ \<Rightarrow> False | Inr s \<Rightarrow> sched_fires (env_Local env) s u)
         | ScheduleTypeEvent \<Rightarrow> False)}"

definition enumerable :: "go_env \<Rightarrow> string \<Rightarrow> ScheduleType \<Rightarrow> duration \<Rightarrow> gotime \<Rightarrow> gotime \<Rightarrow> bool" where
  "enumerable env schedule st interval wm now \<longleftrightarrow>
     (case st of
        ScheduleTypeInterval \<Rightarrow> 0 < interval \<and> now - wm \<le> max_duration
      | ScheduleTypeCron \<Rightarrow>
          (\<exists>s. cron_Parse env schedule = Inr s \<and>
             (\<forall>t\<in>{wm..now}. usable_schedule (env_Local env) s t \<and> Schedule_Next (env_Local env) s t \<noteq> zero_time)) \<and>
          card (due_slots env schedule st interval wm now) < 1000000
      | ScheduleTypeEvent \<Rightarrow> True)"

lemma slots_from_Next_at:
  "map fst (slots_from n (Next_at Local s) (\<lambda>x. \<not> fst x > now) x) = slots_from n (Schedule_Next Local s) (\<lambda>t. \<not> t > now) (fst x)"
  by (induction n arbitrary: x) (simp_all add: Next_at_def Let_def)

lemma latest_map: "map f (latest xs) = latest (map f xs)"
  by (simp add: latest_def drop_map)

lemma catchupMaxIterations_nonneg: "0 \<le> catchupMaxIterations"
  by (simp add: catchupMaxIterations_def)

lemma missedSlots_cron:
  assumes "cron_Parse env schedule = Inr s" "fst wm < now"
  defines "L \<equiv> slots_from 1000000 (Schedule_Next (env_Local env) s) (\<lambda>t. \<not> t > now) (Schedule_Next (env_Local env) s (fst wm))"
  shows "missedSlots env schedule ScheduleTypeCron interval wm now = (slots, dropped) \<Longrightarrow>
    (if length L = 1000000 then slots = [] \<and> dropped = 1000000
     else map fst slots = latest L \<and> dropped = max 0 (int (length L) - 10))"
proof -
  let ?P = "slots_from (nat catchupMaxIterations) (Next_at (env_Local env) s) (\<lambda>x. \<not> fst x > now) (Next_at (env_Local env) s wm)"
  have L: "map fst ?P = L"
    by (simp add: L_def slots_from_Next_at catchupMaxIterations_def) (simp add: Next_at_def Let_def)
  have len: "length ?P = length L" by (simp flip: L)
  have "missed_loop (Next_at (env_Local env) s) now (Next_at (env_Local env) s wm) 0 [] 0 =
      (latest ?P, max 0 (int (length L) - 10), int (length L))"
    using missed_loop_slots [of "[]" 0] len by (simp add: catchupMaxIterations_nonneg Let_def)
  then show "missedSlots env schedule ScheduleTypeCron interval wm now = (slots, dropped) \<Longrightarrow>
    (if length L = 1000000 then slots = [] \<and> dropped = 1000000
     else map fst slots = latest L \<and> dropped = max 0 (int (length L) - 10))"
    using assms(1,2) latest_map [of fst ?P, unfolded L]
    by (auto simp: missedSlots_def catchupMaxIterations_def split: if_splits)
qed

lemma le_div_iff_mult: "0 < (d :: int) \<Longrightarrow> k \<le> x div d \<longleftrightarrow> k * d \<le> x"
  using div_less_iff_mult [of d x k] by linarith

lemma interval_slots:
  assumes "0 < (d :: int)" "wm < now"
  defines "L \<equiv> map (\<lambda>k. wm + k * d) [1..(now - wm) div d]"
  shows "sorted_wrt (<) L \<and> set L = {u. wm < u \<and> u \<le> now \<and> d dvd u - wm}"
proof
  show "sorted_wrt (<) L" using assms(1) by (simp add: L_def sorted_wrt_map sorted_wrt_upto)
  have "u \<in> set L" if u: "wm < u" "u \<le> now" "d dvd u - wm" for u
  proof -
    obtain k where k: "u - wm = d * k" using u(3) by blast
    then have "0 < d * k" "d * k \<le> now - wm" using u(1,2) by linarith+
    then have "1 \<le> k" "k \<le> (now - wm) div d"
      using assms(1) by (auto simp: zero_less_mult_iff le_div_iff_mult mult.commute int_one_le_iff_zero_less)
    then show ?thesis using k by (force simp: L_def mult.commute)
  qed
  moreover have "wm < u \<and> u \<le> now \<and> d dvd u - wm" if "u \<in> set L" for u
    using that assms(1) by (auto simp: L_def le_div_iff_mult)
  ultimately show "set L = {u. wm < u \<and> u \<le> now \<and> d dvd u - wm}" by blast
qed

lemma latest_upto: "latest (map f [1..n]) = map f [max (n - 10 + 1) 1..n]"
proof -
  have "drop k [1..n] = [1 + int k..n]" for k
  proof (induction k)
    case (Suc k)
    have "drop (Suc k) [1..n] = tl (drop k [1..n])" by (simp add: drop_Suc tl_drop)
    also have "\<dots> = [1 + int (Suc k)..n]" using Suc by (cases "1 + int k \<le> n") (simp_all add: upto_rec1 add.commute)
    finally show ?case .
  qed simp
  then show ?thesis by (cases "n \<le> 10") (auto simp: latest_def drop_map max_def)
qed

lemma missedSlots_interval:
  assumes "0 < interval" "now - fst wm \<le> max_duration" "fst wm < now"
  defines "L \<equiv> map (\<lambda>k. fst wm + k * interval) [1..(now - fst wm) div interval]"
  shows "map fst (fst (missedSlots env schedule ScheduleTypeInterval interval wm now)) = latest L \<and>
    snd (missedSlots env schedule ScheduleTypeInterval interval wm now) = max 0 (int (length L) - 10)"
proof -
  let ?n = "(now - fst wm) div interval"
  have sub: "time_sub now (fst wm) = now - fst wm"
    using assms(2,3) by (simp add: time_sub_def min_duration_def max_duration_def max_def min_def)
  have n: "go_div (time_sub now (fst wm)) interval = ?n" "0 \<le> ?n"
    using assms(1,3) by (simp_all add: sub go_div_nonneg pos_imp_zdiv_nonneg_iff)
  have "wrap64 (k * interval) = k * interval" if "1 \<le> k" "k \<le> ?n" for k
  proof (rule wrap64_id)
    have "k * interval \<le> now - fst wm" using that(2) assms(1) by (simp add: le_div_iff_mult)
    then show "k * interval \<le> max_int" using assms(2) by (simp add: max_int_def max_duration_def)
    show "min_int \<le> k * interval" using that(1) assms(1) by (simp add: min_int_def order_trans [of _ 0])
  qed
  then have "map (\<lambda>k. fst wm + wrap64 (k * interval)) [max (?n - 10 + 1) 1..?n] = latest L"
    by (simp add: L_def latest_upto)
  then show ?thesis
    using assms(1,3) n by (auto simp: missedSlots_def Let_def catchupMaxSlots_def L_def comp_def latest_def)
qed


definition plain_env :: go_env where
  "plain_env = \<lparr>env_LoadLocation = (\<lambda>_. None), env_Local = UTC,
     env_ParseDuration = (\<lambda>s. if s = ''5m'' then Some (5 * time_Minute) else None)\<rparr>"


text \<open>The comment of \<^verbatim>\<open>ClassifySchedule\<close> holds: its error is nil exactly when
  \<^verbatim>\<open>parseSchedule\<close> succeeds, both report the same error, and the type and the schedule fit: event
  and never, interval and a constant positive interval, cron and a schedule that \<^verbatim>\<open>cron.Parse\<close>
  accepted.\<close>

theorem ClassifySchedule_agrees:
  "case ClassifySchedule env str of
     (st, d, Some e) \<Rightarrow> parseSchedule env str = Inl e
   | (st, d, None) \<Rightarrow>
       (case st of
          ScheduleTypeEvent \<Rightarrow> str = [] \<and> parseSchedule env str = Inr NeverSchedule
        | ScheduleTypeInterval \<Rightarrow> 0 < d \<and> parseSchedule env str = Inr (ConstantIntervalSchedule d)
        | ScheduleTypeCron \<Rightarrow> (\<exists>c. cron_Parse env str = Inr c \<and> parseSchedule env str = Inr (CronSchedule c)))"
  by (auto simp: ClassifySchedule_def parseSchedule_def isIntervalSchedule_def split: option.splits sum.splits)

lemma Parse_reboot: "Parse LoadLocation Local ParseDuration ''@reboot'' = Inr ImmediateSchedule"
proof -
  have "case Parse LoadLocation Local ParseDuration ''@reboot'' of Inr ImmediateSchedule \<Rightarrow> True | _ \<Rightarrow> False"
    by code_simp
  then show ?thesis by (simp split: sum.splits Schedule.splits)
qed

lemma slots_from_stuck: "past z \<Longrightarrow> Next z = z \<Longrightarrow> length (slots_from n Next past z) = n"
  by (induction n) auto

text \<open>A task with the schedule \<^verbatim>\<open>@reboot\<close> is accepted but never runs: the timing engine takes
  the zero time as "no next fire time". Worse, the search for its missed slots takes the zero time for a
  slot that is not after \<open>now\<close> and calls \<^verbatim>\<open>Next\<close> a million times, then reports a
  million dropped slots although not one was due.\<close>

theorem reboot_task_never_runs:
  assumes "env_ParseDuration env ''@reboot'' = None" "0 \<le> fst wm" "fst wm < now"
  shows "ClassifySchedule env ''@reboot'' = (ScheduleTypeCron, 0, None) \<and>
    parseSchedule env ''@reboot'' = Inr (CronSchedule ImmediateSchedule) \<and>
    (\<forall>t. sched_Next (env_Local env) (CronSchedule ImmediateSchedule) t = (zero_time, CronSchedule ImmediateSchedule)) \<and>
    due_slots env ''@reboot'' ScheduleTypeCron interval (fst wm) now = {} \<and>
    missedSlots env ''@reboot'' ScheduleTypeCron interval wm now = ([], 1000000)"
proof -
  have p: "cron_Parse env ''@reboot'' = Inr ImmediateSchedule" by (simp add: cron_Parse_def Parse_reboot)
  have "length (slots_from 1000000 (Schedule_Next (env_Local env) ImmediateSchedule) (\<lambda>t. \<not> t > now)
      (Schedule_Next (env_Local env) ImmediateSchedule (fst wm))) = 1000000"
    using assms(2,3) by (simp add: Schedule_Next_def slots_from_stuck)
  then have "missedSlots env ''@reboot'' ScheduleTypeCron interval wm now = ([], 1000000)"
    using missedSlots_cron [OF p assms(3) surjective_pairing] by (simp add: prod_eq_iff)
  then show ?thesis
    using assms(1) p by (simp add: ClassifySchedule_def parseSchedule_def isIntervalSchedule_def due_slots_def
      sched_fires_def Schedule_Next_def)
qed

theorem reboot_task_never_runs_witness:
  "missedSlots plain_env ''@reboot'' ScheduleTypeCron 0 (time_Hour, UTC) (2 * time_Hour) = ([], 1000000)"
  using reboot_task_never_runs [of plain_env "(time_Hour, UTC)" "2 * time_Hour" 0]
  by (simp add: plain_env_def time_Hour_def time_Minute_def time_Second_def)

end
