(* ===== verification/SchedEngine.thy ===== *)
theory SchedEngine
  imports TaskSchedule Timewheel "HOL-Library.Word"
begin

text \<open>
  The timing engine of \<^verbatim>\<open>pkg/scheduler\<close>: \<^verbatim>\<open>engine_impl.go\<close> on top of the time wheel, and
  the ownership of tasks by shards, \<^verbatim>\<open>shard.go\<close>. The engine keeps, per ID, the schedule, the
  callback and the ID of its entry on the wheel. A callback that the wheel hands to its pool is in flight
  until \<^verbatim>\<open>onFire\<close> has called the user's function and rescheduled; other operations may come in
  between. Each operation under the mutex is one step. The clock readings of an operation, and whether
  the pool accepts a callback, are arguments.
\<close>

record 'c engine =
  e_wheel :: "(int \<times> 'c option) wheel"
  e_nextID :: int
  e_entries :: "int \<rightharpoonup> int"
  e_scheds :: "int \<rightharpoonup> sched"
  e_callbacks :: "int \<rightharpoonup> 'c"
  e_inflight :: "(int \<times> int \<times> 'c option) list"
  e_calls :: "(int \<times> 'c) list"
  e_started :: bool

definition defaultWheelWorkerSize :: int where "defaultWheelWorkerSize = 100"

definition new_engine :: "'c engine" where
  "new_engine = \<lparr>e_wheel = empty_wheel, e_nextID = 1, e_entries = Map.empty, e_scheds = Map.empty,
     e_callbacks = Map.empty, e_inflight = [], e_calls = [], e_started = False\<rparr>"

definition NewEngine :: "int \<Rightarrow> pool_error + 'c engine" where
  "NewEngine NumCPU =
     (case (NewWheel NumCPU defaultWheelWorkerSize :: pool_error + (int \<times> 'c option) wheel \<times> unit pool option) of
        Inl e \<Rightarrow> Inl e
      | Inr (w, _) \<Rightarrow> Inr (new_engine\<lparr>e_wheel := w\<rparr>))"

text \<open>The clock readings of one rescheduling, in order.\<close>

type_synonym readings = "gotime \<times> gotime \<times> gotime \<times> gotime"

definition scheduleNextLocked ::
  "location \<Rightarrow> readings \<Rightarrow> bool \<Rightarrow> int \<Rightarrow> sched \<Rightarrow> 'c engine \<Rightarrow> 'c engine" where
  "scheduleNextLocked Local rd accept i s e =
     (case rd of (t1, t2, t3, t4) \<Rightarrow>
        let (nxt, s') = sched_Next Local s t1;
            e = e\<lparr>e_scheds := (e_scheds e)(i \<mapsto> s')\<rparr>
        in if nxt = zero_time then e
           else
             let delay = max (time_sub nxt t2) 0;
                 cb = e_callbacks e i;
                 eid = e_nextID e;
                 e = e\<lparr>e_nextID := eid + 1, e_entries := (e_entries e)(i \<mapsto> eid)\<rparr>
             in case wheel_Add eid t3 t4 delay (i, cb) (e_wheel e) of
                  Some w \<Rightarrow> e\<lparr>e_wheel := w\<rparr>
                | None \<Rightarrow> if accept then e\<lparr>e_inflight := e_inflight e @ [(eid, i, cb)]\<rparr> else e)"

definition engine_Add ::
  "location \<Rightarrow> readings \<Rightarrow> bool \<Rightarrow> int \<Rightarrow> sched option \<Rightarrow> 'c \<Rightarrow> 'c engine \<Rightarrow> bool \<times> 'c engine" where
  "engine_Add Local rd accept i schedule cb e =
     (case schedule of
        None \<Rightarrow> (False, e)
      | Some s \<Rightarrow>
          let e = (case e_entries e i of
                     Some old \<Rightarrow> e\<lparr>e_wheel := wheel_Remove old (e_wheel e)\<rparr>
                   | None \<Rightarrow> e);
              e = e\<lparr>e_scheds := (e_scheds e)(i \<mapsto> s), e_callbacks := (e_callbacks e)(i \<mapsto> cb)\<rparr>
          in (True, scheduleNextLocked Local rd accept i s e))"

definition engine_Remove :: "int \<Rightarrow> 'c engine \<Rightarrow> 'c engine" where
  "engine_Remove i e =
     (let entry = e_entries e i;
          e = e\<lparr>e_entries := (e_entries e)(i := None), e_scheds := (e_scheds e)(i := None),
                e_callbacks := (e_callbacks e)(i := None)\<rparr>
      in case entry of Some eid \<Rightarrow> e\<lparr>e_wheel := wheel_Remove eid (e_wheel e)\<rparr> | None \<Rightarrow> e)"

text \<open>
  \<^verbatim>\<open>onFire\<close>: the user's callback, whose panic is recovered, then the deferred rescheduling.
\<close>

definition engine_onFire :: "location \<Rightarrow> readings \<Rightarrow> bool \<Rightarrow> int \<Rightarrow> 'c option \<Rightarrow> 'c engine \<Rightarrow> 'c engine" where
  "engine_onFire Local rd accept i cb e =
     (let e = (case cb of Some c \<Rightarrow> e\<lparr>e_calls := e_calls e @ [(i, c)]\<rparr> | None \<Rightarrow> e)
      in case e_scheds e i of
           Some s \<Rightarrow> scheduleNextLocked Local rd accept i s e
         | None \<Rightarrow> e)"

definition engine_Start :: "'c engine \<Rightarrow> 'c engine \<times> bool" where
  "engine_Start e = (if e_started e then (e, False) else (e\<lparr>e_started := True\<rparr>, True))"

definition engine_Stop :: "('x option) \<Rightarrow> 'c engine \<Rightarrow> 'x option \<times> 'c engine" where
  "engine_Stop wheelErr e = (if \<not> e_started e then (None, e) else (wheelErr, e\<lparr>e_started := False\<rparr>))"

text \<open>A tick of the wheel hands the expired callbacks to the pool; those it rejects are dropped.\<close>

definition engine_tick :: "gotime \<Rightarrow> int \<Rightarrow> (int \<Rightarrow> bool) \<Rightarrow> 'c engine \<Rightarrow> 'c engine" where
  "engine_tick T0 k accepts e =
     (let (w, es) = wheel_step T0 k (e_wheel e)
      in e\<lparr>e_wheel := w, e_inflight := e_inflight e @ dispatch_expired accepts es\<rparr>)"

subsection \<open>Shards\<close>

datatype shard_strategy = ModuloShardStrategy int int | ConsistentHashShardStrategy int int

text \<open>\<^verbatim>\<open>fnv1a64\<close> on 64-bit words; a string is its bytes.\<close>

definition fnv64Offset :: "64 word" where "fnv64Offset = 14695981039346656037"

definition fnv64Prime :: "64 word" where "fnv64Prime = 1099511628211"

definition fnv1a64 :: "string \<Rightarrow> 64 word" where
  "fnv1a64 s = fold (\<lambda>c h. xor h (of_nat (of_char c)) * fnv64Prime) s fnv64Offset"

fun strategy_Owns :: "shard_strategy \<Rightarrow> int \<Rightarrow> bool" where
  "strategy_Owns (ModuloShardStrategy n idx) taskID \<longleftrightarrow> n \<le> 1 \<or> go_rem taskID n = idx"
| "strategy_Owns (ConsistentHashShardStrategy n idx) taskID \<longleftrightarrow>
     n \<le> 1 \<or> uint (fnv1a64 (FormatInt taskID) mod word_of_int n) = idx"

text \<open>A nil manager or strategy owns every task.\<close>

definition Owns :: "shard_strategy option \<Rightarrow> int \<Rightarrow> bool" where
  "Owns m taskID = (case m of None \<Rightarrow> True | Some s \<Rightarrow> strategy_Owns s taskID)"

definition NewShardManager :: "int \<Rightarrow> int \<Rightarrow> shard_strategy option" where
  "NewShardManager n idx = Some (ModuloShardStrategy n idx)"

subsection \<open>Steps\<close>

definition readings_ok :: "gotime \<Rightarrow> int \<Rightarrow> readings \<Rightarrow> bool" where
  "readings_ok T0 k rd \<longleftrightarrow> (case rd of (t1, t2, t3, t4) \<Rightarrow> T0 + k * time_Second \<le> t1 \<and> t1 \<le> t2 \<and> t2 \<le> t3 \<and> t3 \<le> t4)"

definition flying :: "'c engine \<Rightarrow> int set" where
  "flying e = (\<lambda>(_, i, _). i) ` set (e_inflight e)"

text \<open>
  The runs of an engine from tick \<open>k0\<close> and state \<open>e0\<close>. The flags say what is allowed:
  \<open>drops\<close>, that the pool rejects callbacks; \<open>overlap\<close>, that \<^verbatim>\<open>Add\<close> is called for
  an ID with a callback in flight; and \<^verbatim>\<open>Add\<close> is called for the IDs of \<open>A\<close> only.
\<close>

inductive eng_steps ::
  "location \<Rightarrow> gotime \<Rightarrow> bool \<Rightarrow> bool \<Rightarrow> int set \<Rightarrow> int \<Rightarrow> 'c engine \<Rightarrow> int \<Rightarrow> 'c engine \<Rightarrow> bool"
  for Local T0 drops overlap A k0 e0 where
  eng_start: "eng_steps Local T0 drops overlap A k0 e0 k0 e0"
| eng_add: "eng_steps Local T0 drops overlap A k0 e0 k e \<Longrightarrow> readings_ok T0 k rd \<Longrightarrow> drops \<or> accept \<Longrightarrow>
    overlap \<or> i \<notin> flying e \<Longrightarrow> i \<in> A \<Longrightarrow>
    eng_steps Local T0 drops overlap A k0 e0 k (snd (engine_Add Local rd accept i s cb e))"
| eng_remove: "eng_steps Local T0 drops overlap A k0 e0 k e \<Longrightarrow>
    eng_steps Local T0 drops overlap A k0 e0 k (engine_Remove i e)"
| eng_tick: "eng_steps Local T0 drops overlap A k0 e0 k e \<Longrightarrow> drops \<or> (\<forall>i. accepts i) \<Longrightarrow>
    eng_steps Local T0 drops overlap A k0 e0 (k + 1) (engine_tick T0 (k + 1) accepts e)"
| eng_fire: "eng_steps Local T0 drops overlap A k0 e0 k e \<Longrightarrow> (eid, i, cb) \<in> set (e_inflight e) \<Longrightarrow>
    readings_ok T0 k rd \<Longrightarrow> drops \<or> accept \<Longrightarrow>
    eng_steps Local T0 drops overlap A k0 e0 k
      (engine_onFire Local rd accept i cb (e\<lparr>e_inflight := remove1 (eid, i, cb) (e_inflight e)\<rparr>))"

abbreviation eng_reach :: "location \<Rightarrow> gotime \<Rightarrow> bool \<Rightarrow> bool \<Rightarrow> int \<Rightarrow> 'c engine \<Rightarrow> bool" where
  "eng_reach Local T0 drops overlap \<equiv> eng_steps Local T0 drops overlap UNIV 0 new_engine"

text \<open>The live timers: from entry IDs to the ID and callback they are for.\<close>

definition timers :: "gotime \<Rightarrow> int \<Rightarrow> 'c engine \<Rightarrow> int \<rightharpoonup> int \<times> 'c option" where
  "timers T0 k e eid = map_option snd (fire_tick T0 k (e_wheel e) eid)"

definition eng_ok :: "gotime \<Rightarrow> int \<Rightarrow> 'c engine \<Rightarrow> bool" where
  "eng_ok T0 k e \<longleftrightarrow> wheel_ok T0 k (e_wheel e) \<and> (\<forall>eid. timers T0 k e eid \<noteq> None \<longrightarrow> eid < e_nextID e)"

lemma in_flying: "j \<in> flying e \<longleftrightarrow> (\<exists>a b. (a, j, b) \<in> set (e_inflight e))"
  by (force simp: flying_def)

lemma index_fire_tick: "wheel_ok T0 k w \<Longrightarrow> index w i = None \<longleftrightarrow> fire_tick T0 k w i = None"
proof -
  assume "wheel_ok T0 k w"
  then have "id_ok T0 k w i" by (simp add: wheel_ok_def wheel_mid_def)
  then show ?thesis by (auto simp: id_ok_def fire_tick_def split: option.splits prod.splits)
qed

lemma eng_ok_fresh: "eng_ok T0 k e \<Longrightarrow> index (e_wheel e) (e_nextID e) = None"
  unfolding eng_ok_def timers_def by (metis index_fire_tick less_irrefl option.map_disc_iff)

lemma wheel_Add_timers:
  assumes "wheel_ok T0 k w" "index w eid = None" "T0 + k * time_Second \<le> t4" "t3 \<le> t4" "d \<le> max_duration"
    "wheel_Add eid t3 t4 d cb w = Some w'"
  shows "wheel_ok T0 k w' \<and> (\<lambda>i. map_option snd (fire_tick T0 k w' i)) = (\<lambda>i. map_option snd (fire_tick T0 k w i))(eid \<mapsto> cb)"
proof -
  have "t3 + d - t4 \<le> max_duration" using assms(4,5) by simp
  note a = AddAt_mid [OF assms(1-3) assms(6) [unfolded wheel_Add_def] this]
  then show ?thesis by (auto simp: fun_eq_iff)
qed

lemma timers_upd [simp]:
  "timers T0 k (e\<lparr>e_nextID := a\<rparr>) = timers T0 k e" "timers T0 k (e\<lparr>e_entries := b\<rparr>) = timers T0 k e"
  "timers T0 k (e\<lparr>e_scheds := c\<rparr>) = timers T0 k e" "timers T0 k (e\<lparr>e_callbacks := d\<rparr>) = timers T0 k e"
  "timers T0 k (e\<lparr>e_inflight := f\<rparr>) = timers T0 k e" "timers T0 k (e\<lparr>e_calls := g\<rparr>) = timers T0 k e"
  by (auto simp: timers_def fun_eq_iff)

text \<open>
  What rescheduling does: nothing but note the new state of the schedule when there is no next time;
  otherwise there is one more activity for the ID, a timer or a callback in flight, unless the pool
  dropped it.
\<close>

definition one_more :: "gotime \<Rightarrow> int \<Rightarrow> bool \<Rightarrow> int \<Rightarrow> 'c engine \<Rightarrow> 'c engine \<Rightarrow> bool" where
  "one_more T0 k accept i e e' \<longleftrightarrow>
     e_nextID e' = e_nextID e + 1 \<and> e_entries e' = (e_entries e)(i \<mapsto> e_nextID e) \<and>
     (timers T0 k e' = (timers T0 k e)(e_nextID e \<mapsto> (i, e_callbacks e i)) \<and> e_inflight e' = e_inflight e \<or>
      timers T0 k e' = timers T0 k e \<and>
        e_inflight e' = e_inflight e @ (if accept then [(e_nextID e, i, e_callbacks e i)] else []))"

lemma scheduleNext_effect:
  fixes accept i
  assumes "eng_ok T0 k e" "readings_ok T0 k rd" "sched_Next Local s (fst rd) = (n, s')"
  defines "e' \<equiv> scheduleNextLocked Local rd accept i s e"
  shows "eng_ok T0 k e'" "e_scheds e' = (e_scheds e)(i \<mapsto> s')" "e_callbacks e' = e_callbacks e"
    "n = 0 \<Longrightarrow> e_nextID e' = e_nextID e \<and> e_entries e' = e_entries e \<and> timers T0 k e' = timers T0 k e \<and> e_inflight e' = e_inflight e"
    "n \<noteq> 0 \<Longrightarrow> one_more T0 k accept i e e'"
proof -
  obtain t1 t2 t3 t4 where rd: "rd = (t1, t2, t3, t4)" by (cases rd)
  define d where "d = max (time_sub n t2) 0"
  have d: "d \<le> max_duration" by (simp add: d_def time_sub_def max_duration_def min_duration_def)
  have t: "T0 + k * time_Second \<le> t4" "t3 \<le> t4" using assms(2) by (simp_all add: rd readings_ok_def)
  have sN: "sched_Next Local s t1 = (n, s')" using assms(3) by (simp add: rd)
  have w: "wheel_ok T0 k (e_wheel e)" and lt: "\<And>eid. timers T0 k e eid \<noteq> None \<Longrightarrow> eid < e_nextID e"
    using assms(1) by (auto simp: eng_ok_def)
  have lt': "eid < e_nextID e + 1" if "timers T0 k e eid \<noteq> None" for eid using lt [OF that] by simp
  note add = wheel_Add_timers [OF w eng_ok_fresh [OF assms(1)] t d]
  show "e_scheds e' = (e_scheds e)(i \<mapsto> s')" "e_callbacks e' = e_callbacks e"
    by (simp_all add: e'_def scheduleNextLocked_def rd sN Let_def split: option.splits)
  show "n = 0 \<Longrightarrow> e_nextID e' = e_nextID e \<and> e_entries e' = e_entries e \<and> timers T0 k e' = timers T0 k e \<and> e_inflight e' = e_inflight e"
    by (simp add: e'_def scheduleNextLocked_def rd sN)
  have more: "eng_ok T0 k e' \<and> one_more T0 k accept i e e'" if n: "n \<noteq> 0"
  proof (cases "wheel_Add (e_nextID e) t3 t4 d (i, e_callbacks e i) (e_wheel e)")
    case None
    then have "timers T0 k e' = timers T0 k e" "e_wheel e' = e_wheel e" "e_nextID e' = e_nextID e + 1"
      "e_entries e' = (e_entries e)(i \<mapsto> e_nextID e)"
      "e_inflight e' = e_inflight e @ (if accept then [(e_nextID e, i, e_callbacks e i)] else [])"
      using n by (auto simp: e'_def scheduleNextLocked_def rd sN Let_def d_def timers_def fun_eq_iff)
    then show ?thesis using w lt' by (simp add: eng_ok_def one_more_def)
  next
    case (Some w')
    then have e': "e_wheel e' = w'" "e_nextID e' = e_nextID e + 1" "e_entries e' = (e_entries e)(i \<mapsto> e_nextID e)"
      "e_inflight e' = e_inflight e"
      using n by (auto simp: e'_def scheduleNextLocked_def rd sN Let_def d_def)
    then have "timers T0 k e' = (timers T0 k e)(e_nextID e \<mapsto> (i, e_callbacks e i))" "wheel_ok T0 k w'"
      using add [OF Some] by (auto simp: timers_def fun_eq_iff)
    then show ?thesis using e' lt' by (simp add: eng_ok_def one_more_def)
  qed
  have none: "eng_ok T0 k e'" if "n = 0"
    using that assms(1) by (simp add: e'_def scheduleNextLocked_def rd sN eng_ok_def timers_def)
  show "eng_ok T0 k e'" using more none by blast
  show "n \<noteq> 0 \<Longrightarrow> one_more T0 k accept i e e'" using more by blast
qed

lemma timers_Remove:
  assumes "wheel_ok T0 k (e_wheel e)"
  shows "timers T0 k (e\<lparr>e_wheel := wheel_Remove eid (e_wheel e)\<rparr>) = (timers T0 k e)(eid := None)"
  using Remove_mid(2) [OF assms] by (auto simp: timers_def fun_eq_iff)

lemma eng_ok_Remove: "eng_ok T0 k e \<Longrightarrow> eng_ok T0 k (e\<lparr>e_wheel := wheel_Remove eid (e_wheel e)\<rparr>)"
  by (auto simp: eng_ok_def timers_Remove Remove_mid(1) split: if_splits)

lemma eng_ok_upd [simp]:
  "eng_ok T0 k (e\<lparr>e_entries := b\<rparr>) = eng_ok T0 k e" "eng_ok T0 k (e\<lparr>e_scheds := c\<rparr>) = eng_ok T0 k e"
  "eng_ok T0 k (e\<lparr>e_callbacks := d\<rparr>) = eng_ok T0 k e" "eng_ok T0 k (e\<lparr>e_inflight := f\<rparr>) = eng_ok T0 k e"
  "eng_ok T0 k (e\<lparr>e_calls := g\<rparr>) = eng_ok T0 k e"
  by (auto simp: eng_ok_def)

text \<open>\<^verbatim>\<open>Add\<close> up to the rescheduling, and its effect.\<close>

definition armed :: "int \<Rightarrow> sched \<Rightarrow> 'c \<Rightarrow> 'c engine \<Rightarrow> 'c engine" where
  "armed i s cb e =
     (let e = (case e_entries e i of Some old \<Rightarrow> e\<lparr>e_wheel := wheel_Remove old (e_wheel e)\<rparr> | None \<Rightarrow> e)
      in e\<lparr>e_scheds := (e_scheds e)(i \<mapsto> s), e_callbacks := (e_callbacks e)(i \<mapsto> cb)\<rparr>)"

lemma engine_Add_armed:
  "snd (engine_Add Local rd accept i (Some s) cb e) = scheduleNextLocked Local rd accept i s (armed i s cb e)"
  by (simp add: engine_Add_def armed_def Let_def)

lemma armed_effect:
  assumes "eng_ok T0 k e"
  shows "eng_ok T0 k (armed i s cb e)" "e_scheds (armed i s cb e) = (e_scheds e)(i \<mapsto> s)"
    "e_entries (armed i s cb e) = e_entries e" "e_inflight (armed i s cb e) = e_inflight e"
    "e_nextID (armed i s cb e) = e_nextID e" "e_callbacks (armed i s cb e) = (e_callbacks e)(i \<mapsto> cb)"
    "timers T0 k (armed i s cb e) =
       (case e_entries e i of Some old \<Rightarrow> (timers T0 k e)(old := None) | None \<Rightarrow> timers T0 k e)"
  using assms eng_ok_Remove [OF assms] timers_Remove [of T0 k e] unfolding armed_def Let_def
  by (auto simp: eng_ok_def split: option.splits)

lemma engine_Remove_effect:
  assumes "eng_ok T0 k e"
  shows "eng_ok T0 k (engine_Remove i e)" "e_scheds (engine_Remove i e) = (e_scheds e)(i := None)"
    "e_entries (engine_Remove i e) = (e_entries e)(i := None)" "e_inflight (engine_Remove i e) = e_inflight e"
    "timers T0 k (engine_Remove i e) =
       (case e_entries e i of Some old \<Rightarrow> (timers T0 k e)(old := None) | None \<Rightarrow> timers T0 k e)"
  using assms eng_ok_Remove [of T0 k "e\<lparr>e_entries := (e_entries e)(i := None), e_scheds := (e_scheds e)(i := None),
      e_callbacks := (e_callbacks e)(i := None)\<rparr>"] timers_Remove [of T0 k "e\<lparr>e_entries := (e_entries e)(i := None), e_scheds := (e_scheds e)(i := None),
      e_callbacks := (e_callbacks e)(i := None)\<rparr>"]
  by (auto simp: engine_Remove_def Let_def eng_ok_def split: option.splits)

lemma dispatch_set:
  "x \<in> set (dispatch_expired accepts es) \<longleftrightarrow> (\<exists>t\<in>set es. accepts (ent_ID t) \<and> x = (ent_ID t, Callback t))"
  by (force simp: dispatch_expired_def map_filter_def submitCallback_def split: if_splits)

lemma tick_effect:
  fixes accepts
  assumes "eng_ok T0 k e"
  defines "fired \<equiv> dispatch_expired accepts (snd (wheel_step T0 (k + 1) (e_wheel e)))"
  shows "eng_ok T0 (k + 1) (engine_tick T0 (k + 1) accepts e)"
    "e_inflight (engine_tick T0 (k + 1) accepts e) = e_inflight e @ fired"
    "(eid, x) \<in> set fired \<longleftrightarrow> accepts eid \<and> fire_tick T0 k (e_wheel e) eid = Some (k + 1, x)"
    "timers T0 (k + 1) (engine_tick T0 (k + 1) accepts e) eid =
       (if \<exists>x. fire_tick T0 k (e_wheel e) eid = Some (k + 1, x) then None else timers T0 k e eid)"
    "e_scheds (engine_tick T0 (k + 1) accepts e) = e_scheds e"
    "e_entries (engine_tick T0 (k + 1) accepts e) = e_entries e"
    "distinct (map fst fired)"
proof -
  have w: "wheel_ok T0 k (e_wheel e)" and lt: "\<And>eid. timers T0 k e eid \<noteq> None \<Longrightarrow> eid < e_nextID e"
    using assms(1) by (auto simp: eng_ok_def)
  let ?e = "engine_tick T0 (k + 1) accepts e"
  have e: "e_wheel ?e = fst (wheel_step T0 (k + 1) (e_wheel e))" "e_nextID ?e = e_nextID e"
    by (simp_all add: engine_tick_def case_prod_beta)
  show "e_inflight ?e = e_inflight e @ fired" "e_scheds ?e = e_scheds e" "e_entries ?e = e_entries e"
    by (simp_all add: engine_tick_def case_prod_beta fired_def)
  have t: "timers T0 (k + 1) ?e j = (if \<exists>x. fire_tick T0 k (e_wheel e) j = Some (k + 1, x) then None else timers T0 k e j)" for j
    using tw.step_sched [OF w, of j] by (auto simp: timers_def e split: option.splits)
  then show "timers T0 (k + 1) ?e eid = (if \<exists>x. fire_tick T0 k (e_wheel e) eid = Some (k + 1, x) then None else timers T0 k e eid)" .
  show "eng_ok T0 (k + 1) ?e" using tw.step_ok [OF w] lt by (auto simp: eng_ok_def e t)
  show "(eid, x) \<in> set fired \<longleftrightarrow> accepts eid \<and> fire_tick T0 k (e_wheel e) eid = Some (k + 1, x)"
    using tw.step_fires [OF w, of eid x] by (auto simp: fired_def dispatch_set)
  have "distinct (map ent_ID (snd (wheel_step T0 (k + 1) (e_wheel e))))"
    using tick_mid(4) [OF w] by (simp add: wheel_step_def)
  then show "distinct (map fst fired)"
    by (auto simp: fired_def dispatch_expired_def map_filter_def submitCallback_def comp_def distinct_map inj_on_def
      intro: distinct_filter)
qed

subsection \<open>One activity per ID\<close>

definition active :: "gotime \<Rightarrow> int \<Rightarrow> 'c engine \<Rightarrow> int \<Rightarrow> bool" where
  "active T0 k e i \<longleftrightarrow> i \<in> flying e \<or> (\<exists>eid cb. timers T0 k e eid = Some (i, cb))"

definition own_entries :: "'c engine \<Rightarrow> bool" where
  "own_entries e \<longleftrightarrow> (\<forall>i eid. e_entries e i = Some eid \<longrightarrow> eid < e_nextID e \<and> (\<forall>j. e_entries e j = Some eid \<longrightarrow> j = i))"

definition exclusive :: "gotime \<Rightarrow> int \<Rightarrow> 'c engine \<Rightarrow> bool" where
  "exclusive T0 k e \<longleftrightarrow>
     (\<forall>eid i cb. timers T0 k e eid = Some (i, cb) \<longrightarrow> e_entries e i = Some eid \<and> i \<notin> flying e) \<and>
     distinct (map (\<lambda>(_, i, _). i) (e_inflight e)) \<and> own_entries e"

text \<open>A schedule that always has a next time and does not change, such as a constant interval.\<close>

definition immortal :: "location \<Rightarrow> gotime \<Rightarrow> sched \<Rightarrow> bool" where
  "immortal Local T0 s \<longleftrightarrow> (\<forall>t\<ge>T0. fst (sched_Next Local s t) \<noteq> zero_time \<and> snd (sched_Next Local s t) = s)"

definition alive :: "location \<Rightarrow> gotime \<Rightarrow> int \<Rightarrow> 'c engine \<Rightarrow> bool" where
  "alive Local T0 k e \<longleftrightarrow> (\<forall>i s. e_scheds e i = Some s \<and> immortal Local T0 s \<longrightarrow> active T0 k e i)"

lemma one_more_exclusive:
  assumes "eng_ok T0 k e" "one_more T0 k accept i e e'" "exclusive T0 k e" "\<not> active T0 k e i"
  shows "exclusive T0 k e'" "accept \<Longrightarrow> active T0 k e' i" "active T0 k e j \<Longrightarrow> active T0 k e' j"
proof -
  have i: "i \<notin> flying e" "\<And>eid cb. timers T0 k e eid \<noteq> Some (i, cb)" using assms(4) by (auto simp: active_def)
  have n: "timers T0 k e (e_nextID e) = None" using assms(1) by (auto simp: eng_ok_def simp del: not_None_eq)
  have ent: "e_entries e' = (e_entries e)(i \<mapsto> e_nextID e)" using assms(2) by (auto simp: one_more_def)
  consider (timer) "timers T0 k e' = (timers T0 k e)(e_nextID e \<mapsto> (i, e_callbacks e i))" "e_inflight e' = e_inflight e"
    | (flies) "timers T0 k e' = timers T0 k e" "e_inflight e' = e_inflight e @ [(e_nextID e, i, e_callbacks e i)]"
    | (lost) "timers T0 k e' = timers T0 k e" "e_inflight e' = e_inflight e" "\<not> accept"
    using assms(2) by (auto simp: one_more_def split: if_splits)
  note c = this
  have nx: "e_nextID e' = e_nextID e + 1" using assms(2) by (auto simp: one_more_def)
  have lt: "\<And>a eid. e_entries e a = Some eid \<Longrightarrow> eid < e_nextID e"
    and uq: "\<And>a b eid. e_entries e a = Some eid \<Longrightarrow> e_entries e b = Some eid \<Longrightarrow> a = b"
    using assms(3) by (auto simp: exclusive_def own_entries_def)
  have own: "own_entries e'"
    unfolding own_entries_def ent nx by (auto split: if_splits dest: lt uq intro: less_imp_le)
  show "exclusive T0 k e'"
    using c
  proof cases
    case timer
    then show ?thesis using assms(3) i ent own by (auto simp: exclusive_def flying_def)
  next
    case flies
    then show ?thesis using assms(3) i ent own unfolding exclusive_def flying_def by (fastforce simp: image_iff)
  next
    case lost
    then show ?thesis using assms(3) i ent own by (auto simp: exclusive_def flying_def)
  qed
  show "accept \<Longrightarrow> active T0 k e' i" using c by cases (auto simp: active_def flying_def)
  show "active T0 k e j \<Longrightarrow> active T0 k e' j"
    using c
  proof cases
    case timer
    then show "active T0 k e j \<Longrightarrow> active T0 k e' j"
      unfolding active_def flying_def by (metis fun_upd_apply n option.distinct(1))
  qed (auto simp: active_def flying_def)
qed

lemma immortal_stable:
  assumes "sched_Next Local s t = (n, s')" "immortal Local T0 s'"
  shows "s' = s"
proof (cases s)
  case (OneTimeSchedule at fired)
  have "immortal Local T0 (OneTimeSchedule at b) \<Longrightarrow> False" for b
    using order.refl [of "max T0 (at + 1)"] unfolding immortal_def by (drule_tac spec [of _ "max T0 (at + 1)"]) (auto split: if_splits)
  then show ?thesis using assms OneTimeSchedule by (auto split: if_splits)
next
  case (ImmediateOnceSchedule fired)
  then show ?thesis using assms by (auto simp: immortal_def split: if_splits)
qed (use assms in auto)

lemma reschedule_inv:
  fixes Local accept s
  assumes "eng_ok T0 k e" "exclusive T0 k e" "\<not> active T0 k e i" "readings_ok T0 k rd"
  defines "e' \<equiv> scheduleNextLocked Local rd accept i s e"
  shows "eng_ok T0 k e'" "exclusive T0 k e'"
    "accept \<Longrightarrow> 0 \<le> k \<Longrightarrow> (\<And>j s. j \<noteq> i \<Longrightarrow> e_scheds e j = Some s \<Longrightarrow> immortal Local T0 s \<Longrightarrow> active T0 k e j) \<Longrightarrow>
       alive Local T0 k e'"
proof -
  obtain n s' where ns: "sched_Next Local s (fst rd) = (n, s')" by fastforce
  note eff = scheduleNext_effect [OF assms(1,4) ns, of accept i, folded e'_def]
  show "eng_ok T0 k e'" by (rule eff(1))
  show "exclusive T0 k e'"
  proof (cases "n = 0")
    case True
    then show ?thesis using eff(4) assms(2) by (auto simp: exclusive_def flying_def own_entries_def)
  next
    case False
    then show ?thesis using one_more_exclusive(1) [OF assms(1) eff(5) assms(2,3)] by simp
  qed
  have keep: "active T0 k e' j" if "active T0 k e j" for j
  proof (cases "n = 0")
    case True
    then show ?thesis using eff(4) that by (auto simp: active_def flying_def)
  next
    case False
    then show ?thesis using one_more_exclusive(3) [OF assms(1) eff(5) assms(2,3) that] by simp
  qed
  assume acc: "accept" "0 \<le> k"
    and others: "\<And>j s. j \<noteq> i \<Longrightarrow> e_scheds e j = Some s \<Longrightarrow> immortal Local T0 s \<Longrightarrow> active T0 k e j"
  have "active T0 k e' i" if im: "immortal Local T0 s'"
  proof -
    have "T0 \<le> T0 + k * time_Second" using acc(2) by (simp add: time_Second_def)
    then have "T0 \<le> fst rd" using assms(4) by (auto simp: readings_ok_def split: prod.splits)
    moreover have "s' = s" by (rule immortal_stable [OF ns im])
    ultimately have "n \<noteq> 0" using im ns by (auto simp: immortal_def)
    then show ?thesis using one_more_exclusive(2) [OF assms(1) eff(5) assms(2,3) acc(1)] by simp
  qed
  then show "alive Local T0 k e'" using eff(2) others keep by (auto simp: alive_def split: if_splits)
qed

lemma exclusive_calls [simp]:
  "exclusive T0 k (e\<lparr>e_calls := c\<rparr>) = exclusive T0 k e" "active T0 k (e\<lparr>e_calls := c\<rparr>) = active T0 k e"
  by (auto simp: exclusive_def active_def flying_def fun_eq_iff own_entries_def)

lemma not_active_armed:
  assumes "eng_ok T0 k e" "exclusive T0 k e" "i \<notin> flying e"
  shows "\<not> active T0 k (armed i s cb e) i" "exclusive T0 k (armed i s cb e)"
    "j \<noteq> i \<Longrightarrow> active T0 k e j \<Longrightarrow> active T0 k (armed i s cb e) j"
proof -
  have x: "\<And>eid j cb. timers T0 k e eid = Some (j, cb) \<Longrightarrow> e_entries e j = Some eid"
    and own: "\<And>i j eid. e_entries e i = Some eid \<Longrightarrow> e_entries e j = Some eid \<Longrightarrow> i = j"
    using assms(2) by (auto simp: exclusive_def own_entries_def)
  note a = armed_effect [OF assms(1), of i s cb]
  have f: "flying (armed i s cb e) = flying e" by (simp add: flying_def a)
  show "\<not> active T0 k (armed i s cb e) i"
    using assms(3) x by (auto simp: active_def f a split: option.splits if_splits)
  show "exclusive T0 k (armed i s cb e)"
    using assms(2) by (auto simp: exclusive_def own_entries_def f a split: option.splits if_splits)
  show "active T0 k (armed i s cb e) j" if "j \<noteq> i" "active T0 k e j"
    using that x own [of i _ j] by (auto simp: active_def f a split: option.splits) blast
qed

lemma not_active_Remove:
  assumes "eng_ok T0 k e" "exclusive T0 k e"
  shows "exclusive T0 k (engine_Remove i e)" "timers T0 k (engine_Remove i e) eid \<noteq> Some (i, cb)"
    "j \<noteq> i \<Longrightarrow> active T0 k e j \<Longrightarrow> active T0 k (engine_Remove i e) j"
proof -
  have x: "\<And>eid j cb. timers T0 k e eid = Some (j, cb) \<Longrightarrow> e_entries e j = Some eid"
    and own: "\<And>i j eid. e_entries e i = Some eid \<Longrightarrow> e_entries e j = Some eid \<Longrightarrow> i = j"
    using assms(2) by (auto simp: exclusive_def own_entries_def)
  note a = engine_Remove_effect [OF assms(1), of i]
  have f: "flying (engine_Remove i e) = flying e" "e_nextID (engine_Remove i e) = e_nextID e"
    by (auto simp: flying_def a engine_Remove_def Let_def split: option.splits)
  have r: "\<And>eid cb. timers T0 k (engine_Remove i e) eid \<noteq> Some (i, cb)"
    using x by (auto simp: a split: option.splits)
  then show "timers T0 k (engine_Remove i e) eid \<noteq> Some (i, cb)" .
  have "timers T0 k e eid = Some (j, cb)" if "timers T0 k (engine_Remove i e) eid = Some (j, cb)" for eid j cb
    using that by (auto simp: a split: option.splits if_splits)
  then show "exclusive T0 k (engine_Remove i e)"
    using assms(2) r by (simp add: exclusive_def own_entries_def f a(3,4)) blast
  show "active T0 k (engine_Remove i e) j" if "j \<noteq> i" "active T0 k e j"
    using that x own [of i _ j] by (auto simp: active_def f a split: option.splits) blast
qed

lemma flying_remove:
  assumes "distinct (map (\<lambda>(_, i, _). i) xs)" "(eid, i, cb) \<in> set xs"
  shows "i \<notin> (\<lambda>(_, i, _). i) ` set (remove1 (eid, i, cb) xs)"
    "j \<noteq> i \<Longrightarrow> j \<in> (\<lambda>(_, i, _). i) ` set xs \<Longrightarrow> j \<in> (\<lambda>(_, i, _). i) ` set (remove1 (eid, i, cb) xs)"
    "distinct (map (\<lambda>(_, i, _). i) (remove1 (eid, i, cb) xs))"
proof -
  have d: "distinct xs" using assms(1) by (simp add: distinct_map)
  show "i \<notin> (\<lambda>(_, i, _). i) ` set (remove1 (eid, i, cb) xs)"
    using assms by (auto simp: set_remove1_eq [OF d] distinct_map inj_on_def)
  show "j \<noteq> i \<Longrightarrow> j \<in> (\<lambda>(_, i, _). i) ` set xs \<Longrightarrow> j \<in> (\<lambda>(_, i, _). i) ` set (remove1 (eid, i, cb) xs)"
    by (force simp: set_remove1_eq [OF d])
  show "distinct (map (\<lambda>(_, i, _). i) (remove1 (eid, i, cb) xs))"
    using assms(1) by (auto simp: distinct_map set_remove1_eq [OF d] inj_on_def)
qed

lemma landed:
  assumes "exclusive T0 k e" "(eid, i, cb) \<in> set (e_inflight e)"
  defines "e1 \<equiv> e\<lparr>e_inflight := remove1 (eid, i, cb) (e_inflight e)\<rparr>"
  shows "exclusive T0 k e1" "\<not> active T0 k e1 i" "j \<noteq> i \<Longrightarrow> active T0 k e j \<Longrightarrow> active T0 k e1 j"
proof -
  have d: "distinct (map (\<lambda>(_, i, _). i) (e_inflight e))" using assms(1) by (simp add: exclusive_def)
  note r = flying_remove [OF d assms(2)]
  have "i \<in> flying e" using assms(2) by (force simp: flying_def)
  then have "timers T0 k e x \<noteq> Some (i, c)" for x c using assms(1) unfolding exclusive_def by blast
  then show "\<not> active T0 k e1 i" using r(1) by (simp add: active_def flying_def e1_def)
  have "flying e1 \<subseteq> flying e" by (simp add: flying_def e1_def image_mono set_remove1_subset)
  then show "exclusive T0 k e1" using assms(1) r(3) by (auto simp: exclusive_def own_entries_def e1_def)
  show "j \<noteq> i \<Longrightarrow> active T0 k e j \<Longrightarrow> active T0 k e1 j" 
    using r(2) [of j] unfolding active_def flying_def by (simp add: e1_def) blast
qed

lemma tick_exclusive:
  assumes "eng_ok T0 k e" "exclusive T0 k e"
  shows "exclusive T0 (k + 1) (engine_tick T0 (k + 1) accepts e)"
    "\<forall>i. accepts i \<Longrightarrow> active T0 k e j \<Longrightarrow> active T0 (k + 1) (engine_tick T0 (k + 1) accepts e) j"
proof -
  let ?e = "engine_tick T0 (k + 1) accepts e"
  define fired where "fired = dispatch_expired accepts (snd (wheel_step T0 (k + 1) (e_wheel e)))"
  note t = tick_effect [OF assms(1), where accepts = accepts, folded fired_def]
  have x: "\<And>eid i cb. timers T0 k e eid = Some (i, cb) \<Longrightarrow> e_entries e i = Some eid \<and> i \<notin> flying e"
    using assms(2) by (auto simp: exclusive_def)
  have now: "timers T0 k e eid = Some y \<and> timers T0 (k + 1) ?e eid = None" if "(eid, y) \<in> set fired" for eid y
    using that t(3,4) [of eid] by (auto simp: timers_def)
  have tm: "timers T0 k e eid = Some y" if "timers T0 (k + 1) ?e eid = Some y" for eid y
    using that t(4) [of eid] by (auto split: if_splits)
  have fl: "flying ?e = flying e \<union> (\<lambda>(_, i, _). i) ` set fired" by (auto simp: flying_def t(2) image_Un)
  have "eid = eid' \<and> c = c'" if "(eid, i, c) \<in> set fired" "(eid', i, c') \<in> set fired" for eid eid' i c c'
    using now [OF that(1)] now [OF that(2)] x by (metis option.inject prod.inject)
  then have "inj_on (\<lambda>(_, i, _). i) (set fired)" by (fastforce simp: inj_on_def)
  moreover have "distinct fired" using t(7) by (simp add: distinct_map)
  ultimately have df: "distinct (map (\<lambda>(_, i, _). i) fired)" by (simp add: distinct_map)
  have "i \<notin> flying e" if "(eid, i, c) \<in> set fired" for eid i c using now [OF that] x by blast
  then have "flying e \<inter> (\<lambda>(_, i, _). i) ` set fired = {}" by auto
  then have "distinct (map (\<lambda>(_, i, _). i) (e_inflight ?e))"
    using assms(2) df by (simp add: t(2) exclusive_def flying_def)
  moreover have "e_entries e i = Some eid \<and> i \<notin> flying ?e" if "timers T0 (k + 1) ?e eid = Some (i, c)" for eid i c
  proof -
    have "timers T0 k e eid = Some (i, c)" by (rule tm [OF that])
    moreover have "eid' \<noteq> eid" if "(eid', i, c') \<in> set fired" for eid' c'
      using now [OF that] \<open>timers T0 (k + 1) ?e eid = Some (i, c)\<close> by auto
    ultimately show ?thesis using x now unfolding fl by (force dest: x)
  qed
  moreover have "own_entries ?e"
    using assms(2) by (simp add: exclusive_def own_entries_def t(6)) (simp add: engine_tick_def case_prod_beta)
  ultimately show "exclusive T0 (k + 1) ?e" by (simp add: exclusive_def t(6))
  show "active T0 (k + 1) ?e j" if acc: "\<forall>i. accepts i" and act: "active T0 k e j"
  proof (cases "j \<in> flying e")
    case True
    then show ?thesis by (simp add: active_def fl)
  next
    case False
    with act obtain eid cb where tmr: "timers T0 k e eid = Some (j, cb)" by (auto simp: active_def)
    show ?thesis
    proof (cases "\<exists>y. fire_tick T0 k (e_wheel e) eid = Some (k + 1, y)")
      case True
      then have "(eid, j, cb) \<in> set fired" using tmr acc t(3) [of eid "(j, cb)"] by (auto simp: timers_def)
      then show ?thesis by (force simp: active_def fl)
    next
      case False
      then show ?thesis using tmr t(4) [of eid] by (auto simp: active_def)
    qed
  qed
qed

lemma eng_reach_inv:
  assumes "eng_reach Local T0 drops overlap k e"
  shows "0 \<le> k \<and> eng_ok T0 k e \<and> (\<not> overlap \<longrightarrow> exclusive T0 k e) \<and> (\<not> overlap \<and> \<not> drops \<longrightarrow> alive Local T0 k e)"
  using assms
proof induction
  case eng_start
  have "wheel_reach T0 0 (empty_wheel :: (int \<times> 'a option) wheel)" by (rule wheel_init)
  from wheel_reach_ok [OF this] show ?case
    by (auto simp: eng_ok_def exclusive_def alive_def own_entries_def new_engine_def timers_def fire_tick_def empty_wheel_def)
next
  case (eng_add k e rd accept i s cb)
  show ?case
  proof (cases s)
    case None
    then show ?thesis using eng_add.IH by (simp add: engine_Add_def)
  next
    case (Some s0)
    note a = armed_effect [where i = i and s = s0 and cb = cb, of T0 k e]
    obtain n s' where ns: "sched_Next Local s0 (fst rd) = (n, s')" by fastforce
    have ok: "eng_ok T0 k (armed i s0 cb e)" using eng_add.IH a(1) by blast
    have "exclusive T0 k (scheduleNextLocked Local rd accept i s0 (armed i s0 cb e)) \<and>
        (\<not> drops \<longrightarrow> alive Local T0 k (scheduleNextLocked Local rd accept i s0 (armed i s0 cb e)))" if "\<not> overlap"
    proof -
      have pre: "eng_ok T0 k e" "exclusive T0 k e" "i \<notin> flying e" "\<not> drops \<longrightarrow> alive Local T0 k e" "\<not> drops \<longrightarrow> accept" "0 \<le> k"
        using that eng_add by auto
      note na = not_active_armed [OF pre(1-3)] and re = reschedule_inv [OF ok _ _ eng_add.hyps(2)]
      show ?thesis using re(2,3) [OF na(2,1)] na(3) pre(4-6) a(2) [OF pre(1)] by (auto simp: alive_def)
    qed
    then show ?thesis
      using eng_add.IH scheduleNext_effect(1) [OF ok eng_add.hyps(2) ns] by (simp add: Some engine_Add_armed)
  qed
next
  case (eng_remove k e i)
  then show ?case
    using engine_Remove_effect(1,2) [of T0 k e i] not_active_Remove [of T0 k e, where i = i]
    by (auto simp: alive_def split: if_splits)
next
  case (eng_tick k e accepts)
  then show ?case
    using tick_effect(1,5) [of T0 k e, where accepts = accepts] tick_exclusive [of T0 k e, where accepts = accepts] by (auto simp: alive_def)
next
  case (eng_fire k e eid i cb rd accept)
  define e1 where "e1 = e\<lparr>e_inflight := remove1 (eid, i, cb) (e_inflight e)\<rparr>"
  define e2 where "e2 = (case cb of Some c \<Rightarrow> e1\<lparr>e_calls := e_calls e1 @ [(i, c)]\<rparr> | None \<Rightarrow> e1)"
  have e2: "eng_ok T0 k e2 = eng_ok T0 k e" "exclusive T0 k e2 = exclusive T0 k e1" "active T0 k e2 = active T0 k e1"
      "e_scheds e2 = e_scheds e"
    by (auto simp: e2_def e1_def split: option.splits)
  have fire: "engine_onFire Local rd accept i cb e1 =
      (case e_scheds e i of Some s \<Rightarrow> scheduleNextLocked Local rd accept i s e2 | None \<Rightarrow> e2)"
    by (simp add: engine_onFire_def e2_def e1_def Let_def split: option.splits)
  note la = landed [of T0 k e eid i cb, folded e1_def]
  show ?case
  proof (cases "e_scheds e i")
    case None
    then show ?thesis
      using eng_fire.IH eng_fire.hyps la unfolding e1_def [symmetric] fire
      by (auto simp: e2 alive_def) (metis option.distinct(1))
  next
    case (Some s0)
    obtain n s' where ns: "sched_Next Local s0 (fst rd) = (n, s')" by fastforce
    have ok: "eng_ok T0 k e2" using eng_fire.IH by (simp add: e2)
    note re = reschedule_inv [OF ok _ _ eng_fire.hyps(3)]
    show ?thesis
      using eng_fire.IH eng_fire.hyps la re(2,3) [where i = i and Local = Local and accept = accept and s = s0] scheduleNext_effect(1) [OF ok eng_fire.hyps(3) ns]
      unfolding e1_def [symmetric] fire Some by (auto simp: e2 alive_def)
  qed
qed

lemma engine_onFire_eq:
  "engine_onFire Local rd accept i cb e =
     (let e2 = (case cb of Some c \<Rightarrow> e\<lparr>e_calls := e_calls e @ [(i, c)]\<rparr> | None \<Rightarrow> e)
      in case e_scheds e i of Some s \<Rightarrow> scheduleNextLocked Local rd accept i s e2 | None \<Rightarrow> e2)"
  by (simp add: engine_onFire_def Let_def split: option.splits)

lemma scheduleNext_other:
  assumes "eng_ok T0 k e" "readings_ok T0 k rd" "i \<noteq> j" "\<not> active T0 k e j"
  shows "\<not> active T0 k (scheduleNextLocked Local rd accept i s e) j"
proof -
  obtain n s' where ns: "sched_Next Local s (fst rd) = (n, s')" by fastforce
  note eff = scheduleNext_effect(4,5) [OF assms(1,2) ns, of accept i]
  show ?thesis
    using eff assms(3,4) by (cases "n = 0") (auto simp: one_more_def active_def in_flying split: if_splits)
qed

lemma inactive_stays:
  assumes "eng_steps Local T0 drops overlap (- {j}) k e k' e'" "eng_ok T0 k e" "\<not> active T0 k e j"
  shows "eng_ok T0 k' e' \<and> \<not> active T0 k' e' j"
  using assms(1)
proof induction
  case eng_start
  then show ?case using assms(2,3) by simp
next
  case (eng_add k e rd accept i s cb)
  show ?case
  proof (cases s)
    case None
    then show ?thesis using eng_add.IH by (simp add: engine_Add_def)
  next
    case (Some s0)
    obtain n s' where ns: "sched_Next Local s0 (fst rd) = (n, s')" by fastforce
    note a = armed_effect [where i = i and s = s0 and cb = cb, of T0 k e]
    have ok: "eng_ok T0 k (armed i s0 cb e)" "\<not> active T0 k (armed i s0 cb e) j"
      using eng_add.IH a by (auto simp: active_def flying_def split: option.splits if_splits)
    have "i \<noteq> j" using eng_add.hyps(5) by simp
    from scheduleNext_other [OF ok(1) eng_add.hyps(2) this ok(2)] scheduleNext_effect(1) [OF ok(1) eng_add.hyps(2) ns]
    show ?thesis by (simp add: Some engine_Add_armed)
  qed
next
  case (eng_remove k e i)
  then show ?case
    using engine_Remove_effect [of T0 k e i] by (auto simp: active_def flying_def split: option.splits if_splits)
next
  case (eng_tick k e accepts)
  then show ?case
    using tick_effect(1-4) [of T0 k e, where accepts = accepts] by (auto simp: active_def in_flying timers_def split: if_splits)
next
  case (eng_fire k e eid i cb rd accept)
  define e1 where "e1 = e\<lparr>e_inflight := remove1 (eid, i, cb) (e_inflight e)\<rparr>"
  define e2 where "e2 = (case cb of Some c \<Rightarrow> e1\<lparr>e_calls := e_calls e1 @ [(i, c)]\<rparr> | None \<Rightarrow> e1)"
  have ij: "i \<noteq> j" using eng_fire.IH eng_fire.hyps(2) by (force simp: active_def flying_def)
  have "flying e1 \<subseteq> flying e" by (simp add: flying_def e1_def image_mono set_remove1_subset)
  then have "eng_ok T0 k e1" "\<not> active T0 k e1 j" using eng_fire.IH by (auto simp: active_def e1_def)
  then have e2: "eng_ok T0 k e2" "\<not> active T0 k e2 j" by (simp_all add: e2_def split: option.splits)
  show ?case
  proof (cases "e_scheds e1 i")
    case None
    then show ?thesis using e2 unfolding e1_def [symmetric] engine_onFire_eq by (simp add: Let_def flip: e2_def)
  next
    case (Some s0)
    obtain n s' where ns: "sched_Next Local s0 (fst rd) = (n, s')" by fastforce
    show ?thesis
      using scheduleNext_other [OF e2(1) eng_fire.hyps(3) ij e2(2)] scheduleNext_effect(1) [OF e2(1) eng_fire.hyps(3) ns]
      unfolding e1_def [symmetric] engine_onFire_eq by (simp add: Let_def Some flip: e2_def)
  qed
qed

subsection \<open>Properties\<close>

text \<open>C17. While the pool accepts every callback and \<^verbatim>\<open>Add\<close> is not called for an ID whose
  callback is in flight, the engine keeps one activity per ID: an ID has at most one timer on the wheel,
  none while its callback is in flight, and the timer is the entry that \<^verbatim>\<open>Remove\<close> removes, so
  that a removed ID is silent; and an ID registered with a schedule that always has a next time is always
  waiting for it or in flight, so that it keeps firing.\<close>

theorem engine_one_timer:
  assumes "eng_reach Local T0 False False k e"
  shows "(\<forall>eid eid' c c'. timers T0 k e eid = Some (i, c) \<and> timers T0 k e eid' = Some (i, c') \<longrightarrow> eid = eid') \<and>
    (i \<in> flying e \<longrightarrow> (\<forall>eid c. timers T0 k e eid \<noteq> Some (i, c))) \<and>
    (i \<notin> flying e \<longrightarrow> \<not> active T0 k (engine_Remove i e) i) \<and>
    (\<forall>s. e_scheds e i = Some s \<and> immortal Local T0 s \<longrightarrow> active T0 k e i)"
proof -
  have inv: "eng_ok T0 k e" "exclusive T0 k e" "alive Local T0 k e" using eng_reach_inv [OF assms] by auto
  have x: "e_entries e j = Some eid \<and> j \<notin> flying e" if "timers T0 k e eid = Some (j, c)" for eid j c
    using inv(2) that by (auto simp: exclusive_def)
  have "\<not> active T0 k (engine_Remove i e) i" if "i \<notin> flying e"
    using that not_active_Remove(2) [OF inv(1,2)] engine_Remove_effect(4) [OF inv(1)] by (simp add: active_def flying_def)
  moreover have "eid = eid'" if "timers T0 k e eid = Some (i, c)" "timers T0 k e eid' = Some (i, c')" for eid eid' c c'
    using x [OF that(1)] x [OF that(2)] by simp
  moreover have "\<forall>s. e_scheds e i = Some s \<and> immortal Local T0 s \<longrightarrow> active T0 k e i"
    using inv(3) unfolding alive_def by blast
  ultimately show ?thesis using x by blast
qed

text \<open>A run: a task every second from minute one on, its first fire at the first tick.\<close>

definition at_start :: readings where
  "at_start = (60 * time_Second, 60 * time_Second, 60 * time_Second, 60 * time_Second)"

definition at_fire :: readings where
  "at_fire = (61 * time_Second, 61 * time_Second, 61 * time_Second, 61 * time_Second)"

definition every_second :: "string engine" where
  "every_second = snd (engine_Add UTC at_start True 1 (Some (ConstantIntervalSchedule time_Second)) ''run'' new_engine)"

lemma every_second_reach: "eng_steps UTC (60 * time_Second) drops overlap UNIV 0 new_engine 0 every_second"
  unfolding every_second_def by (rule eng_add [OF eng_start]) (auto simp: at_start_def readings_ok_def flying_def new_engine_def)

lemma every_second_immortal: "immortal UTC (60 * time_Second) (ConstantIntervalSchedule time_Second)"
  by (auto simp: immortal_def time_Second_def)

definition each_second :: "sched option \<Rightarrow> bool" where
  "each_second s \<longleftrightarrow> (case s of Some (ConstantIntervalSchedule d) \<Rightarrow> d = time_Second | _ \<Rightarrow> False)"

lemma each_second: "each_second s \<Longrightarrow> s = Some (ConstantIntervalSchedule time_Second)"
  by (simp add: each_second_def split: option.splits sched.splits)

theorem engine_one_timer_witness:
  "active (60 * time_Second) 0 every_second 1 \<and>
   \<not> active (60 * time_Second) 0 (engine_Remove 1 every_second) 1"
proof -
  have "each_second (e_scheds every_second 1)" "e_inflight every_second = []" by code_simp+
  then show ?thesis
    using each_second engine_one_timer [OF every_second_reach, of 1] every_second_immortal by (auto simp: flying_def)
qed

definition doubled :: "string engine" where
  "doubled =
     (let e = engine_tick (60 * time_Second) 1 (\<lambda>_. True) every_second;
          e = snd (engine_Add UTC at_fire True 1 (Some (ConstantIntervalSchedule time_Second)) ''run'' e)
      in engine_onFire UTC at_fire True 1 (Some ''run'') (e\<lparr>e_inflight := remove1 (1, 1, Some ''run'') (e_inflight e)\<rparr>))"

text \<open>Without that restriction timers multiply: when \<^verbatim>\<open>Add\<close> is called for an ID (as every
  update of a task does) while its callback runs, the deferred rescheduling adds a second timer beside
  the one that \<^verbatim>\<open>Add\<close> has set. From then on the ID fires twice each time, and \<^verbatim>\<open>Remove\<close>
  removes only one of the timers.\<close>

theorem engine_timers_multiply:
  "eng_reach UTC (60 * time_Second) False True 1 doubled \<and>
   timers (60 * time_Second) 1 doubled 2 = Some (1, Some ''run'') \<and>
   timers (60 * time_Second) 1 doubled 3 = Some (1, Some ''run'') \<and>
   active (60 * time_Second) 1 (engine_Remove 1 doubled) 1"
proof -
  let ?e1 = "engine_tick (60 * time_Second) (0 + 1) (\<lambda>_. True) every_second"
  let ?e2 = "snd (engine_Add UTC at_fire True 1 (Some (ConstantIntervalSchedule time_Second)) ''run'' ?e1)"
  have "eng_reach UTC (60 * time_Second) False True (0 + 1) ?e1"
    by (rule eng_tick [OF every_second_reach]) simp
  then have "eng_reach UTC (60 * time_Second) False True (0 + 1) ?e2"
    by (rule eng_add) (simp_all add: at_fire_def readings_ok_def time_Second_def)
  moreover have "(1, 1, Some ''run'') \<in> set (e_inflight ?e2)" by code_simp
  ultimately have "eng_reach UTC (60 * time_Second) False True (0 + 1) doubled"
    unfolding doubled_def Let_def add_0 by (rule eng_fire) (simp_all add: at_fire_def readings_ok_def time_Second_def)
  moreover have t: "timers (60 * time_Second) 1 doubled 2 = Some (1, Some ''run'')"
      "timers (60 * time_Second) 1 doubled 3 = Some (1, Some ''run'')"
      "timers (60 * time_Second) 1 (engine_Remove 1 doubled) 2 = Some (1, Some ''run'')" by code_simp+
  ultimately show ?thesis by (auto simp: active_def)
qed

definition dropped_fire :: "string engine" where
  "dropped_fire = engine_tick (60 * time_Second) 1 (\<lambda>_. False) every_second"

text \<open>A fire that the pool drops is the last one: the engine reschedules an ID only after its
  callback has run, so when the wheel's pool rejects the callback the ID stays registered but never fires
  again, whatever else happens, until someone calls \<^verbatim>\<open>Add\<close> for it.\<close>

theorem engine_dropped_fire_stops:
  "eng_reach UTC (60 * time_Second) True False 1 dropped_fire \<and>
   e_scheds dropped_fire 1 = Some (ConstantIntervalSchedule time_Second) \<and>
   (\<forall>drops overlap k' e'. eng_steps UTC (60 * time_Second) drops overlap (- {1}) 1 dropped_fire k' e' \<longrightarrow>
      \<not> active (60 * time_Second) k' e' 1)"
proof -
  have "eng_reach UTC (60 * time_Second) True False (0 + 1) (engine_tick (60 * time_Second) (0 + 1) (\<lambda>_. False) every_second)"
    by (rule eng_tick [OF every_second_reach]) simp
  then have r: "eng_reach UTC (60 * time_Second) True False 1 dropped_fire" by (simp add: dropped_fire_def)
  have "e_inflight dropped_fire = []" "e_entries dropped_fire 1 = Some 1" "timers (60 * time_Second) 1 dropped_fire 1 = None"
    by code_simp+
  moreover have "exclusive (60 * time_Second) 1 dropped_fire" using eng_reach_inv [OF r] by simp
  ultimately have "\<not> active (60 * time_Second) 1 dropped_fire 1"
    by (simp add: active_def flying_def exclusive_def) (metis option.distinct(1) option.inject)
  moreover have "eng_ok (60 * time_Second) 1 dropped_fire" using eng_reach_inv [OF r] by blast
  moreover have "e_scheds dropped_fire 1 = Some (ConstantIntervalSchedule time_Second)" by (rule each_second) code_simp
  ultimately show ?thesis using r inactive_stays by blast
qed

theorem engine_dropped_fire_stops_witness:
  "\<not> active (60 * time_Second) 2 (engine_tick (60 * time_Second) 2 (\<lambda>_. True) dropped_fire) 1"
proof -
  have "eng_steps UTC (60 * time_Second) True True (- {1}) 1 dropped_fire (1 + 1)
      (engine_tick (60 * time_Second) (1 + 1) (\<lambda>_. True) dropped_fire)"
    by (rule eng_tick [OF eng_start]) simp
  then show ?thesis using engine_dropped_fire_stops by (metis one_add_one)
qed

text \<open>Sharding by consistent hash gives every task exactly one owner among the shards
  \<open>0, ..., total - 1\<close>. Sharding by modulo does so for task IDs that are not negative; a task with a
  negative ID, as the telemetry prober registers them, is owned by no shard at all unless the number of
  shards divides its ID, because the remainder in Go has the sign of the dividend.\<close>

theorem shard_owner:
  assumes "1 < n" "n \<le> max_int"
  shows "(\<exists>!idx. 0 \<le> idx \<and> idx < n \<and> Owns (Some (ConsistentHashShardStrategy n idx)) taskID) \<and>
    (0 \<le> taskID \<longrightarrow> (\<exists>!idx. 0 \<le> idx \<and> idx < n \<and> Owns (NewShardManager n idx) taskID)) \<and>
    (taskID < 0 \<and> \<not> n dvd taskID \<longrightarrow> (\<forall>idx. 0 \<le> idx \<longrightarrow> \<not> Owns (NewShardManager n idx) taskID))"
proof (intro conjI impI allI)
  have "uint (fnv1a64 (FormatInt taskID) mod word_of_int n) = uint (fnv1a64 (FormatInt taskID)) mod n"
    using assms by (simp add: uint_mod uint_word_of_int max_int_def)
  then show "\<exists>!idx. 0 \<le> idx \<and> idx < n \<and> Owns (Some (ConsistentHashShardStrategy n idx)) taskID"
    using assms(1) by (auto simp: Owns_def)
  show "\<exists>!idx. 0 \<le> idx \<and> idx < n \<and> Owns (NewShardManager n idx) taskID" if "0 \<le> taskID"
    using assms(1) that by (auto simp: Owns_def NewShardManager_def go_rem_nonneg)
  fix idx :: int
  assume neg: "taskID < 0 \<and> \<not> n dvd taskID" and "0 \<le> idx"
  have "go_rem taskID n = - ((- taskID) mod n)"
    using neg assms(1) by (simp add: go_rem_def go_div_def sgn_if minus_div_mult_eq_mod [symmetric] mult.commute)
  moreover have "0 < (- taskID) mod n"
    using neg assms(1) pos_mod_sign [of n "- taskID"] mod_eq_0_iff_dvd [of "- taskID" n] by (simp add: order_less_le)
  ultimately show "\<not> Owns (NewShardManager n idx) taskID"
    using assms(1) \<open>0 \<le> idx\<close> by (simp add: Owns_def NewShardManager_def)
qed

theorem shard_owner_witness:
  "Owns (NewShardManager 3 1) 7 \<and> \<not> Owns (NewShardManager 3 0) (- 7) \<and> \<not> Owns (NewShardManager 3 1) (- 7) \<and>
   \<not> Owns (NewShardManager 3 2) (- 7)"
proof -
  have "Owns (NewShardManager 3 1) 7" by code_simp
  moreover have "\<not> Owns (NewShardManager 3 idx) (- 7)" if "0 \<le> idx" for idx
    using shard_owner [of 3 "- 7"] that by (simp add: max_int_def)
  ultimately show ?thesis by simp
qed

end
