(* ===== verification/TaskEngine.thy ===== *)
theory TaskEngine
  imports SchedEngine
begin

text \<open>
  The task engine, \<^verbatim>\<open>pkg/task\<close>: \<^verbatim>\<open>engine.go\<close>, \<^verbatim>\<open>events.go\<close>, \<^verbatim>\<open>dependency.go\<close>,
  \<^verbatim>\<open>persistence.go\<close>, the part of \<^verbatim>\<open>catchup.go\<close> that drives the engine, and the model
  \<^verbatim>\<open>Task\<close> of \<^verbatim>\<open>model.go\<close>. The timing engine is used through its interface, a pair of operations
  on a state; \<open>sched_ops\<close> is the instance of the engine of \<^verbatim>\<open>SchedEngine\<close>. The store is written
  to but, except by \<^verbatim>\<open>Restore\<close>, never read, and its errors are only logged: its operations are
  recorded in a list. Methods are atomic; the clock reading of a method and the outcome of each publication
  on the bus are arguments.
\<close>

definition OpProbe :: int where "OpProbe = 1"
definition OpExecute :: int where "OpExecute = 2"

definition Operation_String :: "int \<Rightarrow> string" where
  "Operation_String oper = (if oper = OpProbe then ''probe'' else if oper = OpExecute then ''execute'' else ''unknown'')"

datatype TriggerType = TriggerTypeSchedule | TriggerTypeManual | TriggerTypeEvent | TriggerTypeExternal | TriggerTypeCatchup

fun TriggerType_string :: "TriggerType \<Rightarrow> string" where
  "TriggerType_string TriggerTypeSchedule = ''schedule''"
| "TriggerType_string TriggerTypeManual = ''manual''"
| "TriggerType_string TriggerTypeEvent = ''event''"
| "TriggerType_string TriggerTypeExternal = ''external''"
| "TriggerType_string TriggerTypeCatchup = ''catchup''"

record 'c Task =
  t_ID :: int
  t_TenantID :: int
  t_AssetID :: int
  t_Name :: string
  t_Description :: string
  t_ExecutorType :: string
  t_Schedule :: string
  t_Enabled :: bool
  t_ReportStatus :: bool
  t_Config :: "'c option"
  t_TimeoutSeconds :: int
  t_MaxRetries :: int
  t_RetryIntervalSeconds :: int
  t_Priority :: int
  t_DependsOn :: int
  t_Metadata :: "(string \<rightharpoonup> string) option"
  t_Group :: string
  t_Tags :: "string list"
  t_RunID :: string
  t_RetryPolicy :: string
  t_Concurrency :: int
  t_CatchupPolicy :: string
  t_SleepWindows :: "SleepWindow list"
  t_LastScheduledAt :: "ltime option"
  t_Operation :: int
  t_CreatedAt :: gotime
  t_UpdatedAt :: gotime
  t_DeletedAt :: "gotime option"

text \<open>The fields of the payload that a triggered event sets; the others keep their zero value.\<close>

record ExecutionPayload =
  p_ExecutionID :: string
  p_TenantID :: string
  p_AssetID :: string
  p_ExecutorType :: string
  p_Operation :: string
  p_Action :: string
  p_TimeoutSeconds :: int
  p_MaxRetries :: int
  p_RetryIntervalSeconds :: int
  p_RunID :: string
  p_TriggerType :: string
  p_ReportStatus :: bool
  p_Config :: string

datatype 'c store_op = StoreSave "'c Task" | StoreDelete int | StoreAdvance int ltime

datatype task_error =
    ErrTaskNotFound | ErrTaskAlreadyPaused | ErrTaskNotPaused | ErrIntervalTooSmall
  | ErrSchedule schedule_error | ErrEngineAdd | ErrStoreList

text \<open>
  What the engine depends on: the time functions, the shard manager, the quota ceiling for intervals, the
  coding of configurations, whether store and bus are there, the outcome of the \<open>n\<close>-th publication
  and its run ID.
\<close>

record 'c task_env =
  v_go :: go_env
  v_shard :: "shard_strategy option"
  v_ceiling :: int
  v_marshal :: "'c \<Rightarrow> string option"
  v_store :: bool
  v_bus :: bool
  v_publish :: "nat \<Rightarrow> bool"
  v_runID :: "nat \<Rightarrow> string"

record 'g engine_ops =
  op_Add :: "int \<Rightarrow> sched \<Rightarrow> 'g \<Rightarrow> bool \<times> 'g"
  op_Remove :: "int \<Rightarrow> 'g \<Rightarrow> bool \<times> 'g"

record ('c, 'g) task_engine =
  te_engine :: 'g
  te_tasks :: "int \<rightharpoonup> 'c Task"
  te_scheds :: "int \<rightharpoonup> sched"
  te_types :: "int \<rightharpoonup> ScheduleType"
  te_eventDriven :: "int set"
  te_running :: "int set"
  te_deps :: "int \<rightharpoonup> string"
  te_published :: "(ExecutionPayload \<times> (string \<rightharpoonup> string) option) list"
  te_attempts :: nat
  te_store :: "'c store_op list"

definition NewTaskEngine :: "'g \<Rightarrow> ('c, 'g) task_engine" where
  "NewTaskEngine g = \<lparr>te_engine = g, te_tasks = Map.empty, te_scheds = Map.empty, te_types = Map.empty,
     te_eventDriven = {}, te_running = {}, te_deps = Map.empty, te_published = [], te_attempts = 0, te_store = []\<rparr>"

subsection \<open>Tasks and their store\<close>

definition store_write :: "'c task_env \<Rightarrow> 'c store_op \<Rightarrow> ('c, 'g) task_engine \<Rightarrow> ('c, 'g) task_engine" where
  "store_write v oper e = (if v_store v then e\<lparr>te_store := te_store e @ [oper]\<rparr> else e)"

definition getTask :: "int \<Rightarrow> ('c, 'g) task_engine \<Rightarrow> task_error + 'c Task" where
  "getTask i e = (case te_tasks e i of None \<Rightarrow> Inl ErrTaskNotFound | Some t \<Rightarrow> Inr t)"

definition setTask :: "'c task_env \<Rightarrow> 'c Task \<Rightarrow> ('c, 'g) task_engine \<Rightarrow> ('c, 'g) task_engine" where
  "setTask v t e = store_write v (StoreSave t) (e\<lparr>te_tasks := (te_tasks e)(t_ID t \<mapsto> t)\<rparr>)"

definition deleteTask :: "'c task_env \<Rightarrow> int \<Rightarrow> ('c, 'g) task_engine \<Rightarrow> ('c, 'g) task_engine" where
  "deleteTask v i e = store_write v (StoreDelete i) (e\<lparr>te_tasks := (te_tasks e)(i := None)\<rparr>)"

definition advanceWatermark :: "'c task_env \<Rightarrow> int \<Rightarrow> ltime \<Rightarrow> ('c, 'g) task_engine \<Rightarrow> ('c, 'g) task_engine" where
  "advanceWatermark v i tm e =
     (case te_tasks e i of
        None \<Rightarrow> e
      | Some t \<Rightarrow>
          (case t_LastScheduledAt t of
             Some wm \<Rightarrow>
               if \<not> fst wm < fst tm then e
               else store_write v (StoreAdvance i tm) (e\<lparr>te_tasks := (te_tasks e)(i \<mapsto> t\<lparr>t_LastScheduledAt := Some tm\<rparr>)\<rparr>)
           | None \<Rightarrow> store_write v (StoreAdvance i tm) (e\<lparr>te_tasks := (te_tasks e)(i \<mapsto> t\<lparr>t_LastScheduledAt := Some tm\<rparr>)\<rparr>)))"

subsection \<open>Dependencies and the running set\<close>

definition AssetStatusNormal :: string where "AssetStatusNormal = ''normal''"
definition AssetStatusAbnormal :: string where "AssetStatusAbnormal = ''abnormal''"

definition CanExecute :: "int \<Rightarrow> ('c, 'g) task_engine \<Rightarrow> bool" where
  "CanExecute i e = (case te_deps e i of None \<Rightarrow> False | Some st \<Rightarrow> st = AssetStatusNormal)"

definition deps_UpdateStatus :: "int \<Rightarrow> string \<Rightarrow> ('c, 'g) task_engine \<Rightarrow> ('c, 'g) task_engine" where
  "deps_UpdateStatus i st e = e\<lparr>te_deps := (te_deps e)(i \<mapsto> st)\<rparr>"

definition deps_Reset :: "int \<Rightarrow> ('c, 'g) task_engine \<Rightarrow> ('c, 'g) task_engine" where
  "deps_Reset i e = e\<lparr>te_deps := (te_deps e)(i := None)\<rparr>"

definition tryClaimRunning :: "int \<Rightarrow> ('c, 'g) task_engine \<Rightarrow> bool \<times> ('c, 'g) task_engine" where
  "tryClaimRunning i e = (if i \<in> te_running e then (False, e) else (True, e\<lparr>te_running := insert i (te_running e)\<rparr>))"

definition releaseRunning :: "int \<Rightarrow> ('c, 'g) task_engine \<Rightarrow> ('c, 'g) task_engine" where
  "releaseRunning i e = e\<lparr>te_running := te_running e - {i}\<rparr>"

subsection \<open>Dispatch\<close>

definition trigger_payload :: "'c task_env \<Rightarrow> nat \<Rightarrow> 'c Task \<Rightarrow> TriggerType \<Rightarrow> ExecutionPayload" where
  "trigger_payload v n t tt =
     (let oper = (if t_Operation t \<noteq> OpProbe \<and> t_Operation t \<noteq> OpExecute then OpExecute else t_Operation t)
      in \<lparr>p_ExecutionID = FormatInt (t_ID t), p_TenantID = FormatInt (t_TenantID t), p_AssetID = FormatInt (t_AssetID t),
          p_ExecutorType = t_ExecutorType t, p_Operation = Operation_String oper, p_Action = ''triggered'',
          p_TimeoutSeconds = t_TimeoutSeconds t, p_MaxRetries = t_MaxRetries t,
          p_RetryIntervalSeconds = t_RetryIntervalSeconds t, p_RunID = v_runID v n,
          p_TriggerType = TriggerType_string tt, p_ReportStatus = t_ReportStatus t,
          p_Config = (case Option.bind (t_Config t) (v_marshal v) of Some raw \<Rightarrow> raw | None \<Rightarrow> [])\<rparr>)"

definition trigger :: "'c task_env \<Rightarrow> gotime \<Rightarrow> 'c Task \<Rightarrow> TriggerType \<Rightarrow> ('c, 'g) task_engine \<Rightarrow> ('c, 'g) task_engine" where
  "trigger v now t tt e =
     (let e = e\<lparr>te_running := insert (t_ID t) (te_running e)\<rparr>
      in if \<not> v_bus v then releaseRunning (t_ID t) e
         else
           let n = te_attempts e;
               e = e\<lparr>te_attempts := n + 1\<rparr>
           in if \<not> v_publish v n then releaseRunning (t_ID t) e
              else
                let e = e\<lparr>te_published := te_published e @ [(trigger_payload v n t tt, t_Metadata t)]\<rparr>
                in if tt = TriggerTypeSchedule \<or> tt = TriggerTypeCatchup
                   then advanceWatermark v (t_ID t) (now, env_Local (v_go v)) e
                   else e)"

definition dispatchGated ::
  "'c task_env \<Rightarrow> gotime \<Rightarrow> 'c Task \<Rightarrow> ltime \<Rightarrow> TriggerType \<Rightarrow> ('c, 'g) task_engine \<Rightarrow> ('c, 'g) task_engine" where
  "dispatchGated v now t slot tt e =
     (if \<not> Owns (v_shard v) (t_ID t) then e
      else if InSleepWindow (t_SleepWindows t) slot then advanceWatermark v (t_ID t) slot e
      else if t_DependsOn t \<noteq> 0 \<and> \<not> CanExecute (t_DependsOn t) e then e
      else if t_Concurrency t = 1 then
        (let (claimed, e') = tryClaimRunning (t_ID t) e
         in if \<not> claimed then e' else trigger v now t tt e')
      else trigger v now t tt e)"

definition task_onFire :: "'c task_env \<Rightarrow> gotime \<Rightarrow> int \<Rightarrow> ('c, 'g) task_engine \<Rightarrow> ('c, 'g) task_engine" where
  "task_onFire v now i e =
     (case getTask i e of
        Inl _ \<Rightarrow> e
      | Inr t \<Rightarrow> dispatchGated v now t (now, env_Local (v_go v)) TriggerTypeSchedule e)"

definition catchup_slots :: "'c task_env \<Rightarrow> 'c Task \<Rightarrow> gotime \<Rightarrow> ltime list option" where
  "catchup_slots v t now =
     (if t_CatchupPolicy t \<noteq> CatchupPolicyOnce \<and> t_CatchupPolicy t \<noteq> CatchupPolicyAll then None
      else case t_LastScheduledAt t of
        None \<Rightarrow> None
      | Some wm \<Rightarrow>
          (case ClassifySchedule (v_go v) (t_Schedule t) of
             (_, _, Some _) \<Rightarrow> None
           | (st, interval, None) \<Rightarrow>
               if st \<noteq> ScheduleTypeCron \<and> st \<noteq> ScheduleTypeInterval then None
               else if \<not> Owns (v_shard v) (t_ID t) then None
               else
                 let slots = fst (missedSlots (v_go v) (t_Schedule t) st interval wm now)
                 in Some (if t_CatchupPolicy t = CatchupPolicyOnce \<and> slots \<noteq> [] then [last slots] else slots)))"

definition runCatchup :: "'c task_env \<Rightarrow> 'c Task \<Rightarrow> gotime \<Rightarrow> ('c, 'g) task_engine \<Rightarrow> ('c, 'g) task_engine" where
  "runCatchup v t now e =
     (case catchup_slots v t now of
        None \<Rightarrow> e
      | Some slots \<Rightarrow>
          advanceWatermark v (t_ID t) (now, env_Local (v_go v))
            (fold (\<lambda>slot e. dispatchGated v now t slot TriggerTypeCatchup e) slots e))"

subsection \<open>Registration\<close>

definition checkMinInterval :: "'c task_env \<Rightarrow> ScheduleType \<Rightarrow> duration \<Rightarrow> task_error option" where
  "checkMinInterval v st interval =
     (if st \<noteq> ScheduleTypeInterval then None
      else if v_ceiling v \<le> 0 then None
      else if interval > 0 \<and> interval < wrap64 (v_ceiling v * time_Second) then Some ErrIntervalTooSmall
      else None)"

definition forget_sched :: "int \<Rightarrow> ('c, 'g) task_engine \<Rightarrow> ('c, 'g) task_engine" where
  "forget_sched i e = e\<lparr>te_scheds := (te_scheds e)(i := None), te_types := (te_types e)(i := None)\<rparr>"

definition forget_event :: "int \<Rightarrow> ('c, 'g) task_engine \<Rightarrow> ('c, 'g) task_engine" where
  "forget_event i e = e\<lparr>te_eventDriven := te_eventDriven e - {i}\<rparr>"

definition note_sched :: "int \<Rightarrow> sched \<Rightarrow> ScheduleType \<Rightarrow> ('c, 'g) task_engine \<Rightarrow> ('c, 'g) task_engine" where
  "note_sched i s st e =
     e\<lparr>te_scheds := (te_scheds e)(i \<mapsto> s), te_types := (te_types e)(i \<mapsto> st),
       te_eventDriven := (if st = ScheduleTypeEvent then insert i (te_eventDriven e) else te_eventDriven e - {i})\<rparr>"

definition Register ::
  "'g engine_ops \<Rightarrow> 'c task_env \<Rightarrow> 'c Task \<Rightarrow> ('c, 'g) task_engine \<Rightarrow> task_error option \<times> ('c, 'g) task_engine" where
  "Register ops v task e =
     (let t = (if t_CatchupPolicy task = [] then task\<lparr>t_CatchupPolicy := CatchupPolicySkip\<rparr> else task)
      in case ClassifySchedule (v_go v) (t_Schedule t) of
           (_, _, Some err) \<Rightarrow> (Some (ErrSchedule err), e)
         | (st, interval, None) \<Rightarrow>
             (case checkMinInterval v st interval of
                Some err \<Rightarrow> (Some err, e)
              | None \<Rightarrow>
                  (case parseSchedule (v_go v) (t_Schedule t) of
                     Inl err \<Rightarrow> (Some (ErrSchedule err), e)
                   | Inr sched \<Rightarrow>
                       let e = setTask v t e;
                           e = (if t_Enabled t then note_sched (t_ID t) sched st e else e)
                       in if t_Enabled t \<and> st \<noteq> ScheduleTypeEvent then
                            (case op_Add ops (t_ID t) sched (te_engine e) of
                               (True, g) \<Rightarrow> (None, e\<lparr>te_engine := g\<rparr>)
                             | (False, g) \<Rightarrow>
                                 (Some ErrEngineAdd,
                                  deleteTask v (t_ID t) (forget_event (t_ID t) (forget_sched (t_ID t) (e\<lparr>te_engine := g\<rparr>)))))
                          else (None, e))))"

definition Schedule_task ::
  "'c task_env \<Rightarrow> gotime \<Rightarrow> int \<Rightarrow> ('c, 'g) task_engine \<Rightarrow> task_error option \<times> ('c, 'g) task_engine" where
  "Schedule_task v now i e =
     (case getTask i e of Inl err \<Rightarrow> (Some err, e) | Inr t \<Rightarrow> (None, trigger v now t TriggerTypeManual e))"

definition unscheduleInternal :: "'g engine_ops \<Rightarrow> int \<Rightarrow> ('c, 'g) task_engine \<Rightarrow> ('c, 'g) task_engine" where
  "unscheduleInternal ops i e = deps_Reset i (e\<lparr>te_engine := snd (op_Remove ops i (te_engine e))\<rparr>)"

definition Update ::
  "'g engine_ops \<Rightarrow> 'c task_env \<Rightarrow> 'c Task \<Rightarrow> ('c, 'g) task_engine \<Rightarrow> task_error option \<times> ('c, 'g) task_engine" where
  "Update ops v t e = Register ops v t (unscheduleInternal ops (t_ID t) e)"

definition Unschedule :: "'g engine_ops \<Rightarrow> 'c task_env \<Rightarrow> int \<Rightarrow> ('c, 'g) task_engine \<Rightarrow> ('c, 'g) task_engine" where
  "Unschedule ops v i e = forget_event i (forget_sched i (deleteTask v i (unscheduleInternal ops i e)))"

definition on_wheel :: "int \<Rightarrow> ('c, 'g) task_engine \<Rightarrow> bool" where
  "on_wheel i e \<longleftrightarrow> te_scheds e i \<noteq> None \<and> te_types e i \<noteq> Some ScheduleTypeEvent"

definition Pause ::
  "'g engine_ops \<Rightarrow> 'c task_env \<Rightarrow> int \<Rightarrow> ('c, 'g) task_engine \<Rightarrow> task_error option \<times> ('c, 'g) task_engine" where
  "Pause ops v i e =
     (case getTask i e of
        Inl err \<Rightarrow> (Some err, e)
      | Inr t \<Rightarrow>
          if \<not> on_wheel i e then (Some ErrTaskAlreadyPaused, e)
          else (None, setTask v (t\<lparr>t_Enabled := False\<rparr>) (forget_sched i (unscheduleInternal ops i e))))"

definition finish_resume :: "'c task_env \<Rightarrow> gotime \<Rightarrow> 'c Task \<Rightarrow> ('c, 'g) task_engine \<Rightarrow> ('c, 'g) task_engine" where
  "finish_resume v now t e = (let t = t\<lparr>t_Enabled := True\<rparr> in runCatchup v t now (setTask v t e))"

definition rearm ::
  "'g engine_ops \<Rightarrow> 'c task_env \<Rightarrow> gotime \<Rightarrow> int \<Rightarrow> 'c Task \<Rightarrow> sched \<Rightarrow> ('c, 'g) task_engine \<Rightarrow>
   task_error option \<times> ('c, 'g) task_engine" where
  "rearm ops v now i t s e =
     (let (ok, g) = op_Add ops i s (te_engine e);
          e = e\<lparr>te_engine := g\<rparr>
      in if \<not> ok then (Some ErrEngineAdd, e) else (None, finish_resume v now t e))"

definition Resume ::
  "'g engine_ops \<Rightarrow> 'c task_env \<Rightarrow> gotime \<Rightarrow> int \<Rightarrow> ('c, 'g) task_engine \<Rightarrow> task_error option \<times> ('c, 'g) task_engine" where
  "Resume ops v now i e =
     (case getTask i e of
        Inl err \<Rightarrow> (Some err, e)
      | Inr t \<Rightarrow>
          if on_wheel i e then (Some ErrTaskNotPaused, e)
          else case ClassifySchedule (v_go v) (t_Schedule t) of
            (_, _, Some err) \<Rightarrow> (Some (ErrSchedule err), e)
          | (st, _, None) \<Rightarrow>
              if st = ScheduleTypeEvent
              then (None, finish_resume v now t (e\<lparr>te_eventDriven := insert i (te_eventDriven e)\<rparr>))
              else (case te_scheds e i of
                      Some s \<Rightarrow> rearm ops v now i t s e
                    | None \<Rightarrow>
                        (case parseSchedule (v_go v) (t_Schedule t) of
                           Inl err \<Rightarrow> (Some (ErrSchedule err), e)
                         | Inr s \<Rightarrow>
                             rearm ops v now i t s
                               (e\<lparr>te_scheds := (te_scheds e)(i \<mapsto> s), te_types := (te_types e)(i \<mapsto> st)\<rparr>))))"

subsection \<open>Events\<close>

text \<open>The subscriber of completed executions.\<close>

definition handleCompleted :: "string \<Rightarrow> string \<Rightarrow> ('c, 'g) task_engine \<Rightarrow> ('c, 'g) task_engine" where
  "handleCompleted executionID status e =
     (let i = ParseInt_value executionID in releaseRunning i (deps_UpdateStatus i status e))"

definition fire_event_task ::
  "'c task_env \<Rightarrow> gotime \<Rightarrow> int \<Rightarrow> int \<Rightarrow> ('c, 'g) task_engine \<Rightarrow> ('c, 'g) task_engine" where
  "fire_event_task v now assetID i e =
     (case getTask i e of
        Inl _ \<Rightarrow> e
      | Inr t \<Rightarrow>
          if \<not> t_Enabled t then e
          else if t_AssetID t \<noteq> 0 \<and> t_AssetID t \<noteq> assetID then e
          else if \<not> Owns (v_shard v) (t_ID t) then e
          else if t_Concurrency t = 1 then
            (let (claimed, e') = tryClaimRunning (t_ID t) e
             in if \<not> claimed then e' else trigger v now t TriggerTypeEvent e')
          else trigger v now t TriggerTypeEvent e)"

text \<open>\<open>order\<close> is the order in which the map of event-driven tasks is traversed.\<close>

definition handleStatusChange ::
  "'c task_env \<Rightarrow> gotime \<Rightarrow> int list \<Rightarrow> string \<Rightarrow> string \<Rightarrow> ('c, 'g) task_engine \<Rightarrow> ('c, 'g) task_engine" where
  "handleStatusChange v now order assetIDstr currStatus e =
     (if currStatus \<noteq> AssetStatusAbnormal then e
      else
        let assetID = ParseInt_value assetIDstr
        in fold (fire_event_task v now assetID) order e)"

subsection \<open>Restoring from the store\<close>

definition restore_task ::
  "'g engine_ops \<Rightarrow> 'c task_env \<Rightarrow> gotime \<Rightarrow> 'c Task \<Rightarrow> ('c, 'g) task_engine \<Rightarrow> ('c, 'g) task_engine" where
  "restore_task ops v now t e =
     (if \<not> t_Enabled t then e
      else case ClassifySchedule (v_go v) (t_Schedule t) of
        (_, _, Some _) \<Rightarrow> e
      | (st, interval, None) \<Rightarrow>
          if checkMinInterval v st interval \<noteq> None then e
          else
            (case parseSchedule (v_go v) (t_Schedule t) of
               Inl _ \<Rightarrow> e
             | Inr s \<Rightarrow>
                 let e = note_sched (t_ID t) s st e
                 in case op_Add ops (t_ID t) s (te_engine e) of
                      (False, g) \<Rightarrow> e\<lparr>te_engine := g\<rparr>
                    | (True, g) \<Rightarrow> runCatchup v t now (e\<lparr>te_engine := g\<rparr>)))"

text \<open>\<open>order\<close> is the order in which the registered schedules are removed from the timing engine.\<close>

definition Restore ::
  "'g engine_ops \<Rightarrow> 'c task_env \<Rightarrow> gotime \<Rightarrow> int list \<Rightarrow> 'c Task list option \<Rightarrow> ('c, 'g) task_engine \<Rightarrow>
   task_error option \<times> ('c, 'g) task_engine" where
  "Restore ops v now order listed e =
     (if \<not> v_store v then (None, e)
      else case listed of
        None \<Rightarrow> (Some ErrStoreList, e)
      | Some tasks \<Rightarrow>
          let e = e\<lparr>te_engine := fold (\<lambda>i g. snd (op_Remove ops i g)) order (te_engine e), te_scheds := Map.empty,
                    te_types := Map.empty, te_eventDriven := {}\<rparr>;
              e = e\<lparr>te_tasks := fold (\<lambda>t m. m(t_ID t \<mapsto> t)) tasks Map.empty\<rparr>
          in (None, fold (restore_task ops v now) tasks e))"

text \<open>The timing engine of \<^verbatim>\<open>pkg/scheduler\<close> behind the interface.\<close>

definition sched_ops :: "location \<Rightarrow> readings \<Rightarrow> bool \<Rightarrow> unit engine engine_ops" where
  "sched_ops Local rd accept =
     \<lparr>op_Add = (\<lambda>i s g. engine_Add Local rd accept i (Some s) () g), op_Remove = (\<lambda>i g. (True, engine_Remove i g))\<rparr>"

subsection \<open>What dispatching leaves alone\<close>

fun wm_le :: "ltime option \<Rightarrow> ltime option \<Rightarrow> bool" where
  "wm_le None w \<longleftrightarrow> True"
| "wm_le (Some a) None \<longleftrightarrow> False"
| "wm_le (Some a) (Some b) \<longleftrightarrow> fst a \<le> fst b"

lemma wm_le_refl [simp]: "wm_le w w" by (cases w) auto

lemma wm_le_trans: "wm_le a b \<Longrightarrow> wm_le b c \<Longrightarrow> wm_le a c"
  by (cases a; cases b; cases c) auto

text \<open>The same task up to a later watermark.\<close>

definition later_task :: "'c Task option \<Rightarrow> 'c Task option \<Rightarrow> bool" where
  "later_task a b \<longleftrightarrow>
     (case a of
        None \<Rightarrow> b = None
      | Some t \<Rightarrow> \<exists>w. b = Some (t\<lparr>t_LastScheduledAt := w\<rparr>) \<and> wm_le (t_LastScheduledAt t) w)"

definition te_frame :: "('c, 'g) task_engine \<Rightarrow> ('c, 'g) task_engine \<Rightarrow> bool" where
  "te_frame e e' \<longleftrightarrow>
     te_engine e' = te_engine e \<and> te_scheds e' = te_scheds e \<and> te_types e' = te_types e \<and>
     te_eventDriven e' = te_eventDriven e \<and> (\<forall>i. later_task (te_tasks e i) (te_tasks e' i))"

lemma later_task_Some: "wm_le (t_LastScheduledAt t) w \<Longrightarrow> later_task (Some t) (Some (t\<lparr>t_LastScheduledAt := w\<rparr>))"
  unfolding later_task_def option.case by (rule exI [of _ w]) simp

lemma later_task_refl [simp]: "later_task a a"
proof (cases a)
  case (Some t)
  then show ?thesis using later_task_Some [of t "t_LastScheduledAt t"] by simp
qed (simp add: later_task_def)

lemma later_task_trans: "later_task a b \<Longrightarrow> later_task b c \<Longrightarrow> later_task a c"
proof (cases a)
  case (Some t)
  assume "later_task a b" "later_task b c"
  then obtain w w' where "wm_le (t_LastScheduledAt t) w" "c = Some (t\<lparr>t_LastScheduledAt := w'\<rparr>)" "wm_le w w'"
    unfolding later_task_def Some by auto
  then show ?thesis using Some later_task_Some wm_le_trans by blast
qed (simp add: later_task_def)

lemma te_frame_refl [simp]: "te_frame e e"
  by (simp add: te_frame_def)

lemma te_frame_trans [trans]: "te_frame e e' \<Longrightarrow> te_frame e' e'' \<Longrightarrow> te_frame e e''"
  unfolding te_frame_def using later_task_trans by metis

lemma te_frame_fold: "(\<And>x e. te_frame e (f x e)) \<Longrightarrow> te_frame e (fold f xs e)"
  by (induction xs arbitrary: e) (auto intro: te_frame_trans)

lemma store_write_fields [simp]:
  "te_engine (store_write v x e) = te_engine e" "te_scheds (store_write v x e) = te_scheds e"
  "te_types (store_write v x e) = te_types e" "te_eventDriven (store_write v x e) = te_eventDriven e"
  "te_tasks (store_write v x e) = te_tasks e" "te_running (store_write v x e) = te_running e"
  "te_published (store_write v x e) = te_published e" "te_deps (store_write v x e) = te_deps e"
  "te_attempts (store_write v x e) = te_attempts e"
  by (simp_all add: store_write_def)

lemma advance_frame: "te_frame e (advanceWatermark v i tm e)"
proof (cases "te_tasks e i")
  case (Some t)
  show ?thesis
  proof (cases "advanceWatermark v i tm e = e")
    case False
    then have a: "advanceWatermark v i tm e =
        store_write v (StoreAdvance i tm) (e\<lparr>te_tasks := (te_tasks e)(i \<mapsto> t\<lparr>t_LastScheduledAt := Some tm\<rparr>)\<rparr>)"
      and "wm_le (t_LastScheduledAt t) (Some tm)"
      using Some by (auto simp: advanceWatermark_def split: option.splits if_splits)
    from later_task_Some [OF this(2)] show ?thesis unfolding a te_frame_def by (simp add: Some)
  qed simp
qed (simp add: advanceWatermark_def)

lemma advance_fields [simp]:
  "te_running (advanceWatermark v i tm e) = te_running e" "te_published (advanceWatermark v i tm e) = te_published e"
  "te_deps (advanceWatermark v i tm e) = te_deps e"
  by (auto simp: advanceWatermark_def split: option.splits)

lemma frame_upd:
  "te_frame e (e\<lparr>te_running := r\<rparr>)" "te_frame e (e\<lparr>te_attempts := n\<rparr>)" "te_frame e (e\<lparr>te_published := p\<rparr>)"
  "te_frame e (e\<lparr>te_deps := d\<rparr>)"
  by (simp_all add: te_frame_def)

definition published :: "'c task_env \<Rightarrow> 'c Task \<Rightarrow> TriggerType \<Rightarrow> ('c, 'g) task_engine \<Rightarrow> ('c, 'g) task_engine" where
  "published v t tt e = e\<lparr>te_running := insert (t_ID t) (te_running e), te_attempts := te_attempts e + 1,
     te_published := te_published e @ [(trigger_payload v (te_attempts e) t tt, t_Metadata t)]\<rparr>"

lemma trigger_cases:
  "trigger v now t tt e = e\<lparr>te_running := te_running e - {t_ID t}\<rparr> \<or>
   trigger v now t tt e = e\<lparr>te_running := te_running e - {t_ID t}, te_attempts := te_attempts e + 1\<rparr> \<or>
   trigger v now t tt e = published v t tt e \<or>
   trigger v now t tt e = advanceWatermark v (t_ID t) (now, env_Local (v_go v)) (published v t tt e)"
  by (auto simp: trigger_def releaseRunning_def Let_def published_def)

lemma trigger_frame: "te_frame e (trigger v now t tt e)"
proof -
  have "te_frame e (published v t tt e)" by (simp add: te_frame_def published_def)
  then show ?thesis
    using trigger_cases [of v now t tt e] te_frame_trans [OF _ advance_frame] by (auto simp: te_frame_def [of e "_\<lparr>te_running := _\<rparr>"]
      te_frame_def [of e "_\<lparr>te_running := _, te_attempts := _\<rparr>"])
qed

lemma claimed_frame: "te_frame e (trigger v now t tt (e\<lparr>te_running := r\<rparr>))"
  by (rule te_frame_trans [OF frame_upd(1) trigger_frame])

lemma dispatch_frame: "te_frame e (dispatchGated v now t slot tt e)"
  by (simp add: dispatchGated_def tryClaimRunning_def advance_frame trigger_frame claimed_frame)

lemma catchup_frame: "te_frame e (runCatchup v t now e)"
  using te_frame_trans [OF te_frame_fold [OF dispatch_frame] advance_frame] by (auto simp: runCatchup_def split: option.splits)

lemma onFire_frame: "te_frame e (task_onFire v now i e)"
  using dispatch_frame by (auto simp: task_onFire_def split: sum.splits)

lemma event_frame: "te_frame e (fire_event_task v now a i e)"
  by (simp add: fire_event_task_def tryClaimRunning_def trigger_frame claimed_frame split: sum.splits)

lemma status_frame: "te_frame e (handleStatusChange v now order a st e)"
  using te_frame_fold [OF event_frame] by (auto simp: handleStatusChange_def Let_def)

lemma completed_frame: "te_frame e (handleCompleted x st e)"
  by (simp add: handleCompleted_def releaseRunning_def deps_UpdateStatus_def te_frame_def Let_def)

lemmas frames = trigger_frame dispatch_frame catchup_frame onFire_frame status_frame completed_frame

subsection \<open>The interface of the timing engine\<close>

text \<open>
  The task engine relies on a set of IDs that are registered for timed callbacks: a successful
  \<^verbatim>\<open>Add\<close> adds the ID, a failed one changes nothing, \<^verbatim>\<open>Remove\<close> takes it out.
\<close>

definition te_inv :: "('g \<Rightarrow> int set) \<Rightarrow> ('c, 'g) task_engine \<Rightarrow> bool" where
  "te_inv registered e \<longleftrightarrow>
     (\<forall>i t. te_tasks e i = Some t \<longrightarrow> t_ID t = i) \<and> dom (te_types e) = dom (te_scheds e) \<and>
     dom (te_scheds e) \<subseteq> dom (te_tasks e) \<and> te_eventDriven e \<subseteq> dom (te_tasks e) \<and>
     registered (te_engine e) \<subseteq> dom (te_scheds e)"

inductive te_reach :: "'g engine_ops set \<Rightarrow> 'g \<Rightarrow> ('c, 'g) task_engine \<Rightarrow> bool" for OPS g0 where
  te_new: "te_reach OPS g0 (NewTaskEngine g0)"
| te_register: "te_reach OPS g0 e \<Longrightarrow> ops \<in> OPS \<Longrightarrow>
    te_scheds e (t_ID t) = None \<or> fst (Register ops v t e) \<noteq> Some ErrEngineAdd \<Longrightarrow> te_reach OPS g0 (snd (Register ops v t e))"
| te_schedule: "te_reach OPS g0 e \<Longrightarrow> te_reach OPS g0 (snd (Schedule_task v now i e))"
| te_update: "te_reach OPS g0 e \<Longrightarrow> ops \<in> OPS \<Longrightarrow> te_reach OPS g0 (snd (Update ops v t e))"
| te_unschedule: "te_reach OPS g0 e \<Longrightarrow> ops \<in> OPS \<Longrightarrow> te_reach OPS g0 (Unschedule ops v i e)"
| te_pause: "te_reach OPS g0 e \<Longrightarrow> ops \<in> OPS \<Longrightarrow> te_reach OPS g0 (snd (Pause ops v i e))"
| te_resume: "te_reach OPS g0 e \<Longrightarrow> ops \<in> OPS \<Longrightarrow> te_reach OPS g0 (snd (Resume ops v now i e))"
| te_fire: "te_reach OPS g0 e \<Longrightarrow> te_reach OPS g0 (task_onFire v now i e)"
| te_completed: "te_reach OPS g0 e \<Longrightarrow> te_reach OPS g0 (handleCompleted x st e)"
| te_status: "te_reach OPS g0 e \<Longrightarrow> te_reach OPS g0 (handleStatusChange v now order a st e)"
| te_restore: "te_reach OPS g0 e \<Longrightarrow> ops \<in> OPS \<Longrightarrow> set order = dom (te_scheds e) \<Longrightarrow>
    te_reach OPS g0 (snd (Restore ops v now order listed e))"

lemma later_task_ID: "later_task a (Some t') \<Longrightarrow> \<exists>t. a = Some t \<and> t_ID t' = t_ID t"
  by (cases a) (auto simp: later_task_def)

lemma later_task_None: "later_task a b \<Longrightarrow> a = None \<longleftrightarrow> b = None"
  by (cases a) (auto simp: later_task_def)

lemma frame_inv: "te_frame e e' \<Longrightarrow> te_inv r e \<Longrightarrow> te_inv r e'"
proof -
  assume f: "te_frame e e'" and i: "te_inv r e"
  have later: "later_task (te_tasks e j) (te_tasks e' j)" for j using f by (simp add: te_frame_def)
  have d: "dom (te_tasks e') = dom (te_tasks e)" 
    unfolding dom_def by (simp only: later_task_None [OF later])
  have "t_ID t = j" if tj: "te_tasks e' j = Some t" for j t
  proof -
    obtain t0 where "te_tasks e j = Some t0" "t_ID t = t_ID t0" using later_task_ID [OF later [of j, unfolded tj]] by blast
    then show ?thesis using i by (simp add: te_inv_def)
  qed
  then show ?thesis using f i d by (simp add: te_frame_def te_inv_def)
qed

locale timing_engine =
  fixes OPS :: "'g engine_ops set" and registered :: "'g \<Rightarrow> int set"
  assumes add_ok: "ops \<in> OPS \<Longrightarrow> op_Add ops i s g = (True, g') \<Longrightarrow> registered g' = insert i (registered g)"
    and add_err: "ops \<in> OPS \<Longrightarrow> op_Add ops i s g = (False, g') \<Longrightarrow> registered g' = registered g"
    and remove: "ops \<in> OPS \<Longrightarrow> registered (snd (op_Remove ops i g)) = registered g - {i}"
begin

lemma unschedule_fields:
  "ops \<in> OPS \<Longrightarrow> registered (te_engine (unscheduleInternal ops i e)) = registered (te_engine e) - {i}"
  "te_scheds (unscheduleInternal ops i e) = te_scheds e" "te_types (unscheduleInternal ops i e) = te_types e"
  "te_tasks (unscheduleInternal ops i e) = te_tasks e" "te_eventDriven (unscheduleInternal ops i e) = te_eventDriven e"
  by (simp_all add: unscheduleInternal_def deps_Reset_def remove)

lemma unschedule_inv: "ops \<in> OPS \<Longrightarrow> te_inv registered e \<Longrightarrow> te_inv registered (unscheduleInternal ops i e)"
  by (auto simp: te_inv_def unschedule_fields)

lemma setTask_inv: "te_inv registered e \<Longrightarrow> te_inv registered (setTask v t e)"
  by (auto simp: te_inv_def setTask_def)

lemma note_inv: "te_inv registered e \<Longrightarrow> te_tasks e i \<noteq> None \<Longrightarrow> te_inv registered (note_sched i s st e)"
  by (auto simp: te_inv_def note_sched_def)

lemma engine_Add_inv:
  "ops \<in> OPS \<Longrightarrow> te_inv registered e \<Longrightarrow> te_scheds e i \<noteq> None \<Longrightarrow> op_Add ops i s (te_engine e) = (b, g) \<Longrightarrow>
   te_inv registered (e\<lparr>te_engine := g\<rparr>)"
  by (cases b) (auto simp: te_inv_def add_ok add_err)

lemma drop_inv:
  assumes "te_inv registered e" "i \<notin> registered (te_engine e)"
  shows "te_inv registered (forget_event i (forget_sched i e))" "te_inv registered (forget_sched i e)"
    "te_inv registered (deleteTask v i (forget_event i (forget_sched i e)))"
  using assms by (auto simp: te_inv_def forget_event_def forget_sched_def deleteTask_def)

lemma Register_inv:
  assumes "ops \<in> OPS" "te_inv registered e"
    "t_ID t \<notin> registered (te_engine e) \<or> fst (Register ops v t e) \<noteq> Some ErrEngineAdd"
  shows "te_inv registered (snd (Register ops v t e))"
proof -
  define t1 where "t1 = (if t_CatchupPolicy t = [] then t\<lparr>t_CatchupPolicy := CatchupPolicySkip\<rparr> else t)"
  have t1 [simp]: "t_ID t1 = t_ID t" by (simp add: t1_def)
  obtain st d err where c: "ClassifySchedule (v_go v) (t_Schedule t1) = (st, d, err)" by (metis prod.exhaust)
  show ?thesis
  proof (cases "err \<noteq> None \<or> checkMinInterval v st d \<noteq> None \<or> (\<exists>x. parseSchedule (v_go v) (t_Schedule t1) = Inl x)")
    case True
    then have "snd (Register ops v t e) = e" by (auto simp: Register_def Let_def c split: option.splits simp flip: t1_def)
    then show ?thesis using assms(2) by simp
  next
    case False
    then obtain s where s: "err = None" "checkMinInterval v st d = None" "parseSchedule (v_go v) (t_Schedule t1) = Inr s"
      by (cases "parseSchedule (v_go v) (t_Schedule t1)") auto
    define e1 where "e1 = (if t_Enabled t1 then note_sched (t_ID t) s st (setTask v t1 e) else setTask v t1 e)"
    have task: "te_tasks (setTask v t1 e) (t_ID t) = Some t1" by (simp add: setTask_def)
    have inv1: "te_inv registered e1"
      unfolding e1_def using note_inv [OF setTask_inv [OF assms(2)], of v t1 "t_ID t" s st] setTask_inv [OF assms(2)] task by simp
    have g1: "te_engine e1 = te_engine e" by (simp add: e1_def note_sched_def setTask_def)
    have R: "Register ops v t e =
        (if t_Enabled t1 \<and> st \<noteq> ScheduleTypeEvent then
           (case op_Add ops (t_ID t) s (te_engine e1) of
              (True, g) \<Rightarrow> (None, e1\<lparr>te_engine := g\<rparr>)
            | (False, g) \<Rightarrow> (Some ErrEngineAdd,
                deleteTask v (t_ID t) (forget_event (t_ID t) (forget_sched (t_ID t) (e1\<lparr>te_engine := g\<rparr>)))))
         else (None, e1))"
      by (simp add: Register_def Let_def c s e1_def split: prod.splits bool.splits flip: t1_def)
    show ?thesis
    proof (cases "t_Enabled t1 \<and> st \<noteq> ScheduleTypeEvent")
      case on: True
      obtain b g where add: "op_Add ops (t_ID t) s (te_engine e1) = (b, g)" by fastforce
      have "te_scheds e1 (t_ID t) \<noteq> None" using on by (simp add: e1_def note_sched_def)
      note inv2 = engine_Add_inv [OF assms(1) inv1 this add]
      show ?thesis
      proof (cases b)
        case True
        then show ?thesis using inv2 on add by (simp add: R)
      next
        case False
        then have "t_ID t \<notin> registered (te_engine (e1\<lparr>te_engine := g\<rparr>))"
          using assms(3) on add add_err [OF assms(1), of "t_ID t" s "te_engine e1" g] by (simp add: R g1)
        from drop_inv(3) [OF inv2 this] show ?thesis using False on add by (simp add: R)
      qed
    next
      case False
      then show ?thesis using inv1 by (auto simp: R)
    qed
  qed
qed

lemma remove_all: "ops \<in> OPS \<Longrightarrow> registered (fold (\<lambda>i g. snd (op_Remove ops i g)) is g) = registered g - set is"
  by (induction "is" arbitrary: g) (auto simp: remove)

lemma finish_inv: "te_inv registered e \<Longrightarrow> te_inv registered (finish_resume v now t e)"
  using frame_inv [OF catchup_frame setTask_inv] by (simp add: finish_resume_def Let_def)

lemma rearm_inv:
  assumes "ops \<in> OPS" "te_inv registered e" "te_scheds e i \<noteq> None"
  shows "te_inv registered (snd (rearm ops v now i t s e))"
proof -
  obtain ok g where a: "op_Add ops i s (te_engine e) = (ok, g)" by fastforce
  note inv = engine_Add_inv [OF assms a]
  show ?thesis using inv finish_inv [OF inv] a by (simp add: rearm_def Let_def)
qed

lemma Resume_inv:
  assumes "ops \<in> OPS" "te_inv registered e"
  shows "te_inv registered (snd (Resume ops v now i e))"
proof (cases "te_tasks e i")
  case (Some t)
  have ev: "te_inv registered (e\<lparr>te_eventDriven := insert i (te_eventDriven e)\<rparr>)"
    using assms(2) Some by (auto simp: te_inv_def)
  have sc: "te_inv registered (e\<lparr>te_scheds := (te_scheds e)(i \<mapsto> s), te_types := (te_types e)(i \<mapsto> st)\<rparr>)" for s st
    using assms(2) Some by (auto simp: te_inv_def)
  show ?thesis
    unfolding Resume_def getTask_def Some option.case sum.case
    using assms(2) finish_inv [OF ev] rearm_inv [OF assms] rearm_inv [OF assms(1) sc]
    by (auto split: prod.splits option.splits sum.splits)
qed (simp add: Resume_def getTask_def assms(2))

lemma frame_dom: "te_frame e e' \<Longrightarrow> te_tasks e i = None \<longleftrightarrow> te_tasks e' i = None"
  using later_task_None by (auto simp: te_frame_def)

lemma restore_task_inv:
  assumes "ops \<in> OPS" "te_inv registered e" "te_tasks e (t_ID t) \<noteq> None"
  shows "te_inv registered (restore_task ops v now t e) \<and> (\<forall>i. te_tasks (restore_task ops v now t e) i = None \<longleftrightarrow> te_tasks e i = None)"
proof -
  have add: "te_inv registered (case op_Add ops (t_ID t) s (te_engine e1) of (False, g) \<Rightarrow> e1\<lparr>te_engine := g\<rparr>
        | (True, g) \<Rightarrow> runCatchup v t now (e1\<lparr>te_engine := g\<rparr>)) \<and>
      (\<forall>i. te_tasks (case op_Add ops (t_ID t) s (te_engine e1) of (False, g) \<Rightarrow> e1\<lparr>te_engine := g\<rparr>
        | (True, g) \<Rightarrow> runCatchup v t now (e1\<lparr>te_engine := g\<rparr>)) i = None \<longleftrightarrow> te_tasks e i = None)"
    if e1: "e1 = note_sched (t_ID t) s st e" for s st e1
  proof -
    obtain b g where ad: "op_Add ops (t_ID t) s (te_engine e1) = (b, g)" by fastforce
    have "te_inv registered e1" using note_inv [OF assms(2,3)] by (simp add: e1)
    moreover have "te_scheds e1 (t_ID t) \<noteq> None" by (simp add: e1 note_sched_def)
    ultimately have inv: "te_inv registered (e1\<lparr>te_engine := g\<rparr>)" by (rule engine_Add_inv [OF assms(1) _ _ ad])
    have same: "te_tasks (e1\<lparr>te_engine := g\<rparr>) = te_tasks e" by (simp add: e1 note_sched_def)
    show ?thesis
      using inv frame_inv [OF catchup_frame inv] frame_dom [OF catchup_frame, of "e1\<lparr>te_engine := g\<rparr>"] same ad by (cases b) simp_all
  qed
  then show ?thesis
    unfolding restore_task_def Let_def using assms(2) by (auto split: prod.splits option.splits sum.splits)
qed

lemma restore_all_inv:
  assumes "ops \<in> OPS" "te_inv registered e" "\<forall>t\<in>set ts. te_tasks e (t_ID t) \<noteq> None"
  shows "te_inv registered (fold (restore_task ops v now) ts e)"
  using assms(2,3)
proof (induction ts arbitrary: e)
  case (Cons t ts)
  have r: "te_inv registered (restore_task ops v now t e)"
      "te_tasks (restore_task ops v now t e) i = None \<longleftrightarrow> te_tasks e i = None" for i
    using restore_task_inv [OF assms(1) Cons.prems(1), of t v now] Cons.prems(2) by simp_all
  have "\<forall>x\<in>set ts. te_tasks (restore_task ops v now t e) (t_ID x) \<noteq> None" using Cons.prems(2) by (simp only: r) simp
  from Cons.IH [OF r(1) this] show ?case by simp
qed simp

end

lemma listed_map:
  "fold (\<lambda>t m. m(t_ID t \<mapsto> t)) ts m i = Some t \<Longrightarrow> m i = Some t \<or> (t \<in> set ts \<and> t_ID t = i)"
proof (induction ts arbitrary: m)
  case (Cons a ts)
  have "(m(t_ID a \<mapsto> a)) i = Some t \<or> (t \<in> set ts \<and> t_ID t = i)" using Cons.IH [of "m(t_ID a \<mapsto> a)"] Cons.prems by simp
  then show ?case by (cases "t_ID a = i") auto
qed simp

lemma listed_dom: "i \<in> dom m \<or> (\<exists>t\<in>set ts. t_ID t = i) \<Longrightarrow> fold (\<lambda>t m. m(t_ID t \<mapsto> t)) ts m i \<noteq> None"
proof (induction ts arbitrary: m)
  case (Cons t ts)
  have "i \<in> dom (m(t_ID t \<mapsto> t)) \<or> (\<exists>x\<in>set ts. t_ID x = i)" using Cons.prems by auto
  from Cons.IH [OF this] show ?case by simp
qed auto

context timing_engine
begin

lemma Restore_inv:
  assumes "ops \<in> OPS" "te_inv registered e" "set order = dom (te_scheds e)"
  shows "te_inv registered (snd (Restore ops v now order listed e))"
proof (cases "v_store v \<and> listed \<noteq> None")
  case True
  then obtain ts where ts: "listed = Some ts" by auto
  let ?e = "e\<lparr>te_engine := fold (\<lambda>i g. snd (op_Remove ops i g)) order (te_engine e), te_scheds := Map.empty,
      te_types := Map.empty, te_eventDriven := {}, te_tasks := fold (\<lambda>t m. m(t_ID t \<mapsto> t)) ts Map.empty\<rparr>"
  have "registered (te_engine ?e) = {}" using assms by (auto simp: remove_all te_inv_def)
  moreover have "t_ID t = i" if "fold (\<lambda>t m. m(t_ID t \<mapsto> t)) ts Map.empty i = Some t" for i t
    using listed_map [OF that] by simp
  ultimately have "te_inv registered ?e" by (simp add: te_inv_def)
  moreover have "\<forall>t\<in>set ts. te_tasks ?e (t_ID t) \<noteq> None"
    using listed_dom [of _ Map.empty ts] by (simp del: not_None_eq) blast
  ultimately have "te_inv registered (fold (restore_task ops v now) ts ?e)" by (rule restore_all_inv [OF assms(1)])
  then show ?thesis using True ts by (simp add: Restore_def Let_def)
qed (use assms(2) in \<open>auto simp: Restore_def\<close>)

lemma te_reach_inv: "te_reach OPS g0 e \<Longrightarrow> registered g0 = {} \<Longrightarrow> te_inv registered e"
proof (induction rule: te_reach.induct)
  case te_new
  then show ?case by (simp add: NewTaskEngine_def te_inv_def)
next
  case (te_register e ops t v)
  then have inv: "te_inv registered e" by simp
  then have "te_scheds e (t_ID t) = None \<Longrightarrow> t_ID t \<notin> registered (te_engine e)" by (auto simp: te_inv_def)
  with te_register.hyps(3) show ?case by (intro Register_inv [OF te_register.hyps(2) inv]) blast
next
  case (te_schedule e v now i)
  then show ?case using frame_inv [OF trigger_frame] by (auto simp: Schedule_task_def getTask_def split: option.splits)
next
  case (te_update e ops v t)
  then show ?case
    unfolding Update_def by (intro Register_inv unschedule_inv) (simp_all add: unschedule_fields)
next
  case (te_unschedule e ops v i)
  then have "te_inv registered (unscheduleInternal ops i e)" "i \<notin> registered (te_engine (unscheduleInternal ops i e))"
    by (simp_all add: unschedule_inv unschedule_fields)
  then show ?case by (auto simp: Unschedule_def te_inv_def forget_event_def forget_sched_def deleteTask_def)
next
  case (te_pause e ops v i)
  have "te_inv registered (forget_sched i (unscheduleInternal ops i e))"
    using te_pause by (intro drop_inv(2) unschedule_inv) (simp_all add: unschedule_fields)
  then show ?case using te_pause by (auto simp: Pause_def setTask_inv split: sum.splits)
next
  case (te_resume e ops v now i)
  then show ?case by (simp add: Resume_inv)
next
  case (te_restore e ops order v now listed)
  then show ?case by (simp add: Restore_inv)
next
  case (te_fire e v now i)
  then show ?case by (simp add: frame_inv [OF onFire_frame])
next
  case (te_completed e x st)
  then show ?case by (simp add: frame_inv [OF completed_frame])
next
  case (te_status e v now order a st)
  then show ?case by (simp add: frame_inv [OF status_frame])
qed

end

subsection \<open>The timing engine behind the interface\<close>

abbreviation scheduler_ops :: "location \<Rightarrow> unit engine engine_ops set" where
  "scheduler_ops Local \<equiv> {sched_ops Local rd accept | rd accept. True}"

abbreviation scheduled_ids :: "unit engine \<Rightarrow> int set" where
  "scheduled_ids g \<equiv> dom (e_scheds g)"

lemma scheduleNext_ids: "dom (e_scheds (scheduleNextLocked Local rd accept i s g)) = insert i (dom (e_scheds g))"
  by (auto simp: scheduleNextLocked_def Let_def split: prod.splits option.splits)

lemma sched_ops_Add:
  "op_Add (sched_ops Local rd accept) i s g = (True, g') \<Longrightarrow> dom (e_scheds g') = insert i (dom (e_scheds g))"
  "fst (op_Add (sched_ops Local rd accept) i s g)"
  by (cases "e_entries g i"; clarsimp simp: sched_ops_def engine_Add_def Let_def scheduleNext_ids)+

interpretation te: timing_engine "scheduler_ops Local" scheduled_ids
proof
  fix ops i s and g g' :: "unit engine"
  assume ops: "ops \<in> scheduler_ops Local"
  then obtain rd accept where o: "ops = sched_ops Local rd accept" by blast
  show "op_Add ops i s g = (True, g') \<Longrightarrow> scheduled_ids g' = insert i (scheduled_ids g)"
    using sched_ops_Add(1) unfolding o .
  show "op_Add ops i s g = (False, g') \<Longrightarrow> scheduled_ids g' = scheduled_ids g"
    using sched_ops_Add(2) [of Local rd accept i s g] unfolding o by simp
  show "scheduled_ids (snd (op_Remove ops i g)) = scheduled_ids g - {i}"
    unfolding o by (auto simp: sched_ops_def engine_Remove_def Let_def split: option.splits)
qed

end
