(* ===== verification/TaskRecovery.thy ===== *)
theory TaskRecovery
  imports TaskEngine
begin

text \<open>
  What the task engine promises: the bookkeeping of registered tasks, pausing and resuming, updating,
  the replay of missed slots, the exclusion of overlapping runs and the restoring of tasks after a restart.
  Every property is stated for the timing engine of \<^verbatim>\<open>pkg/scheduler\<close> behind the interface, through
  the interpretation \<open>te\<close>.
\<close>

subsection \<open>A task to try things on\<close>

definition sample_task :: "unit Task" where
  "sample_task = \<lparr>t_ID = 7, t_TenantID = 1, t_AssetID = 0, t_Name = ''backup'', t_Description = [], t_ExecutorType = ''shell'',
     t_Schedule = ''5m'', t_Enabled = True, t_ReportStatus = False, t_Config = None, t_TimeoutSeconds = 30, t_MaxRetries = 0,
     t_RetryIntervalSeconds = 0, t_Priority = 0, t_DependsOn = 0, t_Metadata = None, t_Group = [], t_Tags = [], t_RunID = [],
     t_RetryPolicy = [], t_Concurrency = 1, t_CatchupPolicy = CatchupPolicyAll, t_SleepWindows = [], t_LastScheduledAt = None,
     t_Operation = 2, t_CreatedAt = 0, t_UpdatedAt = 0, t_DeletedAt = None\<rparr>"

definition sample_env :: "unit task_env" where
  "sample_env = \<lparr>v_go = plain_env, v_shard = None, v_ceiling = 60, v_marshal = (\<lambda>_. None), v_store = True, v_bus = True,
     v_publish = (\<lambda>_. True), v_runID = (\<lambda>_. ''run'')\<rparr>"

abbreviation sample_ops :: "unit engine engine_ops" where
  "sample_ops \<equiv> sched_ops UTC (time_Hour, time_Hour, time_Hour, time_Hour) True"

definition sample_engine :: "(unit, unit engine) task_engine" where
  "sample_engine = snd (Register sample_ops sample_env sample_task (NewTaskEngine new_engine))"

lemma sample_classify: "ClassifySchedule (v_go sample_env) ''5m'' = (ScheduleTypeInterval, 5 * time_Minute, None)"
  "parseSchedule (v_go sample_env) ''5m'' = Inr (ConstantIntervalSchedule (5 * time_Minute))"
  "checkMinInterval sample_env ScheduleTypeInterval (5 * time_Minute) = None"
proof -
  show "ClassifySchedule (v_go sample_env) ''5m'' = (ScheduleTypeInterval, 5 * time_Minute, None)"
    "checkMinInterval sample_env ScheduleTypeInterval (5 * time_Minute) = None" by code_simp+
  show "parseSchedule (v_go sample_env) ''5m'' = Inr (ConstantIntervalSchedule (5 * time_Minute))"
    by (simp add: parseSchedule_def isIntervalSchedule_def sample_env_def plain_env_def time_Minute_def time_Second_def)
qed

lemma sample_engine_fields:
  "te_tasks sample_engine = [7 \<mapsto> sample_task]" "te_scheds sample_engine = [7 \<mapsto> ConstantIntervalSchedule (5 * time_Minute)]"
  "te_types sample_engine = [7 \<mapsto> ScheduleTypeInterval]" "te_running sample_engine = {}" "te_published sample_engine = []"
  "te_eventDriven sample_engine = {}"
proof -
  have a: "fst (op_Add sample_ops 7 (ConstantIntervalSchedule (5 * time_Minute)) g)" for g by (rule sched_ops_Add)
  have t: "t_Schedule sample_task = ''5m''" "t_ID sample_task = 7" "t_Enabled sample_task" "t_CatchupPolicy sample_task \<noteq> []"
    by (simp_all add: sample_task_def CatchupPolicyAll_def)
  obtain g where "op_Add sample_ops 7 (ConstantIntervalSchedule (5 * time_Minute)) new_engine = (True, g)"
    using a [of new_engine] by (cases "op_Add sample_ops 7 (ConstantIntervalSchedule (5 * time_Minute)) new_engine") simp
  then have eq: "sample_engine =
      (note_sched 7 (ConstantIntervalSchedule (5 * time_Minute)) ScheduleTypeInterval (setTask sample_env sample_task (NewTaskEngine new_engine)))\<lparr>te_engine := g\<rparr>"
    by (simp add: sample_engine_def Register_def t sample_classify note_sched_def setTask_def NewTaskEngine_def Let_def)
  show "te_tasks sample_engine = [7 \<mapsto> sample_task]" "te_scheds sample_engine = [7 \<mapsto> ConstantIntervalSchedule (5 * time_Minute)]"
    "te_types sample_engine = [7 \<mapsto> ScheduleTypeInterval]" "te_running sample_engine = {}" "te_published sample_engine = []"
    "te_eventDriven sample_engine = {}"
    unfolding eq by (simp_all add: note_sched_def setTask_def NewTaskEngine_def t)
qed

lemma sample_reach: "te_reach (scheduler_ops UTC) new_engine sample_engine"
  unfolding sample_engine_def by (rule te_register [OF te_new]) (blast, simp add: NewTaskEngine_def)

subsection \<open>Bookkeeping\<close>

lemma reach_inv: "te_reach (scheduler_ops Local) new_engine e \<Longrightarrow> te_inv scheduled_ids e"
  by (erule te.te_reach_inv) (simp add: new_engine_def)



subsection \<open>Pausing and resuming\<close>

lemma scheduler_ops_mem: "sched_ops Local rd accept \<in> scheduler_ops Local"
  by blast

lemma sched_ops_Add_cases:
  obtains g' where "op_Add (sched_ops Local rd accept) i s g = (True, g')" "scheduled_ids g' = insert i (scheduled_ids g)"
proof -
  obtain g' where "op_Add (sched_ops Local rd accept) i s g = (True, g')"
    using sched_ops_Add(2) [of Local rd accept i s g] by (cases "op_Add (sched_ops Local rd accept) i s g") simp
  with sched_ops_Add(1) [OF this] that show ?thesis by blast
qed

text \<open>The fields after a pause and after rearming.\<close>

lemma Pause_fields:
  assumes "te_tasks e i = Some t" "t_ID t = i" "on_wheel i e"
  shows "Pause ops v i e = (None, snd (Pause ops v i e))"
    "te_tasks (snd (Pause ops v i e)) = (te_tasks e)(i \<mapsto> t\<lparr>t_Enabled := False\<rparr>)"
    "te_scheds (snd (Pause ops v i e)) = (te_scheds e)(i := None)"
    "te_types (snd (Pause ops v i e)) = (te_types e)(i := None)"
    "te_engine (snd (Pause ops v i e)) = snd (op_Remove ops i (te_engine e))"
  using assms by (simp_all add: Pause_def getTask_def setTask_def forget_sched_def unscheduleInternal_def deps_Reset_def)

lemma finish_fields:
  assumes "t_ID t = i"
  shows "te_frame (e\<lparr>te_tasks := (te_tasks e)(i \<mapsto> t\<lparr>t_Enabled := True\<rparr>)\<rparr>) (finish_resume v now t e)"
proof -
  have "te_frame (e\<lparr>te_tasks := (te_tasks e)(i \<mapsto> t\<lparr>t_Enabled := True\<rparr>)\<rparr>) (setTask v (t\<lparr>t_Enabled := True\<rparr>) e)"
    using assms by (simp add: te_frame_def setTask_def)
  then show ?thesis unfolding finish_resume_def Let_def by (rule te_frame_trans [OF _ catchup_frame])
qed

lemma Resume_parsed:
  assumes "te_tasks e i = Some t" "t_ID t = i" "te_scheds e i = None"
    "ClassifySchedule (v_go v) (t_Schedule t) = (st, d, None)" "st \<noteq> ScheduleTypeEvent" "parseSchedule (v_go v) (t_Schedule t) = Inr s"
    "op_Add ops i s (te_engine e) = (True, g)"
  shows "Resume ops v now i e =
    (None, finish_resume v now t (e\<lparr>te_scheds := (te_scheds e)(i \<mapsto> s), te_types := (te_types e)(i \<mapsto> st), te_engine := g\<rparr>))"
  using assms by (simp add: Resume_def getTask_def on_wheel_def rearm_def Let_def)

text \<open>A task on the wheel can be paused and resumed. Pausing takes its timer and no other
  away, stores it as disabled and is refused the second time; resuming puts exactly this timer back with the
  schedule of the task, stores the task as enabled (its watermark may have moved on by the replay) and is
  refused the second time.\<close>

theorem pause_resume:
  fixes rd rd' :: readings and accept accept' :: bool and now :: gotime
  assumes "te_reach (scheduler_ops Local) new_engine e" "te_tasks e i = Some t" "on_wheel i e"
    "ClassifySchedule (v_go v) (t_Schedule t) = (st, d, None)" "st \<noteq> ScheduleTypeEvent" "parseSchedule (v_go v) (t_Schedule t) = Inr s"
  defines "e1 \<equiv> snd (Pause (sched_ops Local rd accept) v i e)"
  defines "e2 \<equiv> snd (Resume (sched_ops Local rd' accept') v now i e1)"
  shows "fst (Pause (sched_ops Local rd accept) v i e) = None \<and>
    scheduled_ids (te_engine e1) = scheduled_ids (te_engine e) - {i} \<and>
    te_tasks e1 = (te_tasks e)(i \<mapsto> t\<lparr>t_Enabled := False\<rparr>) \<and>
    Pause ops v i e1 = (Some ErrTaskAlreadyPaused, e1) \<and>
    fst (Resume (sched_ops Local rd' accept') v now i e1) = None \<and>
    scheduled_ids (te_engine e2) = insert i (scheduled_ids (te_engine e)) \<and>
    te_scheds e2 = (te_scheds e)(i \<mapsto> s) \<and>
    (\<exists>w. te_tasks e2 i = Some (t\<lparr>t_Enabled := True, t_LastScheduledAt := w\<rparr>)) \<and>
    Resume ops v now' i e2 = (Some ErrTaskNotPaused, e2)"
proof (intro conjI)
  have ID: "t_ID t = i" using reach_inv [OF assms(1)] assms(2) by (simp add: te_inv_def)
  note P = Pause_fields [OF assms(2) ID assms(3), of "sched_ops Local rd accept" v, folded e1_def]
  show "fst (Pause (sched_ops Local rd accept) v i e) = None" using P(1) by (metis fst_conv)
  show ids: "scheduled_ids (te_engine e1) = scheduled_ids (te_engine e) - {i}"
    unfolding P(5) by (rule te.remove [OF scheduler_ops_mem])
  show "te_tasks e1 = (te_tasks e)(i \<mapsto> t\<lparr>t_Enabled := False\<rparr>)" by (rule P(2))
  show "Pause ops v i e1 = (Some ErrTaskAlreadyPaused, e1)" using P by (simp add: Pause_def getTask_def on_wheel_def)
  obtain g where g: "op_Add (sched_ops Local rd' accept') i s (te_engine e1) = (True, g)" "scheduled_ids g = insert i (scheduled_ids (te_engine e1))"
    by (rule sched_ops_Add_cases)
  have R: "Resume (sched_ops Local rd' accept') v now i e1 = (None, finish_resume v now (t\<lparr>t_Enabled := False\<rparr>)
      (e1\<lparr>te_scheds := (te_scheds e1)(i \<mapsto> s), te_types := (te_types e1)(i \<mapsto> st), te_engine := g\<rparr>))"
    using P ID assms(4-6) g(1) by (intro Resume_parsed [where d = d]) simp_all
  then show "fst (Resume (sched_ops Local rd' accept') v now i e1) = None" by simp
  have f: "te_frame (e1\<lparr>te_scheds := (te_scheds e1)(i \<mapsto> s), te_types := (te_types e1)(i \<mapsto> st), te_engine := g,
      te_tasks := (te_tasks e1)(i \<mapsto> t\<lparr>t_Enabled := True\<rparr>)\<rparr>) e2"
    unfolding e2_def R snd_conv 
    using finish_fields [where t = "t\<lparr>t_Enabled := False\<rparr>" and i = i and v = v and now = now and
        e = "e1\<lparr>te_scheds := (te_scheds e1)(i \<mapsto> s), te_types := (te_types e1)(i \<mapsto> st), te_engine := g\<rparr>"] ID by simp
  show "scheduled_ids (te_engine e2) = insert i (scheduled_ids (te_engine e))" using f g(2) ids by (simp add: te_frame_def)
  show "te_scheds e2 = (te_scheds e)(i \<mapsto> s)" using f P(3) by (simp add: te_frame_def)
  have l: "later_task (Some (t\<lparr>t_Enabled := True\<rparr>)) (te_tasks e2 i)" using f unfolding te_frame_def by (auto dest: spec [of _ i])
  show tk: "\<exists>w. te_tasks e2 i = Some (t\<lparr>t_Enabled := True, t_LastScheduledAt := w\<rparr>)"
    using l unfolding later_task_def option.case by blast
  have "te_scheds e2 i = Some s" "te_types e2 i = Some st" using f by (simp_all add: te_frame_def)
  with tk show "Resume ops v now' i e2 = (Some ErrTaskNotPaused, e2)"
    using assms(5) by (auto simp: Resume_def getTask_def on_wheel_def)
qed

lemma sample_on_wheel: "te_tasks sample_engine 7 = Some sample_task" "on_wheel 7 sample_engine" "t_Schedule sample_task = ''5m''"
  by (simp_all add: sample_engine_fields on_wheel_def) (simp add: sample_task_def)

theorem pause_resume_witness:
  "Pause sample_ops sample_env 7 (snd (Pause sample_ops sample_env 7 sample_engine)) =
     (Some ErrTaskAlreadyPaused, snd (Pause sample_ops sample_env 7 sample_engine)) \<and>
   fst (Resume sample_ops sample_env time_Hour 7 (snd (Pause sample_ops sample_env 7 sample_engine))) = None"
proof -
  note hyps = sample_reach sample_on_wheel(1,2) sample_classify(1) [folded sample_on_wheel(3)] _ sample_classify(2) [folded sample_on_wheel(3)]
  show ?thesis using pause_resume [OF hyps] by simp
qed

subsection \<open>Updating\<close>

text \<open>What \<^verbatim>\<open>Register\<close> does with the timing engine, whose \<^verbatim>\<open>Add\<close> accepts every schedule.\<close>

lemma Register_outcome:
  obtains err where "Register (sched_ops Local rd accept) v t e = (Some err, e)"
  | "fst (Register (sched_ops Local rd accept) v t e) = None" "\<not> t_Enabled t"
    "te_engine (snd (Register (sched_ops Local rd accept) v t e)) = te_engine e"
    "te_scheds (snd (Register (sched_ops Local rd accept) v t e)) = te_scheds e"
    "te_types (snd (Register (sched_ops Local rd accept) v t e)) = te_types e"
    "te_tasks (snd (Register (sched_ops Local rd accept) v t e)) (t_ID t) \<noteq> None"
  | s st where "fst (Register (sched_ops Local rd accept) v t e) = None" "t_Enabled t"
    "te_scheds (snd (Register (sched_ops Local rd accept) v t e)) = (te_scheds e)(t_ID t \<mapsto> s)"
    "te_types (snd (Register (sched_ops Local rd accept) v t e)) = (te_types e)(t_ID t \<mapsto> st)"
    "parseSchedule (v_go v) (t_Schedule t) = Inr s" "fst (ClassifySchedule (v_go v) (t_Schedule t)) = st"
    "scheduled_ids (te_engine (snd (Register (sched_ops Local rd accept) v t e))) =
       (if st = ScheduleTypeEvent then scheduled_ids (te_engine e) else insert (t_ID t) (scheduled_ids (te_engine e)))"
proof -
  define t1 where "t1 = (if t_CatchupPolicy t = [] then t\<lparr>t_CatchupPolicy := CatchupPolicySkip\<rparr> else t)"
  have t1: "t_ID t1 = t_ID t" "t_Schedule t1 = t_Schedule t" "t_Enabled t1 = t_Enabled t" by (simp_all add: t1_def)
  obtain st d err where c: "ClassifySchedule (v_go v) (t_Schedule t) = (st, d, err)" by (metis prod.exhaust)
  consider "err \<noteq> None \<or> checkMinInterval v st d \<noteq> None \<or> (\<exists>x. parseSchedule (v_go v) (t_Schedule t) = Inl x)"
    | s where "err = None" "checkMinInterval v st d = None" "parseSchedule (v_go v) (t_Schedule t) = Inr s"
    by (cases "parseSchedule (v_go v) (t_Schedule t)") auto
  then show thesis
  proof cases
    case 1
    then have "\<exists>x. Register (sched_ops Local rd accept) v t e = (Some x, e)"
      by (auto simp: Register_def Let_def c t1 split: option.splits simp flip: t1_def)
    then show thesis using that(1) by blast
  next
    case (2 s)
    define e1 where "e1 = note_sched (t_ID t) s st (setTask v t1 e)"
    obtain g where g: "op_Add (sched_ops Local rd accept) (t_ID t) s (te_engine e1) = (True, g)"
        "scheduled_ids g = insert (t_ID t) (scheduled_ids (te_engine e1))"
      by (rule sched_ops_Add_cases)
    have R: "Register (sched_ops Local rd accept) v t e =
        (None, if \<not> t_Enabled t then setTask v t1 e else if st = ScheduleTypeEvent then e1 else e1\<lparr>te_engine := g\<rparr>)"
      using g(1) by (simp add: Register_def Let_def c t1 2 e1_def flip: t1_def)
    show thesis
    proof (cases "t_Enabled t")
      case False
      then show thesis using that(2) by (simp add: R setTask_def t1 del: not_None_eq)
    next
      case True
      then show thesis
        using that(3) [of s st] 2(3) g(2) by (simp add: R c e1_def note_sched_def setTask_def split: if_splits)
    qed
  qed
qed

text \<open>An update can lose the timer of a task that was on the wheel. When the new version
  is enabled and accepted, the task has a timer with its new schedule. When it is disabled, or rejected with an
  error (an interval below the minimum, say), the old timer has been removed, the entry of the schedule has
  not, so the task does not run and \<^verbatim>\<open>Resume\<close> refuses to resume it; a rejected update leaves the task
  stored as it was, enabled.\<close>

theorem update_timer:
  fixes rd :: readings and accept :: bool and v :: "'c task_env"
  assumes "te_reach (scheduler_ops Local) new_engine e" "on_wheel (t_ID t) e" "te_tasks e (t_ID t) = Some old"
  defines "r \<equiv> Update (sched_ops Local rd accept) v t e"
  shows "(fst r = None \<and> t_Enabled t \<and> fst (ClassifySchedule (v_go v) (t_Schedule t)) \<noteq> ScheduleTypeEvent \<longrightarrow>
      scheduled_ids (te_engine (snd r)) = insert (t_ID t) (scheduled_ids (te_engine e)) \<and>
      (\<exists>s. te_scheds (snd r) (t_ID t) = Some s \<and> parseSchedule (v_go v) (t_Schedule t) = Inr s)) \<and>
    (fst r \<noteq> None \<or> \<not> t_Enabled t \<longrightarrow>
      t_ID t \<notin> scheduled_ids (te_engine (snd r)) \<and> Resume ops v now (t_ID t) (snd r) = (Some ErrTaskNotPaused, snd r)) \<and>
    (fst r \<noteq> None \<longrightarrow> te_tasks (snd r) = te_tasks e)"
proof -
  define e0 where "e0 = unscheduleInternal (sched_ops Local rd accept) (t_ID t) e"
  have u1: "scheduled_ids (te_engine e0) = scheduled_ids (te_engine e) - {t_ID t}" "te_scheds e0 = te_scheds e"
    "te_types e0 = te_types e" "te_tasks e0 = te_tasks e"
    by (simp_all add: e0_def te.unschedule_fields(1) [OF scheduler_ops_mem] te.unschedule_fields(2-4))
  have r: "r = Register (sched_ops Local rd accept) v t e0" by (simp add: r_def Update_def e0_def)
  have refuse: "Resume ops v now (t_ID t) e' = (Some ErrTaskNotPaused, e')"
    if "te_scheds e' = te_scheds e" "te_types e' = te_types e" "te_tasks e' (t_ID t) \<noteq> None" for e'
    using that assms(2) by (auto simp: Resume_def getTask_def on_wheel_def)
  consider err where "r = (Some err, e0)"
    | "fst r = None" "\<not> t_Enabled t" "te_engine (snd r) = te_engine e0" "te_scheds (snd r) = te_scheds e" "te_types (snd r) = te_types e"
      "te_tasks (snd r) (t_ID t) \<noteq> None"
    | s st where "fst r = None" "t_Enabled t" "te_scheds (snd r) = (te_scheds e)(t_ID t \<mapsto> s)" "parseSchedule (v_go v) (t_Schedule t) = Inr s"
      "fst (ClassifySchedule (v_go v) (t_Schedule t)) = st"
      "scheduled_ids (te_engine (snd r)) = (if st = ScheduleTypeEvent then scheduled_ids (te_engine e0) else insert (t_ID t) (scheduled_ids (te_engine e0)))"
    unfolding r by (rule Register_outcome [of Local rd accept v t e0]) (auto simp: u1 simp del: not_None_eq)
  note outcome = this
  from outcome have timer: "scheduled_ids (te_engine (snd r)) = insert (t_ID t) (scheduled_ids (te_engine e)) \<and>
      (\<exists>s. te_scheds (snd r) (t_ID t) = Some s \<and> parseSchedule (v_go v) (t_Schedule t) = Inr s)"
    if "fst r = None" "t_Enabled t" "fst (ClassifySchedule (v_go v) (t_Schedule t)) \<noteq> ScheduleTypeEvent"
    using that by cases (auto simp: u1)
  from outcome have stuck: "t_ID t \<notin> scheduled_ids (te_engine (snd r)) \<and> Resume ops v now (t_ID t) (snd r) = (Some ErrTaskNotPaused, snd r)"
    if "fst r \<noteq> None \<or> \<not> t_Enabled t"
  proof cases
    case 1
    then show ?thesis using u1 assms(3) refuse [of e0] by simp
  next
    case 2
    then show ?thesis using u1(1) refuse [of "snd r"] by simp
  qed (use that in auto)
  from outcome have kept: "te_tasks (snd r) = te_tasks e" if "fst r \<noteq> None" using that by cases (simp_all add: u1)
  show ?thesis using timer stuck kept by simp
qed

theorem update_timer_witness:
  "7 \<notin> scheduled_ids (te_engine (snd (Update sample_ops sample_env (sample_task\<lparr>t_Enabled := False\<rparr>) sample_engine))) \<and>
   Resume sample_ops sample_env time_Hour 7 (snd (Update sample_ops sample_env (sample_task\<lparr>t_Enabled := False\<rparr>) sample_engine)) =
     (Some ErrTaskNotPaused, snd (Update sample_ops sample_env (sample_task\<lparr>t_Enabled := False\<rparr>) sample_engine))"
  using update_timer [where t = "sample_task\<lparr>t_Enabled := False\<rparr>" and old = sample_task, OF sample_reach]
    sample_on_wheel by (simp add: sample_task_def)

subsection \<open>Replaying missed slots\<close>

lemma missed_loop_length:
  "int (length slots) \<le> catchupMaxSlots \<Longrightarrow> int (length (fst (missed_loop Next now nxt n slots dropped))) \<le> catchupMaxSlots"
proof (induction Next now nxt n slots dropped rule: missed_loop.induct)
  case (1 Next now nxt n slots dropped)
  show ?case
    using 1 by (subst missed_loop.simps) (auto simp: catchupMaxSlots_def)
qed

lemma missedSlots_length: "int (length (fst (missedSlots env schedule st interval wm now))) \<le> catchupMaxSlots"
proof (cases st)
  case ScheduleTypeInterval
  then show ?thesis by (auto simp: missedSlots_def Let_def catchupMaxSlots_def)
next
  case ScheduleTypeCron
  have "int (length l) \<le> catchupMaxSlots" if "missed_loop Next now nxt 0 [] 0 = (l, d, n)" for Next nxt l d n
    using missed_loop_length [of "[]" Next now nxt 0 0] that by (simp add: catchupMaxSlots_def)
  then show ?thesis using ScheduleTypeCron
    by (simp add: missedSlots_def catchupMaxSlots_def split: sum.splits prod.splits)
qed (simp_all add: missedSlots_def catchupMaxSlots_def)

lemma catchup_slots_length: "catchup_slots v t now = Some slots \<Longrightarrow> length slots \<le> 10"
  using missedSlots_length [of "v_go v" "t_Schedule t" _ _ _ now]
  by (force simp: catchup_slots_def catchupMaxSlots_def Let_def split: if_splits option.splits prod.splits)

lemma catchup_slots_once:
  "catchup_slots v t now = Some slots \<Longrightarrow> t_CatchupPolicy t = CatchupPolicyOnce \<Longrightarrow> length slots \<le> 1"
  by (auto simp: catchup_slots_def Let_def split: if_splits option.splits prod.splits)

lemma catchup_slots_none_due:
  "t_LastScheduledAt t = Some wm \<Longrightarrow> now \<le> fst wm \<Longrightarrow> catchup_slots v t now = None \<or> catchup_slots v t now = Some []"
  by (auto simp: catchup_slots_def missedSlots_def Let_def split: prod.splits option.splits)

text \<open>A dispatch publishes at most once; with \<^verbatim>\<open>Concurrency == 1\<close> only when it claims the task.\<close>

lemma trigger_published:
  "length (te_published (trigger v now t tt e)) \<le> length (te_published e) + 1"
  "t_ID t \<in> te_running (trigger v now t tt e) \<or> te_published (trigger v now t tt e) = te_published e"
  using trigger_cases [of v now t tt e] by (auto simp: published_def)

lemma dispatch_published: "length (te_published (dispatchGated v now t slot tt e)) \<le> length (te_published e) + 1"
  by (simp add: dispatchGated_def tryClaimRunning_def trigger_published(1) order_trans [OF trigger_published(1)])

lemma dispatch_claimed:
  assumes "t_Concurrency t = 1"
  shows "t_ID t \<in> te_running e \<Longrightarrow> te_published (dispatchGated v now t slot tt e) = te_published e \<and>
      t_ID t \<in> te_running (dispatchGated v now t slot tt e)"
    and "t_ID t \<in> te_running (dispatchGated v now t slot tt e) \<or> te_published (dispatchGated v now t slot tt e) = te_published e"
  using assms trigger_published(2) [of t v now tt "e\<lparr>te_running := insert (t_ID t) (te_running e)\<rparr>"]
  by (auto simp: dispatchGated_def tryClaimRunning_def)

lemma fold_dispatch_published:
  "length (te_published (fold (\<lambda>slot. dispatchGated v now t slot tt) slots e)) \<le> length (te_published e) + length slots"
proof (induction slots arbitrary: e)
  case (Cons slot slots)
  then show ?case using dispatch_published [of v now t slot tt e] by (fastforce intro: order_trans)
qed simp

lemma fold_dispatch_claimed:
  assumes "t_Concurrency t = 1"
  shows "t_ID t \<in> te_running e \<Longrightarrow> te_published (fold (\<lambda>slot. dispatchGated v now t slot tt) slots e) = te_published e"
    and "length (te_published (fold (\<lambda>slot. dispatchGated v now t slot tt) slots e)) \<le> length (te_published e) + 1"
proof -
  show one: "te_published (fold (\<lambda>slot. dispatchGated v now t slot tt) slots e) = te_published e" if "t_ID t \<in> te_running e" for e slots
    using that by (induction slots arbitrary: e) (simp_all add: dispatch_claimed(1) [OF assms])
  show "length (te_published (fold (\<lambda>slot. dispatchGated v now t slot tt) slots e)) \<le> length (te_published e) + 1"
  proof (induction slots arbitrary: e)
    case (Cons slot slots)
    show ?case
      using dispatch_claimed(2) [OF assms, of v now slot tt e] dispatch_published [of v now t slot tt e]
        one [of "dispatchGated v now t slot tt e" slots] Cons [of "dispatchGated v now t slot tt e"] by auto
  qed simp
qed

lemma advance_task:
  assumes "te_tasks e i = Some t"
  shows "\<exists>w. te_tasks (advanceWatermark v i tm e) i = Some (t\<lparr>t_LastScheduledAt := Some w\<rparr>) \<and> fst tm \<le> fst w"
proof (cases "t_LastScheduledAt t")
  case None
  then show ?thesis using assms by (intro exI [of _ tm]) (simp add: advanceWatermark_def)
next
  case (Some wm)
  have "t = t\<lparr>t_LastScheduledAt := Some wm\<rparr>" using Some by simp
  then show ?thesis
    using assms Some by (intro exI [of _ "if fst wm < fst tm then tm else wm"]) (simp add: advanceWatermark_def)
qed

text \<open>A recovery replays a bounded number of slots and consumes what was missed: at most one
  with policy \<^verbatim>\<open>once\<close>, at most ten with \<^verbatim>\<open>all\<close>, and never more than one for a task that
  excludes concurrent runs. Afterwards the watermark of the stored task is not before \<open>now\<close>, the task
  is otherwise unchanged, and another recovery up to the same moment finds no slot to replay.\<close>

theorem catchup_bounded:
  assumes "catchup_slots v t now = Some slots" "te_tasks e (t_ID t) = Some t"
  shows "length (te_published (runCatchup v t now e)) \<le> length (te_published e) +
      (if t_CatchupPolicy t = CatchupPolicyOnce \<or> t_Concurrency t = 1 then 1 else 10) \<and>
    (\<exists>w. te_tasks (runCatchup v t now e) (t_ID t) = Some (t\<lparr>t_LastScheduledAt := Some w\<rparr>) \<and> now \<le> fst w \<and>
      (\<forall>now'\<le>now. catchup_slots v (t\<lparr>t_LastScheduledAt := Some w\<rparr>) now' = None \<or>
        catchup_slots v (t\<lparr>t_LastScheduledAt := Some w\<rparr>) now' = Some []))"
proof (intro conjI)
  let ?e = "fold (\<lambda>slot. dispatchGated v now t slot TriggerTypeCatchup) slots e"
  have run: "runCatchup v t now e = advanceWatermark v (t_ID t) (now, env_Local (v_go v)) ?e"
    using assms(1) by (simp add: runCatchup_def)
  have "length (te_published ?e) \<le> length (te_published e) + (if t_CatchupPolicy t = CatchupPolicyOnce \<or> t_Concurrency t = 1 then 1 else 10)"
    using fold_dispatch_published [of v now t TriggerTypeCatchup slots e] fold_dispatch_claimed(2) [of t v now TriggerTypeCatchup slots e]
      catchup_slots_length [OF assms(1)] catchup_slots_once [OF assms(1)] by auto
  then show "length (te_published (runCatchup v t now e)) \<le> length (te_published e) +
      (if t_CatchupPolicy t = CatchupPolicyOnce \<or> t_Concurrency t = 1 then 1 else 10)" by (simp add: run)
  have "te_frame e ?e" by (rule te_frame_fold [OF dispatch_frame])
  then have "later_task (Some t) (te_tasks ?e (t_ID t))" using assms(2) unfolding te_frame_def by metis
  then obtain w0 where "te_tasks ?e (t_ID t) = Some (t\<lparr>t_LastScheduledAt := w0\<rparr>)" unfolding later_task_def option.case by blast
  from advance_task [OF this, of v "(now, env_Local (v_go v))"] obtain w where
    w: "te_tasks (runCatchup v t now e) (t_ID t) = Some (t\<lparr>t_LastScheduledAt := Some w\<rparr>)" "now \<le> fst w" by (auto simp: run)
  have "\<forall>now'\<le>now. catchup_slots v (t\<lparr>t_LastScheduledAt := Some w\<rparr>) now' = None \<or>
        catchup_slots v (t\<lparr>t_LastScheduledAt := Some w\<rparr>) now' = Some []"
    using w(2) by (intro allI impI catchup_slots_none_due [where wm = w]) simp_all
  with w show "\<exists>w. te_tasks (runCatchup v t now e) (t_ID t) = Some (t\<lparr>t_LastScheduledAt := Some w\<rparr>) \<and> now \<le> fst w \<and>
      (\<forall>now'\<le>now. catchup_slots v (t\<lparr>t_LastScheduledAt := Some w\<rparr>) now' = None \<or>
        catchup_slots v (t\<lparr>t_LastScheduledAt := Some w\<rparr>) now' = Some [])" by blast
qed

text \<open>The task of the example, last dispatched at one o'clock, with two slots missed at thirteen past.\<close>

definition late_task :: "unit Task" where
  "late_task = sample_task\<lparr>t_LastScheduledAt := Some (time_Hour, UTC)\<rparr>"

definition late_engine :: "(unit, unit engine) task_engine" where
  "late_engine = (NewTaskEngine new_engine)\<lparr>te_tasks := [7 \<mapsto> late_task]\<rparr>"

lemma late_slots: "\<exists>slots. catchup_slots sample_env late_task (time_Hour + 13 * time_Minute) = Some slots \<and> length slots = 2"
proof -
  have "(case catchup_slots sample_env late_task (time_Hour + 13 * time_Minute) of None \<Rightarrow> False | Some slots \<Rightarrow> length slots = 2)"
    by code_simp
  then show ?thesis by (auto split: option.splits)
qed

lemma late_ID: "t_ID late_task = 7" "te_tasks late_engine (t_ID late_task) = Some late_task"
  by (simp_all add: late_engine_def late_task_def sample_task_def)

theorem catchup_bounded_witness:
  "length (te_published (runCatchup sample_env late_task (time_Hour + 13 * time_Minute) late_engine)) \<le> 1 \<and>
   (\<exists>w. te_tasks (runCatchup sample_env late_task (time_Hour + 13 * time_Minute) late_engine) 7 =
      Some (late_task\<lparr>t_LastScheduledAt := Some w\<rparr>) \<and> time_Hour + 13 * time_Minute \<le> fst w)"
proof -
  obtain slots where "catchup_slots sample_env late_task (time_Hour + 13 * time_Minute) = Some slots" using late_slots by blast
  note b = catchup_bounded [OF this late_ID(2)]
  have "te_published late_engine = []" "t_Concurrency late_task = 1" by (simp_all add: late_engine_def NewTaskEngine_def late_task_def sample_task_def)
  then have "length (te_published (runCatchup sample_env late_task (time_Hour + 13 * time_Minute) late_engine)) \<le> 1" using conjunct1 [OF b] by simp
  then show ?thesis using conjunct2 [OF b] unfolding late_ID(1) by blast
qed

lemma missedSlots_after:
  assumes "x \<in> set (fst (missedSlots env schedule ScheduleTypeInterval d wm now))"
  shows "fst wm < fst x"
proof -
  define n where "n = go_div (time_sub now (fst wm)) d"
  obtain k where d: "0 < d" "fst wm < now" and k: "1 \<le> k" "k \<le> n" "fst x = fst wm + wrap64 (k * d)"
    using assms by (auto simp: missedSlots_def Let_def simp flip: n_def split: if_splits)
  have T: "0 \<le> time_sub now (fst wm)" "time_sub now (fst wm) \<le> max_duration"
    using d(2) by (auto simp: time_sub_def min_duration_def max_duration_def)
  then have "k \<le> time_sub now (fst wm) div d" using k(2) d(1) by (simp add: n_def go_div_nonneg)
  then have "k * d \<le> max_duration" using T(2) d(1) by (simp add: le_div_iff_mult)
  moreover have "0 < k * d" using k(1) d(1) by simp
  ultimately have "wrap64 (k * d) = k * d"
    by (intro wrap64_id) (simp_all add: min_int_def max_int_def max_duration_def)
  with k(3) \<open>0 < k * d\<close> show ?thesis by simp
qed

lemma advanced: "te_tasks e (t_ID t) = Some t \<Longrightarrow> t_LastScheduledAt t = Some wm \<Longrightarrow> fst wm < fst tm \<Longrightarrow>
  advanceWatermark v (t_ID t) tm e = store_write v (StoreAdvance (t_ID t) tm) (e\<lparr>te_tasks := (te_tasks e)(t_ID t \<mapsto> t\<lparr>t_LastScheduledAt := Some tm\<rparr>)\<rparr>)"
  by (simp add: advanceWatermark_def)

lemma trigger_advances:
  assumes "te_published (trigger v now t tt e) \<noteq> te_published e" "tt = TriggerTypeSchedule \<or> tt = TriggerTypeCatchup"
  shows "trigger v now t tt e = advanceWatermark v (t_ID t) (now, env_Local (v_go v)) (published v t tt e)"
  using assms by (auto simp: trigger_def releaseRunning_def Let_def published_def split: if_splits)

text \<open>A replay that stops half-way skips slots, although the comments promise that dispatching
  is at-least-once and that a crash re-dispatches the slots of the window. Publishing the first of the missed slots
  already moves the watermark to \<open>now\<close>, in memory and in the store, past the slots still to come; when
  the process ends there, the next recovery finds none of them: up to \<open>now\<close> there is nothing to
  replay, and for an interval schedule every slot it finds later is after \<open>now\<close>.\<close>

theorem crashed_replay_skips:
  assumes "te_tasks e (t_ID t) = Some t" "t_LastScheduledAt t = Some wm" "fst wm < now" "v_store v"
    "te_published (dispatchGated v now t slot TriggerTypeCatchup e) \<noteq> te_published e"
  defines "t' \<equiv> t\<lparr>t_LastScheduledAt := Some (now, env_Local (v_go v))\<rparr>"
  shows "te_tasks (dispatchGated v now t slot TriggerTypeCatchup e) (t_ID t) = Some t' \<and>
    last (te_store (dispatchGated v now t slot TriggerTypeCatchup e)) = StoreAdvance (t_ID t) (now, env_Local (v_go v)) \<and>
    (\<forall>u\<le>now. catchup_slots v t' u = None \<or> catchup_slots v t' u = Some []) \<and>
    (\<forall>u slots. catchup_slots v t' u = Some slots \<and> fst (ClassifySchedule (v_go v) (t_Schedule t)) = ScheduleTypeInterval \<longrightarrow>
      (\<forall>x\<in>set slots. now < fst x))"
proof (intro conjI)
  define e1 where "e1 = (if t_Concurrency t = 1 then e\<lparr>te_running := insert (t_ID t) (te_running e)\<rparr> else e)"
  have d: "dispatchGated v now t slot TriggerTypeCatchup e = trigger v now t TriggerTypeCatchup e1" and p: "te_published e1 = te_published e"
    using assms(5) by (auto simp: dispatchGated_def tryClaimRunning_def e1_def split: if_splits)
  have T: "trigger v now t TriggerTypeCatchup e1 =
      advanceWatermark v (t_ID t) (now, env_Local (v_go v)) (published v t TriggerTypeCatchup e1)"
    by (rule trigger_advances) (use assms(5) in \<open>simp_all add: d p\<close>)
  have "te_tasks (published v t TriggerTypeCatchup e1) (t_ID t) = Some t" using assms(1) by (simp add: published_def e1_def)
  note adv = advanced [OF this assms(2), where tm = "(now, env_Local (v_go v))", unfolded fst_conv, OF assms(3)]
  show "te_tasks (dispatchGated v now t slot TriggerTypeCatchup e) (t_ID t) = Some t'" unfolding d T adv by (simp add: t'_def)
  show "last (te_store (dispatchGated v now t slot TriggerTypeCatchup e)) = StoreAdvance (t_ID t) (now, env_Local (v_go v))"
    unfolding d T adv using assms(4) by (simp add: store_write_def)
  show "\<forall>u\<le>now. catchup_slots v t' u = None \<or> catchup_slots v t' u = Some []"
    by (intro allI impI, rule catchup_slots_none_due [where wm = "(now, env_Local (v_go v))"]) (simp_all add: t'_def)
  have "now < fst x" if slots: "catchup_slots v t' u = Some slots" and int: "fst (ClassifySchedule (v_go v) (t_Schedule t)) = ScheduleTypeInterval"
    and x: "x \<in> set slots" for u slots x
  proof -
    obtain d err where c: "ClassifySchedule (v_go v) (t_Schedule t) = (ScheduleTypeInterval, d, err)"
      using int by (cases "ClassifySchedule (v_go v) (t_Schedule t)") auto
    let ?m = "fst (missedSlots (v_go v) (t_Schedule t) ScheduleTypeInterval d (now, env_Local (v_go v)) u)"
    have "set slots \<subseteq> set ?m" using slots c by (auto simp: catchup_slots_def t'_def Let_def split: if_splits option.splits)
    with x missedSlots_after [of x "v_go v" "t_Schedule t" d "(now, env_Local (v_go v))" u] show ?thesis by auto
  qed
  then show "\<forall>u slots. catchup_slots v t' u = Some slots \<and> fst (ClassifySchedule (v_go v) (t_Schedule t)) = ScheduleTypeInterval \<longrightarrow>
      (\<forall>x\<in>set slots. now < fst x)" by blast
qed

text \<open>The example without the limit on concurrent runs: the first of its two slots is published.\<close>

definition parallel_task :: "unit Task" where
  "parallel_task = late_task\<lparr>t_Concurrency := 0\<rparr>"

theorem crashed_replay_skips_witness:
  "let e = (NewTaskEngine new_engine :: (unit, unit engine) task_engine)\<lparr>te_tasks := [7 \<mapsto> parallel_task]\<rparr>;
       now = time_Hour + 13 * time_Minute;
       slot = (time_Hour + 5 * time_Minute, UTC)
   in te_tasks (dispatchGated sample_env now parallel_task slot TriggerTypeCatchup e) 7 =
        Some (parallel_task\<lparr>t_LastScheduledAt := Some (now, UTC)\<rparr>)"
proof -
  define e :: "(unit, unit engine) task_engine" where "e = (NewTaskEngine new_engine)\<lparr>te_tasks := [7 \<mapsto> parallel_task]\<rparr>"
  have ID: "t_ID parallel_task = 7" "t_LastScheduledAt parallel_task = Some (time_Hour, UTC)"
    by (simp_all add: parallel_task_def late_task_def sample_task_def)
  have env: "v_store sample_env" "env_Local (v_go sample_env) = UTC" by (simp_all add: sample_env_def plain_env_def)
  have "length (te_published (dispatchGated sample_env (time_Hour + 13 * time_Minute) parallel_task
      (time_Hour + 5 * time_Minute, UTC) TriggerTypeCatchup e)) = 1"
    unfolding e_def by code_simp
  then have "te_published (dispatchGated sample_env (time_Hour + 13 * time_Minute) parallel_task
      (time_Hour + 5 * time_Minute, UTC) TriggerTypeCatchup e) \<noteq> te_published e" by (auto simp: e_def NewTaskEngine_def)
  from conjunct1 [OF crashed_replay_skips [OF _ ID(2) _ env(1) this]] show ?thesis
    by (simp add: ID env e_def time_Minute_def time_Second_def Let_def)
qed

subsection \<open>No overlapping runs\<close>

definition executions :: "int \<Rightarrow> ('c, 'g) task_engine \<Rightarrow> nat" where
  "executions i e = length (filter (\<lambda>p. p_ExecutionID (fst p) = FormatInt i) (te_published e))"

text \<open>
  The runs of the engine in which task \<open>i\<close> is not triggered by hand and every version of it has
  \<^verbatim>\<open>Concurrency == 1\<close>. The number counts the completed executions of \<open>i\<close>; an execution
  completes only after it was published.
\<close>

inductive gated_reach :: "int \<Rightarrow> 'g \<Rightarrow> ('c, 'g) task_engine \<Rightarrow> nat \<Rightarrow> bool" for i g0 where
  g_new: "gated_reach i g0 (NewTaskEngine g0) 0"
| g_register: "gated_reach i g0 e n \<Longrightarrow> t_ID t = i \<longrightarrow> t_Concurrency t = 1 \<Longrightarrow> gated_reach i g0 (snd (Register ops v t e)) n"
| g_schedule: "gated_reach i g0 e n \<Longrightarrow> j \<noteq> i \<Longrightarrow> gated_reach i g0 (snd (Schedule_task v now j e)) n"
| g_update: "gated_reach i g0 e n \<Longrightarrow> t_ID t = i \<longrightarrow> t_Concurrency t = 1 \<Longrightarrow> gated_reach i g0 (snd (Update ops v t e)) n"
| g_unschedule: "gated_reach i g0 e n \<Longrightarrow> gated_reach i g0 (Unschedule ops v j e) n"
| g_pause: "gated_reach i g0 e n \<Longrightarrow> gated_reach i g0 (snd (Pause ops v j e)) n"
| g_resume: "gated_reach i g0 e n \<Longrightarrow> gated_reach i g0 (snd (Resume ops v now j e)) n"
| g_fire: "gated_reach i g0 e n \<Longrightarrow> gated_reach i g0 (task_onFire v now j e) n"
| g_status: "gated_reach i g0 e n \<Longrightarrow> gated_reach i g0 (handleStatusChange v now order a st e) n"
| g_completed: "gated_reach i g0 e n \<Longrightarrow> n < executions i e \<Longrightarrow> gated_reach i g0 (handleCompleted (FormatInt i) st e) (n + 1)"
| g_completed_other: "gated_reach i g0 e n \<Longrightarrow> ParseInt_value x \<noteq> i \<Longrightarrow> gated_reach i g0 (handleCompleted x st e) n"
| g_restore: "gated_reach i g0 e n \<Longrightarrow> \<forall>ts. listed = Some ts \<longrightarrow> (\<forall>t\<in>set ts. t_ID t = i \<longrightarrow> t_Concurrency t = 1) \<Longrightarrow>
    gated_reach i g0 (snd (Restore ops v now order listed e)) n"

definition task_ok :: "int \<Rightarrow> 'c Task \<Rightarrow> bool" where
  "task_ok i t \<longleftrightarrow> (t_ID t = i \<longrightarrow> t_Concurrency t = 1)"

definition one_run :: "int \<Rightarrow> nat \<Rightarrow> ('c, 'g) task_engine \<Rightarrow> bool" where
  "one_run i n e \<longleftrightarrow> executions i e \<le> n + 1 \<and> (executions i e = n + 1 \<longrightarrow> i \<in> te_running e)"

definition tasks_ok :: "int \<Rightarrow> ('c, 'g) task_engine \<Rightarrow> bool" where
  "tasks_ok i e \<longleftrightarrow> (\<forall>j t. te_tasks e j = Some t \<longrightarrow> t_ID t = j \<and> task_ok i t)"

lemma one_run_cong: "te_published e' = te_published e \<Longrightarrow> te_running e' = te_running e \<Longrightarrow> one_run i n e' \<longleftrightarrow> one_run i n e"
  by (simp add: one_run_def executions_def)

lemma tasks_ok_frame: "te_frame e e' \<Longrightarrow> tasks_ok i e \<Longrightarrow> tasks_ok i e'"
proof (unfold tasks_ok_def, intro allI impI)
  fix j t
  assume f: "te_frame e e'" and ok: "\<forall>j t. te_tasks e j = Some t \<longrightarrow> t_ID t = j \<and> task_ok i t" and t: "te_tasks e' j = Some t"
  have "later_task (te_tasks e j) (Some t)" using f t unfolding te_frame_def by metis
  then obtain t0 w where t0: "te_tasks e j = Some t0" "t = t0\<lparr>t_LastScheduledAt := w\<rparr>"
    by (cases "te_tasks e j") (auto simp: later_task_def)
  with ok show "t_ID t = j \<and> task_ok i t" by (simp add: task_ok_def)
qed

lemma trigger_one_run:
  assumes "one_run i n e" "t_ID t = i \<Longrightarrow> executions i e \<le> n"
  shows "one_run i n (trigger v now t tt e)"
proof -
  have pub: "executions i (published v t tt e) = (if t_ID t = i then executions i e + 1 else executions i e)"
    by (simp add: executions_def published_def trigger_payload_def Let_def FormatInt_inj)
  have "one_run i n (published v t tt e)" using assms pub by (auto simp: one_run_def) (simp_all add: published_def)
  moreover have "one_run i n (e\<lparr>te_running := te_running e - {t_ID t}, te_attempts := m\<rparr>)" for m
    using assms by (auto simp: one_run_def executions_def)
  moreover have "one_run i n (e\<lparr>te_running := te_running e - {t_ID t}\<rparr>)" using assms by (auto simp: one_run_def executions_def)
  ultimately show ?thesis
    using trigger_cases [of v now t tt e] by (auto simp: one_run_cong [of "advanceWatermark _ _ _ _"])
qed

lemma claimed_one_run:
  assumes "one_run i n e" "task_ok i t"
  shows "one_run i n (if t_Concurrency t = 1 then let (c, e') = tryClaimRunning (t_ID t) e in if \<not> c then e' else trigger v now t tt e'
    else trigger v now t tt e)"
proof (cases "t_Concurrency t = 1 \<and> t_ID t \<notin> te_running e")
  case True
  have "one_run i n (e\<lparr>te_running := insert (t_ID t) (te_running e)\<rparr>)" "t_ID t = i \<Longrightarrow> executions i (e\<lparr>te_running := insert (t_ID t) (te_running e)\<rparr>) \<le> n"
    using assms(1) True by (auto simp: one_run_def executions_def)
  from trigger_one_run [OF this] show ?thesis using True by (simp add: tryClaimRunning_def)
next
  case False
  then show ?thesis using assms trigger_one_run [OF assms(1), of t v now tt] by (auto simp: tryClaimRunning_def task_ok_def)
qed

lemma dispatch_one_run: "one_run i n e \<Longrightarrow> task_ok i t \<Longrightarrow> one_run i n (dispatchGated v now t slot tt e)"
  using claimed_one_run [of i n e t v now tt] by (simp add: dispatchGated_def one_run_cong [of "advanceWatermark _ _ _ _"])

lemma fire_one_run: "one_run i n e \<Longrightarrow> tasks_ok i e \<Longrightarrow> one_run i n (fire_event_task v now a j e)"
  using claimed_one_run [of i n e _ v now TriggerTypeEvent]
  by (auto simp: fire_event_task_def getTask_def tasks_ok_def split: option.splits)

lemma catchup_one_run:
  assumes "one_run i n e" "task_ok i t"
  shows "one_run i n (runCatchup v t now e)"
proof -
  have "one_run i n (fold (\<lambda>slot. dispatchGated v now t slot TriggerTypeCatchup) slots e)" for slots
    using assms(1) by (induction slots arbitrary: e) (simp_all add: dispatch_one_run [OF _ assms(2)])
  then show ?thesis using assms(1) by (auto simp: runCatchup_def one_run_cong [of "advanceWatermark _ _ _ _"] split: option.splits)
qed

definition gated_ok :: "int \<Rightarrow> nat \<Rightarrow> ('c, 'g) task_engine \<Rightarrow> bool" where
  "gated_ok i n e \<longleftrightarrow> tasks_ok i e \<and> one_run i n e"

lemma gated_upd [simp]:
  "gated_ok i n (e\<lparr>te_engine := g\<rparr>) \<longleftrightarrow> gated_ok i n e" "gated_ok i n (e\<lparr>te_scheds := ss\<rparr>) \<longleftrightarrow> gated_ok i n e"
  "gated_ok i n (e\<lparr>te_types := tys\<rparr>) \<longleftrightarrow> gated_ok i n e" "gated_ok i n (e\<lparr>te_eventDriven := evs\<rparr>) \<longleftrightarrow> gated_ok i n e"
  "gated_ok i n (e\<lparr>te_deps := ds\<rparr>) \<longleftrightarrow> gated_ok i n e"
  by (simp_all add: gated_ok_def tasks_ok_def one_run_def executions_def)

lemma gated_ops [simp]:
  "gated_ok i n (unscheduleInternal ops j e) \<longleftrightarrow> gated_ok i n e" "gated_ok i n (forget_sched j e) \<longleftrightarrow> gated_ok i n e"
  "gated_ok i n (forget_event j e) \<longleftrightarrow> gated_ok i n e" "gated_ok i n (note_sched j s st e) \<longleftrightarrow> gated_ok i n e"
  by (simp_all add: unscheduleInternal_def deps_Reset_def forget_sched_def forget_event_def note_sched_def)

lemma gated_setTask: "gated_ok i n e \<Longrightarrow> task_ok i t \<Longrightarrow> gated_ok i n (setTask v t e)"
  by (auto simp: gated_ok_def tasks_ok_def setTask_def one_run_def executions_def)

lemma gated_deleteTask: "gated_ok i n e \<Longrightarrow> gated_ok i n (deleteTask v j e)"
  by (auto simp: gated_ok_def tasks_ok_def deleteTask_def one_run_def executions_def)

lemma gated_Register:
  assumes "gated_ok i n e" "task_ok i t"
  shows "gated_ok i n (snd (Register ops v t e))"
proof -
  define t1 where "t1 = (if t_CatchupPolicy t = [] then t\<lparr>t_CatchupPolicy := CatchupPolicySkip\<rparr> else t)"
  have "task_ok i t1" using assms(2) by (simp add: t1_def task_ok_def)
  then show ?thesis
    unfolding Register_def t1_def [symmetric] Let_def
    by (auto split: prod.splits option.splits sum.splits bool.splits simp: assms(1) gated_setTask gated_deleteTask)
qed

lemma gated_catchup: "gated_ok i n e \<Longrightarrow> task_ok i t \<Longrightarrow> gated_ok i n (runCatchup v t now e)"
  unfolding gated_ok_def using catchup_one_run tasks_ok_frame [OF catchup_frame] by blast

lemma gated_finish: "gated_ok i n e \<Longrightarrow> task_ok i t \<Longrightarrow> gated_ok i n (finish_resume v now t e)"
  by (simp add: finish_resume_def Let_def gated_catchup gated_setTask task_ok_def)

lemma gated_task: "gated_ok i n e \<Longrightarrow> te_tasks e j = Some t \<Longrightarrow> task_ok i t \<and> t_ID t = j"
  by (simp add: gated_ok_def tasks_ok_def)

lemma gated_Resume: "gated_ok i n e \<Longrightarrow> gated_ok i n (snd (Resume ops v now j e))"
proof (cases "te_tasks e j")
  case (Some t)
  assume ok: "gated_ok i n e"
  have t: "task_ok i t" using gated_task [OF ok Some] by simp
  have r: "gated_ok i n (snd (rearm ops v now j t s e'))" if "gated_ok i n e'" for s e'
    using that by (simp add: rearm_def Let_def gated_finish t split: prod.splits)
  show ?thesis unfolding Resume_def getTask_def Some option.case sum.case
    by (auto split: prod.splits option.splits sum.splits simp: ok r gated_finish t)
qed (simp add: Resume_def getTask_def)

lemma gated_restore_task: "gated_ok i n e \<Longrightarrow> task_ok i t \<Longrightarrow> gated_ok i n (restore_task ops v now t e)"
  unfolding restore_task_def Let_def by (auto split: prod.splits option.splits sum.splits bool.splits simp: gated_catchup)

lemma gated_Restore:
  assumes "gated_ok i n e" "\<And>ts t. listed = Some ts \<Longrightarrow> t \<in> set ts \<Longrightarrow> task_ok i t"
  shows "gated_ok i n (snd (Restore ops v now order listed e))"
proof (cases listed)
  case (Some ts)
  let ?e = "e\<lparr>te_engine := fold (\<lambda>i g. snd (op_Remove ops i g)) order (te_engine e), te_scheds := Map.empty,
      te_types := Map.empty, te_eventDriven := {}, te_tasks := fold (\<lambda>t m. m(t_ID t \<mapsto> t)) ts Map.empty\<rparr>"
  have "gated_ok i n ?e"
    using assms listed_map [of ts Map.empty] Some by (auto simp: gated_ok_def tasks_ok_def one_run_def executions_def)
  moreover have "gated_ok i n (fold (restore_task ops v now) us e')" if "gated_ok i n e'" "set us \<subseteq> set ts" for us e'
    using that assms(2) Some by (induction us arbitrary: e') (auto simp: gated_restore_task)
  ultimately have "gated_ok i n (fold (restore_task ops v now) ts ?e)" by blast
  then show ?thesis using Some assms(1) by (simp add: Restore_def Let_def)
qed (simp add: Restore_def assms(1))

lemma gated_reach_ok: "gated_reach i g0 e n \<Longrightarrow> min_int \<le> i \<Longrightarrow> i \<le> max_int \<Longrightarrow> gated_ok i n e"
proof (induction rule: gated_reach.induct)
  case g_new
  show ?case by (simp add: gated_ok_def tasks_ok_def one_run_def executions_def NewTaskEngine_def)
next
  case (g_register e n t ops v)
  then show ?case by (simp add: gated_Register task_ok_def)
next
  case (g_schedule e n j v now)
  then have ok: "gated_ok i n e" by simp
  show ?case
  proof (cases "te_tasks e j")
    case (Some t)
    have "t_ID t \<noteq> i" using gated_task [OF ok Some] g_schedule.hyps(2) by simp
    then show ?thesis
      using ok trigger_one_run [of i n e t v now] tasks_ok_frame [OF trigger_frame, of i e v now t TriggerTypeManual]
      by (simp add: gated_ok_def Schedule_task_def getTask_def Some)
  qed (simp add: Schedule_task_def getTask_def ok)
next
  case (g_update e n t ops v)
  then show ?case by (simp add: Update_def gated_Register task_ok_def)
next
  case (g_unschedule e n ops v j)
  then show ?case by (simp add: Unschedule_def gated_deleteTask)
next
  case (g_pause e n ops v j)
  then have ok: "gated_ok i n e" by simp
  show ?case
  proof (cases "te_tasks e j")
    case (Some t)
    have "task_ok i (t\<lparr>t_Enabled := False\<rparr>)" using gated_task [OF ok Some] by (simp add: task_ok_def)
    then show ?thesis using ok by (simp add: Pause_def getTask_def Some gated_setTask)
  qed (simp add: Pause_def getTask_def ok)
next
  case (g_resume e n ops v now j)
  then show ?case by (simp add: gated_Resume)
next
  case (g_fire e n v now j)
  then have ok: "gated_ok i n e" by simp
  show ?case
  proof (cases "te_tasks e j")
    case (Some t)
    then show ?thesis
      using ok gated_task [OF ok Some] dispatch_one_run [of i n e t] tasks_ok_frame [OF dispatch_frame, of i e v now t "(now, env_Local (v_go v))" TriggerTypeSchedule]
      by (simp add: task_onFire_def getTask_def gated_ok_def)
  qed (simp add: task_onFire_def getTask_def ok)
next
  case (g_status e n v now order a st)
  then have ok: "gated_ok i n e" by simp
  have "gated_ok i n (fold (fire_event_task v now b) order e)" for b
    using ok by (induction order arbitrary: e) (simp_all add: gated_ok_def fire_one_run tasks_ok_frame [OF event_frame])
  then show ?case using ok by (simp add: handleStatusChange_def Let_def)
next
  case (g_completed e n st)
  then show ?case
    by (simp add: gated_ok_def handleCompleted_def Let_def releaseRunning_def deps_UpdateStatus_def tasks_ok_def one_run_def executions_def)
next
  case (g_completed_other e n x st)
  then show ?case
    by (simp add: gated_ok_def handleCompleted_def Let_def releaseRunning_def deps_UpdateStatus_def tasks_ok_def one_run_def executions_def)
next
  case (g_restore e n listed ops v now order)
  then show ?case by (intro gated_Restore) (auto simp: task_ok_def)
qed

text \<open>C19. A task with \<^verbatim>\<open>Concurrency == 1\<close> has no two executions under way at the same time,
  as long as it is not triggered by hand: in every run of timed fires, replays, events, updates and restores, at most one
  published execution has not completed.\<close>

theorem no_overlap:
  assumes "gated_reach i g0 e n" "min_int \<le> i" "i \<le> max_int"
  shows "executions i e \<le> n + 1"
  using gated_reach_ok [OF assms] by (simp add: gated_ok_def one_run_def)

theorem no_overlap_witness:
  "executions 7 (task_onFire sample_env (2 * time_Hour) 7 (task_onFire sample_env time_Hour 7 sample_engine)) \<le> 1"
proof -
  have "gated_reach 7 new_engine sample_engine 0"
    unfolding sample_engine_def by (rule g_register [OF g_new]) (simp add: sample_task_def)
  from no_overlap [OF g_fire [OF g_fire [OF this]], of sample_env "2 * time_Hour" 7 sample_env time_Hour 7]
  show ?thesis by (simp add: min_int_def max_int_def)
qed

text \<open>A manual trigger ignores the claim and its completion gives it up. The task of the
  example, which excludes concurrent runs, fires; it is then triggered by hand while that execution is still under
  way, and when the manual execution completes, the next fire is dispatched too: three executions were published
  and one has completed.\<close>

theorem manual_trigger_overlaps:
  "executions 7
     (task_onFire sample_env (2 * time_Hour) 7
       (handleCompleted ''7'' ''normal''
         (snd (Schedule_task sample_env time_Hour 7
           (task_onFire sample_env time_Hour 7 sample_engine))))) = 3"
  by code_simp

subsection \<open>Restoring\<close>

text \<open>What \<^verbatim>\<open>Restore\<close> schedules of the rows it reads.\<close>

definition restorable :: "'c task_env \<Rightarrow> 'c Task \<Rightarrow> bool" where
  "restorable v t \<longleftrightarrow> t_Enabled t \<and>
     (case ClassifySchedule (v_go v) (t_Schedule t) of
        (_, _, Some _) \<Rightarrow> False
      | (st, d, None) \<Rightarrow> checkMinInterval v st d = None \<and> (case parseSchedule (v_go v) (t_Schedule t) of Inl _ \<Rightarrow> False | Inr _ \<Rightarrow> True))"

definition is_event :: "'c task_env \<Rightarrow> 'c Task \<Rightarrow> bool" where
  "is_event v t \<longleftrightarrow> fst (ClassifySchedule (v_go v) (t_Schedule t)) = ScheduleTypeEvent"

lemma restore_task_eq:
  "restore_task (sched_ops Local rd accept) v now t e =
     (if \<not> restorable v t then e
      else let s = projr (parseSchedule (v_go v) (t_Schedule t));
               e1 = note_sched (t_ID t) s (fst (ClassifySchedule (v_go v) (t_Schedule t))) e
           in runCatchup v t now (e1\<lparr>te_engine := snd (op_Add (sched_ops Local rd accept) (t_ID t) s (te_engine e1))\<rparr>))"
proof -
  have add: "op_Add (sched_ops Local rd accept) i s g = (True, snd (op_Add (sched_ops Local rd accept) i s g))" for i s g
    using sched_ops_Add(2) [of Local rd accept i s g] by (simp add: prod_eq_iff)
  show ?thesis
    unfolding restore_task_def restorable_def Let_def by (subst add) (auto split: prod.splits option.splits sum.splits)
qed

lemma restore_task_fields:
  fixes Local :: location and rd :: readings and accept :: bool
  defines "ops \<equiv> sched_ops Local rd accept"
  shows "scheduled_ids (te_engine (restore_task ops v now t e)) =
      (if restorable v t then insert (t_ID t) (scheduled_ids (te_engine e)) else scheduled_ids (te_engine e))"
    "te_scheds (restore_task ops v now t e) =
      (if restorable v t then (te_scheds e)(t_ID t \<mapsto> projr (parseSchedule (v_go v) (t_Schedule t))) else te_scheds e)"
    "te_eventDriven (restore_task ops v now t e) =
      (if restorable v t then (if is_event v t then insert (t_ID t) (te_eventDriven e) else te_eventDriven e - {t_ID t}) else te_eventDriven e)"
    "dom (te_tasks (restore_task ops v now t e)) = dom (te_tasks e)"
proof -
  let ?s = "projr (parseSchedule (v_go v) (t_Schedule t))"
  let ?e1 = "note_sched (t_ID t) ?s (fst (ClassifySchedule (v_go v) (t_Schedule t))) e"
  let ?e2 = "?e1\<lparr>te_engine := snd (op_Add ops (t_ID t) ?s (te_engine ?e1))\<rparr>"
  have r: "restore_task ops v now t e = (if restorable v t then runCatchup v t now ?e2 else e)"
    by (simp add: ops_def restore_task_eq Let_def)
  have f: "te_frame ?e2 (runCatchup v t now ?e2)" by (rule catchup_frame)
  have "scheduled_ids (snd (op_Add ops (t_ID t) ?s (te_engine ?e1))) = insert (t_ID t) (scheduled_ids (te_engine e))"
    by (rule sched_ops_Add_cases [of Local rd accept "t_ID t" ?s "te_engine ?e1"]) (simp add: ops_def note_sched_def)
  then show "scheduled_ids (te_engine (restore_task ops v now t e)) =
      (if restorable v t then insert (t_ID t) (scheduled_ids (te_engine e)) else scheduled_ids (te_engine e))"
    using f by (simp add: r te_frame_def)
  show "te_scheds (restore_task ops v now t e) =
      (if restorable v t then (te_scheds e)(t_ID t \<mapsto> projr (parseSchedule (v_go v) (t_Schedule t))) else te_scheds e)"
    using f by (simp add: r te_frame_def note_sched_def)
  show "te_eventDriven (restore_task ops v now t e) =
      (if restorable v t then (if is_event v t then insert (t_ID t) (te_eventDriven e) else te_eventDriven e - {t_ID t}) else te_eventDriven e)"
    using f by (simp add: r te_frame_def note_sched_def is_event_def)
  have "dom (te_tasks (runCatchup v t now ?e2)) = dom (te_tasks ?e2)" 
    unfolding dom_def te.frame_dom [OF f] ..
  then show "dom (te_tasks (restore_task ops v now t e)) = dom (te_tasks e)" by (simp add: r note_sched_def)
qed

lemma restore_fold:
  fixes Local :: location and rd :: readings and accept :: bool
  defines "ops \<equiv> sched_ops Local rd accept"
  shows "scheduled_ids (te_engine (fold (restore_task ops v now) ts e)) = scheduled_ids (te_engine e) \<union> t_ID ` {t \<in> set ts. restorable v t}"
    and "dom (te_tasks (fold (restore_task ops v now) ts e)) = dom (te_tasks e)"
    and "distinct (map t_ID ts) \<Longrightarrow> te_eventDriven e \<inter> t_ID ` set ts = {} \<Longrightarrow>
      te_eventDriven (fold (restore_task ops v now) ts e) = te_eventDriven e \<union> t_ID ` {t \<in> set ts. restorable v t \<and> is_event v t}"
    and "i \<notin> t_ID ` set ts \<Longrightarrow> te_scheds (fold (restore_task ops v now) ts e) i = te_scheds e i"
proof -
  note F = restore_task_fields [of Local rd accept v now, folded ops_def]
  show "scheduled_ids (te_engine (fold (restore_task ops v now) ts e)) = scheduled_ids (te_engine e) \<union> t_ID ` {t \<in> set ts. restorable v t}"
    by (induction ts arbitrary: e) (auto simp: F(1) simp del: dom_def)
  show "dom (te_tasks (fold (restore_task ops v now) ts e)) = dom (te_tasks e)"
    by (induction ts arbitrary: e) (simp_all add: F(4))
  show "te_eventDriven (fold (restore_task ops v now) ts e) = te_eventDriven e \<union> t_ID ` {t \<in> set ts. restorable v t \<and> is_event v t}"
    if "distinct (map t_ID ts)" "te_eventDriven e \<inter> t_ID ` set ts = {}"
    using that
  proof (induction ts arbitrary: e)
    case (Cons t ts)
    have "te_eventDriven (restore_task ops v now t e) \<inter> t_ID ` set ts = {}" using Cons.prems by (auto simp: F(3))
    then show ?case using Cons.IH [of "restore_task ops v now t e"] Cons.prems by (auto simp: F(3))
  qed simp
  show "te_scheds (fold (restore_task ops v now) ts e) i = te_scheds e i" if "i \<notin> t_ID ` set ts"
    using that by (induction ts arbitrary: e) (auto simp: F(2))
qed

lemma restore_fold_sched:
  fixes Local :: location and rd :: readings and accept :: bool
  defines "ops \<equiv> sched_ops Local rd accept"
  assumes "distinct (map t_ID ts)" "t \<in> set ts" "te_scheds e (t_ID t) = None"
  shows "te_scheds (fold (restore_task ops v now) ts e) (t_ID t) =
    (if restorable v t then Some (projr (parseSchedule (v_go v) (t_Schedule t))) else None)"
  using assms(2-)
proof (induction ts arbitrary: e)
  case (Cons u ts)
  note F = restore_task_fields(2) [of Local rd accept v now, folded ops_def]
  show ?case
  proof (cases "u = t")
    case True
    then have "t_ID t \<notin> t_ID ` set ts" using Cons.prems(1) by auto
    from restore_fold(4) [OF this, of Local rd accept v now "restore_task ops v now t e", folded ops_def]
    show ?thesis using True Cons.prems(3) by (simp add: F)
  next
    case False
    then have t: "t \<in> set ts" using Cons.prems(2) by simp
    then have "t_ID t \<in> t_ID ` set ts" by (rule imageI)
    moreover have "t_ID u \<notin> t_ID ` set ts" using Cons.prems(1) by simp
    ultimately have "t_ID t \<noteq> t_ID u" by metis
    with t Cons.prems have "t \<in> set ts" "distinct (map t_ID ts)" "te_scheds (restore_task ops v now u e) (t_ID t) = None"
      by (auto simp: F)
    from Cons.IH [OF this(2,1,3)] show ?thesis by simp
  qed
qed simp

text \<open>C20. After a restart the engine is rebuilt from the store alone. Whatever it held before, and
  however its maps are traversed, \<^verbatim>\<open>Restore\<close> leaves exactly the listed tasks; the timing engine has exactly
  the IDs of the enabled ones whose schedule parses and respects the minimum interval, each with the schedule
  of its row; and exactly the event-driven ones among them react to events.\<close>

theorem Restore_rebuilds:
  fixes rd :: readings and accept :: bool and v :: "'c task_env" and ts :: "'c Task list" and now :: gotime
  assumes "te_reach (scheduler_ops Local) new_engine e" "set order = dom (te_scheds e)" "v_store v" "distinct (map t_ID ts)"
  defines "r \<equiv> Restore (sched_ops Local rd accept) v now order (Some ts) e"
  shows "fst r = None \<and> dom (te_tasks (snd r)) = t_ID ` set ts \<and>
    scheduled_ids (te_engine (snd r)) = t_ID ` {t \<in> set ts. restorable v t} \<and>
    (\<forall>t\<in>set ts. te_scheds (snd r) (t_ID t) =
      (if restorable v t then Some (projr (parseSchedule (v_go v) (t_Schedule t))) else None)) \<and>
    te_eventDriven (snd r) = t_ID ` {t \<in> set ts. restorable v t \<and> is_event v t}"
proof (intro conjI ballI)
  let ?ops = "sched_ops Local rd accept"
  let ?e = "e\<lparr>te_engine := fold (\<lambda>i g. snd (op_Remove ?ops i g)) order (te_engine e), te_scheds := Map.empty,
      te_types := Map.empty, te_eventDriven := {}, te_tasks := fold (\<lambda>t m. m(t_ID t \<mapsto> t)) ts Map.empty\<rparr>"
  have r: "r = (None, fold (restore_task ?ops v now) ts ?e)" using assms(3) by (simp add: r_def Restore_def Let_def)
  then show "fst r = None" by simp
  have "scheduled_ids (te_engine e) \<subseteq> set order" using reach_inv [OF assms(1)] assms(2) by (simp add: te_inv_def)
  then have empty: "scheduled_ids (te_engine ?e) = {}" using te.remove_all [OF scheduler_ops_mem, of Local rd accept order "te_engine e"] by auto
  have "dom (fold (\<lambda>t m. m(t_ID t \<mapsto> t)) ts Map.empty) = t_ID ` set ts"
    using listed_map [of ts Map.empty] listed_dom [of _ Map.empty ts] by (force simp del: not_None_eq)
  then show "dom (te_tasks (snd r)) = t_ID ` set ts" unfolding r snd_conv restore_fold(2) by simp
  show "scheduled_ids (te_engine (snd r)) = t_ID ` {t \<in> set ts. restorable v t}" unfolding r snd_conv restore_fold(1) empty by simp
  show "te_scheds (snd r) (t_ID t) = (if restorable v t then Some (projr (parseSchedule (v_go v) (t_Schedule t))) else None)" if "t \<in> set ts" for t
    unfolding r snd_conv by (rule restore_fold_sched [OF assms(4) that]) simp
  show "te_eventDriven (snd r) = t_ID ` {t \<in> set ts. restorable v t \<and> is_event v t}"
    unfolding r snd_conv by (subst restore_fold(3) [OF assms(4)]) simp_all
qed

theorem Restore_rebuilds_witness:
  "scheduled_ids (te_engine (snd (Restore sample_ops sample_env time_Hour [7] (Some [sample_task, sample_task\<lparr>t_ID := 8, t_Enabled := False\<rparr>])
     sample_engine))) = {7}"
proof -
  have "restorable sample_env sample_task" "\<not> restorable sample_env (sample_task\<lparr>t_ID := 8, t_Enabled := False\<rparr>)" "t_ID sample_task = 7"
    by code_simp+
  moreover have "v_store sample_env" by (simp add: sample_env_def)
  ultimately show ?thesis
    using Restore_rebuilds [OF sample_reach, where order = "[7]" and v = sample_env and
        ts = "[sample_task, sample_task\<lparr>t_ID := 8, t_Enabled := False\<rparr>]"]
    by (auto simp: sample_engine_fields)
qed

end
