(* ===== verification/EventBus.thy ===== *)
theory EventBus
  imports GoHeap GoStrings "HOL-Library.Product_Lexorder"
begin

text \<open>
  The event bus, \<^verbatim>\<open>pkg/event/bus.go\<close> and \<^verbatim>\<open>channel_bus.go\<close>: one priority queue and one
  consumer goroutine per event type. The functions are the code's, cut at its critical sections; the
  relation \<open>bus_steps\<close> interleaves them for one event type. What a handler does is an argument. The
  heap is that of \<^verbatim>\<open>container/heap\<close>; queue items do not keep their position, so the field \<open>ix\<close>
  of the heap is not part of the code's state here.
\<close>

record 'p Envelope =
  en_Type :: string
  en_Payload :: 'p
  en_Timestamp :: int
  en_Priority :: int
  en_EventID :: string
  en_TenantID :: string
  en_Metadata :: "(string \<times> string) list option"

record publishConfig =
  pc_priority :: int
  pc_tenantID :: string
  pc_metadata :: "(string \<times> string) list option"

datatype PublishOption = WithPriority int | WithTenantID string | WithMetadata "(string \<times> string) list"

fun publish_apply :: "PublishOption \<Rightarrow> publishConfig \<Rightarrow> publishConfig" where
  "publish_apply (WithPriority p) c = c\<lparr>pc_priority := p\<rparr>"
| "publish_apply (WithTenantID i) c = c\<lparr>pc_tenantID := i\<rparr>"
| "publish_apply (WithMetadata md) c = c\<lparr>pc_metadata := Some md\<rparr>"

record subscribeConfig =
  sc_timeout :: int
  sc_maxRetries :: int
  sc_baseBackoff :: int

datatype SubscribeOption = WithTimeout int | WithRetry int int

fun subscribe_apply :: "SubscribeOption \<Rightarrow> subscribeConfig \<Rightarrow> subscribeConfig" where
  "subscribe_apply (WithTimeout d) c = c\<lparr>sc_timeout := d\<rparr>"
| "subscribe_apply (WithRetry n d) c = c\<lparr>sc_maxRetries := n, sc_baseBackoff := d\<rparr>"

subsection \<open>The priority queue\<close>

record 'p queueItem =
  q_envelope :: "'p Envelope"
  q_seq :: int

type_synonym 'p priorityQueue = "'p queueItem heap_state"

definition pq_Less :: "'p queueItem \<Rightarrow> 'p queueItem \<Rightarrow> bool" where
  "pq_Less a b \<longleftrightarrow>
     (if en_Priority (q_envelope a) \<noteq> en_Priority (q_envelope b) then en_Priority (q_envelope a) > en_Priority (q_envelope b)
      else q_seq a < q_seq b)"

text \<open>What \<^verbatim>\<open>Less\<close> compares, as a key.\<close>

definition pq_key :: "'p queueItem \<Rightarrow> int \<times> int" where
  "pq_key a = (- en_Priority (q_envelope a), q_seq a)"

lemma pq_Less_key: "pq_Less a b \<longleftrightarrow> pq_key a < pq_key b"
  by (auto simp: pq_Less_def pq_key_def)

definition empty_pq :: "'p priorityQueue" where
  "empty_pq = \<lparr>hp = [], ix = (\<lambda>_. 0)\<rparr>"

definition pq_Push :: "'p queueItem \<Rightarrow> 'p priorityQueue \<Rightarrow> 'p priorityQueue" where
  "pq_Push = heap_Push pq_key"

definition pq_Pop :: "'p priorityQueue \<Rightarrow> 'p queueItem \<times> 'p priorityQueue" where
  "pq_Pop = heap_Pop pq_key"

subsection \<open>The bus\<close>

record 'p typeQueue =
  tq_pq :: "'p priorityQueue"
  tq_signal :: bool
  tq_done :: bool

record 'h subscriber =
  s_id :: string
  s_handler :: 'h
  s_config :: subscribeConfig

text \<open>The flags \<^verbatim>\<open>canceled\<close> of the subscribers are the set of their IDs.\<close>

record ('p, 'h, 'e) bus =
  b_queues :: "string \<rightharpoonup> 'p typeQueue"
  b_subscribers :: "string \<rightharpoonup> 'h subscriber list"
  b_canceled :: "string set"
  b_closed :: bool
  b_seq :: int
  b_nextSubID :: int
  b_failed :: "('p Envelope \<times> 'e option) list"

datatype bus_error = ErrBusClosed

definition NewBus :: "('p, 'h, 'e) bus" where
  "NewBus = \<lparr>b_queues = Map.empty, b_subscribers = Map.empty, b_canceled = {}, b_closed = False, b_seq = 0, b_nextSubID = 0,
     b_failed = []\<rparr>"

definition defaultBufferSize :: nat where "defaultBufferSize = 1024"

definition defaultTimeout :: int where "defaultTimeout = 3 * time_Second"

definition new_typeQueue :: "'p typeQueue" where
  "new_typeQueue = \<lparr>tq_pq = empty_pq, tq_signal = False, tq_done = False\<rparr>"

definition new_envelope :: "string \<Rightarrow> 'p \<Rightarrow> int \<Rightarrow> string \<Rightarrow> PublishOption list \<Rightarrow> 'p Envelope" where
  "new_envelope ty payload now eid opts =
     (let c = fold publish_apply opts \<lparr>pc_priority = 0, pc_tenantID = [], pc_metadata = None\<rparr>
      in \<lparr>en_Type = ty, en_Payload = payload, en_Timestamp = now, en_Priority = pc_priority c, en_EventID = eid,
          en_TenantID = pc_tenantID c, en_Metadata = pc_metadata c\<rparr>)"

datatype drop_reason = NoSubscribers | PublishClosed | ChannelFull

datatype 'p publish_outcome = Rejected bus_error | Dropped drop_reason | Queued "'p queueItem"

text \<open>The section of \<^verbatim>\<open>Publish\<close> under the mutex of the queue.\<close>

definition enqueue :: "string \<Rightarrow> 'p Envelope \<Rightarrow> ('p, 'h, 'e) bus \<Rightarrow> 'p publish_outcome \<times> ('p, 'h, 'e) bus" where
  "enqueue ty env b =
     (if b_closed b then (Rejected ErrBusClosed, b)
      else case b_queues b ty of
        None \<Rightarrow> (Dropped NoSubscribers, b)
      | Some tq \<Rightarrow>
          if length (hp (tq_pq tq)) \<ge> defaultBufferSize then (Dropped ChannelFull, b)
          else
            let item = \<lparr>q_envelope = env, q_seq = b_seq b + 1\<rparr>
            in (Queued item,
                b\<lparr>b_seq := b_seq b + 1, b_queues := (b_queues b)(ty \<mapsto> tq\<lparr>tq_pq := pq_Push item (tq_pq tq)\<rparr>)\<rparr>))"

text \<open>The non-blocking send on the channel of capacity one.\<close>

definition notify :: "string \<Rightarrow> ('p, 'h, 'e) bus \<Rightarrow> ('p, 'h, 'e) bus" where
  "notify ty b =
     (case b_queues b ty of None \<Rightarrow> b | Some tq \<Rightarrow> b\<lparr>b_queues := (b_queues b)(ty \<mapsto> tq\<lparr>tq_signal := True\<rparr>)\<rparr>)"

text \<open>Nil is returned for a dropped event as well.\<close>

definition Publish ::
  "string \<Rightarrow> 'p \<Rightarrow> int \<Rightarrow> string \<Rightarrow> PublishOption list \<Rightarrow> ('p, 'h, 'e) bus \<Rightarrow> bus_error option \<times> ('p, 'h, 'e) bus" where
  "Publish ty payload now eid opts b =
     (case enqueue ty (new_envelope ty payload now eid opts) b of
        (Rejected err, b) \<Rightarrow> (Some err, b)
      | (Dropped _, b) \<Rightarrow> (None, b)
      | (Queued _, b) \<Rightarrow> (None, notify ty b))"

definition Subscribe ::
  "string \<Rightarrow> 'h \<Rightarrow> SubscribeOption list \<Rightarrow> ('p, 'h, 'e) bus \<Rightarrow> (bus_error + string) \<times> ('p, 'h, 'e) bus" where
  "Subscribe ty handler opts b =
     (if b_closed b then (Inl ErrBusClosed, b)
      else
        let cfg = fold subscribe_apply opts \<lparr>sc_timeout = 0, sc_maxRetries = 0, sc_baseBackoff = 0\<rparr>;
            n = b_nextSubID b + 1;
            sub = \<lparr>s_id = ''sub-'' @ FormatInt n, s_handler = handler, s_config = cfg\<rparr>;
            subs = (case b_subscribers b ty of None \<Rightarrow> [] | Some ss \<Rightarrow> ss);
            b = b\<lparr>b_nextSubID := n, b_subscribers := (b_subscribers b)(ty \<mapsto> subs @ [sub])\<rparr>;
            b = (case b_queues b ty of
                   None \<Rightarrow> b\<lparr>b_queues := (b_queues b)(ty \<mapsto> new_typeQueue)\<rparr>
                 | Some _ \<Rightarrow> b)
        in (Inr (s_id sub), b))"

definition Cancel :: "string \<Rightarrow> string \<Rightarrow> ('p, 'h, 'e) bus \<Rightarrow> ('p, 'h, 'e) bus" where
  "Cancel ty sid b =
     (if sid \<in> b_canceled b then b
      else
        let subs = (case b_subscribers b ty of None \<Rightarrow> [] | Some ss \<Rightarrow> ss);
            next_subs = filter (\<lambda>s. s_id s \<noteq> sid) subs;
            b = b\<lparr>b_canceled := insert sid (b_canceled b)\<rparr>
        in b\<lparr>b_subscribers := (b_subscribers b)(ty := if next_subs = [] then None else Some next_subs)\<rparr>)"

definition Close :: "('p, 'h, 'e) bus \<Rightarrow> ('p, 'h, 'e) bus" where
  "Close b =
     (if b_closed b then b
      else b\<lparr>b_closed := True, b_queues := (\<lambda>ty. map_option (\<lambda>tq. tq\<lparr>tq_done := True\<rparr>) (b_queues b ty))\<rparr>)"

subsection \<open>Handlers\<close>

datatype 'e handler_result = HandlerOk | HandlerError 'e | HandlerPanic string

datatype 'e call_error = ReturnedError 'e | PanicError string

fun bus_call :: "'e handler_result \<Rightarrow> 'e call_error option" where
  "bus_call HandlerOk = None"
| "bus_call (HandlerError e) = Some (ReturnedError e)"
| "bus_call (HandlerPanic r) = Some (PanicError r)"

text \<open>
  The attempts of one subscriber: \<open>run k\<close> is what the handler does at attempt \<open>k\<close>. The result has the
  pauses slept, whether an attempt succeeded, and the last error.
\<close>

fun handler_loop :: "(nat \<Rightarrow> 'e handler_result) \<Rightarrow> int \<Rightarrow> nat \<Rightarrow> nat \<Rightarrow> 'e call_error option \<Rightarrow>
    int list \<times> bool \<times> 'e call_error option" where
  "handler_loop run baseBackoff 0 k lastErr = ([], False, lastErr)"
| "handler_loop run baseBackoff (Suc n) k lastErr =
     (let pause = (if 0 < k \<and> 0 < baseBackoff then [wrap64 (baseBackoff * wrap64 (2 ^ (k - 1)))] else [])
      in case bus_call (run k) of
           None \<Rightarrow> (pause, True, None)
         | Some err \<Rightarrow>
             (case handler_loop run baseBackoff n (k + 1) (Some err) of
                (pauses, ok, e) \<Rightarrow> (pause @ pauses, ok, e)))"

definition handler_timeout :: "subscribeConfig \<Rightarrow> int" where
  "handler_timeout c = (if sc_timeout c = 0 then defaultTimeout else sc_timeout c)"

definition handleFailedEvent ::
  "'p Envelope \<Rightarrow> 'e call_error option \<Rightarrow> ('p, 'h, 'e call_error) bus \<Rightarrow> ('p, 'h, 'e call_error) bus" where
  "handleFailedEvent env err b = b\<lparr>b_failed := b_failed b @ [(env, err)]\<rparr>"

text \<open>\<open>run\<close> takes the handler, the time-out, the envelope and the attempt.\<close>

definition callHandler ::
  "('h \<Rightarrow> int \<Rightarrow> 'p Envelope \<Rightarrow> nat \<Rightarrow> 'e handler_result) \<Rightarrow> 'p Envelope \<Rightarrow> 'h subscriber \<Rightarrow> ('p, 'h, 'e call_error) bus \<Rightarrow>
   ('p, 'h, 'e call_error) bus" where
  "callHandler run env sub b =
     (case handler_loop (run (s_handler sub) (handler_timeout (s_config sub)) env) (sc_baseBackoff (s_config sub))
             (nat (sc_maxRetries (s_config sub) + 1)) 0 None of
        (_, True, _) \<Rightarrow> b
      | (_, False, lastErr) \<Rightarrow> handleFailedEvent env lastErr b)"

definition active_subs :: "string \<Rightarrow> ('p, 'h, 'e) bus \<Rightarrow> 'h subscriber list" where
  "active_subs ty b =
     filter (\<lambda>s. s_id s \<notin> b_canceled b) (case b_subscribers b ty of None \<Rightarrow> [] | Some ss \<Rightarrow> ss)"

definition bus_dispatch ::
  "('h \<Rightarrow> int \<Rightarrow> 'p Envelope \<Rightarrow> nat \<Rightarrow> 'e handler_result) \<Rightarrow> string \<Rightarrow> 'p Envelope \<Rightarrow> ('p, 'h, 'e call_error) bus \<Rightarrow>
   ('p, 'h, 'e call_error) bus" where
  "bus_dispatch run ty env b = fold (callHandler run env) (active_subs ty b) b"

definition pop_queue :: "string \<Rightarrow> ('p, 'h, 'e) bus \<Rightarrow> ('p queueItem \<times> ('p, 'h, 'e) bus) option" where
  "pop_queue ty b =
     (case b_queues b ty of
        None \<Rightarrow> None
      | Some tq \<Rightarrow>
          if hp (tq_pq tq) = [] then None
          else case pq_Pop (tq_pq tq) of
            (item, q) \<Rightarrow> Some (item, b\<lparr>b_queues := (b_queues b)(ty \<mapsto> tq\<lparr>tq_pq := q\<rparr>)\<rparr>))"

text \<open>The loop of \<^verbatim>\<open>drainQueue\<close> with nothing else going on; \<open>fuel\<close> bounds the number of events.\<close>

fun drainQueue ::
  "nat \<Rightarrow> ('h \<Rightarrow> int \<Rightarrow> 'p Envelope \<Rightarrow> nat \<Rightarrow> 'e handler_result) \<Rightarrow> string \<Rightarrow> ('p, 'h, 'e call_error) bus \<Rightarrow>
   ('p queueItem list \<times> ('p, 'h, 'e call_error) bus) option" where
  "drainQueue 0 run ty b = None"
| "drainQueue (Suc fuel) run ty b =
     (case pop_queue ty b of
        None \<Rightarrow> Some ([], b)
      | Some (item, b) \<Rightarrow>
          (case drainQueue fuel run ty (bus_dispatch run ty (q_envelope item) b) of
             None \<Rightarrow> None
           | Some (items, b) \<Rightarrow> Some (item # items, b)))"

subsection \<open>The queue as a priority queue\<close>

text \<open>The interface a consumer relies on: a bag of items from which the first one in the order comes out.\<close>

locale priority_queue =
  fixes ok :: "'q \<Rightarrow> bool" and items :: "'q \<Rightarrow> 'a multiset" and push :: "'a \<Rightarrow> 'q \<Rightarrow> 'q" and pop :: "'q \<Rightarrow> 'a \<times> 'q"
    and key :: "'a \<Rightarrow> 'k :: linorder"
  assumes push_ok: "ok q \<Longrightarrow> x \<notin># items q \<Longrightarrow> ok (push x q) \<and> items (push x q) = add_mset x (items q)"
    and pop_ok: "ok q \<Longrightarrow> items q \<noteq> {#} \<Longrightarrow> pop q = (x, q') \<Longrightarrow>
      ok q' \<and> items q = add_mset x (items q') \<and> (\<forall>y\<in>#items q. key x \<le> key y)"
begin

inductive pops :: "'q \<Rightarrow> 'a list \<Rightarrow> 'q \<Rightarrow> bool" where
  pops_done: "items q = {#} \<Longrightarrow> pops q [] q"
| pops_step: "items q \<noteq> {#} \<Longrightarrow> pop q = (x, q') \<Longrightarrow> pops q' xs q'' \<Longrightarrow> pops q (x # xs) q''"

lemma pops_sorted: "pops q xs q' \<Longrightarrow> ok q \<Longrightarrow> mset xs = items q \<and> sorted (map key xs)"
proof (induction rule: pops.induct)
  case (pops_step q x q' xs q'')
  from pop_ok [OF pops_step.prems pops_step.hyps(1,2)] pops_step.IH
  have h: "ok q'" "items q = add_mset x (items q')" "\<forall>y\<in>#items q. key x \<le> key y" "mset xs = items q'" "sorted (map key xs)" by auto
  have "\<forall>y\<in>set xs. key x \<le> key y" using h(2,3) unfolding h(4) [symmetric] by simp
  with h show ?case by simp
qed simp

end

interpretation bq: priority_queue "heap_ok pq_key" "\<lambda>q. mset (hp q)" pq_Push pq_Pop pq_key
proof
  fix q :: "'p priorityQueue" and x q'
  show "heap_ok pq_key q \<Longrightarrow> x \<notin># mset (hp q) \<Longrightarrow>
      heap_ok pq_key (pq_Push x q) \<and> mset (hp (pq_Push x q)) = add_mset x (mset (hp q))"
    using heap_Push_ok [of pq_key q x] by (simp add: pq_Push_def)
  assume q: "heap_ok pq_key q" "mset (hp q) \<noteq> {#}" "pq_Pop q = (x, q')"
  then have a: "x = hp q ! 0 \<and> heap_ok pq_key q' \<and> mset (hp q) = add_mset x (mset (hp q'))"
    by (intro heap_Pop_ok) (simp_all add: pq_Pop_def)
  have "\<forall>y\<in>#mset (hp q). pq_key x \<le> pq_key y" unfolding conjunct1 [OF a] using heap_min [OF q(1)] by simp
  with a show "heap_ok pq_key q' \<and> mset (hp q) = add_mset x (mset (hp q')) \<and> (\<forall>y\<in>#mset (hp q). pq_key x \<le> pq_key y)"
    by blast
qed

subsection \<open>Interleaving\<close>

text \<open>
  The consumer of an event type waits, pops (the flag says that \<^verbatim>\<open>done\<close> woke it, so that it
  ends afterwards) or is in the handlers of an item. \<open>y_pending\<close> counts the publishers between unlocking the
  queue and signalling; \<open>y_accepted\<close> and \<open>y_handled\<close> are the histories of queued and dispatched items.
\<close>

datatype 'p consumer = Parked | Draining bool | Dispatching bool "'p queueItem" | Exited

record ('p, 'h, 'e) bus_sys =
  y_bus :: "('p, 'h, 'e call_error) bus"
  y_pc :: "string \<Rightarrow> 'p consumer"
  y_pending :: "string \<Rightarrow> nat"
  y_accepted :: "string \<Rightarrow> 'p queueItem list"
  y_handled :: "string \<Rightarrow> 'p queueItem list"

definition new_sys :: "('p, 'h, 'e) bus_sys" where
  "new_sys = \<lparr>y_bus = NewBus, y_pc = (\<lambda>_. Parked), y_pending = (\<lambda>_. 0), y_accepted = (\<lambda>_. []), y_handled = (\<lambda>_. [])\<rparr>"

definition sys_publish :: "string \<Rightarrow> 'p Envelope \<Rightarrow> ('p, 'h, 'e) bus_sys \<Rightarrow> ('p, 'h, 'e) bus_sys" where
  "sys_publish ty env y =
     (case enqueue ty env (y_bus y) of
        (Queued item, b) \<Rightarrow>
          y\<lparr>y_bus := b, y_pending := (y_pending y)(ty := y_pending y ty + 1), y_accepted := (y_accepted y)(ty := y_accepted y ty @ [item])\<rparr>
      | (_, b) \<Rightarrow> y\<lparr>y_bus := b\<rparr>)"

definition take_signal :: "string \<Rightarrow> ('p, 'h, 'e) bus \<Rightarrow> ('p, 'h, 'e) bus" where
  "take_signal ty b =
     (case b_queues b ty of None \<Rightarrow> b | Some tq \<Rightarrow> b\<lparr>b_queues := (b_queues b)(ty \<mapsto> tq\<lparr>tq_signal := False\<rparr>)\<rparr>)"

abbreviation set_pc :: "string \<Rightarrow> 'p consumer \<Rightarrow> ('p, 'h, 'e) bus_sys \<Rightarrow> ('p, 'h, 'e) bus_sys" where
  "set_pc ty c y \<equiv> y\<lparr>y_pc := (y_pc y)(ty := c)\<rparr>"

inductive bus_steps :: "('p, 'h, 'e) bus_sys \<Rightarrow> bool" where
  bs_new: "bus_steps new_sys"
| bs_subscribe: "bus_steps y \<Longrightarrow> bus_steps (y\<lparr>y_bus := snd (Subscribe ty h opts (y_bus y))\<rparr>)"
| bs_cancel: "bus_steps y \<Longrightarrow> bus_steps (y\<lparr>y_bus := Cancel ty sid (y_bus y)\<rparr>)"
| bs_close: "bus_steps y \<Longrightarrow> bus_steps (y\<lparr>y_bus := Close (y_bus y)\<rparr>)"
| bs_publish: "bus_steps y \<Longrightarrow> bus_steps (sys_publish ty env y)"
| bs_notify: "bus_steps y \<Longrightarrow> y_pending y ty > 0 \<Longrightarrow>
    bus_steps (y\<lparr>y_bus := notify ty (y_bus y), y_pending := (y_pending y)(ty := y_pending y ty - 1)\<rparr>)"
| bs_wake: "bus_steps y \<Longrightarrow> b_queues (y_bus y) ty = Some tq \<Longrightarrow> y_pc y ty = Parked \<Longrightarrow> tq_signal tq \<Longrightarrow>
    bus_steps (set_pc ty (Draining False) (y\<lparr>y_bus := take_signal ty (y_bus y)\<rparr>))"
| bs_done: "bus_steps y \<Longrightarrow> b_queues (y_bus y) ty = Some tq \<Longrightarrow> y_pc y ty = Parked \<Longrightarrow> tq_done tq \<Longrightarrow>
    bus_steps (set_pc ty (Draining True) y)"
| bs_pop: "bus_steps y \<Longrightarrow> y_pc y ty = Draining l \<Longrightarrow> pop_queue ty (y_bus y) = Some (item, b) \<Longrightarrow>
    bus_steps (set_pc ty (Dispatching l item) (y\<lparr>y_bus := b\<rparr>))"
| bs_empty: "bus_steps y \<Longrightarrow> y_pc y ty = Draining l \<Longrightarrow> pop_queue ty (y_bus y) = None \<Longrightarrow>
    bus_steps (set_pc ty (if l then Exited else Parked) y)"
| bs_dispatch: "bus_steps y \<Longrightarrow> y_pc y ty = Dispatching l item \<Longrightarrow>
    bus_steps (set_pc ty (Draining l)
      (y\<lparr>y_bus := bus_dispatch run ty (q_envelope item) (y_bus y), y_handled := (y_handled y)(ty := y_handled y ty @ [item])\<rparr>))"

text \<open>What is in the hands of the consumer.\<close>

fun in_hand :: "'p consumer \<Rightarrow> 'p queueItem multiset" where
  "in_hand (Dispatching l item) = {#item#}"
| "in_hand _ = {#}"

fun busy :: "'p consumer \<Rightarrow> bool" where
  "busy (Draining _) \<longleftrightarrow> True"
| "busy (Dispatching _ _) \<longleftrightarrow> True"
| "busy _ \<longleftrightarrow> False"

fun leaving :: "'p consumer \<Rightarrow> bool" where
  "leaving (Draining l) \<longleftrightarrow> l"
| "leaving (Dispatching l _) \<longleftrightarrow> l"
| "leaving Exited \<longleftrightarrow> True"
| "leaving Parked \<longleftrightarrow> False"

text \<open>
  The invariant of one event type: the queue is a heap within its capacity, every accepted item is handled, in hand
  or queued; a non-empty queue has a consumer at work, a signal, or a publisher about to signal; and only a closed bus
  has consumers that leave, with nothing behind them.
\<close>

definition qinv :: "'p typeQueue option \<Rightarrow> int \<Rightarrow> bool \<Rightarrow> 'p consumer \<Rightarrow> nat \<Rightarrow> 'p queueItem list \<Rightarrow> 'p queueItem list \<Rightarrow> bool" where
  "qinv tqo sq closed c pend acc han \<longleftrightarrow>
     (\<forall>item\<in>set acc. q_seq item \<le> sq) \<and> sorted_wrt (<) (map q_seq acc) \<and>
     (case tqo of
        None \<Rightarrow> c = Parked \<and> acc = [] \<and> han = []
      | Some tq \<Rightarrow>
          heap_ok pq_key (tq_pq tq) \<and> length (hp (tq_pq tq)) \<le> defaultBufferSize \<and>
          mset acc = mset han + in_hand c + mset (hp (tq_pq tq)) \<and>
          (hp (tq_pq tq) \<noteq> [] \<longrightarrow> tq_signal tq \<or> tq_done tq \<or> 0 < pend \<or> busy c) \<and>
          (leaving c \<longrightarrow> tq_done tq) \<and> (tq_done tq \<longleftrightarrow> closed) \<and> (c = Exited \<longrightarrow> hp (tq_pq tq) = []))"

definition queue_inv :: "string \<Rightarrow> ('p, 'h, 'e) bus_sys \<Rightarrow> bool" where
  "queue_inv ty y \<longleftrightarrow>
     qinv (b_queues (y_bus y) ty) (b_seq (y_bus y)) (b_closed (y_bus y)) (y_pc y ty) (y_pending y ty) (y_accepted y ty) (y_handled y ty)"

lemma qinv_seq: "qinv tqo sq closed c pend acc han \<Longrightarrow> sq \<le> sq' \<Longrightarrow> qinv tqo sq' closed c pend acc han"
  by (force simp: qinv_def)

lemma qinv_new: "qinv None sq False Parked pend [] [] \<Longrightarrow> qinv (Some new_typeQueue) sq False Parked pend [] []"
  by (simp add: qinv_def new_typeQueue_def empty_pq_def heap_ok_def ix_ok_def heap_upto_def)

lemma qinv_close: "qinv tqo sq closed c pend acc han \<Longrightarrow> qinv (map_option (\<lambda>tq. tq\<lparr>tq_done := True\<rparr>) tqo) sq True c pend acc han"
  by (cases tqo) (auto simp: qinv_def)

lemma qinv_push:
  assumes "qinv (Some tq) sq False c pend acc han" "length (hp (tq_pq tq)) < defaultBufferSize" "q_seq item = sq + 1"
  shows "qinv (Some (tq\<lparr>tq_pq := pq_Push item (tq_pq tq)\<rparr>)) (sq + 1) False c (pend + 1) (acc @ [item]) han"
proof -
  have all: "\<forall>x\<in>set acc. q_seq x \<le> sq" "mset acc = mset han + in_hand c + mset (hp (tq_pq tq))" "c \<noteq> Exited" "\<not> leaving c"
    using assms(1) by (auto simp: qinv_def)
  have "x \<in># mset acc" if "x \<in># mset (hp (tq_pq tq))" for x unfolding all(2) using that by simp
  then have "item \<notin># mset (hp (tq_pq tq))" using all(1) assms(3) by fastforce
  then have p: "heap_ok pq_key (pq_Push item (tq_pq tq))" "mset (hp (pq_Push item (tq_pq tq))) = add_mset item (mset (hp (tq_pq tq)))"
    using bq.push_ok [of "tq_pq tq" item] assms(1) by (simp_all add: qinv_def)
  have l: "length (hp (pq_Push item (tq_pq tq))) = Suc (length (hp (tq_pq tq)))" using arg_cong [OF p(2), of size] by simp
  have "sorted_wrt (<) (map q_seq (acc @ [item]))" using assms(1,3) all(1) by (auto simp: qinv_def sorted_wrt_append)
  then show ?thesis using assms p l all by (auto simp: qinv_def)
qed

lemma qinv_notify: "qinv (Some tq) sq closed c pend acc han \<Longrightarrow> qinv (Some (tq\<lparr>tq_signal := True\<rparr>)) sq closed c pend' acc han"
  by (auto simp: qinv_def)

lemma qinv_wake: "qinv (Some tq) sq closed Parked pend acc han \<Longrightarrow> qinv (Some (tq\<lparr>tq_signal := False\<rparr>)) sq closed (Draining False) pend acc han"
  by (auto simp: qinv_def)

lemma qinv_done: "qinv (Some tq) sq closed Parked pend acc han \<Longrightarrow> tq_done tq \<Longrightarrow> qinv (Some tq) sq closed (Draining True) pend acc han"
  by (auto simp: qinv_def)

lemma qinv_pop:
  assumes "qinv (Some tq) sq closed (Draining l) pend acc han" "hp (tq_pq tq) \<noteq> []" "pq_Pop (tq_pq tq) = (item, q)"
  shows "qinv (Some (tq\<lparr>tq_pq := q\<rparr>)) sq closed (Dispatching l item) pend acc han"
proof -
  have "heap_ok pq_key (tq_pq tq)" using assms(1) by (simp add: qinv_def)
  from bq.pop_ok [OF this _ assms(3)] assms(2)
  have p: "heap_ok pq_key q" "mset (hp (tq_pq tq)) = add_mset item (mset (hp q))" by auto
  have "length (hp (tq_pq tq)) = Suc (length (hp q))" using arg_cong [OF p(2), of size] by simp
  then show ?thesis using assms(1) p by (auto simp: qinv_def)
qed

lemma qinv_empty:
  "qinv (Some tq) sq closed (Draining l) pend acc han \<Longrightarrow> hp (tq_pq tq) = [] \<Longrightarrow>
   qinv (Some tq) sq closed (if l then Exited else Parked) pend acc han"
  by (auto simp: qinv_def)

lemma qinv_dispatch:
  "qinv tqo sq closed (Dispatching l item) pend acc han \<Longrightarrow> qinv tqo sq closed (Draining l) pend acc (han @ [item])"
  by (cases tqo) (auto simp: qinv_def)

lemma dispatch_fields [simp]:
  "b_queues (bus_dispatch run ty env b) = b_queues b" "b_seq (bus_dispatch run ty env b) = b_seq b" "b_closed (bus_dispatch run ty env b) = b_closed b"
proof -
  have c: "b_queues (callHandler run env sub b) = b_queues b \<and> b_seq (callHandler run env sub b) = b_seq b \<and>
      b_closed (callHandler run env sub b) = b_closed b" for sub b
    by (simp add: callHandler_def handleFailedEvent_def split: prod.splits bool.splits)
  have "b_queues (fold (callHandler run env) subs b) = b_queues b \<and> b_seq (fold (callHandler run env) subs b) = b_seq b \<and>
      b_closed (fold (callHandler run env) subs b) = b_closed b" for subs
    by (induction subs arbitrary: b) (simp_all add: c)
  then show "b_queues (bus_dispatch run ty env b) = b_queues b" "b_seq (bus_dispatch run ty env b) = b_seq b" "b_closed (bus_dispatch run ty env b) = b_closed b"
    by (simp_all add: bus_dispatch_def)
qed

lemma bus_inv: "bus_steps y \<Longrightarrow> queue_inv t y"
proof (induction rule: bus_steps.induct)
  case bs_new
  show ?case by (simp add: queue_inv_def new_sys_def NewBus_def qinv_def)
next
  case (bs_subscribe y ty h opts)
  show ?case
  proof (cases "b_closed (y_bus y) \<or> b_queues (y_bus y) t \<noteq> None \<or> t \<noteq> ty")
    case True
    then show ?thesis using bs_subscribe.IH by (auto simp: Subscribe_def Let_def queue_inv_def split: option.splits)
  next
    case False
    then have none: "b_queues (y_bus y) t = None" "ty = t" "\<not> b_closed (y_bus y)" by auto
    have "y_pc y t = Parked" "y_accepted y t = []" "y_handled y t = []"
      using bs_subscribe.IH none(1) by (simp_all add: queue_inv_def qinv_def)
    then show ?thesis using bs_subscribe.IH none qinv_new [of "b_seq (y_bus y)" "y_pending y t"]
      by (simp add: Subscribe_def Let_def queue_inv_def)
  qed
next
  case (bs_cancel y ty sid)
  then show ?case by (simp add: Cancel_def Let_def queue_inv_def)
next
  case (bs_close y)
  then show ?case by (cases "b_closed (y_bus y)") (auto simp: Close_def queue_inv_def intro: qinv_close)
next
  case (bs_publish y ty env)
  show ?case
  proof (cases "b_closed (y_bus y)")
    case op: False
    show ?thesis
    proof (cases "b_queues (y_bus y) ty")
      case (Some tq)
      show ?thesis
      proof (cases "defaultBufferSize \<le> length (hp (tq_pq tq))")
        case False
        have "qinv (Some tq) (b_seq (y_bus y)) False (y_pc y ty) (y_pending y ty) (y_accepted y ty) (y_handled y ty)" if "t = ty"
          using bs_publish.IH Some that op by (simp add: queue_inv_def)
        from qinv_push [OF this, of "\<lparr>q_envelope = env, q_seq = b_seq (y_bus y) + 1\<rparr>"] show ?thesis
          using bs_publish.IH Some op False
          by (cases "t = ty") (auto simp: sys_publish_def enqueue_def Let_def queue_inv_def elim!: qinv_seq)
      qed (use bs_publish.IH Some op in \<open>simp add: sys_publish_def enqueue_def queue_inv_def\<close>)
    qed (use bs_publish.IH op in \<open>simp add: sys_publish_def enqueue_def queue_inv_def\<close>)
  qed (use bs_publish.IH in \<open>simp add: sys_publish_def enqueue_def queue_inv_def\<close>)
next
  case (bs_notify y ty)
  then show ?case
    by (cases "b_queues (y_bus y) ty"; cases "t = ty") (simp_all add: notify_def queue_inv_def qinv_notify, simp add: qinv_def)
next
  case (bs_wake y ty tq)
  then show ?case by (cases "t = ty") (simp_all add: take_signal_def queue_inv_def qinv_wake)
next
  case (bs_done y ty tq)
  then show ?case by (cases "t = ty") (simp_all add: queue_inv_def qinv_done)
next
  case (bs_pop y ty l item b)
  then obtain tq q where "b_queues (y_bus y) ty = Some tq" "hp (tq_pq tq) \<noteq> []" "pq_Pop (tq_pq tq) = (item, q)"
    "b = (y_bus y)\<lparr>b_queues := (b_queues (y_bus y))(ty \<mapsto> tq\<lparr>tq_pq := q\<rparr>)\<rparr>"
    by (auto simp: pop_queue_def split: option.splits if_splits prod.splits)
  then show ?case using bs_pop by (cases "t = ty") (simp_all add: queue_inv_def qinv_pop)
next
  case (bs_empty y ty l)
  then show ?case
  proof (cases "b_queues (y_bus y) ty")
    case None
    with bs_empty show ?thesis by (cases "t = ty") (simp_all add: queue_inv_def qinv_def)
  next
    case (Some tq)
    then have "hp (tq_pq tq) = []" using bs_empty.hyps(3) by (auto simp: pop_queue_def split: if_splits prod.splits)
    with Some bs_empty show ?thesis by (cases "t = ty") (auto simp: queue_inv_def dest: qinv_empty)
  qed
next
  case (bs_dispatch y ty l item run)
  then show ?case by (cases "t = ty") (simp_all add: queue_inv_def qinv_dispatch)
qed

subsection \<open>Properties\<close>

text \<open>C21. No event that was accepted is lost or delivered twice, whatever publishers, subscribers, the
  consumer and a closing of the bus do in between. Every accepted event is handled, with the consumer, or queued, and there are
  never more than 1024 queued. When the consumer waits and nothing is there to wake it, everything accepted has been handled
  (no wake-up is lost), and so it has when the consumer has left after \<^verbatim>\<open>Close\<close>.\<close>

theorem bus_no_lost_event:
  assumes "bus_steps y" "b_queues (y_bus y) ty = Some tq"
  shows "mset (y_accepted y ty) = mset (y_handled y ty) + in_hand (y_pc y ty) + mset (hp (tq_pq tq)) \<and>
    distinct (y_accepted y ty) \<and> length (hp (tq_pq tq)) \<le> 1024 \<and>
    (y_pc y ty = Parked \<and> y_pending y ty = 0 \<and> \<not> tq_signal tq \<and> \<not> tq_done tq \<longrightarrow> mset (y_handled y ty) = mset (y_accepted y ty)) \<and>
    (y_pc y ty = Exited \<longrightarrow> mset (y_handled y ty) = mset (y_accepted y ty) \<and> b_closed (y_bus y))"
proof (intro conjI)
  have inv: "qinv (Some tq) (b_seq (y_bus y)) (b_closed (y_bus y)) (y_pc y ty) (y_pending y ty) (y_accepted y ty) (y_handled y ty)"
    using bus_inv [OF assms(1), of ty] assms(2) by (simp add: queue_inv_def)
  then show "mset (y_accepted y ty) = mset (y_handled y ty) + in_hand (y_pc y ty) + mset (hp (tq_pq tq))"
    "length (hp (tq_pq tq)) \<le> 1024" by (simp_all add: qinv_def defaultBufferSize_def)
  have "distinct (map q_seq (y_accepted y ty))" using inv strict_sorted_iff by (auto simp: qinv_def)
  then show "distinct (y_accepted y ty)" by (simp add: distinct_map)
  show "y_pc y ty = Parked \<and> y_pending y ty = 0 \<and> \<not> tq_signal tq \<and> \<not> tq_done tq \<longrightarrow> mset (y_handled y ty) = mset (y_accepted y ty)"
    "y_pc y ty = Exited \<longrightarrow> mset (y_handled y ty) = mset (y_accepted y ty) \<and> b_closed (y_bus y)"
    using inv by (auto simp: qinv_def)
qed

text \<open>A bus with one subscriber, to which one event was published.\<close>

definition sample_bus :: "(nat, unit, nat) bus_sys" where
  "sample_bus =
     sys_publish ''task.created'' (new_envelope ''task.created'' 1 0 ''evt-1'' [])
       (new_sys\<lparr>y_bus := snd (Subscribe ''task.created'' () [] (y_bus new_sys))\<rparr>)"

lemma sample_bus_steps: "bus_steps sample_bus"
  unfolding sample_bus_def by (intro bs_publish bs_subscribe bs_new)

theorem bus_no_lost_event_witness: "length (y_accepted sample_bus ''task.created'') = 1 \<and> distinct (y_accepted sample_bus ''task.created'')"
proof -
  have "length (y_accepted sample_bus ''task.created'') = 1" by code_simp
  moreover have "\<not> Option.is_none (b_queues (y_bus sample_bus) ''task.created'')" by code_simp
  then obtain tq where "b_queues (y_bus sample_bus) ''task.created'' = Some tq" by (auto simp: Option.is_none_def)
  ultimately show ?thesis using bus_no_lost_event [OF sample_bus_steps] by blast
qed

lemma pop_queue_Some:
  assumes "b_queues b ty = Some tq" "hp (tq_pq tq) \<noteq> []" "pq_Pop (tq_pq tq) = (item, q)"
  shows "pop_queue ty b = Some (item, b\<lparr>b_queues := (b_queues b)(ty \<mapsto> tq\<lparr>tq_pq := q\<rparr>)\<rparr>)"
  using assms by (simp add: pop_queue_def)

lemma drain_pops:
  assumes "b_queues b ty = Some tq" "heap_ok pq_key (tq_pq tq)" "length (hp (tq_pq tq)) < fuel"
  shows "\<exists>items b' q. drainQueue fuel run ty b = Some (items, b') \<and> bq.pops (tq_pq tq) items q \<and>
    b_queues b' ty = Some (tq\<lparr>tq_pq := q\<rparr>) \<and> hp q = []"
  using assms
proof (induction fuel arbitrary: b tq)
  case (Suc fuel)
  show ?case
  proof (cases "hp (tq_pq tq) = []")
    case True
    then have "bq.pops (tq_pq tq) [] (tq_pq tq)" by (intro bq.pops_done) simp
    with True Suc.prems(1) show ?thesis by (auto simp: pop_queue_def)
  next
    case False
    obtain item q where pop: "pq_Pop (tq_pq tq) = (item, q)" by fastforce
    have p: "heap_ok pq_key q" "mset (hp (tq_pq tq)) = add_mset item (mset (hp q))"
      using bq.pop_ok [OF Suc.prems(2) _ pop] False by auto
    have "length (hp q) < fuel" using arg_cong [OF p(2), of size] Suc.prems(3) by simp
    then obtain items b' q' where rest: "drainQueue fuel run ty (bus_dispatch run ty (q_envelope item)
        (b\<lparr>b_queues := (b_queues b)(ty \<mapsto> tq\<lparr>tq_pq := q\<rparr>)\<rparr>)) = Some (items, b')" "bq.pops q items q'"
        "b_queues b' ty = Some (tq\<lparr>tq_pq := q'\<rparr>)" "hp q' = []"
      using Suc.IH [of "bus_dispatch run ty (q_envelope item) (b\<lparr>b_queues := (b_queues b)(ty \<mapsto> tq\<lparr>tq_pq := q\<rparr>)\<rparr>)" "tq\<lparr>tq_pq := q\<rparr>"] p(1)
      by auto
    moreover have "bq.pops (tq_pq tq) (item # items) q'" using bq.pops_step [OF _ pop rest(2)] False by simp
    ultimately show ?thesis using pop_queue_Some [OF Suc.prems(1) False pop] by auto
  qed
qed simp

text \<open>The consumer empties the queue and delivers in the documented order: as many rounds as there are
  events, plus one, are enough, every queued event is dispatched once, one of higher priority before one of lower, and events of the
  same priority in the order in which they were published.\<close>

theorem bus_priority_order:
  assumes "bus_steps y" "b_queues (y_bus y) ty = Some tq" "length (hp (tq_pq tq)) < fuel"
  shows "\<exists>items b'. drainQueue fuel run ty (y_bus y) = Some (items, b') \<and> mset items = mset (hp (tq_pq tq)) \<and>
    sorted_wrt (\<lambda>a b. en_Priority (q_envelope a) > en_Priority (q_envelope b) \<or>
      en_Priority (q_envelope a) = en_Priority (q_envelope b) \<and> q_seq a < q_seq b) items \<and>
    (case b_queues b' ty of None \<Rightarrow> False | Some tq' \<Rightarrow> hp (tq_pq tq') = [])"
proof -
  have ok: "heap_ok pq_key (tq_pq tq)" using bus_inv [OF assms(1), of ty] assms(2) by (simp add: queue_inv_def qinv_def)
  obtain items b' q where d: "drainQueue fuel run ty (y_bus y) = Some (items, b')" "bq.pops (tq_pq tq) items q"
      "b_queues b' ty = Some (tq\<lparr>tq_pq := q\<rparr>)" "hp q = []"
    using drain_pops [OF assms(2) ok assms(3), of run] by blast
  note s = bq.pops_sorted [OF d(2) ok]
  have acc: "mset (y_accepted y ty) = mset (y_handled y ty) + in_hand (y_pc y ty) + mset (hp (tq_pq tq))"
      "distinct (map q_seq (y_accepted y ty))"
    using bus_inv [OF assms(1), of ty] assms(2) strict_sorted_iff by (auto simp: queue_inv_def qinv_def)
  have "distinct (map q_seq items)"
  proof -
    obtain zs where "mset zs = mset (y_handled y ty) + in_hand (y_pc y ty)" using ex_mset by blast
    then have "mset (y_accepted y ty) = mset (zs @ items)" using s acc(1) by simp
    then have "mset (map q_seq (y_accepted y ty)) = mset (map q_seq zs @ map q_seq items)" by (simp only: mset_map map_append [symmetric])
    from mset_eq_imp_distinct_iff [OF this] have "distinct (map q_seq zs @ map q_seq items)" using acc(2) by blast
    then show ?thesis by simp
  qed
  then have "distinct (map pq_key items)" by (auto simp: distinct_map inj_on_def pq_key_def)
  then have "sorted_wrt (<) (map pq_key items)" using s strict_sorted_iff by blast
  then have "sorted_wrt (\<lambda>a b. pq_key a < pq_key b) items" by (simp add: sorted_wrt_map)
  then have "sorted_wrt (\<lambda>a b. en_Priority (q_envelope a) > en_Priority (q_envelope b) \<or>
      en_Priority (q_envelope a) = en_Priority (q_envelope b) \<and> q_seq a < q_seq b) items"
    by (rule sorted_wrt_mono_rel [rotated]) (auto simp: pq_key_def)
  then show ?thesis using d s by auto
qed

theorem bus_priority_order_witness:
  "\<exists>items b'. drainQueue 2 (\<lambda>_ _ _ _. HandlerOk) ''task.created'' (y_bus sample_bus) = Some (items, b') \<and> length items = 1"
proof -
  have l: "(case b_queues (y_bus sample_bus) ''task.created'' of None \<Rightarrow> False | Some tq \<Rightarrow> length (hp (tq_pq tq)) = 1)" by code_simp
  then obtain tq where tq: "b_queues (y_bus sample_bus) ''task.created'' = Some tq" "length (hp (tq_pq tq)) = 1" by (auto split: option.splits)
  from bus_priority_order [OF sample_bus_steps this(1), of 2 "\<lambda>_ _ _ _. HandlerOk"] tq(2)
  obtain items b' where "drainQueue 2 (\<lambda>_ _ _ _. HandlerOk) ''task.created'' (y_bus sample_bus) = Some (items, b')" "mset items = mset (hp (tq_pq tq))"
    by auto
  then show ?thesis using tq(2) by (metis size_mset)
qed

lemma handler_loop_result:
  "case handler_loop run base n k e of (pauses, ok, err) \<Rightarrow>
     (ok \<longleftrightarrow> (\<exists>j<n. bus_call (run (k + j)) = None)) \<and>
     (\<not> ok \<longrightarrow> err = (if n = 0 then e else bus_call (run (k + n - 1)))) \<and> length pauses \<le> n"
proof (induction n arbitrary: k e)
  case (Suc n)
  obtain pauses ok err where r: "handler_loop run base n (k + 1) (bus_call (run k)) = (pauses, ok, err)" by (metis prod_cases3)
  note IH = Suc [of "k + 1" "bus_call (run k)", unfolded r prod.case]
  show ?case
  proof (cases "bus_call (run k)")
    case None
    then show ?thesis by (auto simp: Let_def intro!: exI [of _ 0])
  next
    case (Some x)
    have "(\<exists>j<Suc n. bus_call (run (k + j)) = None) \<longleftrightarrow> (\<exists>j<n. bus_call (run (k + 1 + j)) = None)"
    proof
      assume "\<exists>j<Suc n. bus_call (run (k + j)) = None"
      then obtain j where "j < Suc n" "bus_call (run (k + j)) = None" by blast
      with Some show "\<exists>j<n. bus_call (run (k + 1 + j)) = None" by (cases j) auto
    next
      assume "\<exists>j<n. bus_call (run (k + 1 + j)) = None"
      then obtain j where "j < n" "bus_call (run (k + 1 + j)) = None" by blast
      then show "\<exists>j<Suc n. bus_call (run (k + j)) = None" by (intro exI [of _ "Suc j"]) simp
    qed
    with IH Some r show ?thesis by (auto simp: Let_def)
  qed
qed simp

text \<open>A subscriber gets an event up to \<^verbatim>\<open>maxRetries + 1\<close> times, panics counting as errors, and stops at the
  first success; the event is recorded as failed exactly when no attempt succeeds, once, with the error of the last attempt (none
  when \<^verbatim>\<open>maxRetries\<close> is negative and the handler is never called).\<close>

theorem callHandler_failed:
  fixes run :: "'h \<Rightarrow> int \<Rightarrow> 'p Envelope \<Rightarrow> nat \<Rightarrow> 'e handler_result" and sub :: "'h subscriber" and env :: "'p Envelope"
  defines "r \<equiv> run (s_handler sub) (handler_timeout (s_config sub)) env" and "n \<equiv> nat (sc_maxRetries (s_config sub) + 1)"
  shows "b_failed (callHandler run env sub b) =
    (if \<exists>k<n. bus_call (r k) = None then b_failed b
     else b_failed b @ [(env, if n = 0 then None else bus_call (r (n - 1)))])"
proof -
  obtain pauses ok err where h: "handler_loop r (sc_baseBackoff (s_config sub)) n 0 None = (pauses, ok, err)" by (metis prod_cases3)
  from handler_loop_result [where run = r and base = "sc_baseBackoff (s_config sub)" and n = n and k = 0 and e = None, unfolded h] show ?thesis
    using h by (cases ok) (auto simp: callHandler_def handleFailedEvent_def simp flip: r_def n_def)
qed

end
