(* ===== verification/AssetState.thy ===== *)
theory AssetState
  imports SchedEngine
begin

text \<open>
  The state manager of the telemetry engine, \<^verbatim>\<open>pkg/telemetry/state.go\<close>, on the time wheel of
  \<^verbatim>\<open>pkg/timewheel\<close>: every observed asset has a timeout entry that a report renews; when it fires, the asset is
  declared silent. A callback the wheel hands to its pool is in flight until it runs. Methods are atomic under
  the mutex. Clock readings, the acceptance of a callback by the pool and the failures of the asset store are arguments;
  the asset store is a map of rows, the history a list.
\<close>

definition AssetStatusUnknown :: string where "AssetStatusUnknown = ''unknown''"

record timeoutEntry =
  entryID :: int
  entry_timeout :: duration

record asset_row =
  a_TenantID :: int
  a_AssetType :: string
  a_Status :: string

record StatusHistory =
  h_TenantID :: int
  h_AssetID :: int
  h_AssetType :: string
  h_PrevStatus :: string
  h_CurrStatus :: string
  h_Reason :: string

record stateManager =
  sm_wheel :: "int wheel"
  sm_nextID :: int
  sm_cache :: "int \<rightharpoonup> string"
  sm_entries :: "int \<rightharpoonup> timeoutEntry"
  sm_lastActive :: "int \<rightharpoonup> gotime"
  sm_inflight :: "(int \<times> int) list"
  sm_timeouts :: "int list"
  sm_store :: "int \<rightharpoonup> asset_row"
  sm_history :: "StatusHistory list"

definition newStateManager :: "(int \<rightharpoonup> asset_row) \<Rightarrow> stateManager" where
  "newStateManager rows = \<lparr>sm_wheel = empty_wheel, sm_nextID = 1, sm_cache = Map.empty, sm_entries = Map.empty,
     sm_lastActive = Map.empty, sm_inflight = [], sm_timeouts = [], sm_store = rows, sm_history = []\<rparr>"

definition DefaultHeartbeatTimeout :: duration where "DefaultHeartbeatTimeout = 3 * time_Minute"

text \<open>The two readings of \<^verbatim>\<open>wheel.Add\<close> and the one that stamps \<^verbatim>\<open>lastActive\<close>.\<close>

type_synonym stamps = "gotime \<times> gotime \<times> gotime"

definition armEntry :: "stamps \<Rightarrow> bool \<Rightarrow> int \<Rightarrow> duration \<Rightarrow> stateManager \<Rightarrow> int \<times> stateManager" where
  "armEntry rd accept assetID timeout s =
     (case rd of (t1, t2, _) \<Rightarrow>
        let eid = sm_nextID s;
            s = s\<lparr>sm_nextID := eid + 1\<rparr>
        in case wheel_Add eid t1 t2 timeout assetID (sm_wheel s) of
             Some w \<Rightarrow> (eid, s\<lparr>sm_wheel := w\<rparr>)
           | None \<Rightarrow> (eid, if accept then s\<lparr>sm_inflight := sm_inflight s @ [(eid, assetID)]\<rparr> else s))"

definition drop_entry :: "timeoutEntry option \<Rightarrow> stateManager \<Rightarrow> stateManager" where
  "drop_entry prev s = (case prev of Some e \<Rightarrow> s\<lparr>sm_wheel := wheel_Remove (entryID e) (sm_wheel s)\<rparr> | None \<Rightarrow> s)"

definition cache_unknown :: "int \<Rightarrow> stateManager \<Rightarrow> stateManager" where
  "cache_unknown assetID s =
     (if sm_cache s assetID = None then s\<lparr>sm_cache := (sm_cache s)(assetID \<mapsto> AssetStatusUnknown)\<rparr> else s)"

definition RegisterAsset :: "stamps \<Rightarrow> bool \<Rightarrow> int \<Rightarrow> duration \<Rightarrow> stateManager \<Rightarrow> stateManager" where
  "RegisterAsset rd accept assetID timeout s =
     (let s = drop_entry (sm_entries s assetID) s;
          (eid, s) = armEntry rd accept assetID timeout s;
          s = s\<lparr>sm_entries := (sm_entries s)(assetID \<mapsto> \<lparr>entryID = eid, entry_timeout = timeout\<rparr>),
                sm_lastActive := (sm_lastActive s)(assetID \<mapsto> snd (snd rd))\<rparr>
      in cache_unknown assetID s)"

definition UnregisterAsset :: "int \<Rightarrow> stateManager \<Rightarrow> stateManager" where
  "UnregisterAsset assetID s =
     (let s = drop_entry (sm_entries s assetID) s
      in s\<lparr>sm_entries := (sm_entries s)(assetID := None), sm_cache := (sm_cache s)(assetID := None),
           sm_lastActive := (sm_lastActive s)(assetID := None)\<rparr>)"

definition UpdateActive :: "stamps \<Rightarrow> bool \<Rightarrow> int \<Rightarrow> stateManager \<Rightarrow> stateManager" where
  "UpdateActive rd accept assetID s =
     (let prev = sm_entries s assetID;
          timeout = (case prev of Some e \<Rightarrow> entry_timeout e | None \<Rightarrow> DefaultHeartbeatTimeout);
          (eid, s) = armEntry rd accept assetID timeout s;
          s = drop_entry prev s;
          s = s\<lparr>sm_entries := (sm_entries s)(assetID \<mapsto> \<lparr>entryID = eid, entry_timeout = timeout\<rparr>),
                sm_lastActive := (sm_lastActive s)(assetID \<mapsto> snd (snd rd))\<rparr>
      in cache_unknown assetID s)"

definition fireTimeout :: "gotime \<Rightarrow> int \<Rightarrow> int \<Rightarrow> stateManager \<Rightarrow> stateManager" where
  "fireTimeout now assetID firedID s =
     (let last = (case sm_lastActive s assetID of Some t \<Rightarrow> t | None \<Rightarrow> zero_time)
      in case sm_entries s assetID of
           None \<Rightarrow> s
         | Some entry \<Rightarrow>
             let threshold = max (wrap64 (entry_timeout entry - 2 * time_Second)) 0
             in if entryID entry \<noteq> firedID \<or> time_sub now last < threshold then s
                else s\<lparr>sm_timeouts := sm_timeouts s @ [assetID]\<rparr>)"

definition GetStatus :: "int \<Rightarrow> stateManager \<Rightarrow> string" where
  "GetStatus assetID s = (case sm_cache s assetID of Some st \<Rightarrow> st | None \<Rightarrow> AssetStatusUnknown)"

datatype status_error = StoreUpdateFailed | HistoryFailed

text \<open>The flags say whether the store accepts the update, whether there is a database for the history, and whether
  it accepts the row. A row is found for the history when the asset is in the store.\<close>

definition persistStatus ::
  "bool \<Rightarrow> bool \<Rightarrow> bool \<Rightarrow> int \<Rightarrow> string \<Rightarrow> string \<Rightarrow> string \<Rightarrow> stateManager \<Rightarrow> status_error option \<times> stateManager" where
  "persistStatus store_ok has_db history_ok assetID prevStatus newStatus reason s =
     (if \<not> store_ok then (Some StoreUpdateFailed, s)
      else
        let s = s\<lparr>sm_store := (case sm_store s assetID of
                                 Some a \<Rightarrow> (sm_store s)(assetID \<mapsto> a\<lparr>a_Status := newStatus\<rparr>)
                               | None \<Rightarrow> sm_store s)\<rparr>
        in if \<not> has_db then (None, s)
           else
             let (tenant, ty) = (case sm_store s assetID of Some a \<Rightarrow> (a_TenantID a, a_AssetType a) | None \<Rightarrow> (0, []))
             in if \<not> history_ok then (Some HistoryFailed, s)
                else (None, s\<lparr>sm_history := sm_history s @ [\<lparr>h_TenantID = tenant, h_AssetID = assetID, h_AssetType = ty,
                        h_PrevStatus = prevStatus, h_CurrStatus = newStatus, h_Reason = reason\<rparr>]\<rparr>))"

definition UpdateStatus ::
  "bool \<Rightarrow> bool \<Rightarrow> bool \<Rightarrow> int \<Rightarrow> string \<Rightarrow> string \<Rightarrow> stateManager \<Rightarrow> (status_error + bool) \<times> stateManager" where
  "UpdateStatus store_ok has_db history_ok assetID newStatus reason s =
     (if sm_cache s assetID = Some newStatus then (Inr False, s)
      else
        let prevStatus = (case sm_cache s assetID of None \<Rightarrow> AssetStatusUnknown | Some st \<Rightarrow> st)
        in case persistStatus store_ok has_db history_ok assetID prevStatus newStatus reason s of
             (Some err, s) \<Rightarrow> (Inl err, s)
           | (None, s) \<Rightarrow> (Inr True, s\<lparr>sm_cache := (sm_cache s)(assetID \<mapsto> newStatus)\<rparr>))"

definition SyncStatus :: "bool \<Rightarrow> int \<Rightarrow> stateManager \<Rightarrow> stateManager" where
  "SyncStatus fetch_ok assetID s =
     (if \<not> fetch_ok then s
      else case sm_store s assetID of
        None \<Rightarrow> s
      | Some a \<Rightarrow> s\<lparr>sm_cache := (sm_cache s)(assetID \<mapsto> a_Status a)\<rparr>)"

text \<open>A tick of the wheel.\<close>

definition sm_tick :: "gotime \<Rightarrow> int \<Rightarrow> (int \<Rightarrow> bool) \<Rightarrow> stateManager \<Rightarrow> stateManager" where
  "sm_tick T0 k accepts s =
     (let (w, es) = wheel_step T0 k (sm_wheel s)
      in s\<lparr>sm_wheel := w, sm_inflight := sm_inflight s @ dispatch_expired accepts es\<rparr>)"

subsection \<open>Runs\<close>

definition stamps_ok :: "gotime \<Rightarrow> int \<Rightarrow> stamps \<Rightarrow> bool" where
  "stamps_ok T0 k rd \<longleftrightarrow> (case rd of (t1, t2, t3) \<Rightarrow> T0 + k * time_Second \<le> t1 \<and> t1 \<le> t2 \<and> t2 \<le> t3)"

text \<open>
  The runs from tick \<open>k0\<close> and state \<open>s0\<close>. \<open>drops\<close> says whether the pool may reject callbacks; the assets
  of \<open>Q\<close> are quiet: they neither report nor are registered or removed.
\<close>

inductive sm_steps :: "gotime \<Rightarrow> bool \<Rightarrow> int set \<Rightarrow> int \<Rightarrow> stateManager \<Rightarrow> int \<Rightarrow> stateManager \<Rightarrow> bool"
  for T0 drops Q k0 s0 where
  st_start: "sm_steps T0 drops Q k0 s0 k0 s0"
| st_register: "sm_steps T0 drops Q k0 s0 k s \<Longrightarrow> stamps_ok T0 k rd \<Longrightarrow> timeout \<le> max_duration \<Longrightarrow> a \<notin> Q \<Longrightarrow>
    sm_steps T0 drops Q k0 s0 k (RegisterAsset rd accept a timeout s)"
| st_unregister: "sm_steps T0 drops Q k0 s0 k s \<Longrightarrow> a \<notin> Q \<Longrightarrow> sm_steps T0 drops Q k0 s0 k (UnregisterAsset a s)"
| st_active: "sm_steps T0 drops Q k0 s0 k s \<Longrightarrow> stamps_ok T0 k rd \<Longrightarrow> a \<notin> Q \<Longrightarrow>
    sm_steps T0 drops Q k0 s0 k (UpdateActive rd accept a s)"
| st_status: "sm_steps T0 drops Q k0 s0 k s \<Longrightarrow> sm_steps T0 drops Q k0 s0 k (snd (UpdateStatus f1 f2 f3 a st reason s))"
| st_sync: "sm_steps T0 drops Q k0 s0 k s \<Longrightarrow> sm_steps T0 drops Q k0 s0 k (SyncStatus f a s)"
| st_tick: "sm_steps T0 drops Q k0 s0 k s \<Longrightarrow> drops \<or> (\<forall>i. accepts i) \<Longrightarrow>
    sm_steps T0 drops Q k0 s0 (k + 1) (sm_tick T0 (k + 1) accepts s)"
| st_fire: "sm_steps T0 drops Q k0 s0 k s \<Longrightarrow> (eid, a) \<in> set (sm_inflight s) \<Longrightarrow> T0 + k * time_Second \<le> now \<Longrightarrow>
    sm_steps T0 drops Q k0 s0 k (fireTimeout now a eid (s\<lparr>sm_inflight := remove1 (eid, a) (sm_inflight s)\<rparr>))"

text \<open>What the wheel will do: the tick and the asset of each live entry.\<close>

definition due :: "gotime \<Rightarrow> int \<Rightarrow> stateManager \<Rightarrow> int \<rightharpoonup> int \<times> int" where
  "due T0 k s = fire_tick T0 k (sm_wheel s)"

definition sm_ok :: "gotime \<Rightarrow> int \<Rightarrow> stateManager \<Rightarrow> bool" where
  "sm_ok T0 k s \<longleftrightarrow> wheel_ok T0 k (sm_wheel s) \<and>
     (\<forall>eid f a. due T0 k s eid = Some (f, a) \<longrightarrow> (\<exists>e. sm_entries s a = Some e \<and> entryID e = eid)) \<and>
     (\<forall>a e. sm_entries s a = Some e \<longrightarrow> entryID e < sm_nextID s \<and> entry_timeout e \<le> max_duration) \<and>
     (\<forall>a b e e'. sm_entries s a = Some e \<and> sm_entries s b = Some e' \<and> entryID e = entryID e' \<longrightarrow> a = b) \<and>
     (\<forall>x\<in>set (sm_inflight s). fst x < sm_nextID s \<and> due T0 k s (fst x) = None) \<and>
     dom (sm_lastActive s) = dom (sm_entries s) \<and> dom (sm_entries s) \<subseteq> dom (sm_cache s)"

lemma sm_okD:
  assumes "sm_ok T0 k s"
  shows "wheel_ok T0 k (sm_wheel s)" "due T0 k s eid = Some (f, a) \<Longrightarrow> \<exists>e. sm_entries s a = Some e \<and> entryID e = eid"
    "sm_entries s a = Some e \<Longrightarrow> entryID e < sm_nextID s" "sm_entries s a = Some e \<Longrightarrow> entry_timeout e \<le> max_duration"
    "sm_entries s a = Some e \<Longrightarrow> sm_entries s b = Some e' \<Longrightarrow> entryID e = entryID e' \<Longrightarrow> a = b"
    "(eid, a) \<in> set (sm_inflight s) \<Longrightarrow> eid < sm_nextID s" "(eid, a) \<in> set (sm_inflight s) \<Longrightarrow> due T0 k s eid = None"
    "dom (sm_lastActive s) = dom (sm_entries s)" "dom (sm_entries s) \<subseteq> dom (sm_cache s)"
  using assms unfolding sm_ok_def by (blast | fastforce)+

lemma sm_okI:
  assumes "wheel_ok T0 k (sm_wheel s)" "\<And>eid f a. due T0 k s eid = Some (f, a) \<Longrightarrow> \<exists>e. sm_entries s a = Some e \<and> entryID e = eid"
    "\<And>a e. sm_entries s a = Some e \<Longrightarrow> entryID e < sm_nextID s \<and> entry_timeout e \<le> max_duration"
    "\<And>a b e e'. sm_entries s a = Some e \<Longrightarrow> sm_entries s b = Some e' \<Longrightarrow> entryID e = entryID e' \<Longrightarrow> a = b"
    "\<And>x. x \<in> set (sm_inflight s) \<Longrightarrow> fst x < sm_nextID s \<and> due T0 k s (fst x) = None"
    "dom (sm_lastActive s) = dom (sm_entries s)" "dom (sm_entries s) \<subseteq> dom (sm_cache s)"
  shows "sm_ok T0 k s"
  using assms unfolding sm_ok_def by blast

lemma sm_ok_fresh: "sm_ok T0 k s \<Longrightarrow> sm_nextID s \<le> eid \<Longrightarrow> due T0 k s eid = None"
proof (rule ccontr)
  assume ok: "sm_ok T0 k s" "sm_nextID s \<le> eid" and "due T0 k s eid \<noteq> None"
  then obtain f a where "due T0 k s eid = Some (f, a)" by auto
  then obtain e where "sm_entries s a = Some e" "entryID e = eid" using sm_okD(2) [OF ok(1)] by blast
  then show False using sm_okD(3) [OF ok(1)] ok(2) by fastforce
qed

lemma due_upd [simp]:
  "due T0 k (s\<lparr>sm_nextID := n\<rparr>) = due T0 k s" "due T0 k (s\<lparr>sm_cache := c\<rparr>) = due T0 k s" "due T0 k (s\<lparr>sm_entries := es\<rparr>) = due T0 k s"
  "due T0 k (s\<lparr>sm_lastActive := l\<rparr>) = due T0 k s" "due T0 k (s\<lparr>sm_inflight := i\<rparr>) = due T0 k s"
  "due T0 k (s\<lparr>sm_timeouts := ts\<rparr>) = due T0 k s" "due T0 k (s\<lparr>sm_store := st\<rparr>) = due T0 k s" "due T0 k (s\<lparr>sm_history := h\<rparr>) = due T0 k s"
  by (simp_all add: due_def)

text \<open>The tick for which an entry is armed.\<close>

definition arm_tick :: "gotime \<Rightarrow> int \<Rightarrow> stamps \<Rightarrow> duration \<Rightarrow> int" where
  "arm_tick T0 k rd timeout =
     (case rd of (t1, t2, _) \<Rightarrow>
        let n = max ((t1 + timeout - t2) div time_Second) 1 in if n < 60 then k + n else (t1 + timeout - T0) div time_Second)"

lemma armEntry_effect:
  fixes a :: int and accept :: bool
  assumes "wheel_ok T0 k (sm_wheel s)" "due T0 k s (sm_nextID s) = None" "stamps_ok T0 k rd" "timeout \<le> max_duration"
  defines "r \<equiv> armEntry rd accept a timeout s"
  shows "fst r = sm_nextID s" "wheel_ok T0 k (sm_wheel (snd r))" "sm_nextID (snd r) = sm_nextID s + 1"
    "sm_entries (snd r) = sm_entries s" "sm_lastActive (snd r) = sm_lastActive s" "sm_cache (snd r) = sm_cache s"
    "fst rd + timeout > fst (snd rd) \<Longrightarrow>
       due T0 k (snd r) = (due T0 k s)(sm_nextID s \<mapsto> (arm_tick T0 k rd timeout, a)) \<and> sm_inflight (snd r) = sm_inflight s"
    "\<not> fst rd + timeout > fst (snd rd) \<Longrightarrow>
       due T0 k (snd r) = due T0 k s \<and> sm_inflight (snd r) = sm_inflight s @ (if accept then [(sm_nextID s, a)] else [])"
    "sm_timeouts (snd r) = sm_timeouts s"
proof -
  obtain t1 t2 t3 where rd: "rd = (t1, t2, t3)" by (cases rd)
  have t: "T0 + k * time_Second \<le> t2" "t1 + timeout - t2 \<le> max_duration" using assms(3,4) by (simp_all add: rd stamps_ok_def)
  have fresh: "index (sm_wheel s) (sm_nextID s) = None" using assms(1,2) by (simp add: index_fire_tick due_def)
  show "fst r = sm_nextID s" "sm_nextID (snd r) = sm_nextID s + 1" "sm_entries (snd r) = sm_entries s"
    "sm_lastActive (snd r) = sm_lastActive s" "sm_cache (snd r) = sm_cache s" "sm_timeouts (snd r) = sm_timeouts s"
    by (auto simp: r_def armEntry_def rd Let_def split: option.splits)
  show "due T0 k (snd r) = due T0 k s \<and> sm_inflight (snd r) = sm_inflight s @ (if accept then [(sm_nextID s, a)] else [])"
    if "\<not> fst rd + timeout > fst (snd rd)"
    using that by (simp add: r_def armEntry_def rd Let_def wheel_Add_def AddAt_def)
  have late: "wheel_ok T0 k (sm_wheel (snd r)) \<and> due T0 k (snd r) = (due T0 k s)(sm_nextID s \<mapsto> (arm_tick T0 k rd timeout, a)) \<and>
      sm_inflight (snd r) = sm_inflight s" if l: "t2 < t1 + timeout"
  proof -
    obtain w' where w': "AddAt (sm_nextID s) t2 (t1 + timeout) a (sm_wheel s) = Some w'" using l by (simp add: AddAt_def Let_def)
    have r: "sm_wheel (snd r) = w'" "sm_inflight (snd r) = sm_inflight s"
      using w' by (simp_all add: r_def armEntry_def rd Let_def wheel_Add_def)
    note A = AddAt_mid [OF assms(1) fresh t(1) w' t(2)]
    show ?thesis unfolding r due_def using A by (simp add: arm_tick_def rd Let_def)
  qed
  then show "due T0 k (snd r) = (due T0 k s)(sm_nextID s \<mapsto> (arm_tick T0 k rd timeout, a)) \<and> sm_inflight (snd r) = sm_inflight s"
    if "fst rd + timeout > fst (snd rd)" using that by (simp add: rd)
  show "wheel_ok T0 k (sm_wheel (snd r))"
  proof (cases "t2 < t1 + timeout")
    case False
    then show ?thesis using assms(1) by (simp add: r_def armEntry_def rd Let_def wheel_Add_def AddAt_def)
  qed (use late in blast)
qed

definition without :: "timeoutEntry option \<Rightarrow> (int \<rightharpoonup> 'x) \<Rightarrow> int \<rightharpoonup> 'x" where
  "without prev m = (case prev of Some e \<Rightarrow> m(entryID e := None) | None \<Rightarrow> m)"

lemma drop_effect:
  assumes "wheel_ok T0 k (sm_wheel s)"
  shows "wheel_ok T0 k (sm_wheel (drop_entry prev s))"
    "due T0 k (drop_entry prev s) = without prev (due T0 k s)"
    "sm_nextID (drop_entry prev s) = sm_nextID s" "sm_entries (drop_entry prev s) = sm_entries s"
    "sm_lastActive (drop_entry prev s) = sm_lastActive s" "sm_cache (drop_entry prev s) = sm_cache s"
    "sm_inflight (drop_entry prev s) = sm_inflight s" "sm_timeouts (drop_entry prev s) = sm_timeouts s"
  using Remove_mid [OF assms] assms by (auto simp: drop_entry_def due_def without_def split: option.splits)

text \<open>Registering and reporting have the same effect on the timers: the previous entry of the asset goes, a new one comes.\<close>

definition renewed :: "gotime \<Rightarrow> int \<Rightarrow> stamps \<Rightarrow> bool \<Rightarrow> int \<Rightarrow> duration \<Rightarrow> stateManager \<Rightarrow> stateManager \<Rightarrow> bool" where
  "renewed T0 k rd accept a timeout s s' \<longleftrightarrow>
     wheel_ok T0 k (sm_wheel s') \<and> sm_nextID s' = sm_nextID s + 1 \<and>
     sm_entries s' = (sm_entries s)(a \<mapsto> \<lparr>entryID = sm_nextID s, entry_timeout = timeout\<rparr>) \<and>
     sm_lastActive s' = (sm_lastActive s)(a \<mapsto> snd (snd rd)) \<and> dom (sm_cache s') = insert a (dom (sm_cache s)) \<and>
     sm_timeouts s' = sm_timeouts s \<and>
     (if fst rd + timeout > fst (snd rd)
      then due T0 k s' = (without (sm_entries s a) (due T0 k s))(sm_nextID s \<mapsto> (arm_tick T0 k rd timeout, a)) \<and> sm_inflight s' = sm_inflight s
      else due T0 k s' = without (sm_entries s a) (due T0 k s) \<and>
        sm_inflight s' = sm_inflight s @ (if accept then [(sm_nextID s, a)] else []))"

lemma cache_unknown_fields [simp]:
  "sm_wheel (cache_unknown a s) = sm_wheel s" "sm_nextID (cache_unknown a s) = sm_nextID s" "sm_entries (cache_unknown a s) = sm_entries s"
  "sm_lastActive (cache_unknown a s) = sm_lastActive s" "sm_timeouts (cache_unknown a s) = sm_timeouts s"
  "sm_inflight (cache_unknown a s) = sm_inflight s" "due T0 k (cache_unknown a s) = due T0 k s"
  "dom (sm_cache (cache_unknown a s)) = insert a (dom (sm_cache s))"
  by (auto simp: cache_unknown_def)

lemma RegisterAsset_renewed:
  assumes "sm_ok T0 k s" "stamps_ok T0 k rd" "timeout \<le> max_duration"
  shows "renewed T0 k rd accept a timeout s (RegisterAsset rd accept a timeout s)"
proof -
  let ?s = "drop_entry (sm_entries s a) s"
  have w: "wheel_ok T0 k (sm_wheel s)" using assms(1) by (simp add: sm_ok_def)
  note d = drop_effect [OF w, of "sm_entries s a"]
  have "due T0 k ?s (sm_nextID ?s) = None"
    using sm_ok_fresh [OF assms(1), of "sm_nextID s"] by (auto simp: d without_def split: option.splits)
  note A = armEntry_effect [OF d(1) this assms(2,3), of accept a]
  obtain eid s1 where r: "armEntry rd accept a timeout ?s = (eid, s1)" by fastforce
  show ?thesis
    using A(1-6,9) A(7,8) d unfolding r by (simp add: RegisterAsset_def Let_def r renewed_def)
qed

lemma UpdateActive_renewed:
  fixes a :: int
  assumes "sm_ok T0 k s" "stamps_ok T0 k rd"
  defines "timeout \<equiv> (case sm_entries s a of Some e \<Rightarrow> entry_timeout e | None \<Rightarrow> DefaultHeartbeatTimeout)"
  shows "renewed T0 k rd accept a timeout s (UpdateActive rd accept a s)" "timeout \<le> max_duration"
proof -
  have w: "wheel_ok T0 k (sm_wheel s)" using assms(1) by (simp add: sm_ok_def)
  show to: "timeout \<le> max_duration"
    using sm_okD(4) [OF assms(1), of a] by (auto simp: timeout_def DefaultHeartbeatTimeout_def max_duration_def time_Minute_def time_Second_def split: option.splits)
  have fresh: "due T0 k s (sm_nextID s) = None" using sm_ok_fresh [OF assms(1), of "sm_nextID s"] by simp
  note A = armEntry_effect [OF w fresh assms(2) to, of accept a]
  obtain eid s1 where r: "armEntry rd accept a timeout s = (eid, s1)" by fastforce
  have w1: "wheel_ok T0 k (sm_wheel s1)" using A(2) by (simp add: r)
  note d = drop_effect [OF w1, of "sm_entries s a"]
  have prev: "without (sm_entries s a) ((due T0 k s)(sm_nextID s \<mapsto> x)) = (without (sm_entries s a) (due T0 k s))(sm_nextID s \<mapsto> x)" for x
    using sm_okD(3) [OF assms(1), of a] by (fastforce simp: without_def split: option.splits intro!: fun_upd_twist)
  show "renewed T0 k rd accept a timeout s (UpdateActive rd accept a s)"
    using A(1-6,9) A(7,8) d prev unfolding r
    by (cases "fst (snd rd) < fst rd + timeout") (simp_all add: UpdateActive_def Let_def r renewed_def flip: timeout_def)
qed

subsection \<open>The invariant\<close>

lemma without_Some: "without prev m x = Some y \<longleftrightarrow> m x = Some y \<and> (\<forall>e. prev = Some e \<longrightarrow> entryID e \<noteq> x)"
  by (auto simp: without_def split: option.splits)

lemma renewed_ok:
  assumes "sm_ok T0 k s" "renewed T0 k rd accept a timeout s s'" "timeout \<le> max_duration"
  shows "sm_ok T0 k s'"
proof -
  let ?new = "\<lparr>entryID = sm_nextID s, entry_timeout = timeout\<rparr>"
  have e: "sm_entries s' = (sm_entries s)(a \<mapsto> ?new)" "sm_nextID s' = sm_nextID s + 1" "wheel_ok T0 k (sm_wheel s')"
    "dom (sm_lastActive s') = insert a (dom (sm_lastActive s))" "dom (sm_cache s') = insert a (dom (sm_cache s))"
    using assms(2) by (simp_all add: renewed_def)
  have due': "due T0 k s' eid = Some (f, b) \<Longrightarrow> eid = sm_nextID s \<and> b = a \<or> without (sm_entries s a) (due T0 k s) eid = Some (f, b)" for eid f b
    using assms(2) by (auto simp: renewed_def split: if_splits)
  have fly': "x \<in> set (sm_inflight s') \<Longrightarrow> x \<in> set (sm_inflight s) \<or> x = (sm_nextID s, a) \<and> due T0 k s' (sm_nextID s) = None" for x
    using assms(2) sm_ok_fresh [OF assms(1), of "sm_nextID s"] by (auto simp: renewed_def without_def split: if_splits option.splits)
  have "\<exists>x. sm_entries s' b = Some x \<and> entryID x = eid" if "due T0 k s' eid = Some (f, b)" for eid f b
  proof (cases "eid = sm_nextID s \<and> b = a")
    case False
    then have w: "due T0 k s eid = Some (f, b)" "\<forall>x. sm_entries s a = Some x \<longrightarrow> entryID x \<noteq> eid"
      using due' [OF that] by (auto simp: without_Some)
    then obtain x where "sm_entries s b = Some x" "entryID x = eid" using sm_okD(2) [OF assms(1)] by blast
    with w(2) show ?thesis by (auto simp: e)
  qed (simp add: e)
  moreover have "entryID x < sm_nextID s' \<and> entry_timeout x \<le> max_duration" if "sm_entries s' b = Some x" for b x
    using that sm_okD(3,4) [OF assms(1), of b x] assms(3) by (auto simp: e split: if_splits)
  moreover have "b = c" if "sm_entries s' b = Some x" "sm_entries s' c = Some y" "entryID x = entryID y" for b c x y
    using that sm_okD(3) [OF assms(1)] sm_okD(5) [OF assms(1)] by (fastforce simp: e split: if_splits)
  moreover have "fst x < sm_nextID s' \<and> due T0 k s' (fst x) = None" if x: "x \<in> set (sm_inflight s')" for x
  proof (cases "x \<in> set (sm_inflight s)")
    case True
    have lt: "fst x < sm_nextID s" "due T0 k s (fst x) = None" using True sm_okD(6,7) [OF assms(1), of "fst x" "snd x"] by simp_all
    have "due T0 k s' (fst x) = None"
    proof (rule ccontr)
      assume "due T0 k s' (fst x) \<noteq> None"
      then obtain f b where "due T0 k s' (fst x) = Some (f, b)" by auto
      from due' [OF this] lt show False by (auto simp: without_Some)
    qed
    with lt show ?thesis by (simp add: e)
  next
    case False
    then show ?thesis using fly' [OF x] by (simp add: e)
  qed
  moreover have "dom (sm_lastActive s') = dom (sm_entries s')" "dom (sm_entries s') \<subseteq> dom (sm_cache s')"
    using sm_okD(8,9) [OF assms(1)] by (auto simp: e)
  ultimately show ?thesis unfolding sm_ok_def using e(3) by blast
qed

lemma sm_tick_effect:
  fixes accepts :: "int \<Rightarrow> bool"
  assumes "wheel_ok T0 k (sm_wheel s)"
  defines "s' \<equiv> sm_tick T0 (k + 1) accepts s" and "fired \<equiv> dispatch_expired accepts (snd (wheel_step T0 (k + 1) (sm_wheel s)))"
  shows "wheel_ok T0 (k + 1) (sm_wheel s')"
    "due T0 (k + 1) s' eid = (case due T0 k s eid of Some (f, a) \<Rightarrow> if f = k + 1 then None else Some (f, a) | None \<Rightarrow> None)"
    "sm_inflight s' = sm_inflight s @ fired" "(eid, a) \<in> set fired \<longleftrightarrow> accepts eid \<and> due T0 k s eid = Some (k + 1, a)"
    "distinct fired" "sm_entries s' = sm_entries s" "sm_lastActive s' = sm_lastActive s" "sm_cache s' = sm_cache s"
    "sm_nextID s' = sm_nextID s" "sm_timeouts s' = sm_timeouts s"
proof -
  have w: "sm_wheel s' = fst (wheel_step T0 (k + 1) (sm_wheel s))" by (simp add: s'_def sm_tick_def case_prod_beta)
  show "wheel_ok T0 (k + 1) (sm_wheel s')" using tw.step_ok [OF assms(1)] by (simp add: w)
  show "due T0 (k + 1) s' eid = (case due T0 k s eid of Some (f, a) \<Rightarrow> if f = k + 1 then None else Some (f, a) | None \<Rightarrow> None)"
    using tw.step_sched [OF assms(1)] by (simp add: due_def w)
  show "sm_inflight s' = sm_inflight s @ fired" "sm_entries s' = sm_entries s" "sm_lastActive s' = sm_lastActive s" "sm_cache s' = sm_cache s"
    "sm_nextID s' = sm_nextID s" "sm_timeouts s' = sm_timeouts s"
    by (simp_all add: s'_def sm_tick_def case_prod_beta fired_def)
  show "(eid, a) \<in> set fired \<longleftrightarrow> accepts eid \<and> due T0 k s eid = Some (k + 1, a)"
    using tw.step_fires [OF assms(1), of eid a] by (auto simp: fired_def dispatch_set due_def)
  have "distinct (map ent_ID (snd (wheel_step T0 (k + 1) (sm_wheel s))))"
    using tick_mid(4) [OF assms(1)] by (simp add: wheel_step_def)
  then have "distinct (map fst fired)"
    by (auto simp: fired_def dispatch_expired_def map_filter_def submitCallback_def comp_def distinct_map inj_on_def intro: distinct_filter)
  then show "distinct fired" by (simp add: distinct_map)
qed

lemma sm_tick_ok:
  assumes "sm_ok T0 k s"
  shows "sm_ok T0 (k + 1) (sm_tick T0 (k + 1) accepts s)"
proof -
  note T = sm_tick_effect [OF sm_okD(1) [OF assms], where accepts = accepts]
  have due': "due T0 (k + 1) (sm_tick T0 (k + 1) accepts s) eid = Some (f, a) \<Longrightarrow> due T0 k s eid = Some (f, a) \<and> f \<noteq> k + 1" for eid f a
    by (auto simp: T(2) split: option.splits if_splits)
  have fly: "fst x < sm_nextID s \<and> due T0 (k + 1) (sm_tick T0 (k + 1) accepts s) (fst x) = None"
    if "x \<in> set (sm_inflight (sm_tick T0 (k + 1) accepts s))" for x
  proof (cases "x \<in> set (sm_inflight s)")
    case True
    then show ?thesis using sm_okD(6,7) [OF assms, of "fst x" "snd x"] by (simp add: T(2))
  next
    case False
    then have f: "due T0 k s (fst x) = Some (k + 1, snd x)" using that T(4) [of "fst x" "snd x"] by (simp add: T(3))
    then have "\<not> sm_nextID s \<le> fst x" using sm_ok_fresh [OF assms, of "fst x"] by auto
    with f show ?thesis by (simp add: T(2))
  qed
  show ?thesis
    using assms T(1) due' fly unfolding sm_ok_def T(6-9) by blast
qed

lemma UnregisterAsset_fields:
  assumes "wheel_ok T0 k (sm_wheel s)"
  shows "wheel_ok T0 k (sm_wheel (UnregisterAsset a s))" "due T0 k (UnregisterAsset a s) = without (sm_entries s a) (due T0 k s)"
    "sm_entries (UnregisterAsset a s) = (sm_entries s)(a := None)" "sm_lastActive (UnregisterAsset a s) = (sm_lastActive s)(a := None)"
    "sm_cache (UnregisterAsset a s) = (sm_cache s)(a := None)" "sm_inflight (UnregisterAsset a s) = sm_inflight s"
    "sm_nextID (UnregisterAsset a s) = sm_nextID s" "sm_timeouts (UnregisterAsset a s) = sm_timeouts s"
  using drop_effect [OF assms, of "sm_entries s a"] by (simp_all add: UnregisterAsset_def Let_def)

lemma UnregisterAsset_ok:
  assumes "sm_ok T0 k s"
  shows "sm_ok T0 k (UnregisterAsset a s)"
proof -
  note U = UnregisterAsset_fields [OF sm_okD(1) [OF assms], of a]
  have old: "sm_entries s b = Some x" if "sm_entries (UnregisterAsset a s) b = Some x" for b x using that by (simp add: U split: if_splits)
  show ?thesis
  proof (rule sm_okI)
    fix eid f b
    assume that: "due T0 k (UnregisterAsset a s) eid = Some (f, b)"
    have w: "due T0 k s eid = Some (f, b)" "\<forall>x. sm_entries s a = Some x \<longrightarrow> entryID x \<noteq> eid" using that by (auto simp: U without_Some)
    then obtain x where "sm_entries s b = Some x" "entryID x = eid" using sm_okD(2) [OF assms] by blast
    with w(2) show "\<exists>x. sm_entries (UnregisterAsset a s) b = Some x \<and> entryID x = eid" by (auto simp: U)
  next
    fix b x assume "sm_entries (UnregisterAsset a s) b = Some x"
    from sm_okD(3,4) [OF assms old [OF this]]
    show "entryID x < sm_nextID (UnregisterAsset a s) \<and> entry_timeout x \<le> max_duration" by (simp add: U)
  next
    fix b c x y assume "sm_entries (UnregisterAsset a s) b = Some x" "sm_entries (UnregisterAsset a s) c = Some y" "entryID x = entryID y"
    then show "b = c" using sm_okD(5) [OF assms old old] by blast
  next
    fix x assume "x \<in> set (sm_inflight (UnregisterAsset a s))"
    then show "fst x < sm_nextID (UnregisterAsset a s) \<and> due T0 k (UnregisterAsset a s) (fst x) = None"
      using sm_okD(6,7) [OF assms, of "fst x" "snd x"] by (simp add: U without_def split: option.splits)
  qed (use U(1) sm_okD(8,9) [OF assms] in \<open>auto simp: U(3-5)\<close>)
qed

text \<open>Steps that only touch the status, and the firing of a callback, leave timers and entries alone.\<close>

definition same_timers :: "stateManager \<Rightarrow> stateManager \<Rightarrow> bool" where
  "same_timers s s' \<longleftrightarrow> sm_wheel s' = sm_wheel s \<and> sm_nextID s' = sm_nextID s \<and> sm_entries s' = sm_entries s \<and>
     sm_lastActive s' = sm_lastActive s \<and> set (sm_inflight s') \<subseteq> set (sm_inflight s) \<and> dom (sm_cache s) \<subseteq> dom (sm_cache s')"

lemma same_timers_ok: "sm_ok T0 k s \<Longrightarrow> same_timers s s' \<Longrightarrow> sm_ok T0 k s'"
  unfolding sm_ok_def same_timers_def due_def by (simp, blast)

lemma same_timers_ops:
  "same_timers s (snd (UpdateStatus f1 f2 f3 a st reason s))" "same_timers s (SyncStatus f a s)"
  "same_timers s (fireTimeout now a eid (s\<lparr>sm_inflight := remove1 (eid, a) (sm_inflight s)\<rparr>))"
  by (auto simp: same_timers_def UpdateStatus_def persistStatus_def SyncStatus_def fireTimeout_def Let_def
      dest: notin_set_remove1 set_remove1_subset [THEN subsetD] split: option.splits prod.splits if_splits)

lemma sm_steps_ok: "sm_steps T0 drops Q k0 s0 k s \<Longrightarrow> sm_ok T0 k0 s0 \<Longrightarrow> sm_ok T0 k s"
proof (induction rule: sm_steps.induct)
  case (st_register k s rd timeout a accept)
  then show ?case by (intro renewed_ok [OF _ RegisterAsset_renewed]) simp_all
next
  case (st_unregister k s a)
  then show ?case by (simp add: UnregisterAsset_ok)
next
  case (st_active k s rd a accept)
  then have "sm_ok T0 k s" by simp
  from renewed_ok [OF this UpdateActive_renewed [OF this st_active.hyps(2)]] show ?case .
next
  case (st_status k s f1 f2 f3 a st reason)
  then show ?case using same_timers_ok same_timers_ops(1) by blast
next
  case (st_sync k s f a)
  then show ?case using same_timers_ok same_timers_ops(2) by blast
next
  case (st_tick k s accepts)
  then show ?case by (simp add: sm_tick_ok)
next
  case (st_fire k s eid a now)
  then show ?case using same_timers_ok same_timers_ops(3) by blast
qed simp

lemma newStateManager_ok: "sm_ok T0 0 (newStateManager rows)"
  using wheel_reach_ok [OF wheel_init] by (simp add: sm_ok_def newStateManager_def due_def fire_tick_def empty_wheel_def)

text \<open>At any time an observed asset has at most one timer, the one its entry names; renewing replaces it, removing the
  asset removes it, and a callback that was already under way for an earlier entry, or for a removed asset, is ignored.\<close>

theorem asset_one_timer:
  assumes "sm_steps T0 drops Q 0 (newStateManager rows) k s"
  shows "(fire_tick T0 k (sm_wheel s) eid = Some (f, a) \<longrightarrow> (\<exists>e. sm_entries s a = Some e \<and> entryID e = eid)) \<and>
    fire_tick T0 k (sm_wheel (UnregisterAsset a s)) eid \<noteq> Some (f, a) \<and>
    ((\<forall>e. sm_entries s a = Some e \<longrightarrow> entryID e \<noteq> eid) \<longrightarrow> fireTimeout now a eid s = s)"
proof (intro conjI)
  note ok = sm_steps_ok [OF assms newStateManager_ok]
  show "fire_tick T0 k (sm_wheel s) eid = Some (f, a) \<longrightarrow> (\<exists>e. sm_entries s a = Some e \<and> entryID e = eid)"
    using sm_okD(2) [OF ok, of eid f a] by (simp add: due_def)
  show "fire_tick T0 k (sm_wheel (UnregisterAsset a s)) eid \<noteq> Some (f, a)"
    using sm_okD(2) [OF UnregisterAsset_ok [OF ok, of a], of eid f a] UnregisterAsset_fields(3) [OF sm_okD(1) [OF ok], of a]
    by (auto simp: due_def)
  show "(\<forall>e. sm_entries s a = Some e \<longrightarrow> entryID e \<noteq> eid) \<longrightarrow> fireTimeout now a eid s = s"
    by (auto simp: fireTimeout_def Let_def split: option.splits)
qed

theorem asset_one_timer_witness:
  "fire_tick 0 0 (sm_wheel (UnregisterAsset 1 (RegisterAsset (0, 0, 0) True 1 (30 * time_Second) (newStateManager Map.empty)))) 1 \<noteq> Some (30, 1)"
proof -
  have "sm_steps 0 True {} 0 (newStateManager Map.empty) 0 (RegisterAsset (0, 0, 0) True 1 (30 * time_Second) (newStateManager Map.empty))"
    by (rule st_register [OF st_start]) (simp_all add: stamps_ok_def time_Second_def max_duration_def)
  from asset_one_timer [OF this] show ?thesis by blast
qed

subsection \<open>Silent assets\<close>

text \<open>
  What is known of a silent asset: until tick \<open>f\<close> its entry waits on the wheel, and from then on it is in flight or
  has been announced, once.
\<close>

definition tracked :: "gotime \<Rightarrow> int \<Rightarrow> int \<Rightarrow> timeoutEntry \<Rightarrow> gotime \<Rightarrow> int \<Rightarrow> nat \<Rightarrow> stateManager \<Rightarrow> bool" where
  "tracked T0 k a e seen f n s \<longleftrightarrow>
     sm_entries s a = Some e \<and> sm_lastActive s a = Some seen \<and>
     (if k < f then due T0 k s (entryID e) = Some (f, a) \<and> (entryID e, a) \<notin> set (sm_inflight s) \<and> count_list (sm_timeouts s) a = n
      else due T0 k s (entryID e) = None \<and> count_list (sm_inflight s) (entryID e, a) + count_list (sm_timeouts s) a = n + 1)"

lemma distinct_count_list: "distinct xs \<Longrightarrow> count_list xs x = (if x \<in> set xs then 1 else 0)"
  by (induction xs) auto

lemma tracked_cong:
  assumes "tracked T0 k a e seen f n s" "sm_entries s' a = sm_entries s a" "sm_lastActive s' a = sm_lastActive s a"
    "due T0 k s' (entryID e) = due T0 k s (entryID e)" "count_list (sm_inflight s') (entryID e, a) = count_list (sm_inflight s) (entryID e, a)"
    "sm_timeouts s' = sm_timeouts s"
  shows "tracked T0 k a e seen f n s'"
  using assms by (simp add: tracked_def count_list_0_iff [symmetric])

lemma renewed_tracked:
  assumes "sm_ok T0 k s" "renewed T0 k rd accept b timeout s s'" "tracked T0 k a e seen f n s" "a \<noteq> b"
  shows "tracked T0 k a e seen f n s'"
proof -
  have a: "sm_entries s a = Some e" using assms(3) by (simp add: tracked_def)
  have ne: "entryID e \<noteq> sm_nextID s" "\<And>x. sm_entries s b = Some x \<Longrightarrow> entryID x \<noteq> entryID e"
    using sm_okD(3) [OF assms(1) a] sm_okD(5) [OF assms(1) a] assms(4) by auto
  then have "without (sm_entries s b) (due T0 k s) (entryID e) = due T0 k s (entryID e)" by (auto simp: without_def split: option.splits)
  then show ?thesis
    using assms(2,4) ne(1) by (intro tracked_cong [OF assms(3)]) (auto simp: renewed_def split: if_splits)
qed

text \<open>The callback of the current entry, run late enough, is not taken for a stale one.\<close>

lemma fireTimeout_announces:
  assumes "sm_entries s a = Some e" "sm_lastActive s a = Some seen" "0 \<le> entry_timeout e" "entry_timeout e \<le> max_duration"
    "seen \<le> now" "entry_timeout e - 2 * time_Second \<le> now - seen"
  shows "fireTimeout now a (entryID e) s = s\<lparr>sm_timeouts := sm_timeouts s @ [a]\<rparr>"
proof -
  have "wrap64 (entry_timeout e - 2 * time_Second) = entry_timeout e - 2 * time_Second"
    using assms(3,4) by (intro wrap64_id) (simp_all add: time_Second_def max_duration_def min_int_def max_int_def)
  moreover have "max (entry_timeout e - 2 * time_Second) 0 \<le> time_sub now seen"
    using assms(4-6) by (auto simp: time_sub_def max_duration_def min_duration_def time_Second_def)
  ultimately show ?thesis using assms(1,2) by (simp add: fireTimeout_def Let_def not_less)
qed

lemma tick_tracked:
  assumes "sm_ok T0 k s" "tracked T0 k a e seen f n s" "\<forall>i. accepts i"
  shows "tracked T0 (k + 1) a e seen f n (sm_tick T0 (k + 1) accepts s)"
proof -
  note T = sm_tick_effect [OF sm_okD(1) [OF assms(1)], where accepts = accepts]
  let ?fired = "dispatch_expired accepts (snd (wheel_step T0 (k + 1) (sm_wheel s)))"
  have c: "count_list ?fired (entryID e, a) = (if due T0 k s (entryID e) = Some (k + 1, a) then 1 else 0)"
    using T(4) [of "entryID e" a] T(5) assms(3) by (simp add: distinct_count_list count_list_0_iff)
  show ?thesis
  proof (cases "k < f")
    case True
    have d: "due T0 k s (entryID e) = Some (f, a)" "(entryID e, a) \<notin> set (sm_inflight s)" using assms(2) True by (simp_all add: tracked_def)
    then have "count_list (sm_inflight s) (entryID e, a) = 0" by (simp add: count_list_0_iff)
    then show ?thesis using assms(2) True d c T(4) [of "entryID e" a]
      by (auto simp: tracked_def T(2,3,6,7,10))
  next
    case False
    then show ?thesis using assms(2) c by (simp add: tracked_def T(2,3,6,7,10))
  qed
qed

lemma fire_tracked:
  assumes "tracked T0 k a e seen f n s" "(eid, b) \<in> set (sm_inflight s)" "T0 + k * time_Second \<le> now"
    and "0 \<le> entry_timeout e" "entry_timeout e \<le> max_duration" "seen \<le> T0 + f * time_Second"
    "entry_timeout e - 2 * time_Second \<le> T0 + f * time_Second - seen"
  shows "tracked T0 k a e seen f n (fireTimeout now b eid (s\<lparr>sm_inflight := remove1 (eid, b) (sm_inflight s)\<rparr>))"
proof -
  let ?s = "s\<lparr>sm_inflight := remove1 (eid, b) (sm_inflight s)\<rparr>"
  have cnt: "count_list (remove1 x xs) y = (if x = y then count_list xs y - 1 else count_list xs y)" for x y :: "int \<times> int" and xs
    by (induction xs) auto
  have e: "sm_entries s a = Some e" "sm_lastActive s a = Some seen" using assms(1) by (simp_all add: tracked_def)
  show ?thesis
  proof (cases "(eid, b) = (entryID e, a)")
    case True
    then have k: "\<not> k < f" using assms(1,2) by (auto simp: tracked_def)
    then have "T0 + f * time_Second \<le> now" using assms(3) mult_right_mono [of f k time_Second] by (simp add: time_Second_def)
    then have F: "fireTimeout now b eid ?s = ?s\<lparr>sm_timeouts := sm_timeouts ?s @ [a]\<rparr>"
      using fireTimeout_announces [of ?s a e seen now] e assms(4-7) True by simp
    have "count_list (sm_inflight s) (entryID e, a) \<noteq> 0" using assms(2) True by (simp add: count_list_0_iff)
    then show ?thesis using assms(1) True k unfolding F by (simp add: tracked_def cnt)
  next
    case False
    have q: "sm_timeouts (fireTimeout now b eid ?s) = sm_timeouts s \<or> b \<noteq> a \<and> sm_timeouts (fireTimeout now b eid ?s) = sm_timeouts s @ [b]"
      using False e by (auto simp: fireTimeout_def Let_def split: option.splits)
    have same: "sm_entries (fireTimeout now b eid ?s) = sm_entries s" "sm_lastActive (fireTimeout now b eid ?s) = sm_lastActive s"
      "sm_inflight (fireTimeout now b eid ?s) = remove1 (eid, b) (sm_inflight s)" "due T0 k (fireTimeout now b eid ?s) = due T0 k s"
      by (simp_all add: fireTimeout_def Let_def split: option.splits)
    have "count_list (sm_timeouts (fireTimeout now b eid ?s)) a = count_list (sm_timeouts s) a" using q by auto
    then show ?thesis using assms(1) cnt [of "(eid, b)" "sm_inflight s" "(entryID e, a)"] False
      by (auto simp: tracked_def same dest: notin_set_remove1)
  qed
qed

lemma persist_fields:
  "persistStatus f1 f2 f3 a p st reason s = (err, s') \<Longrightarrow> sm_wheel s' = sm_wheel s \<and> sm_entries s' = sm_entries s \<and>
     sm_lastActive s' = sm_lastActive s \<and> sm_inflight s' = sm_inflight s \<and> sm_timeouts s' = sm_timeouts s"
  by (auto simp: persistStatus_def Let_def split: if_splits prod.splits)

lemma status_fields:
  fixes f1 f2 f3 a st reason s
  defines "s' \<equiv> snd (UpdateStatus f1 f2 f3 a st reason s)"
  shows "sm_wheel s' = sm_wheel s" "sm_entries s' = sm_entries s" "sm_lastActive s' = sm_lastActive s"
    "sm_inflight s' = sm_inflight s" "sm_timeouts s' = sm_timeouts s"
proof -
  let ?p = "case sm_cache s a of None \<Rightarrow> AssetStatusUnknown | Some st \<Rightarrow> st"
  obtain err s1 where p: "persistStatus f1 f2 f3 a ?p st reason s = (err, s1)" by fastforce
  have "s' = s \<or> s' = s1 \<or> s' = s1\<lparr>sm_cache := (sm_cache s1)(a \<mapsto> st)\<rparr>"
    by (cases err) (simp_all add: s'_def UpdateStatus_def Let_def p)
  with persist_fields [OF p] show "sm_wheel s' = sm_wheel s" "sm_entries s' = sm_entries s" "sm_lastActive s' = sm_lastActive s"
    "sm_inflight s' = sm_inflight s" "sm_timeouts s' = sm_timeouts s" by auto
qed

lemma steps_tracked:
  assumes "sm_steps T0 False {a} k0 s0 k s" "sm_ok T0 k0 s0" "tracked T0 k0 a e seen f n s0"
    and "0 \<le> entry_timeout e" "entry_timeout e \<le> max_duration" "seen \<le> T0 + f * time_Second"
    "entry_timeout e - 2 * time_Second \<le> T0 + f * time_Second - seen"
  shows "tracked T0 k a e seen f n s"
  using assms
proof (induction rule: sm_steps.induct)
  case (st_register k s rd timeout b accept)
  note ok = sm_steps_ok [OF st_register.hyps(1) assms(2)]
  have "tracked T0 k a e seen f n s" "a \<noteq> b" using st_register by auto
  from renewed_tracked [OF ok RegisterAsset_renewed [OF ok st_register.hyps(2,3)] this] show ?case .
next
  case (st_unregister k s b)
  note ok = sm_steps_ok [OF st_unregister.hyps(1) assms(2)]
  note U = UnregisterAsset_fields [OF sm_okD(1) [OF ok], of b]
  have t: "tracked T0 k a e seen f n s" "a \<noteq> b" using st_unregister by auto
  then have "sm_entries s a = Some e" by (simp add: tracked_def)
  then have "sm_entries s b = Some x \<Longrightarrow> entryID x \<noteq> entryID e" for x using sm_okD(5) [OF ok] t(2) by metis
  then have "due T0 k (UnregisterAsset b s) (entryID e) = due T0 k s (entryID e)" by (auto simp: U without_def split: option.splits)
  with t show ?case by (intro tracked_cong [OF t(1)]) (simp_all add: U)
next
  case (st_active k s rd b accept)
  note ok = sm_steps_ok [OF st_active.hyps(1) assms(2)]
  have "tracked T0 k a e seen f n s" "a \<noteq> b" using st_active by auto
  from renewed_tracked [OF ok UpdateActive_renewed(1) [OF ok st_active.hyps(2)] this] show ?case .
next
  case (st_status k s f1 f2 f3 b st reason)
  have t: "tracked T0 k a e seen f n s" using st_status by simp
  show ?case by (rule tracked_cong [OF t]) (simp_all add: status_fields due_def)
next
  case (st_sync k s g b)
  have t: "tracked T0 k a e seen f n s" using st_sync by simp
  show ?case by (rule tracked_cong [OF t]) (simp_all add: SyncStatus_def split: option.splits)
next
  case (st_tick k s accepts)
  have t: "tracked T0 k a e seen f n s" "\<forall>i. accepts i" using st_tick by simp_all
  show ?case by (rule tick_tracked [OF sm_steps_ok [OF st_tick.hyps(1) assms(2)] t])
next
  case (st_fire k s eid b now)
  have t: "tracked T0 k a e seen f n s" using st_fire by simp
  show ?case by (rule fire_tracked [OF t st_fire.hyps(2,3) assms(4-7)])
qed simp

lemma arm_bounds:
  fixes n :: int
  assumes "T0 + k * time_Second \<le> t1" "t1 \<le> t2" "t2 \<le> t3" "t3 < T0 + (k + 1) * time_Second" "1 \<le> n"
  defines "f \<equiv> arm_tick T0 k (t1, t2, t3) (n * time_Second)"
  shows "t2 < t1 + n * time_Second" "k < f" "t3 \<le> T0 + f * time_Second" "n * time_Second - 2 * time_Second \<le> T0 + f * time_Second - t3"
    "t1 + n * time_Second - 2 * time_Second < T0 + f * time_Second" "T0 + f * time_Second < t1 + n * time_Second + time_Second"
proof -
  have pos: "0 < time_Second" by (simp add: time_Second_def)
  have kk: "(k + 1) * time_Second = k * time_Second + time_Second" by (simp add: distrib_right)
  have "1 * time_Second \<le> n * time_Second" using assms(5) pos by (intro mult_right_mono) simp_all
  then have ns: "time_Second \<le> n * time_Second" by simp
  with assms(1-4) kk pos show late: "t2 < t1 + n * time_Second" by linarith
  define m where "m = (t1 + n * time_Second - t2) div time_Second"
  have "m = ((t1 - t2) + n * time_Second) div time_Second" by (simp add: m_def algebra_simps)
  also have "\<dots> = n + (t1 - t2) div time_Second" using pos by (intro div_mult_self1) simp
  finally have "m = (t1 - t2) div time_Second + n" by simp
  moreover have "- 1 \<le> (t1 - t2) div time_Second" using assms(1-4) kk pos by (simp add: le_div_iff_mult)
  ultimately have m: "n - 1 \<le> m" by simp
  have f: "f = (if max m 1 < 60 then k + max m 1 else (t1 + n * time_Second - T0) div time_Second)"
    by (simp add: f_def arm_tick_def m_def Let_def)
  have "t2 < T0 + (k + 1) * time_Second" using assms(3,4) by linarith
  note within = fires_within [OF order_trans [OF assms(1,2)] this late]
  show "t1 + n * time_Second - 2 * time_Second < T0 + f * time_Second" "T0 + f * time_Second < t1 + n * time_Second + time_Second"
    using within unfolding f m_def Let_def by simp_all
  have "k < f \<and> t3 \<le> T0 + f * time_Second \<and> n * time_Second - 2 * time_Second \<le> T0 + f * time_Second - t3"
  proof (cases "max m 1 < 60")
    case True
    have "1 * time_Second \<le> max m 1 * time_Second" "(n - 1) * time_Second \<le> max m 1 * time_Second"
      using m pos by (intro mult_right_mono; simp)+
    then have le: "time_Second \<le> max m 1 * time_Second" "n * time_Second - time_Second \<le> max m 1 * time_Second"
      by (simp_all add: left_diff_distrib)
    have fs: "f * time_Second = k * time_Second + max m 1 * time_Second" using True by (simp add: f distrib_right)
    have "k < f" using True by (simp add: f)
    moreover have "t3 \<le> T0 + f * time_Second" unfolding fs using le(1) assms(4) unfolding kk by linarith
    moreover have "n * time_Second - 2 * time_Second \<le> T0 + f * time_Second - t3" unfolding fs using le(2) assms(4) unfolding kk by linarith
    ultimately show ?thesis by simp
  next
    case False
    define q where "q = (t1 + n * time_Second - T0) div time_Second"
    have q: "time_Second * q \<le> t1 + n * time_Second - T0" "t1 + n * time_Second - T0 < time_Second * q + time_Second"
      using div_bounds [OF pos] by (simp_all add: q_def)
    have "60 * time_Second \<le> m * time_Second" using False pos by (intro mult_right_mono) simp_all
    moreover have "time_Second * m \<le> t1 + n * time_Second - t2" using div_bounds [OF pos] by (simp add: m_def)
    ultimately have big: "60 * time_Second \<le> n * time_Second" using assms(2) by (simp add: mult.commute)
    have fq: "f = q" using False by (simp add: f q_def)
    have tf: "t1 + n * time_Second < T0 + q * time_Second + time_Second" using q(2) by (simp add: mult.commute)
    have "k * time_Second < q * time_Second" using tf assms(1) big pos by linarith
    then have "k < q" using pos by (simp add: mult_less_cancel_right)
    moreover have "t3 \<le> T0 + q * time_Second" using tf assms(1,4) big pos unfolding kk by linarith
    moreover have "n * time_Second - 2 * time_Second \<le> T0 + q * time_Second - t3" using tf assms(1,4) unfolding kk by linarith
    ultimately show ?thesis unfolding fq by simp
  qed
  then show "k < f" "t3 \<le> T0 + f * time_Second" "n * time_Second - 2 * time_Second \<le> T0 + f * time_Second - t3" by simp_all
qed

definition timeout_of :: "int \<Rightarrow> stateManager \<Rightarrow> duration" where
  "timeout_of a s = (case sm_entries s a of Some e \<Rightarrow> entry_timeout e | None \<Rightarrow> DefaultHeartbeatTimeout)"



text \<open>A report at the very moment of a tick can disable the detection, although the comment of
  \<^verbatim>\<open>fireTimeout\<close> says that genuine timeouts are never dropped. Here the entry is armed one nanosecond before a tick of the
  wheel and \<^verbatim>\<open>lastActive\<close> is stamped half a microsecond after it, with a timeout of 30 seconds. The wheel counts the cut-off
  delay from the previous tick, so the callback comes at the 29th tick, slightly less than 28 seconds after the stamp, is taken for
  stale and dropped. No timer and no callback is left: the silent asset is never announced.\<close>

theorem report_at_tick_undetected:
  "let s0 = RegisterAsset (999999998, 999999999, 1000000500) True 1 (30 * time_Second) (newStateManager Map.empty);
       s29 = fold (\<lambda>k. sm_tick 0 k (\<lambda>_. True)) [1..29] s0;
       s = fireTimeout (29 * time_Second + 100) 1 1 (s29\<lparr>sm_inflight := remove1 (1, 1) (sm_inflight s29)\<rparr>)
   in stamps_ok 0 0 (999999998, 999999999, 1000000500) \<and> sm_inflight s29 = [(1, 1)] \<and>
      sm_timeouts s = [] \<and> sm_inflight s = [] \<and> index (sm_wheel s) 1 = None"
  by code_simp

end
