(* ===== verification/Executions.thy ===== *)
theory Executions
  imports TaskEngine Pagination
begin

text \<open>
  The history of executions, \<^verbatim>\<open>pkg/task\<close>: the table of \<^verbatim>\<open>store.go\<close>, the rows of dispatched
  executions of \<^verbatim>\<open>dispatch.go\<close>, the reports of remote executors of \<^verbatim>\<open>report.go\<close> and the
  sweeper of \<^verbatim>\<open>sweeper.go\<close>. Each statement on the table is atomic; the read that binds a report to
  a row and the write that follows are separate steps. Errors of the database are left out.
\<close>

subsection \<open>The table\<close>

definition StatusSuccess :: string where "StatusSuccess = ''success''"
definition StatusFailed :: string where "StatusFailed = ''failed''"
definition StatusTimeout :: string where "StatusTimeout = ''timeout''"
definition StatusRunning :: string where "StatusRunning = ''running''"
definition StatusUnknown :: string where "StatusUnknown = ''unknown''"

definition ExecutionStatusFromAsset :: "string \<Rightarrow> string" where
  "ExecutionStatusFromAsset st =
     (if st = AssetStatusNormal then StatusSuccess else if st = AssetStatusAbnormal then StatusFailed else StatusUnknown)"

record Execution =
  ex_ID :: int
  ex_TenantID :: int
  ex_TaskID :: int
  ex_AssetID :: int
  ex_TaskName :: string
  ex_ExecutorType :: string
  ex_Status :: string
  ex_StatusCode :: int
  ex_Output :: string
  ex_Error :: string
  ex_Duration :: int
  ex_RetryCount :: int
  ex_StartedAt :: gotime
  ex_FinishedAt :: "gotime option"
  ex_RunID :: string
  ex_TriggerType :: string
  ex_TriggeredAt :: "gotime option"
  ex_Node :: string
  ex_ExitCode :: int
  ex_SkipReason :: string
  ex_Metrics :: string
  ex_CreatedAt :: gotime

definition zero_Execution :: Execution where
  "zero_Execution = \<lparr>ex_ID = 0, ex_TenantID = 0, ex_TaskID = 0, ex_AssetID = 0, ex_TaskName = [], ex_ExecutorType = [], ex_Status = [],
     ex_StatusCode = 0, ex_Output = [], ex_Error = [], ex_Duration = 0, ex_RetryCount = 0, ex_StartedAt = 0, ex_FinishedAt = None,
     ex_RunID = [], ex_TriggerType = [], ex_TriggeredAt = None, ex_Node = [], ex_ExitCode = 0, ex_SkipReason = [], ex_Metrics = [],
     ex_CreatedAt = 0\<rparr>"

text \<open>The rows in ascending order of their IDs, and the ID of the next one.\<close>

record exec_db =
  db_rows :: "Execution list"
  db_next :: int

definition empty_db :: exec_db where
  "empty_db = \<lparr>db_rows = [], db_next = 1\<rparr>"

text \<open>Inserting a row without an ID; every caller leaves it to the database.\<close>

definition exec_Create :: "gotime \<Rightarrow> Execution \<Rightarrow> exec_db \<Rightarrow> int \<times> exec_db" where
  "exec_Create now x d =
     (db_next d, d\<lparr>db_rows := db_rows d @ [x\<lparr>ex_ID := db_next d, ex_CreatedAt := now\<rparr>], db_next := db_next d + 1\<rparr>)"

text \<open>Updating the rows that satisfy a condition; the number of rows affected comes first.\<close>

definition update_where :: "(Execution \<Rightarrow> bool) \<Rightarrow> (Execution \<Rightarrow> Execution) \<Rightarrow> exec_db \<Rightarrow> nat \<times> exec_db" where
  "update_where P f d =
     (length (filter P (db_rows d)), d\<lparr>db_rows := map (\<lambda>x. if P x then f x else x) (db_rows d)\<rparr>)"

record ExecutionQuery =
  eq_TaskID :: int
  eq_TaskIDs :: "int list option"
  eq_Status :: string
  eq_ExecutorType :: string
  eq_TriggerType :: string

definition query_matches :: "ExecutionQuery \<Rightarrow> Execution \<Rightarrow> bool" where
  "query_matches q x \<longleftrightarrow>
     (eq_TaskID q > 0 \<longrightarrow> ex_TaskID x = eq_TaskID q) \<and>
     (case eq_TaskIDs q of None \<Rightarrow> True | Some ids \<Rightarrow> ex_TaskID x \<in> set ids) \<and>
     (eq_Status q \<noteq> [] \<longrightarrow> ex_Status x = eq_Status q) \<and>
     (eq_ExecutorType q \<noteq> [] \<longrightarrow> ex_ExecutorType x = eq_ExecutorType q) \<and>
     (eq_TriggerType q \<noteq> [] \<longrightarrow> ex_TriggerType x = eq_TriggerType q)"

definition exec_Query :: "ExecutionQuery \<Rightarrow> int \<Rightarrow> int \<Rightarrow> exec_db \<Rightarrow> Execution list \<times> int" where
  "exec_Query q page n d =
     (let (pg, sz) = Clamp page n; rows = filter (query_matches q) (rev (db_rows d))
      in (page_of pg sz rows, int (length rows)))"

definition exec_Get :: "int \<Rightarrow> exec_db \<Rightarrow> Execution option" where
  "exec_Get i d = find (\<lambda>x. ex_ID x = i) (db_rows d)"

definition MarkTimeout :: "int \<Rightarrow> gotime \<Rightarrow> int \<Rightarrow> exec_db \<Rightarrow> bool \<times> exec_db" where
  "MarkTimeout i finishedAt durationMs d =
     (let (n, d') = update_where (\<lambda>x. ex_ID x = i \<and> ex_Status x = StatusRunning)
            (\<lambda>x. x\<lparr>ex_Status := StatusTimeout, ex_FinishedAt := Some finishedAt, ex_Duration := durationMs\<rparr>) d
      in (n > 0, d'))"

definition DeleteExecutionsOlderThan :: "gotime \<Rightarrow> exec_db \<Rightarrow> exec_db" where
  "DeleteExecutionsOlderThan before d = d\<lparr>db_rows := filter (\<lambda>x. \<not> ex_CreatedAt x < before) (db_rows d)\<rparr>"

subsection \<open>Dispatches\<close>

text \<open>The fields of an execution request that a dispatch reads.\<close>

record ExecutionRequest =
  er_ID :: int
  er_TenantID :: int
  er_AssetID :: int
  er_ExecutorName :: string
  er_RunID :: string
  er_TriggerType :: string
  er_TriggeredAt :: gotime

definition StartDispatch :: "string \<Rightarrow> gotime \<Rightarrow> ExecutionRequest \<Rightarrow> exec_db \<Rightarrow> int \<times> exec_db" where
  "StartDispatch node now req d =
     exec_Create now (zero_Execution\<lparr>ex_TenantID := er_TenantID req, ex_TaskID := er_ID req, ex_AssetID := er_AssetID req,
       ex_ExecutorType := er_ExecutorName req, ex_Status := StatusRunning, ex_StartedAt := now,
       ex_TriggeredAt := Some (er_TriggeredAt req), ex_RunID := er_RunID req, ex_TriggerType := er_TriggerType req, ex_Node := node\<rparr>) d"

datatype dispatch_error = DeadlineExceeded string | DispatchFailed string

fun dispatch_error_msg :: "dispatch_error \<Rightarrow> string" where
  "dispatch_error_msg (DeadlineExceeded msg) = msg"
| "dispatch_error_msg (DispatchFailed msg) = msg"

definition milliseconds :: "duration \<Rightarrow> int" where
  "milliseconds d = go_div d 1000000"

text \<open>Whether the caller has to publish the completion comes first.\<close>

definition FinishDispatch :: "gotime \<Rightarrow> int \<Rightarrow> dispatch_error option \<Rightarrow> exec_db \<Rightarrow> bool \<times> exec_db" where
  "FinishDispatch now execID dispatchErr d =
     (case dispatchErr of
        None \<Rightarrow> (False, d)
      | Some err \<Rightarrow>
          (case exec_Get execID d of
             None \<Rightarrow> (True, d)
           | Some x \<Rightarrow>
               let st = (case err of DeadlineExceeded _ \<Rightarrow> StatusTimeout | DispatchFailed _ \<Rightarrow> StatusFailed)
               in (True, snd (update_where (\<lambda>y. ex_ID y = execID)
                    (\<lambda>y. y\<lparr>ex_Status := st, ex_Error := dispatch_error_msg err, ex_FinishedAt := Some now,
                           ex_Duration := milliseconds (time_sub now (ex_StartedAt x))\<rparr>) d))))"

subsection \<open>Reports\<close>

record TaskReportPayload =
  tr_Kind :: string
  tr_TaskRef :: string
  tr_Status :: string
  tr_StartedAt :: int
  tr_FinishedAt :: int
  tr_Output :: string
  tr_Error :: string
  tr_TenantID :: int

datatype report_error = ErrReportUnknownRef | ErrReportUnknownStatus | ErrReportTerminal | ErrReportReload

record ReportResult =
  rr_TaskID :: int
  rr_ExecID :: int
  rr_Terminal :: bool
  rr_Applied :: bool

definition reportExecStatus :: "string \<Rightarrow> string option" where
  "reportExecStatus st =
     (if st = ''running'' then Some StatusRunning
      else if st = ''completed'' then Some StatusSuccess
      else if st = ''failed'' then Some StatusFailed
      else if st = ''timeout'' then Some StatusTimeout
      else None)"

definition bindTaskRef :: "string \<Rightarrow> exec_db \<Rightarrow> report_error + Execution \<times> int" where
  "bindTaskRef ref d =
     (case Atoi ref of
        Some taskID \<Rightarrow>
          if taskID > 0 then
            (case find (\<lambda>x. ex_TaskID x = taskID \<and> ex_Status x = StatusRunning) (rev (db_rows d)) of
               Some x \<Rightarrow> Inr (x, ex_TaskID x)
             | None \<Rightarrow> Inr (zero_Execution, taskID))
          else
            (case find (\<lambda>x. ex_RunID x = ref) (rev (db_rows d)) of
               Some x \<Rightarrow> Inr (x, ex_TaskID x) | None \<Rightarrow> Inl ErrReportUnknownRef)
      | None \<Rightarrow>
          (case find (\<lambda>x. ex_RunID x = ref) (rev (db_rows d)) of
             Some x \<Rightarrow> Inr (x, ex_TaskID x) | None \<Rightarrow> Inl ErrReportUnknownRef))"

text \<open>The instant of a number of nanoseconds since 1970.\<close>

definition unix_nano :: "int \<Rightarrow> gotime" where
  "unix_nano n = 62135596800 * time_Second + n"

definition reportTimes :: "Execution \<Rightarrow> TaskReportPayload \<Rightarrow> bool \<Rightarrow> gotime \<Rightarrow> gotime \<times> gotime" where
  "reportTimes x p terminal now =
     (if tr_StartedAt p > 0 then unix_nano (tr_StartedAt p) else if ex_ID x = 0 then now else ex_StartedAt x,
      if terminal \<and> tr_FinishedAt p > 0 then unix_nano (tr_FinishedAt p) else now)"

text \<open>What follows the binding of a report to the row \<open>x\<close>, which may have changed since.\<close>

definition report_update :: "gotime \<times> gotime \<Rightarrow> bool \<Rightarrow> string \<Rightarrow> TaskReportPayload \<Rightarrow> Execution \<Rightarrow> Execution" where
  "report_update tm terminal st p y =
     (let y1 = y\<lparr>ex_Status := st, ex_Output := tr_Output p, ex_Error := tr_Error p, ex_StartedAt := fst tm\<rparr>
      in if terminal then y1\<lparr>ex_FinishedAt := Some (snd tm), ex_Duration := milliseconds (time_sub (snd tm) (fst tm))\<rparr> else y1)"

definition external_execution :: "TaskReportPayload \<Rightarrow> int \<Rightarrow> string \<Rightarrow> bool \<Rightarrow> gotime \<times> gotime \<Rightarrow> Execution" where
  "external_execution p taskID st terminal tm =
     (let x = zero_Execution\<lparr>ex_TaskID := taskID, ex_TenantID := tr_TenantID p, ex_Status := st, ex_Output := tr_Output p,
            ex_Error := tr_Error p, ex_StartedAt := fst tm, ex_TriggerType := TriggerType_string TriggerTypeExternal, ex_RunID := tr_TaskRef p\<rparr>
      in if terminal then x\<lparr>ex_FinishedAt := Some (snd tm), ex_Duration := milliseconds (time_sub (snd tm) (fst tm))\<rparr> else x)"

definition reload_error :: "int \<Rightarrow> exec_db \<Rightarrow> report_error option" where
  "reload_error i d =
     (case exec_Get i d of
        None \<Rightarrow> Some ErrReportReload
      | Some y \<Rightarrow> if ex_Status y \<noteq> StatusRunning then Some ErrReportTerminal else None)"

definition write_report :: "gotime \<Rightarrow> TaskReportPayload \<Rightarrow> Execution \<Rightarrow> int \<Rightarrow> exec_db \<Rightarrow> (report_error + ReportResult) \<times> exec_db" where
  "write_report now p x taskID d =
     (if ex_ID x > 0 \<and> ex_Status x \<noteq> StatusRunning then (Inl ErrReportTerminal, d)
      else
        case reportExecStatus (tr_Status p) of
          None \<Rightarrow> (Inl ErrReportUnknownStatus, d)
        | Some st \<Rightarrow>
            let terminal = (st \<noteq> StatusRunning); tm = reportTimes x p terminal now
            in if ex_ID x > 0 then
                 let (n, d') = update_where (\<lambda>y. ex_ID y = ex_ID x \<and> ex_Status y = StatusRunning) (report_update tm terminal st p) d
                 in (case (if n = 0 then reload_error (ex_ID x) d' else None) of
                       Some err \<Rightarrow> Inl err
                     | None \<Rightarrow> Inr \<lparr>rr_TaskID = taskID, rr_ExecID = ex_ID x, rr_Terminal = terminal, rr_Applied = True\<rparr>, d')
               else
                 let (i, d') = exec_Create now (external_execution p taskID st terminal tm) d
                 in (Inr \<lparr>rr_TaskID = taskID, rr_ExecID = i, rr_Terminal = terminal, rr_Applied = True\<rparr>, d'))"

definition ApplyTaskReport :: "gotime \<Rightarrow> TaskReportPayload \<Rightarrow> exec_db \<Rightarrow> (report_error + ReportResult) \<times> exec_db" where
  "ApplyTaskReport now p d =
     (case bindTaskRef (tr_TaskRef p) d of
        Inl err \<Rightarrow> (Inl err, d)
      | Inr (x, taskID) \<Rightarrow> write_report now p x taskID d)"

text \<open>The status that a completed event carries for a report.\<close>

definition report_asset_status :: "TaskReportPayload \<Rightarrow> string" where
  "report_asset_status p = (if reportExecStatus (tr_Status p) = Some StatusSuccess then AssetStatusNormal else AssetStatusAbnormal)"

text \<open>
  A completion that was published: the task it names, its status and, which the event does not carry, the row
  that was closed.
\<close>

type_synonym completion = "int \<times> string \<times> int"

definition report_completion :: "TaskReportPayload \<Rightarrow> report_error + ReportResult \<Rightarrow> completion list" where
  "report_completion p res =
     (case res of Inl _ \<Rightarrow> [] | Inr r \<Rightarrow> if rr_Terminal r then [(rr_TaskID r, report_asset_status p, rr_ExecID r)] else [])"

definition report_handle :: "gotime \<Rightarrow> TaskReportPayload \<Rightarrow> exec_db \<Rightarrow> completion list \<times> exec_db" where
  "report_handle now p d =
     (if tr_Kind p \<noteq> ''task_status'' then ([], d)
      else let (res, d') = ApplyTaskReport now p d in (report_completion p res, d'))"

subsection \<open>Records of local executions\<close>

record ExecutionRecord =
  xr_TaskID :: int
  xr_TenantID :: int
  xr_AssetID :: int
  xr_ExecutorName :: string
  xr_Status :: string
  xr_TimedOut :: bool
  xr_StatusCode :: int
  xr_Output :: string
  xr_ErrorMsg :: string
  xr_Duration :: duration
  xr_RetryCount :: int
  xr_StartedAt :: gotime
  xr_TriggeredAt :: gotime
  xr_FinishedAt :: gotime
  xr_RunID :: string
  xr_TriggerType :: string
  xr_Node :: string
  xr_ExitCode :: int

definition record_execution :: "ExecutionRecord \<Rightarrow> Execution" where
  "record_execution r = zero_Execution\<lparr>ex_TaskID := xr_TaskID r, ex_TenantID := xr_TenantID r, ex_AssetID := xr_AssetID r,
     ex_ExecutorType := xr_ExecutorName r,
     ex_Status := (if xr_TimedOut r then StatusTimeout else ExecutionStatusFromAsset (xr_Status r)),
     ex_StatusCode := xr_StatusCode r, ex_Output := xr_Output r, ex_Error := xr_ErrorMsg r, ex_Duration := go_div (xr_Duration r) 1000000,
     ex_RetryCount := xr_RetryCount r, ex_StartedAt := xr_StartedAt r, ex_RunID := xr_RunID r, ex_TriggerType := xr_TriggerType r,
     ex_Node := xr_Node r, ex_ExitCode := xr_ExitCode r,
     ex_TriggeredAt := (if xr_TriggeredAt r = 0 then None else Some (xr_TriggeredAt r)),
     ex_FinishedAt := (if xr_FinishedAt r = 0 then None else Some (xr_FinishedAt r))\<rparr>"

definition RecordStore_Save :: "gotime \<Rightarrow> ExecutionRecord \<Rightarrow> exec_db \<Rightarrow> int \<times> exec_db" where
  "RecordStore_Save now r d = exec_Create now (record_execution r) d"

subsection \<open>The sweeper\<close>

definition sweepMinTimeout :: duration where "sweepMinTimeout = 30 * time_Second"
definition sweepGrace :: duration where "sweepGrace = 300 * time_Second"
definition sweepPageSize :: int where "sweepPageSize = 100"

definition Task_Timeout :: "'c Task \<Rightarrow> duration" where
  "Task_Timeout t = (if t_TimeoutSeconds t \<le> 0 then 0 else wrap64 (t_TimeoutSeconds t * time_Second))"

definition taskTimeout :: "('c, 'g) task_engine \<Rightarrow> int \<Rightarrow> duration" where
  "taskTimeout e taskID = (case getTask taskID e of Inl _ \<Rightarrow> 0 | Inr t \<Rightarrow> Task_Timeout t)"

definition sweepBase :: "Execution \<Rightarrow> gotime" where
  "sweepBase x = (case ex_TriggeredAt x of Some t \<Rightarrow> t | None \<Rightarrow> ex_StartedAt x)"

definition sweepDeadline :: "Execution \<Rightarrow> duration \<Rightarrow> gotime" where
  "sweepDeadline x timeout = sweepBase x + wrap64 (max timeout sweepMinTimeout + sweepGrace)"

definition running_query :: ExecutionQuery where
  "running_query = \<lparr>eq_TaskID = 0, eq_TaskIDs = None, eq_Status = StatusRunning, eq_ExecutorType = [], eq_TriggerType = []\<rparr>"

definition is_stale :: "('c, 'g) task_engine \<Rightarrow> gotime \<Rightarrow> Execution \<Rightarrow> bool" where
  "is_stale e now x \<longleftrightarrow> now > sweepDeadline x (taskTimeout e (ex_TaskID x))"

text \<open>The scan, page by page; \<open>None\<close> means that the fuel did not last.\<close>

fun stale_loop :: "nat \<Rightarrow> ('c, 'g) task_engine \<Rightarrow> gotime \<Rightarrow> exec_db \<Rightarrow> int \<Rightarrow> Execution list \<Rightarrow> Execution list option" where
  "stale_loop 0 e now d page stale = None"
| "stale_loop (Suc fuel) e now d page stale =
     (let (rows, count) = exec_Query running_query page sweepPageSize d;
          stale' = stale @ filter (is_stale e now) rows
      in if int (length rows) < sweepPageSize \<or> page * sweepPageSize \<ge> count then Some stale'
         else stale_loop fuel e now d (page + 1) stale')"

definition staleExecutions :: "nat \<Rightarrow> ('c, 'g) task_engine \<Rightarrow> gotime \<Rightarrow> exec_db \<Rightarrow> Execution list option" where
  "staleExecutions fuel e now d = stale_loop fuel e now d 1 []"

definition reap :: "gotime \<Rightarrow> Execution \<Rightarrow> completion list \<times> exec_db \<Rightarrow> completion list \<times> exec_db" where
  "reap now x s =
     (let (reaped, d') = MarkTimeout (ex_ID x) now (milliseconds (time_sub now (sweepBase x))) (snd s)
      in (if reaped then fst s @ [(ex_TaskID x, AssetStatusAbnormal, ex_ID x)] else fst s, d'))"

definition sweepOnce :: "nat \<Rightarrow> ('c, 'g) task_engine \<Rightarrow> gotime \<Rightarrow> exec_db \<Rightarrow> (completion list \<times> exec_db) option" where
  "sweepOnce fuel e now d =
     (case staleExecutions fuel e now d of None \<Rightarrow> None | Some xs \<Rightarrow> Some (fold (reap now) xs ([], d)))"

subsection \<open>Executors, reporters and sweepers at work\<close>

text \<open>
  The table, the reports that are bound to a row and not yet written, and the completions published. A failed
  dispatch closes its row and is a step only when \<open>failing\<close>; a sweeper may reap whatever it read before.
\<close>

type_synonym exec_sys = "exec_db \<times> (Execution \<times> int \<times> TaskReportPayload) list \<times> completion list"

inductive exec_step :: "bool \<Rightarrow> exec_sys \<Rightarrow> exec_sys \<Rightarrow> bool" for failing where
  es_start: "exec_step failing (d, bs, cs) (snd (StartDispatch node now req d), bs, cs)"
| es_failed: "failing \<Longrightarrow> exec_step failing (d, bs, cs) (snd (FinishDispatch now i (Some err) d), bs, cs @ [(taskID, AssetStatusAbnormal, i)])"
| es_bind: "bindTaskRef (tr_TaskRef p) d = Inr (x, taskID) \<Longrightarrow> exec_step failing (d, bs, cs) (d, (x, taskID, p) # bs, cs)"
| es_write: "write_report now p x taskID d = (res, d') \<Longrightarrow>
    exec_step failing (d, bs @ (x, taskID, p) # bs', cs) (d', bs @ bs', cs @ report_completion p res)"
| es_reap: "reap now x (cs, d) = (cs', d') \<Longrightarrow> exec_step failing (d, bs, cs) (d', bs, cs')"
| es_save: "RecordStore_Save now r d = (i, d') \<Longrightarrow> exec_step failing (d, bs, cs) (d', bs, cs @ [(xr_TaskID r, xr_Status r, i)])"
| es_purge: "exec_step failing (d, bs, cs) (DeleteExecutionsOlderThan before d, bs, cs)"

abbreviation closed_id :: "completion \<Rightarrow> int" where
  "closed_id c \<equiv> snd (snd c)"

definition exec_ok :: "exec_db \<Rightarrow> completion list \<Rightarrow> bool" where
  "exec_ok d cs \<longleftrightarrow> distinct (map ex_ID (db_rows d)) \<and> 0 < db_next d \<and> (\<forall>x\<in>set (db_rows d). 0 < ex_ID x \<and> ex_ID x < db_next d) \<and>
     distinct (map closed_id cs) \<and> (\<forall>c\<in>set cs. closed_id c < db_next d) \<and>
     (\<forall>x\<in>set (db_rows d). ex_Status x \<noteq> StatusRunning \<longleftrightarrow> ex_ID x \<in> closed_id ` set cs)"

lemma statuses [simp]:
  "StatusTimeout \<noteq> StatusRunning" "StatusSuccess \<noteq> StatusRunning" "StatusFailed \<noteq> StatusRunning" "StatusUnknown \<noteq> StatusRunning"
  by (simp_all add: StatusTimeout_def StatusSuccess_def StatusFailed_def StatusUnknown_def StatusRunning_def)

lemma exec_ok_create:
  assumes "exec_ok d cs"
  shows "ex_Status x = StatusRunning \<Longrightarrow> exec_ok (snd (exec_Create now x d)) cs"
    "ex_Status x \<noteq> StatusRunning \<Longrightarrow> exec_ok (snd (exec_Create now x d)) (cs @ [(t, st, db_next d)])"
  using assms by (auto simp: exec_ok_def exec_Create_def)

lemma update_none: "fst (update_where P f d) = 0 \<Longrightarrow> snd (update_where P f d) = d"
proof -
  assume "fst (update_where P f d) = 0"
  then have "map (\<lambda>x. if P x then f x else x) (db_rows d) = db_rows d" by (intro map_idI) (auto simp: update_where_def filter_empty_conv)
  then show ?thesis by (simp add: update_where_def)
qed

lemma update_fields:
  "db_next (snd (update_where P f d)) = db_next d"
  "y \<in> set (db_rows (snd (update_where P f d))) \<longleftrightarrow> (\<exists>x\<in>set (db_rows d). y = (if P x then f x else x))"
  "fst (update_where P f d) > 0 \<longleftrightarrow> (\<exists>x\<in>set (db_rows d). P x)"
  by (auto simp: update_where_def filter_empty_conv)

lemma update_ids: "(\<And>x. ex_ID (f x) = ex_ID x) \<Longrightarrow> map ex_ID (db_rows (snd (update_where P f d))) = map ex_ID (db_rows d)"
  by (simp add: update_where_def)

lemma exec_ok_update:
  assumes "exec_ok d cs" "\<And>x. ex_ID (f x) = ex_ID x" "distinct (map closed_id cs')" "\<forall>c\<in>set cs'. closed_id c < db_next d"
    "\<And>x. x \<in> set (db_rows d) \<Longrightarrow> ex_Status (if P x then f x else x) \<noteq> StatusRunning \<longleftrightarrow> ex_ID x \<in> closed_id ` set cs'"
  shows "exec_ok (snd (update_where P f d)) cs'"
  unfolding exec_ok_def update_fields(1) update_ids [OF assms(2)]
proof (intro conjI ballI)
  fix y assume "y \<in> set (db_rows (snd (update_where P f d)))"
  then obtain x where x: "x \<in> set (db_rows d)" "y = (if P x then f x else x)" unfolding update_fields(2) by blast
  then have "ex_ID y = ex_ID x" using assms(2) by simp
  then show "0 < ex_ID y" "ex_ID y < db_next d" "ex_Status y \<noteq> StatusRunning \<longleftrightarrow> ex_ID y \<in> closed_id ` set cs'"
    using x assms(1) assms(5) [OF x(1)] by (simp_all add: exec_ok_def)
qed (use assms(1,3,4) in \<open>auto simp: exec_ok_def\<close>)

lemma exec_ok_touch:
  assumes "exec_ok d cs" "\<And>x. ex_ID (f x) = ex_ID x" "\<And>x. P x \<Longrightarrow> ex_Status (f x) = StatusRunning \<and> ex_Status x = StatusRunning"
  shows "exec_ok (snd (update_where P f d)) cs"
proof (rule exec_ok_update [OF assms(1,2)])
  show "ex_Status (if P x then f x else x) \<noteq> StatusRunning \<longleftrightarrow> ex_ID x \<in> closed_id ` set cs" if "x \<in> set (db_rows d)" for x
  proof -
    have "ex_Status x \<noteq> StatusRunning \<longleftrightarrow> ex_ID x \<in> closed_id ` set cs" using assms(1) that by (simp add: exec_ok_def)
    then show ?thesis using assms(3) [of x] by (cases "P x") simp_all
  qed
qed (use assms(1) in \<open>simp_all add: exec_ok_def\<close>)

lemma exec_ok_close:
  assumes "exec_ok d cs" "\<And>x. ex_ID (f x) = ex_ID x" "\<And>x. ex_Status (f x) \<noteq> StatusRunning"
    "fst (update_where (\<lambda>x. ex_ID x = i \<and> ex_Status x = StatusRunning) f d) > 0"
  shows "exec_ok (snd (update_where (\<lambda>x. ex_ID x = i \<and> ex_Status x = StatusRunning) f d)) (cs @ [(t, st, i)])"
proof -
  obtain y where y: "y \<in> set (db_rows d)" "ex_ID y = i" "ex_Status y = StatusRunning" using assms(4) unfolding update_fields(3) by blast
  then have new: "i \<notin> closed_id ` set cs" "i < db_next d" using assms(1) by (auto simp: exec_ok_def)
  have only: "z = y" if "z \<in> set (db_rows d)" "ex_ID z = i" for z
    using assms(1) that y(1,2) by (auto simp: exec_ok_def distinct_map inj_on_def)
  show ?thesis
  proof (rule exec_ok_update [OF assms(1,2)])
    fix x assume x: "x \<in> set (db_rows d)"
    show "ex_Status (if ex_ID x = i \<and> ex_Status x = StatusRunning then f x else x) \<noteq> StatusRunning \<longleftrightarrow> ex_ID x \<in> closed_id ` set (cs @ [(t, st, i)])"
      using only [OF x] y assms(1,3) x by (cases "ex_ID x = i") (auto simp: exec_ok_def)
  qed (use assms(1) new in \<open>auto simp: exec_ok_def\<close>)
qed

lemma report_update_fields:
  "ex_ID (report_update tm terminal st p y) = ex_ID y" "ex_Status (report_update tm terminal st p y) = st"
  by (simp_all add: report_update_def Let_def)

text \<open>A report that finds no running row to write cannot have been applied.\<close>

lemma reload_none:
  assumes "fst (update_where (\<lambda>y. ex_ID y = i \<and> ex_Status y = StatusRunning) f d) = 0"
  shows "reload_error i d \<noteq> None"
proof -
  have "ex_Status y \<noteq> StatusRunning" if "exec_Get i d = Some y" for y
    using that assms by (auto simp: exec_Get_def find_Some_iff update_where_def filter_empty_conv)
  then show ?thesis by (auto simp: reload_error_def split: option.splits)
qed

text \<open>What writing a report comes to: nothing, an update of the row that is running, or a new row.\<close>

lemma write_report_cases:
  assumes "write_report now p x taskID d = (res, d')"
  obtains (dropped) "d' = d" "report_completion p res = []"
  | (updated) st tm where "fst (update_where (\<lambda>y. ex_ID y = ex_ID x \<and> ex_Status y = StatusRunning) (report_update tm (st \<noteq> StatusRunning) st p) d) > 0"
      "d' = snd (update_where (\<lambda>y. ex_ID y = ex_ID x \<and> ex_Status y = StatusRunning) (report_update tm (st \<noteq> StatusRunning) st p) d)"
      "report_completion p res = (if st = StatusRunning then [] else [(taskID, report_asset_status p, ex_ID x)])"
  | (external) x' where "d' = snd (exec_Create now x' d)"
      "report_completion p res = (if ex_Status x' = StatusRunning then [] else [(taskID, report_asset_status p, db_next d)])"
proof (cases "(ex_ID x > 0 \<and> ex_Status x \<noteq> StatusRunning) \<or> reportExecStatus (tr_Status p) = None")
  case True
  then have "\<exists>err. write_report now p x taskID d = (Inl err, d)"
    by (cases "ex_ID x > 0 \<and> ex_Status x \<noteq> StatusRunning") (auto simp: write_report_def)
  then show thesis using assms by (intro dropped) (auto simp: report_completion_def)
next
  case False
  then obtain st where st: "reportExecStatus (tr_Status p) = Some st" by blast
  define tm where "tm = reportTimes x p (st \<noteq> StatusRunning) now"
  define upd where "upd = update_where (\<lambda>y. ex_ID y = ex_ID x \<and> ex_Status y = StatusRunning) (report_update tm (st \<noteq> StatusRunning) st p) d"
  show thesis
  proof (cases "ex_ID x > 0")
    case row: True
    then have w: "write_report now p x taskID d = (case (if fst upd = 0 then reload_error (ex_ID x) (snd upd) else None) of
        Some err \<Rightarrow> Inl err
      | None \<Rightarrow> Inr \<lparr>rr_TaskID = taskID, rr_ExecID = ex_ID x, rr_Terminal = (st \<noteq> StatusRunning), rr_Applied = True\<rparr>, snd upd)"
      using False st by (simp add: write_report_def tm_def upd_def Let_def split: prod.splits)
    show thesis
    proof (cases "fst upd = 0")
      case True
      then have "snd upd = d" unfolding upd_def by (rule update_none)
      moreover obtain err where "reload_error (ex_ID x) d = Some err" using reload_none True unfolding upd_def by blast
      ultimately show thesis using w assms True by (intro dropped) (simp_all add: report_completion_def)
    next
      case written: False
      then have "d' = snd upd" "report_completion p res = (if st = StatusRunning then [] else [(taskID, report_asset_status p, ex_ID x)])"
        using w assms by (auto simp: report_completion_def)
      then show thesis using written unfolding upd_def by (intro updated [of tm st]) simp_all
    qed
  next
    case new: False
    let ?x = "external_execution p taskID st (st \<noteq> StatusRunning) tm"
    have "ex_Status ?x = st" by (simp add: external_execution_def Let_def)
    moreover have "d' = snd (exec_Create now ?x d)" "report_completion p res = (if st = StatusRunning then [] else [(taskID, report_asset_status p, db_next d)])"
      using assms st new by (auto simp: write_report_def Let_def tm_def report_completion_def exec_Create_def split: prod.splits)
    ultimately show thesis by (intro external [of ?x]) simp_all
  qed
qed

lemma exec_ok_write:
  assumes "exec_ok d cs" "write_report now p x taskID d = (res, d')"
  shows "exec_ok d' (cs @ report_completion p res)"
  using assms(2)
proof (cases rule: write_report_cases)
  case dropped
  then show ?thesis using assms(1) by simp
next
  case (updated st tm)
  show ?thesis
  proof (cases "st = StatusRunning")
    case True
    have "exec_ok d' cs" unfolding updated(2) by (rule exec_ok_touch [OF assms(1)]) (simp_all add: report_update_fields True)
    then show ?thesis using True updated(3) by simp
  next
    case False
    have "exec_ok d' (cs @ [(taskID, report_asset_status p, ex_ID x)])" unfolding updated(2)
      by (rule exec_ok_close [OF assms(1)]) (use False updated(1) in \<open>simp_all add: report_update_fields\<close>)
    then show ?thesis using False updated(3) by simp
  qed
next
  case (external x')
  then show ?thesis using exec_ok_create [OF assms(1)] by (cases "ex_Status x' = StatusRunning") simp_all
qed

definition timed_out :: "gotime \<Rightarrow> Execution \<Rightarrow> Execution \<Rightarrow> Execution" where
  "timed_out now x y = y\<lparr>ex_Status := StatusTimeout, ex_FinishedAt := Some now, ex_Duration := milliseconds (time_sub now (sweepBase x))\<rparr>"

lemma reap_eq:
  "reap now x (cs, d) =
    (if fst (update_where (\<lambda>y. ex_ID y = ex_ID x \<and> ex_Status y = StatusRunning) (timed_out now x) d) > 0
     then cs @ [(ex_TaskID x, AssetStatusAbnormal, ex_ID x)] else cs,
     snd (update_where (\<lambda>y. ex_ID y = ex_ID x \<and> ex_Status y = StatusRunning) (timed_out now x) d))"
  by (simp add: reap_def MarkTimeout_def timed_out_def [abs_def] Let_def case_prod_beta)

lemma exec_ok_reap:
  assumes "exec_ok d cs" "reap now x (cs, d) = (cs', d')"
  shows "exec_ok d' cs'"
proof -
  define upd where "upd = update_where (\<lambda>y. ex_ID y = ex_ID x \<and> ex_Status y = StatusRunning) (timed_out now x) d"
  have r: "d' = snd upd" "cs' = (if fst upd > 0 then cs @ [(ex_TaskID x, AssetStatusAbnormal, ex_ID x)] else cs)"
    using assms(2) by (simp_all add: reap_eq upd_def)
  show ?thesis
  proof (cases "fst upd > 0")
    case True
    then have "exec_ok (snd upd) (cs @ [(ex_TaskID x, AssetStatusAbnormal, ex_ID x)])"
      unfolding upd_def by (intro exec_ok_close [OF assms(1)]) (simp_all add: timed_out_def)
    with True show ?thesis by (simp add: r)
  next
    case False
    then have "snd upd = d" unfolding upd_def by (intro update_none) simp
    with False show ?thesis using assms(1) by (simp add: r)
  qed
qed

lemma exec_step_ok: "exec_step False (d, bs, cs) (d', bs', cs') \<Longrightarrow> exec_ok d cs \<Longrightarrow> exec_ok d' cs'"
proof (erule exec_step.cases, goal_cases)
  case (1 d bs cs node now req)
  then show ?case by (simp add: StartDispatch_def exec_ok_create(1))
next
  case (6 now r d i d' bs cs)
  have "ex_Status (record_execution r) \<noteq> StatusRunning" by (simp add: record_execution_def ExecutionStatusFromAsset_def)
  from exec_ok_create(2) [OF _ this] 6 show ?case by (auto simp: RecordStore_Save_def exec_Create_def)
next
  case (7 d bs cs before)
  then show ?case by (auto simp: exec_ok_def DeleteExecutionsOlderThan_def distinct_map_filter)
qed (auto intro: exec_ok_write exec_ok_reap)

lemma exec_reach_ok: "(exec_step False)\<^sup>*\<^sup>* (empty_db, [], []) (d, bs, cs) \<Longrightarrow> exec_ok d cs"
proof (induction "(d, bs, cs)" arbitrary: d bs cs rule: rtranclp_induct)
  case base
  show ?case by (simp add: exec_ok_def empty_db_def)
next
  case (step y)
  then show ?case by (cases y) (blast intro: exec_step_ok)
qed

text \<open>A row that is closed, and its place in the table, are left alone by reports and sweepers.\<close>

lemma guarded_update:
  "x \<in> set (db_rows d) \<Longrightarrow> ex_Status x \<noteq> StatusRunning \<Longrightarrow>
   x \<in> set (db_rows (snd (update_where (\<lambda>y. ex_ID y = i \<and> ex_Status y = StatusRunning) f d)))"
  unfolding update_fields(2) by (rule bexI [of _ x]) simp_all

lemma step_keeps_closed:
  assumes "exec_step False (d, bs, cs) (d', bs', cs')" "x \<in> set (db_rows d)" "ex_Status x \<noteq> StatusRunning" "\<exists>y\<in>set (db_rows d'). ex_ID y = ex_ID x" "exec_ok d cs"
  shows "x \<in> set (db_rows d')"
  using assms(1)
proof (cases rule: exec_step.cases)
  case (es_write now p y taskID res bs0 bs1)
  from es_write(4) show ?thesis
    by (cases rule: write_report_cases) (use assms(2) guarded_update [OF assms(2,3)] in \<open>simp_all add: exec_Create_def\<close>)
next
  case (es_reap now y)
  from es_reap(2) show ?thesis unfolding reap_eq prod.inject using guarded_update [OF assms(2,3)] by blast
next
  case (es_purge before)
  then obtain y where "y \<in> set (db_rows d)" "ex_ID y = ex_ID x" "y \<in> set (db_rows d')" using assms(4) by (auto simp: DeleteExecutionsOlderThan_def)
  then have "y = x" using assms(2,5) by (auto simp: exec_ok_def distinct_map inj_on_def)
  then show ?thesis using \<open>y \<in> set (db_rows d')\<close> by simp
qed (use assms(2) in \<open>auto simp: StartDispatch_def RecordStore_Save_def exec_Create_def\<close>)

subsection \<open>A sweep\<close>

definition running_rows :: "exec_db \<Rightarrow> Execution list" where
  "running_rows d = filter (\<lambda>x. ex_Status x = StatusRunning) (rev (db_rows d))"

lemma query_running:
  assumes "1 \<le> page" "page * 100 \<le> max_int"
  shows "exec_Query running_query page sweepPageSize d = (page_of page 100 (running_rows d), int (length (running_rows d)))"
proof -
  have "query_matches running_query = (\<lambda>x. ex_Status x = StatusRunning)"
    by (auto simp: query_matches_def running_query_def StatusRunning_def)
  then show ?thesis using assms by (simp add: exec_Query_def Clamp_def ClampSize_def sweepPageSize_def running_rows_def Let_def)
qed

lemma stale_loop_all:
  assumes "1 \<le> page" "int (length (running_rows d)) \<le> (page - 1 + int fuel) * 100" "0 < fuel" "(page - 1 + int fuel) * 100 \<le> max_int"
  shows "stale_loop fuel e now d page (filter (is_stale e now) (take (nat ((page - 1) * 100)) (running_rows d))) =
    Some (filter (is_stale e now) (running_rows d))"
  using assms
proof (induction fuel arbitrary: page)
  case (Suc fuel)
  let ?L = "running_rows d"
  have p: "page * 100 \<le> max_int" using Suc.prems by (simp add: algebra_simps)
  let ?next = "filter (is_stale e now) (take (nat (page * 100)) ?L)"
  have app: "filter (is_stale e now) (take (nat ((page - 1) * 100)) ?L) @ filter (is_stale e now) (page_of page 100 ?L) = ?next"
    using page_of_pages [OF Suc.prems(1) _ p, of ?L] by (metis filter_append zero_less_numeral)
  show ?case
  proof (cases "int (length (page_of page 100 ?L)) < 100 \<or> page * 100 \<ge> int (length ?L)")
    case True
    have "length (page_of page 100 ?L) = min 100 (length ?L - nat ((page - 1) * 100))"
      using offset_wrap [OF Suc.prems(1) _ p] by (simp add: page_of_def)
    then have "length ?L \<le> nat (page * 100)" using True Suc.prems(1) by (auto simp: algebra_simps)
    then have "?next = filter (is_stale e now) ?L" by simp
    then show ?thesis using True app query_running [OF Suc.prems(1) p] by (simp add: sweepPageSize_def)
  next
    case False
    then have "fuel > 0" using Suc.prems(2) by (cases fuel) (auto simp: algebra_simps)
    then have "stale_loop fuel e now d (page + 1) (filter (is_stale e now) (take (nat ((page + 1 - 1) * 100)) ?L)) = Some (filter (is_stale e now) ?L)"
      using Suc.prems by (intro Suc.IH) (simp_all add: algebra_simps)
    then show ?thesis using False app query_running [OF Suc.prems(1) p] by (simp add: sweepPageSize_def)
  qed
qed simp

abbreviation swept :: "gotime \<Rightarrow> Execution set \<Rightarrow> exec_db \<Rightarrow> exec_db" where
  "swept now X d \<equiv> d\<lparr>db_rows := map (\<lambda>x. if x \<in> X then timed_out now x x else x) (db_rows d)\<rparr>"

lemma reap_row:
  assumes "distinct (map ex_ID (db_rows d))" "x \<in> set (db_rows d)" "ex_Status x = StatusRunning"
  shows "reap now x (cs, d) = (cs @ [(ex_TaskID x, AssetStatusAbnormal, ex_ID x)], swept now {x} d)"
proof -
  have only: "ex_ID y = ex_ID x \<and> ex_Status y = StatusRunning \<longleftrightarrow> y = x" if "y \<in> set (db_rows d)" for y
    using assms that by (auto simp: distinct_map inj_on_def)
  then have "fst (update_where (\<lambda>y. ex_ID y = ex_ID x \<and> ex_Status y = StatusRunning) (timed_out now x) d) > 0"
    unfolding update_fields(3) using assms(2) by blast
  moreover have "snd (update_where (\<lambda>y. ex_ID y = ex_ID x \<and> ex_Status y = StatusRunning) (timed_out now x) d) = swept now {x} d"
    using only by (auto simp: update_where_def)
  ultimately show ?thesis by (simp add: reap_eq)
qed

lemma reap_rows:
  assumes "distinct (map ex_ID (db_rows d))" "distinct xs" "set xs \<subseteq> {x \<in> set (db_rows d). ex_Status x = StatusRunning}"
  shows "fold (reap now) xs (cs, d) = (cs @ map (\<lambda>x. (ex_TaskID x, AssetStatusAbnormal, ex_ID x)) xs, swept now (set xs) d)"
  using assms
proof (induction xs arbitrary: cs d)
  case (Cons x xs)
  let ?d = "swept now {x} d"
  have ids: "map ex_ID (db_rows ?d) = map ex_ID (db_rows d)" by (simp add: timed_out_def)
  have t: "ex_Status (timed_out now y z) \<noteq> StatusRunning" for y z by (simp add: timed_out_def)
  have "set xs \<subseteq> {y \<in> set (db_rows ?d). ex_Status y = StatusRunning}" using Cons.prems by (auto intro!: image_eqI)
  then have "fold (reap now) xs (cs @ [(ex_TaskID x, AssetStatusAbnormal, ex_ID x)], ?d) =
      (cs @ [(ex_TaskID x, AssetStatusAbnormal, ex_ID x)] @ map (\<lambda>x. (ex_TaskID x, AssetStatusAbnormal, ex_ID x)) xs, swept now (set xs) ?d)"
    using Cons.prems ids by (subst Cons.IH) (simp_all only: append_assoc distinct.simps)
  moreover have "timed_out now x x \<notin> set xs" using Cons.prems(3) t [of x x] by auto
  then have "map (\<lambda>y. if y \<in> set xs then timed_out now y y else y) (map (\<lambda>y. if y \<in> {x} then timed_out now y y else y) ys) =
      map (\<lambda>y. if y \<in> set (x # xs) then timed_out now y y else y) ys" for ys by (induction ys) simp_all
  then have "swept now (set xs) ?d = swept now (set (x # xs)) d" by simp
  moreover have "reap now x (cs, d) = (cs @ [(ex_TaskID x, AssetStatusAbnormal, ex_ID x)], ?d)" using Cons.prems by (intro reap_row) auto
  ultimately show ?case by simp
qed simp

subsection \<open>Run handles\<close>

text \<open>
  A run handle with a hexadecimal letter is not taken for the number of a task. The claim of
  \<^verbatim>\<open>newRunID\<close> that 32 digits are beyond the range of 64 bits overlooks leading zeros.
\<close>

lemma parse_digits_bad: "c \<in> set ds \<Longrightarrow> digit_val c = None \<Longrightarrow> parse_digits n ds = None"
  by (induction n ds rule: parse_digits.induct) (auto split: option.splits)

lemma handle_not_number:
  assumes "c \<in> set ref" "c \<in> set ''abcdef''"
  shows "Atoi ref = None" "Atoi (replicate 31 CHR ''0'' @ ''5'') = Some 5"
proof -
  have c: "digit_val c = None" "c \<noteq> CHR ''-''" "c \<noteq> CHR ''+''" using assms(2) by (auto simp: digit_val_def)
  then have "c \<in> set (tl ref)" if "ref \<noteq> []" "hd ref = CHR ''-'' \<or> hd ref = CHR ''+''" using assms(1) that by (cases ref) auto
  then show "Atoi ref = None" using parse_digits_bad [OF _ c(1)] assms(1) by (auto simp: Atoi_def Let_def)
  show "Atoi (replicate 31 CHR ''0'' @ ''5'') = Some 5" by code_simp
qed

subsection \<open>An execution to try things on\<close>

definition remote_request :: ExecutionRequest where
  "remote_request = \<lparr>er_ID = 7, er_TenantID = 0, er_AssetID = 0, er_ExecutorName = ''http'', er_RunID = ''ab1'', er_TriggerType = ''schedule'',
     er_TriggeredAt = 0\<rparr>"

definition remote_report :: TaskReportPayload where
  "remote_report = \<lparr>tr_Kind = ''task_status'', tr_TaskRef = ''ab1'', tr_Status = ''completed'', tr_StartedAt = 0, tr_FinishedAt = 0,
     tr_Output = ''ok'', tr_Error = [], tr_TenantID = 0\<rparr>"

definition sent :: exec_db where
  "sent = snd (StartDispatch ''node'' 0 remote_request empty_db)"

definition reported :: exec_db where
  "reported = snd (ApplyTaskReport time_Second remote_report sent)"

lemma reach_reported: "(exec_step failing)\<^sup>*\<^sup>* (empty_db, [], []) (reported, [], [(7, AssetStatusNormal, 1)])"
proof -
  obtain x where x: "bindTaskRef ''ab1'' sent = Inr (x, 7)" "report_completion remote_report (fst (write_report time_Second remote_report x 7 sent)) =
      [(7, AssetStatusNormal, 1)]"
  proof -
    have "case bindTaskRef ''ab1'' sent of Inl _ \<Rightarrow> False | Inr (x, t) \<Rightarrow> t = 7 \<and>
        report_completion remote_report (fst (write_report time_Second remote_report x 7 sent)) = [(7, AssetStatusNormal, 1)]" by code_simp
    then show thesis using that by (auto split: sum.splits)
  qed
  have ref: "tr_TaskRef remote_report = ''ab1''" by (simp add: remote_report_def)
  then have r: "reported = snd (write_report time_Second remote_report x 7 sent)" using x(1) by (simp add: reported_def ApplyTaskReport_def)
  have "(exec_step failing)\<^sup>*\<^sup>* (empty_db, [], []) (sent, [], [])" unfolding sent_def by (rule r_into_rtranclp) (rule es_start)
  also have "exec_step failing (sent, [], []) (sent, [(x, 7, remote_report)], [])" by (rule es_bind) (simp add: ref x(1))
  also (rtranclp.rtrancl_into_rtrancl) have "exec_step failing (sent, [(x, 7, remote_report)], []) (reported, [], [(7, AssetStatusNormal, 1)])"
    using es_write [of time_Second remote_report x 7 sent "fst (write_report time_Second remote_report x 7 sent)" reported failing "[]" "[]" "[]"]
    by (simp add: r x(2))
  finally (rtranclp.rtrancl_into_rtrancl) show ?thesis .
qed

subsection \<open>Properties\<close>

text \<open>C27. As long as no dispatch fails, an execution is closed once and for all, however dispatches, reports, local records,
  sweeps and the purging of old rows interleave: a completion is published for a row exactly when it
  leaves the state running, at most one for each row, and a closed row is never changed again, only purged.
  In particular a late report and a late sweep do not undo each other.\<close>

theorem closed_once:
  assumes "(exec_step False)\<^sup>*\<^sup>* (empty_db, [], []) (d, bs, cs)"
  shows "distinct (map closed_id cs) \<and> (\<forall>x\<in>set (db_rows d). ex_Status x \<noteq> StatusRunning \<longleftrightarrow> ex_ID x \<in> closed_id ` set cs) \<and>
    (\<forall>d' bs' cs'. \<forall>x\<in>set (db_rows d). exec_step False (d, bs, cs) (d', bs', cs') \<and> ex_Status x \<noteq> StatusRunning \<and>
       (\<exists>y\<in>set (db_rows d'). ex_ID y = ex_ID x) \<longrightarrow> x \<in> set (db_rows d'))"
proof (intro conjI allI ballI impI)
  note ok = exec_reach_ok [OF assms]
  show "distinct (map closed_id cs)" using ok by (simp add: exec_ok_def)
  show "ex_Status x \<noteq> StatusRunning \<longleftrightarrow> ex_ID x \<in> closed_id ` set cs" if "x \<in> set (db_rows d)" for x using ok that by (simp add: exec_ok_def)
  show "x \<in> set (db_rows d')" if "x \<in> set (db_rows d)"
    "exec_step False (d, bs, cs) (d', bs', cs') \<and> ex_Status x \<noteq> StatusRunning \<and> (\<exists>y\<in>set (db_rows d'). ex_ID y = ex_ID x)" for d' bs' cs' x
    using step_keeps_closed [of d bs cs d' bs' cs' x] that ok by blast
qed

theorem closed_once_witness:
  "map ex_Status (db_rows reported) = [StatusSuccess] \<and> map closed_id [(7 :: int, AssetStatusNormal, 1 :: int)] = map ex_ID (db_rows reported)"
proof -
  have f: "length (db_rows reported) = 1" "ex_ID (db_rows reported ! 0) = 1" "map ex_Status (db_rows reported) = [StatusSuccess]" by code_simp+
  then have "db_rows reported ! 0 \<in> set (db_rows reported)" by simp
  then have "ex_Status (db_rows reported ! 0) \<noteq> StatusRunning" using closed_once [OF reach_reported] f(2) by fastforce
  then show ?thesis using f by (cases "db_rows reported") auto
qed

text \<open>C28. A sweep closes exactly the executions that are overdue: those running whose trigger, or start, is
  longer ago than the timeout of their task, at least thirty seconds, and five minutes of grace. No other row is touched, and a completion
  is published for the task of each, the most recent execution first. The scan over pages ends: one round per hundred rows,
  and one more, is enough.\<close>

theorem sweep_exact:
  assumes "distinct (map ex_ID (db_rows d))" "int (length (running_rows d)) \<le> int fuel * 100" "0 < fuel" "int fuel * 100 \<le> max_int"
  shows "sweepOnce fuel e now d =
    Some (map (\<lambda>x. (ex_TaskID x, AssetStatusAbnormal, ex_ID x)) (filter (is_stale e now) (running_rows d)),
      d\<lparr>db_rows := map (\<lambda>x. if ex_Status x = StatusRunning \<and> is_stale e now x then timed_out now x x else x) (db_rows d)\<rparr>)"
proof -
  have st: "staleExecutions fuel e now d = Some (filter (is_stale e now) (running_rows d))"
    using stale_loop_all [of 1 d fuel e now] assms by (simp add: staleExecutions_def)
  have "distinct (filter (is_stale e now) (running_rows d))" using assms(1) by (auto simp: running_rows_def distinct_map)
  moreover have "set (filter (is_stale e now) (running_rows d)) \<subseteq> {x \<in> set (db_rows d). ex_Status x = StatusRunning}"
    by (auto simp: running_rows_def)
  ultimately have "fold (reap now) (filter (is_stale e now) (running_rows d)) ([], d) =
      (map (\<lambda>x. (ex_TaskID x, AssetStatusAbnormal, ex_ID x)) (filter (is_stale e now) (running_rows d)), swept now (set (filter (is_stale e now) (running_rows d))) d)"
    using reap_rows [OF assms(1)] by simp
  moreover have "map (\<lambda>x. if x \<in> set (filter (is_stale e now) (running_rows d)) then timed_out now x x else x) (db_rows d) =
      map (\<lambda>x. if ex_Status x = StatusRunning \<and> is_stale e now x then timed_out now x x else x) (db_rows d)"
    by (rule map_cong) (simp_all add: running_rows_def)
  ultimately show ?thesis using st by (simp only: sweepOnce_def option.case)
qed

theorem sweep_exact_witness:
  "sweepOnce 1 (NewTaskEngine () :: (unit, unit) task_engine) (331 * time_Second) sent =
     Some ([(7, AssetStatusAbnormal, 1)], sent\<lparr>db_rows := map (\<lambda>x. timed_out (331 * time_Second) x x) (db_rows sent)\<rparr>)"
proof -
  let ?e = "NewTaskEngine () :: (unit, unit) task_engine"
  have f: "distinct (map ex_ID (db_rows sent))" "length (running_rows sent) = 1"
    "map (\<lambda>x. (ex_TaskID x, AssetStatusAbnormal, ex_ID x)) (filter (is_stale ?e (331 * time_Second)) (running_rows sent)) = [(7, AssetStatusAbnormal, 1)]"
    "list_all (\<lambda>x. ex_Status x = StatusRunning \<and> is_stale ?e (331 * time_Second) x) (db_rows sent)" by code_simp+
  have "sweepOnce 1 ?e (331 * time_Second) sent = Some ([(7, AssetStatusAbnormal, 1)],
      sent\<lparr>db_rows := map (\<lambda>x. if ex_Status x = StatusRunning \<and> is_stale ?e (331 * time_Second) x then timed_out (331 * time_Second) x x else x) (db_rows sent)\<rparr>)"
    using sweep_exact [OF f(1), of 1 ?e "331 * time_Second"] f(2,3) by (simp add: max_int_def)
  then show ?thesis using f(4) by (simp add: list_all_iff cong: map_cong)
qed

text \<open>A dispatch that fails after its report undoes it. The remote executor has reported success and the
  completion is published; when the request that started it then runs into its timeout, the row is
  overwritten without regard to its state and a second completion, a failure, is published for the same
  execution, which also releases the slot of a run of the task that may have started meanwhile.\<close>

theorem failed_dispatch_overwrites:
  "let late = snd (FinishDispatch (2 * time_Second) 1 (Some (DeadlineExceeded ''timeout'')) reported)
   in (exec_step True)\<^sup>*\<^sup>* (empty_db, [], []) (late, [], [(7, AssetStatusNormal, 1), (7, AssetStatusAbnormal, 1)]) \<and>
      map ex_Status (db_rows reported) = [StatusSuccess] \<and> map ex_Status (db_rows late) = [StatusTimeout]"
  unfolding Let_def
proof (intro conjI)
  let ?late = "snd (FinishDispatch (2 * time_Second) 1 (Some (DeadlineExceeded ''timeout'')) reported)"
  have "exec_step True (reported, [], [(7, AssetStatusNormal, 1)]) (?late, [], [(7, AssetStatusNormal, 1)] @ [(7, AssetStatusAbnormal, 1)])"
    by (rule es_failed) simp
  with reach_reported show "(exec_step True)\<^sup>*\<^sup>* (empty_db, [], []) (?late, [], [(7, AssetStatusNormal, 1), (7, AssetStatusAbnormal, 1)])"
    by (auto intro: rtranclp.rtrancl_into_rtrancl)
  show "map ex_Status (db_rows reported) = [StatusSuccess]" "map ex_Status (db_rows ?late) = [StatusTimeout]" by code_simp+
qed

end
