(* ===== verification/Runner.thy ===== *)
theory Runner
  imports Executions Retry
begin

text \<open>
  The executor runner, \<^verbatim>\<open>pkg/executor\<close>: \<^verbatim>\<open>capability.go\<close>, \<^verbatim>\<open>operation.go\<close>,
  \<^verbatim>\<open>registry.go\<close>, \<^verbatim>\<open>runner.go\<close>, \<^verbatim>\<open>lifecycle.go\<close>, \<^verbatim>\<open>dispatchvars.go\<close> and
  \<^verbatim>\<open>judgment.go\<close>. It takes a triggered event from the bus, runs the executor with retries, writes the
  row of the execution and publishes its completion. What the executor returns at each call, the
  judgment of an expression, the clock and the ends of the context are arguments; so is whether a
  callback of the time wheel is delivered. A row is written to the table of \<^verbatim>\<open>Executions\<close>.
\<close>

unbundle bit_operations_syntax

subsection \<open>Capabilities and the registry\<close>

type_synonym Capability = "64 word"

definition CapProbe :: Capability where "CapProbe = 1"
definition CapExec :: Capability where "CapExec = 2"
definition CapMutate :: Capability where "CapMutate = 4"
definition CapNotify :: Capability where "CapNotify = 8"
definition CapWrite :: Capability where "CapWrite = CapExec OR CapMutate OR CapNotify"

definition HasCap :: "Capability \<Rightarrow> Capability \<Rightarrow> bool" where
  "HasCap caps c \<longleftrightarrow> caps AND c = c"

definition HasWrite :: "Capability \<Rightarrow> bool" where
  "HasWrite caps \<longleftrightarrow> caps AND CapWrite \<noteq> 0"

definition IsDualMode :: "Capability \<Rightarrow> bool" where
  "IsDualMode caps \<longleftrightarrow> caps AND CapProbe \<noteq> 0 \<and> caps AND CapWrite \<noteq> 0"

definition isSupportedBy :: "int \<Rightarrow> Capability \<Rightarrow> bool" where
  "isSupportedBy oper caps = (if oper = OpProbe then HasCap caps CapProbe else if oper = OpExecute then HasWrite caps else False)"

definition ParseOperation :: "string \<Rightarrow> int option" where
  "ParseOperation s = (if s = ''execute'' then Some OpExecute else if s = ''probe'' then Some OpProbe else None)"

text \<open>An executor is known by its name and its capabilities.\<close>

type_synonym Registry = "string \<rightharpoonup> Capability"

datatype registry_error = ErrExecutorAlreadyRegistered | ErrExecutorNotFound | ErrCapabilityNotSupported

fun registry_error_msg :: "registry_error \<Rightarrow> string" where
  "registry_error_msg ErrExecutorAlreadyRegistered = ''executor: executor already registered''"
| "registry_error_msg ErrExecutorNotFound = ''executor: executor not found''"
| "registry_error_msg ErrCapabilityNotSupported = ''executor does not support the requested operation''"

definition registry_Register :: "string \<Rightarrow> Capability \<Rightarrow> Registry \<Rightarrow> registry_error option \<times> Registry" where
  "registry_Register name caps g =
     (case g name of Some _ \<Rightarrow> (Some ErrExecutorAlreadyRegistered, g) | None \<Rightarrow> (None, g(name \<mapsto> caps)))"

definition Lookup :: "string \<Rightarrow> Registry \<Rightarrow> registry_error + Capability" where
  "Lookup name g = (case g name of None \<Rightarrow> Inl ErrExecutorNotFound | Some caps \<Rightarrow> Inr caps)"

definition LookupWithOp :: "string \<Rightarrow> int \<Rightarrow> Registry \<Rightarrow> registry_error + Capability" where
  "LookupWithOp name oper g =
     (case Lookup name g of
        Inl err \<Rightarrow> Inl err
      | Inr caps \<Rightarrow> if \<not> isSupportedBy oper caps then Inl ErrCapabilityNotSupported else Inr caps)"

definition Unregister :: "string \<Rightarrow> Registry \<Rightarrow> registry_error option \<times> Registry" where
  "Unregister name g = (case g name of None \<Rightarrow> (Some ErrExecutorNotFound, g) | Some _ \<Rightarrow> (None, g(name := None)))"

definition NamesByCapability :: "Capability \<Rightarrow> Registry \<Rightarrow> string set" where
  "NamesByCapability c g = {name. \<exists>caps. g name = Some caps \<and> HasCap caps c}"

subsection \<open>Requests and results\<close>

record RunRequest = ExecutionRequest +
  rq_Config :: string
  rq_Operation :: int
  rq_Timeout :: duration
  rq_MaxRetries :: int
  rq_RetryInterval :: duration
  rq_ReportStatus :: bool
  rq_Metadata :: "(string \<rightharpoonup> string) option"
  rq_ExecutionID :: int

text \<open>The metrics of a result are left out.\<close>

record Result =
  rs_Status :: string
  rs_StatusCode :: int
  rs_ExitCode :: int
  rs_Body :: string
  rs_ErrorMsg :: string
  rs_Duration :: duration

text \<open>An error is known by its message and by whether it is the end of a deadline.\<close>

type_synonym exec_error = dispatch_error

datatype call = Returned "Result option" "exec_error option" | Panics string

record CompletedPayload =
  c_ExecutionID :: string
  c_TenantID :: string
  c_AssetID :: string
  c_Operation :: string
  c_Action :: string
  c_Status :: string
  c_Error :: string
  c_StatusCode :: int
  c_Output :: string
  c_Duration :: duration

text \<open>
  The runner: whether it is started and subscribed to the bus, the count of its wait group, the table of executions and the completions
  it has published.
\<close>

record runner =
  ru_started :: bool
  ru_sub :: bool
  ru_wg :: int
  ru_db :: exec_db
  ru_completed :: "(CompletedPayload \<times> (string \<rightharpoonup> string) option) list"

text \<open>
  The surroundings of one execution: what is configured, the clock when the trigger arrives, at the start, at
  the end and for the row, the outcome of the database and the bus, the answers of the executor, the judgment of
  expressions, and the ends of the context.
\<close>

record run_env =
  x_registry :: Registry
  x_bus :: bool
  x_dispatches :: bool
  x_records :: bool
  x_wheel :: bool
  x_node :: string
  x_triggered :: gotime
  x_start :: gotime
  x_duration :: duration
  x_finished :: gotime
  x_opened :: bool
  x_saved :: bool
  x_published :: bool
  x_call :: "nat \<Rightarrow> call"
  x_judge :: "string \<Rightarrow> Result \<Rightarrow> bool option"
  x_ctx :: "exec_error ctx_env"
  x_delivered :: "nat \<Rightarrow> bool"

subsection \<open>Dispatch variables and judgment\<close>

function ReplaceAll :: "string \<Rightarrow> string \<Rightarrow> string \<Rightarrow> string" where
  "ReplaceAll s old new =
     (if old = [] then s
      else case s of
        [] \<Rightarrow> []
      | c # cs \<Rightarrow> if HasPrefix s old then new @ ReplaceAll (drop (length old) s) old new else c # ReplaceAll cs old new)"
  by pat_completeness auto
termination by (relation "measure (\<lambda>(s, old, new). length s)") auto

declare ReplaceAll.simps [simp del]

fun Contains :: "string \<Rightarrow> string \<Rightarrow> bool" where
  "Contains [] sub \<longleftrightarrow> sub = []"
| "Contains (c # cs) sub \<longleftrightarrow> HasPrefix (c # cs) sub \<or> Contains cs sub"

definition dispatchVarTaskRef :: string where "dispatchVarTaskRef = ''{{task_ref}}''"

definition expandDispatchVars :: "string \<Rightarrow> string \<Rightarrow> string" where
  "expandDispatchVars config taskRef =
     (if \<not> Contains config ''{{'' then config else ReplaceAll config dispatchVarTaskRef taskRef)"

definition judgmentFailureNote :: string where "judgmentFailureNote = ''expression judged failure''"

definition appendJudgmentNote :: "string \<Rightarrow> string" where
  "appendJudgmentNote msg =
     (if msg = [] then judgmentFailureNote
      else if Contains msg judgmentFailureNote then msg
      else msg @ ''; '' @ judgmentFailureNote)"

text \<open>An expression that cannot be evaluated leaves the result as it is.\<close>

definition ApplyJudgment :: "(string \<Rightarrow> Result \<Rightarrow> bool option) \<Rightarrow> string \<Rightarrow> Result option \<Rightarrow> Result option" where
  "ApplyJudgment judge expression res =
     (if expression = [] then res
      else case res of
        None \<Rightarrow> None
      | Some r \<Rightarrow>
          (case judge expression r of
             None \<Rightarrow> Some r
           | Some True \<Rightarrow> Some (r\<lparr>rs_Status := AssetStatusNormal\<rparr>)
           | Some False \<Rightarrow> Some (r\<lparr>rs_Status := AssetStatusAbnormal, rs_ErrorMsg := appendJudgmentNote (rs_ErrorMsg r)\<rparr>)))"

subsection \<open>The end of an execution\<close>

record executionOutcome =
  oc_result :: "Result option"
  oc_execErr :: "exec_error option"
  oc_retryCount :: int

definition inferStatus :: "Result option \<Rightarrow> exec_error option \<Rightarrow> string \<times> string" where
  "inferStatus res err =
     (case err of
        Some e \<Rightarrow> (AssetStatusAbnormal, dispatch_error_msg e)
      | None \<Rightarrow> (case res of None \<Rightarrow> (AssetStatusAbnormal, []) | Some r \<Rightarrow> (rs_Status r, rs_ErrorMsg r)))"

definition completed_event :: "RunRequest \<Rightarrow> string \<Rightarrow> string \<Rightarrow> executionOutcome \<Rightarrow> CompletedPayload" where
  "completed_event req st msg oc =
     \<lparr>c_ExecutionID = FormatInt (er_ID req), c_TenantID = FormatInt (er_TenantID req), c_AssetID = FormatInt (er_AssetID req),
      c_Operation = Operation_String (rq_Operation req), c_Action = ''completed'', c_Status = st, c_Error = msg,
      c_StatusCode = (case oc_result oc of None \<Rightarrow> 0 | Some r \<Rightarrow> rs_StatusCode r),
      c_Output = (case oc_result oc of None \<Rightarrow> [] | Some r \<Rightarrow> rs_Body r),
      c_Duration = (case oc_result oc of None \<Rightarrow> 0 | Some r \<Rightarrow> rs_Duration r)\<rparr>"

definition publishCompleted :: "run_env \<Rightarrow> RunRequest \<Rightarrow> string \<Rightarrow> string \<Rightarrow> executionOutcome \<Rightarrow> runner \<Rightarrow> runner" where
  "publishCompleted x req st msg oc r =
     (if \<not> x_bus x \<or> \<not> x_published x then r
      else r\<lparr>ru_completed := ru_completed r @ [(completed_event req st msg oc, rq_Metadata req)]\<rparr>)"

definition is_deadline :: "exec_error option \<Rightarrow> bool" where
  "is_deadline err = (case err of Some (DeadlineExceeded _) \<Rightarrow> True | _ \<Rightarrow> False)"

definition run_record :: "run_env \<Rightarrow> RunRequest \<Rightarrow> string \<Rightarrow> string \<Rightarrow> executionOutcome \<Rightarrow> ExecutionRecord" where
  "run_record x req st msg oc =
     \<lparr>xr_TaskID = er_ID req, xr_TenantID = er_TenantID req, xr_AssetID = er_AssetID req, xr_ExecutorName = er_ExecutorName req,
      xr_Status = st, xr_TimedOut = is_deadline (oc_execErr oc),
      xr_StatusCode = (case oc_result oc of None \<Rightarrow> 0 | Some r \<Rightarrow> rs_StatusCode r),
      xr_Output = (case oc_result oc of None \<Rightarrow> [] | Some r \<Rightarrow> rs_Body r), xr_ErrorMsg = msg, xr_Duration = x_duration x,
      xr_RetryCount = oc_retryCount oc, xr_StartedAt = x_start x, xr_TriggeredAt = er_TriggeredAt req, xr_FinishedAt = x_finished x,
      xr_RunID = er_RunID req, xr_TriggerType = er_TriggerType req, xr_Node = x_node x,
      xr_ExitCode = (case oc_result oc of None \<Rightarrow> 0 | Some r \<Rightarrow> rs_ExitCode r)\<rparr>"

definition dispatchErr :: "executionOutcome \<Rightarrow> exec_error option" where
  "dispatchErr oc =
     (let (st, msg) = inferStatus (oc_result oc) (oc_execErr oc)
      in case oc_execErr oc of
           Some e \<Rightarrow> Some e
         | None \<Rightarrow> if st \<noteq> AssetStatusNormal then Some (DispatchFailed (''dispatch failed: '' @ msg)) else None)"

definition finishDispatched :: "run_env \<Rightarrow> RunRequest \<Rightarrow> executionOutcome \<Rightarrow> runner \<Rightarrow> runner" where
  "finishDispatched x req oc r =
     (let (st, msg) = inferStatus (oc_result oc) (oc_execErr oc);
          (publish, d) = FinishDispatch (x_finished x) (rq_ExecutionID req) (dispatchErr oc) (ru_db r);
          r = r\<lparr>ru_db := d\<rparr>
      in if dispatchErr oc \<noteq> None \<and> publish then publishCompleted x req st msg oc r else r)"

text \<open>Whether the row of the execution was opened before the executor ran.\<close>

definition dispatched :: "run_env \<Rightarrow> RunRequest \<Rightarrow> bool" where
  "dispatched x req \<longleftrightarrow> rq_ReportStatus req \<and> x_dispatches x \<and> rq_ExecutionID req > 0"

definition finish :: "run_env \<Rightarrow> RunRequest \<Rightarrow> executionOutcome \<Rightarrow> runner \<Rightarrow> runner" where
  "finish x req oc r =
     (let (st, msg) = inferStatus (oc_result oc) (oc_execErr oc)
      in if dispatched x req then finishDispatched x req oc r
         else
           let r = (if x_records x \<and> x_saved x
                    then r\<lparr>ru_db := snd (RecordStore_Save (x_finished x) (run_record x req st msg oc) (ru_db r))\<rparr> else r)
           in publishCompleted x req st msg oc r)"

subsection \<open>Running\<close>

definition defaultExecutionTimeout :: duration where "defaultExecutionTimeout = 30 * time_Second"

definition exec_timeout :: "RunRequest \<Rightarrow> duration" where
  "exec_timeout req = (if rq_Timeout req \<le> 0 then defaultExecutionTimeout else rq_Timeout req)"

definition buildRetry :: "RunRequest \<Rightarrow> retry_error + exec_error Retry" where
  "buildRetry req =
     New_Retry (\<lambda>_. 0) [WithMaxAttempts (wrap64 (rq_MaxRetries req + 1)), WithBackoff (Some (FixedInterval_Next (rq_RetryInterval req)))]"

definition judged :: "run_env \<Rightarrow> RunRequest \<Rightarrow> Result option \<Rightarrow> Result option" where
  "judged x req res =
     ApplyJudgment (x_judge x) (case rq_Metadata req of None \<Rightarrow> [] | Some md \<Rightarrow> (case md ''expression'' of None \<Rightarrow> [] | Some s \<Rightarrow> s)) res"

text \<open>
  The error of the \<open>k\<close>-th call as the retry loop sees it. A panic leaves the loop at once, as a
  success does; the two are told apart afterwards.
\<close>

definition execFn :: "run_env \<Rightarrow> RunRequest \<Rightarrow> nat \<Rightarrow> exec_error option" where
  "execFn x req k =
     (case x_call x k of
        Panics _ \<Rightarrow> None
      | Returned res err \<Rightarrow>
          (case err of
             Some e \<Rightarrow> Some e
           | None \<Rightarrow>
               (case judged x req res of
                  None \<Rightarrow> None
                | Some r \<Rightarrow> if rs_Status r \<noteq> AssetStatusNormal then Some (DispatchFailed (''execution status abnormal: '' @ rs_Status r)) else None)))"

text \<open>The outcome after \<open>k\<close> calls, and the outcome of a panic.\<close>

definition outcome_after :: "run_env \<Rightarrow> RunRequest \<Rightarrow> nat \<Rightarrow> executionOutcome" where
  "outcome_after x req k =
     (if k = 0 then \<lparr>oc_result = None, oc_execErr = None, oc_retryCount = 0\<rparr>
      else case x_call x (k - 1) of
        Panics msg \<Rightarrow> \<lparr>oc_result = None, oc_execErr = Some (DispatchFailed (''executor panic: '' @ msg)), oc_retryCount = 0\<rparr>
      | Returned res err \<Rightarrow> \<lparr>oc_result = judged x req res, oc_execErr = err, oc_retryCount = int k - 1\<rparr>)"

definition panicked :: "run_env \<Rightarrow> nat \<Rightarrow> bool" where
  "panicked x k = (0 < k \<and> (case x_call x (k - 1) of Panics _ \<Rightarrow> True | Returned _ _ \<Rightarrow> False))"

definition release :: "runner \<Rightarrow> runner" where
  "release r = r\<lparr>ru_wg := ru_wg r - 1\<rparr>"

text \<open>
  With a wheel the attempts are its callbacks: a panic there is not recovered by \<^verbatim>\<open>doExecute\<close>,
  which has returned, and a callback that is not delivered ends the chain.
\<close>

definition runWithRetry :: "run_env \<Rightarrow> RunRequest \<Rightarrow> runner \<Rightarrow> runner" where
  "runWithRetry x req r =
     (case buildRetry req of
        Inl _ \<Rightarrow> release (finish x req (outcome_after x req 1) r)
      | Inr cfg \<Rightarrow>
          if x_wheel x then
            (case scheduleAttempt cfg (x_delivered x) (before (x_ctx x)) (execFn x req) 0 of
               (cs, k, _) \<Rightarrow>
                 if cs = [] \<or> panicked x k then r else release (finish x req (outcome_after x req k) r))
          else
            (case Do cfg (x_ctx x) (execFn x req) of (_, k, _) \<Rightarrow> release (finish x req (outcome_after x req k) r)))"

definition open_dispatch :: "run_env \<Rightarrow> RunRequest \<Rightarrow> runner \<Rightarrow> RunRequest \<times> runner" where
  "open_dispatch x req r =
     (if rq_ReportStatus req \<and> x_dispatches x then
        (if \<not> x_opened x then (req\<lparr>rq_ReportStatus := False\<rparr>, r)
         else
           let (i, d) = StartDispatch (x_node x) (x_start x) (ExecutionRequest.truncate req) (ru_db r)
           in (req\<lparr>rq_ExecutionID := i\<rparr>, r\<lparr>ru_db := d\<rparr>))
      else (req, r))"

definition doExecute :: "run_env \<Rightarrow> RunRequest \<Rightarrow> runner \<Rightarrow> runner" where
  "doExecute x req r =
     (let (req, r) = open_dispatch x req r;
          req = req\<lparr>rq_Config := expandDispatchVars (rq_Config req) (er_RunID req)\<rparr>
      in case LookupWithOp (er_ExecutorName req) (rq_Operation req) (x_registry x) of
           Inl err \<Rightarrow>
             release (finish x req \<lparr>oc_result = None, oc_execErr = Some (DispatchFailed (registry_error_msg err)), oc_retryCount = 0\<rparr> r)
         | Inr _ \<Rightarrow> runWithRetry x req r)"

definition run_request :: "run_env \<Rightarrow> ExecutionPayload \<Rightarrow> (string \<rightharpoonup> string) option \<Rightarrow> int \<Rightarrow> RunRequest" where
  "run_request x p md oper =
     \<lparr>er_ID = ParseInt_value (p_ExecutionID p), er_TenantID = ParseInt_value (p_TenantID p), er_AssetID = ParseInt_value (p_AssetID p),
      er_ExecutorName = p_ExecutorType p, er_RunID = p_RunID p, er_TriggerType = p_TriggerType p, er_TriggeredAt = x_triggered x,
      rq_Config = p_Config p, rq_Operation = oper, rq_Timeout = wrap64 (p_TimeoutSeconds p * time_Second),
      rq_MaxRetries = p_MaxRetries p, rq_RetryInterval = wrap64 (p_RetryIntervalSeconds p * time_Second),
      rq_ReportStatus = p_ReportStatus p, rq_Metadata = md, rq_ExecutionID = 0\<rparr>"

text \<open>The pool runs the job, or, when it refuses, the handler itself does.\<close>

definition run_dispatch :: "run_env \<Rightarrow> ExecutionPayload \<Rightarrow> (string \<rightharpoonup> string) option \<Rightarrow> runner \<Rightarrow> runner" where
  "run_dispatch x p md r =
     (case ParseOperation (p_Operation p) of
        None \<Rightarrow> r
      | Some oper \<Rightarrow>
          if \<not> ru_started r then r
          else doExecute x (run_request x p md oper) (r\<lparr>ru_wg := ru_wg r + 1\<rparr>))"

text \<open>
  \<^verbatim>\<open>Start\<close> fails without a bus. \<^verbatim>\<open>Stop\<close> succeeds when the executions under way end before its
  deadline. A trigger that arrives afterwards is dropped, and nothing is announced for it.
\<close>

definition runner_Start :: "bool \<Rightarrow> runner \<Rightarrow> bool \<times> runner" where
  "runner_Start bus r = (if ru_started r then (True, r) else if \<not> bus then (False, r) else (True, r\<lparr>ru_started := True\<rparr>))"

definition SubscribeEvents :: "bool \<Rightarrow> bool \<Rightarrow> runner \<Rightarrow> runner" where
  "SubscribeEvents bus accepted r = (if \<not> bus \<or> \<not> accepted then r else r\<lparr>ru_sub := True\<rparr>)"

definition runner_Stop :: "bool \<Rightarrow> runner \<Rightarrow> bool \<times> runner" where
  "runner_Stop drained r = (if \<not> ru_started r then (True, r) else (drained, r\<lparr>ru_started := False, ru_sub := False\<rparr>))"

lemma stopped_drops: "run_dispatch x p md (snd (runner_Stop drained r)) = snd (runner_Stop drained r)"
  by (simp add: run_dispatch_def runner_Stop_def split: option.split)

subsection \<open>What an execution leaves behind\<close>

text \<open>
  The \<open>k\<close>-th call succeeds; an execution succeeds when some call within the allowed number does and
  all earlier ones failed in a way that is retried.
\<close>

definition call_ok :: "run_env \<Rightarrow> RunRequest \<Rightarrow> nat \<Rightarrow> bool" where
  "call_ok x req k \<longleftrightarrow> fst (inferStatus (oc_result (outcome_after x req (Suc k))) (oc_execErr (outcome_after x req (Suc k)))) = AssetStatusNormal"

definition run_ok :: "run_env \<Rightarrow> RunRequest \<Rightarrow> bool" where
  "run_ok x req \<longleftrightarrow> (\<exists>k\<le>nat (rq_MaxRetries req). call_ok x req k \<and> (\<forall>j<k. execFn x req j \<noteq> None))"

definition run_failed :: "executionOutcome \<Rightarrow> bool" where
  "run_failed oc \<longleftrightarrow> fst (inferStatus (oc_result oc) (oc_execErr oc)) \<noteq> AssetStatusNormal"

lemma asset_statuses [simp]: "AssetStatusAbnormal \<noteq> AssetStatusNormal" "AssetStatusNormal \<noteq> AssetStatusAbnormal"
  by (simp_all add: AssetStatusAbnormal_def AssetStatusNormal_def)

lemma dispatchErr_None: "dispatchErr oc = None \<longleftrightarrow> \<not> run_failed oc"
  by (auto simp: dispatchErr_def run_failed_def inferStatus_def split: option.splits)

lemma deadline_failed: "is_deadline (oc_execErr oc) \<Longrightarrow> run_failed oc"
  by (auto simp: is_deadline_def run_failed_def inferStatus_def split: option.splits)

lemma call_ok_execFn: "call_ok x req k \<longleftrightarrow> execFn x req k = None \<and> (\<exists>res err. x_call x k = Returned res err \<and> judged x req res \<noteq> None)"
  by (auto simp: call_ok_def outcome_after_def execFn_def inferStatus_def split: call.splits option.splits)

lemma publish_fields [simp]:
  "ru_wg (publishCompleted x req st msg oc r) = ru_wg r" "ru_db (publishCompleted x req st msg oc r) = ru_db r"
  "ru_started (publishCompleted x req st msg oc r) = ru_started r"
  by (simp_all add: publishCompleted_def)

lemma run_finish_fields [simp]: "ru_wg (finish x req oc r) = ru_wg r" "ru_started (finish x req oc r) = ru_started r"
  by (simp_all add: finish_def finishDispatched_def case_prod_beta Let_def)

text \<open>The completions an execution with this outcome publishes.\<close>

definition announced :: "run_env \<Rightarrow> RunRequest \<Rightarrow> executionOutcome \<Rightarrow> (CompletedPayload \<times> (string \<rightharpoonup> string) option) list" where
  "announced x req oc =
     (if dispatched x req \<and> \<not> run_failed oc then []
      else [(completed_event req (fst (inferStatus (oc_result oc) (oc_execErr oc))) (snd (inferStatus (oc_result oc) (oc_execErr oc))) oc,
             rq_Metadata req)])"

lemma finish_completed:
  assumes "x_bus x" "x_published x"
  shows "ru_completed (finish x req oc r) = ru_completed r @ announced x req oc"
proof -
  have p: "ru_completed (publishCompleted x req st msg oc r) = ru_completed r @ [(completed_event req st msg oc, rq_Metadata req)]" for st msg r
    using assms by (simp add: publishCompleted_def)
  have "fst (FinishDispatch now i (Some e) d)" for now i e d by (simp add: FinishDispatch_def Let_def split: option.split)
  then show ?thesis using dispatchErr_None [of oc]
    by (auto simp: finish_def finishDispatched_def announced_def p case_prod_beta Let_def)
qed

text \<open>The row that a dispatch has opened, and the row of a local record.\<close>

lemma finish_dispatched_row:
  assumes "dispatched x req" "exec_Get (rq_ExecutionID req) (ru_db r) = Some y" "ex_Status y = StatusRunning"
  shows "\<exists>y. exec_Get (rq_ExecutionID req) (ru_db (finish x req oc r)) = Some y \<and> (ex_Status y = StatusRunning \<longleftrightarrow> \<not> run_failed oc)"
proof (cases "dispatchErr oc")
  case None
  then show ?thesis using assms dispatchErr_None [of oc] by (simp add: finish_def finishDispatched_def FinishDispatch_def Let_def case_prod_beta)
next
  case (Some e)
  let ?i = "rq_ExecutionID req"
  have find_map: "find (\<lambda>x. ex_ID x = ?i) (map (\<lambda>x. if ex_ID x = ?i then f x else x) rows) = map_option f (find (\<lambda>x. ex_ID x = ?i) rows)"
    if "\<And>x. ex_ID (f x) = ex_ID x" for f rows using that by (induction rows) auto
  have f: "run_failed oc" using Some dispatchErr_None [of oc] by simp
  then show ?thesis using assms(1,2) Some
    by (auto simp: finish_def finishDispatched_def FinishDispatch_def Let_def case_prod_beta exec_Get_def update_where_def find_map split: dispatch_error.splits)
qed

lemma find_last: "(\<And>y. y \<in> set ys \<Longrightarrow> \<not> P y) \<Longrightarrow> P z \<Longrightarrow> find P (ys @ [z]) = Some z"
  by (induction ys) simp_all

lemma Create_Get:
  assumes "\<forall>y\<in>set (db_rows d). ex_ID y < db_next d"
  shows "exec_Get (db_next d) (snd (exec_Create now y d)) = Some (y\<lparr>ex_ID := db_next d, ex_CreatedAt := now\<rparr>)"
  using assms by (simp add: exec_Get_def exec_Create_def) (rule find_last, auto)

lemma finish_record_row:
  assumes "\<not> dispatched x req" "x_records x" "x_saved x" "\<forall>y\<in>set (db_rows (ru_db r)). ex_ID y < db_next (ru_db r)"
  shows "\<exists>y. exec_Get (db_next (ru_db r)) (ru_db (finish x req oc r)) = Some y \<and> (ex_Status y = StatusSuccess \<longleftrightarrow> \<not> run_failed oc)"
proof -
  let ?st = "fst (inferStatus (oc_result oc) (oc_execErr oc))" and ?msg = "snd (inferStatus (oc_result oc) (oc_execErr oc))"
  have st: "ex_Status (record_execution (run_record x req ?st ?msg oc)) = StatusSuccess \<longleftrightarrow> \<not> run_failed oc"
    using deadline_failed [of oc]
    by (auto simp: record_execution_def run_record_def run_failed_def ExecutionStatusFromAsset_def StatusSuccess_def StatusTimeout_def StatusFailed_def StatusUnknown_def)
  have "ru_db (finish x req oc r) = snd (exec_Create (x_finished x) (record_execution (run_record x req ?st ?msg oc)) (ru_db r))"
    using assms(1-3) by (simp add: finish_def RecordStore_Save_def case_prod_beta Let_def)
  then show ?thesis using Create_Get [OF assms(4)] st by simp
qed

subsection \<open>The retry loop\<close>

text \<open>The outcome that a run without a wheel ends with.\<close>

definition run_outcome :: "run_env \<Rightarrow> RunRequest \<Rightarrow> executionOutcome" where
  "run_outcome x req =
     (case LookupWithOp (er_ExecutorName req) (rq_Operation req) (x_registry x) of
        Inl err \<Rightarrow> \<lparr>oc_result = None, oc_execErr = Some (DispatchFailed (registry_error_msg err)), oc_retryCount = 0\<rparr>
      | Inr _ \<Rightarrow>
          (case buildRetry req of
             Inl _ \<Rightarrow> outcome_after x req 1
           | Inr cfg \<Rightarrow> outcome_after x req (fst (snd (Do cfg (x_ctx x) (execFn x req))))))"

lemma buildRetry_ok:
  assumes "0 \<le> rq_MaxRetries req" "rq_MaxRetries req < max_int"
  obtains cfg where "buildRetry req = Inr cfg" "maxAttempts cfg = rq_MaxRetries req + 1" "\<And>e. retryable cfg e"
proof -
  have "wrap64 (rq_MaxRetries req + 1) = rq_MaxRetries req + 1" using assms by (intro wrap64_id) (simp_all add: min_int_def)
  then show thesis
    using assms by (intro that [of "\<lparr>maxAttempts = rq_MaxRetries req + 1, backoff = Some (FixedInterval_Next (rq_RetryInterval req)), retryable = \<lambda>_. True\<rparr>"])
      (simp_all add: buildRetry_def New_Retry_def)
qed

lemma Do_attempts:
  assumes "0 < maxAttempts r" "\<And>k. before ctx k = None" "\<And>k. during ctx k = None" "\<And>e. retryable r e"
  obtains k where "fst (snd (Do r ctx fn)) = Suc k" "int k < maxAttempts r" "\<forall>j<k. fn j \<noteq> None" "fn k = None \<or> int (Suc k) = maxAttempts r"
proof -
  obtain n where n: "nat (maxAttempts r) = Suc n" using assms(1) by (metis gr0_implies_Suc zero_less_nat_eq)
  then have "int 0 + int (Suc n) = maxAttempts r" using assms(1) by simp
  note l = Do_loop_free [where attempt = 0 and n = n and lastErr = None, OF assms(2,3) this]
  obtain res k ws where d: "Do_loop r ctx fn 0 (Suc n) None = (res, k, ws)" by (cases "Do_loop r ctx fn 0 (Suc n) None") auto
  from l [OF d] have f: "0 < k" "int k \<le> maxAttempts r" "\<forall>j<k - 1. fn j \<noteq> None" "fn (k - 1) = None \<or> int k = maxAttempts r"
    using n assms(4) by (fastforce, linarith, fastforce, fastforce)
  then show thesis using d n by (intro that [of "k - 1"]) (auto simp: Do_def)
qed

lemma run_outcome_ok:
  assumes "LookupWithOp (er_ExecutorName req) (rq_Operation req) (x_registry x) = Inr caps"
    "0 \<le> rq_MaxRetries req" "rq_MaxRetries req < max_int" "\<And>k. before (x_ctx x) k = None" "\<And>k. during (x_ctx x) k = None"
  shows "run_failed (run_outcome x req) \<longleftrightarrow> \<not> run_ok x req"
proof -
  obtain cfg where c: "buildRetry req = Inr cfg" "maxAttempts cfg = rq_MaxRetries req + 1" "\<And>e. retryable cfg e"
    using buildRetry_ok assms(2,3) by blast
  obtain k where k: "fst (snd (Do cfg (x_ctx x) (execFn x req))) = Suc k" "int k < maxAttempts cfg" "\<forall>j<k. execFn x req j \<noteq> None"
      "execFn x req k = None \<or> int (Suc k) = maxAttempts cfg"
    using Do_attempts [of cfg "x_ctx x" "execFn x req"] assms(2,4,5) c(2,3) by auto
  have last: "\<not> run_failed (run_outcome x req) \<longleftrightarrow> call_ok x req k"
    by (simp add: run_outcome_def assms(1) c(1) k(1) run_failed_def call_ok_def)
  have "call_ok x req k" if ok: "j \<le> nat (rq_MaxRetries req)" "call_ok x req j" "\<forall>l<j. execFn x req l \<noteq> None" for j
  proof -
    have "j = k" using ok k(2-4) c(2) call_ok_execFn [of x req j] by (cases j k rule: linorder_cases) auto
    then show ?thesis using ok by simp
  qed
  moreover have "k \<le> nat (rq_MaxRetries req)" using k(2) c(2) by simp
  ultimately show ?thesis using last k(3) unfolding run_ok_def by blast
qed

lemma doExecute_sync:
  assumes "\<not> x_wheel x"
  shows "doExecute x req r =
    (let (req', r') = open_dispatch x req r; req' = req'\<lparr>rq_Config := expandDispatchVars (rq_Config req') (er_RunID req')\<rparr>
     in release (finish x req' (run_outcome x req') r'))"
  using assms by (auto simp: doExecute_def run_outcome_def runWithRetry_def Let_def case_prod_beta split: sum.splits)

lemma judged_upd [simp]:
  "judged x (req\<lparr>rq_Config := c\<rparr>) = judged x req" "judged x (req\<lparr>rq_ExecutionID := i\<rparr>) = judged x req"
  "judged x (req\<lparr>rq_ReportStatus := b\<rparr>) = judged x req"
  by (simp_all add: judged_def [abs_def])

lemma attempts_cong: "judged x req' = judged x req \<Longrightarrow> execFn x req' = execFn x req" "judged x req' = judged x req \<Longrightarrow> outcome_after x req' = outcome_after x req"
  by (rule ext, simp only: execFn_def outcome_after_def)+

lemmas attempts_upd [simp] = judged_upd [THEN attempts_cong(1)] judged_upd [THEN attempts_cong(2)]

lemma run_ok_upd [simp]:
  "run_ok x (req\<lparr>rq_Config := c\<rparr>) = run_ok x req" "run_ok x (req\<lparr>rq_ExecutionID := i\<rparr>) = run_ok x req"
  "run_ok x (req\<lparr>rq_ReportStatus := b\<rparr>) = run_ok x req"
  by (simp_all add: run_ok_def call_ok_def)

text \<open>Whether the execution is reported remotely: its row is opened before it runs.\<close>

definition remote :: "run_env \<Rightarrow> ExecutionPayload \<Rightarrow> bool" where
  "remote x p \<longleftrightarrow> p_ReportStatus p \<and> x_dispatches x \<and> x_opened x"

lemma request_fields [simp]:
  "er_ID (run_request x p md oper) = ParseInt_value (p_ExecutionID p)" "er_ExecutorName (run_request x p md oper) = p_ExecutorType p"
  "rq_Operation (run_request x p md oper) = oper" "rq_MaxRetries (run_request x p md oper) = p_MaxRetries p"
  "rq_ReportStatus (run_request x p md oper) = p_ReportStatus p" "rq_Metadata (run_request x p md oper) = md"
  "rq_ExecutionID (run_request x p md oper) = 0"
  by (simp_all add: run_request_def)

lemma open_cases:
  assumes "open_dispatch x (run_request x p md oper) r = (req, r')"
  obtains (remote) i d where "remote x p" "StartDispatch (x_node x) (x_start x) (ExecutionRequest.truncate (run_request x p md oper)) (ru_db r) = (i, d)"
      "req = (run_request x p md oper)\<lparr>rq_ExecutionID := i\<rparr>" "r' = r\<lparr>ru_db := d\<rparr>"
  | (local_only) b where "\<not> remote x p" "req = (run_request x p md oper)\<lparr>rq_ReportStatus := b\<rparr>" "r' = r" "\<not> (b \<and> x_dispatches x)"
proof (cases "remote x p")
  case True
  then show thesis using assms that(1) by (auto simp: open_dispatch_def remote_def split: prod.splits)
next
  case False
  have same: "(run_request x p md oper)\<lparr>rq_ReportStatus := p_ReportStatus p\<rparr> = run_request x p md oper" by (simp add: run_request_def)
  show thesis
  proof (cases "p_ReportStatus p \<and> x_dispatches x")
    case True
    with False have "\<not> x_opened x" by (simp add: remote_def)
    with True assms have "req = (run_request x p md oper)\<lparr>rq_ReportStatus := False\<rparr>" "r' = r" by (simp_all add: open_dispatch_def)
    then show thesis using False by (intro that(2) [of False]) simp_all
  next
    case no: False
    with assms have "req = (run_request x p md oper)\<lparr>rq_ReportStatus := p_ReportStatus p\<rparr>" "r' = r" unfolding same by (simp_all add: open_dispatch_def)
    then show thesis using False no by (intro that(2) [of "p_ReportStatus p"]) simp_all
  qed
qed

lemma open_request:
  assumes "0 < db_next (ru_db r)" "open_dispatch x (run_request x p md oper) r = (req, r')"
  shows "dispatched x req \<longleftrightarrow> remote x p" "er_ExecutorName req = p_ExecutorType p" "rq_Operation req = oper" "rq_MaxRetries req = p_MaxRetries p"
    "er_ID req = ParseInt_value (p_ExecutionID p)" "rq_Metadata req = md" "run_ok x req \<longleftrightarrow> run_ok x (run_request x p md oper)"
    "ru_wg r' = ru_wg r" "ru_completed r' = ru_completed r" "\<not> remote x p \<Longrightarrow> ru_db r' = ru_db r"
  by (use assms(2) in \<open>cases rule: open_cases; use assms(1) in \<open>auto simp: dispatched_def remote_def StartDispatch_def exec_Create_def\<close>\<close>)+

lemma StartDispatch_row: "\<exists>y. StartDispatch node now req d = exec_Create now y d \<and> ex_Status y = StatusRunning"
  by (intro exI conjI, unfold StartDispatch_def, rule refl) simp

lemma open_row:
  assumes "\<forall>y\<in>set (db_rows (ru_db r)). ex_ID y < db_next (ru_db r)" "open_dispatch x (run_request x p md oper) r = (req, r')" "remote x p"
  shows "rq_ExecutionID req = db_next (ru_db r) \<and> (\<exists>y. exec_Get (db_next (ru_db r)) (ru_db r') = Some y \<and> ex_Status y = StatusRunning)"
proof -
  from assms(2) obtain i d where d: "StartDispatch (x_node x) (x_start x) (ExecutionRequest.truncate (run_request x p md oper)) (ru_db r) = (i, d)"
    and r: "req = (run_request x p md oper)\<lparr>rq_ExecutionID := i\<rparr>" "r' = r\<lparr>ru_db := d\<rparr>" by (cases rule: open_cases) (use assms(3) in auto)
  from d obtain y where "ex_Status y = StatusRunning" "exec_Create (x_start x) y (ru_db r) = (i, d)"
    using StartDispatch_row [of "x_node x" "x_start x" "ExecutionRequest.truncate (run_request x p md oper)" "ru_db r"] by auto
  then show ?thesis using Create_Get [OF assms(1), of "x_start x" y] by (auto simp: r exec_Create_def)
qed

text \<open>What a run without a wheel leaves behind, in terms of its outcome.\<close>

lemma run_sync:
  assumes "\<not> x_wheel x" "x_bus x" "x_published x" "0 < db_next (ru_db r)" "\<forall>y\<in>set (db_rows (ru_db r)). ex_ID y < db_next (ru_db r)"
    "run_failed (run_outcome x req') \<longleftrightarrow> \<not> ok"
    "open_dispatch x (run_request x p md oper) r = (req, r1)" "req' = req\<lparr>rq_Config := expandDispatchVars (rq_Config req) (er_RunID req)\<rparr>"
  shows "ru_wg (doExecute x (run_request x p md oper) r) = ru_wg r - 1"
    "ru_completed (doExecute x (run_request x p md oper) r) = ru_completed r @ announced x req' (run_outcome x req')"
    "remote x p \<or> x_records x \<and> x_saved x \<Longrightarrow> \<exists>y. exec_Get (db_next (ru_db r)) (ru_db (doExecute x (run_request x p md oper) r)) = Some y \<and>
       ((if remote x p then ex_Status y = StatusRunning else ex_Status y = StatusSuccess) \<longleftrightarrow> ok)"
proof -
  have e: "doExecute x (run_request x p md oper) r = release (finish x req' (run_outcome x req') r1)"
    by (simp add: doExecute_sync [OF assms(1)] assms(7,8) Let_def)
  note o = open_request [OF assms(4,7)]
  have d: "dispatched x req' \<longleftrightarrow> remote x p" using o(1) by (simp add: assms(8) dispatched_def)
  show "ru_wg (doExecute x (run_request x p md oper) r) = ru_wg r - 1" by (simp add: e release_def o(8))
  show "ru_completed (doExecute x (run_request x p md oper) r) = ru_completed r @ announced x req' (run_outcome x req')"
    using finish_completed [OF assms(2,3)] by (simp add: e release_def o(9))
  have db: "ru_db (release q) = ru_db q" for q by (simp add: release_def)
  show "\<exists>y. exec_Get (db_next (ru_db r)) (ru_db (doExecute x (run_request x p md oper) r)) = Some y \<and>
       ((if remote x p then ex_Status y = StatusRunning else ex_Status y = StatusSuccess) \<longleftrightarrow> ok)" if "remote x p \<or> x_records x \<and> x_saved x"
  proof (cases "remote x p")
    case True
    from open_row [OF assms(5,7) True] obtain y where "rq_ExecutionID req' = db_next (ru_db r)" "exec_Get (db_next (ru_db r)) (ru_db r1) = Some y"
      "ex_Status y = StatusRunning" by (auto simp: assms(8))
    with finish_dispatched_row [of x req' r1 y "run_outcome x req'"] d True assms(6) show ?thesis by (simp add: e db)
  next
    case False
    then have "ru_db r1 = ru_db r" using o(10) by simp
    with finish_record_row [of x req' r1 "run_outcome x req'"] d False assms(5,6) that show ?thesis by (simp add: e db)
  qed
qed

text \<open>Completions are only ever added.\<close>

lemma publish_prefix: "\<exists>cs. ru_completed (publishCompleted x req st msg oc r) = ru_completed r @ cs"
  by (simp add: publishCompleted_def)

lemma finish_prefix: "\<exists>cs. ru_completed (finish x req oc r) = ru_completed r @ cs"
  using publish_prefix [of x req _ _ oc "r\<lparr>ru_db := _\<rparr>"] publish_prefix [of x req _ _ oc r]
  by (auto simp: finish_def finishDispatched_def case_prod_beta Let_def)

lemma runWithRetry_prefix: "\<exists>cs. ru_completed (runWithRetry x req r) = ru_completed r @ cs"
  using finish_prefix [of x req _ r] by (auto simp: runWithRetry_def release_def split: sum.splits prod.splits)

lemma open_completed: "ru_completed (snd (open_dispatch x req r)) = ru_completed r"
  by (simp add: open_dispatch_def case_prod_beta Let_def)

lemma run_dispatch_prefix: "\<exists>cs. ru_completed (run_dispatch x p md r) = ru_completed r @ cs"
proof -
  have "\<exists>cs. ru_completed (doExecute x req q) = ru_completed q @ cs" for req q
    using runWithRetry_prefix [of x _ "snd (open_dispatch x req q)"] finish_prefix [of x _ _ "snd (open_dispatch x req q)"]
    by (auto simp: doExecute_def release_def case_prod_beta Let_def open_completed split: sum.splits)
  from this [of _ "r\<lparr>ru_wg := ru_wg r + 1\<rparr>"] show ?thesis by (auto simp: run_dispatch_def split: option.splits)
qed

text \<open>The effect of a trigger: the wait group, what is announced, and the row.\<close>

abbreviation seen :: "(CompletedPayload \<times> (string \<rightharpoonup> string) option) list \<Rightarrow> (string \<times> bool \<times> (string \<rightharpoonup> string) option) list" where
  "seen cs \<equiv> map (\<lambda>(c, m). (c_ExecutionID c, c_Status c = AssetStatusNormal, m)) cs"

lemma run_dispatch_sync:
  assumes "\<not> x_wheel x" "x_bus x" "x_published x" "ru_started r" "exec_ok (ru_db r) cs"
    "ParseOperation (p_Operation p) = Some oper" "LookupWithOp (p_ExecutorType p) oper (x_registry x) = Inr caps"
    "0 \<le> p_MaxRetries p" "p_MaxRetries p < max_int" "\<And>k. before (x_ctx x) k = None" "\<And>k. during (x_ctx x) k = None"
  shows "ru_wg (run_dispatch x p md r) = ru_wg r"
    "seen (ru_completed (run_dispatch x p md r)) = seen (ru_completed r) @
       (if remote x p \<and> run_ok x (run_request x p md oper) then []
        else [(FormatInt (ParseInt_value (p_ExecutionID p)), run_ok x (run_request x p md oper), md)])"
    "remote x p \<or> x_records x \<and> x_saved x \<Longrightarrow> \<exists>y. exec_Get (db_next (ru_db r)) (ru_db (run_dispatch x p md r)) = Some y \<and>
       ((if remote x p then ex_Status y = StatusRunning else ex_Status y = StatusSuccess) \<longleftrightarrow> run_ok x (run_request x p md oper))"
proof -
  let ?r = "r\<lparr>ru_wg := ru_wg r + 1\<rparr>"
  obtain req r1 where o: "open_dispatch x (run_request x p md oper) ?r = (req, r1)" by fastforce
  define req' where "req' = req\<lparr>rq_Config := expandDispatchVars (rq_Config req) (er_RunID req)\<rparr>"
  have db: "0 < db_next (ru_db ?r)" "\<forall>y\<in>set (db_rows (ru_db ?r)). ex_ID y < db_next (ru_db ?r)" using assms(5) by (auto simp: exec_ok_def)
  note f = open_request [OF db(1) o]
  have ok: "run_failed (run_outcome x req') \<longleftrightarrow> \<not> run_ok x (run_request x p md oper)"
    using run_outcome_ok [of req' x caps] assms(7-11) f by (simp add: req'_def)
  have d: "dispatched x req' \<longleftrightarrow> remote x p" using f(1) by (simp add: req'_def dispatched_def)
  have run: "run_dispatch x p md r = doExecute x (run_request x p md oper) ?r" by (simp add: run_dispatch_def assms(4,6))
  note q = run_sync [OF assms(1-3) db ok o req'_def]
  have ann: "seen (announced x req' (run_outcome x req')) =
      (if remote x p \<and> run_ok x (run_request x p md oper) then []
       else [(FormatInt (ParseInt_value (p_ExecutionID p)), run_ok x (run_request x p md oper), md)])"
    using ok d f(5,6) by (simp add: announced_def completed_event_def run_failed_def req'_def)
  show "ru_wg (run_dispatch x p md r) = ru_wg r" using q(1) by (simp add: run)
  show "seen (ru_completed (run_dispatch x p md r)) = seen (ru_completed r) @
       (if remote x p \<and> run_ok x (run_request x p md oper) then []
        else [(FormatInt (ParseInt_value (p_ExecutionID p)), run_ok x (run_request x p md oper), md)])"
    unfolding run q(2) map_append ann by simp
  show "\<exists>y. exec_Get (db_next (ru_db r)) (ru_db (run_dispatch x p md r)) = Some y \<and>
       ((if remote x p then ex_Status y = StatusRunning else ex_Status y = StatusSuccess) \<longleftrightarrow> run_ok x (run_request x p md oper))"
    if "remote x p \<or> x_records x \<and> x_saved x" using q(3) that by (simp add: run)
qed

subsection \<open>An execution to try things on\<close>

definition ok_result :: Result where
  "ok_result = \<lparr>rs_Status = AssetStatusNormal, rs_StatusCode = 200, rs_ExitCode = 0, rs_Body = ''ok'', rs_ErrorMsg = [], rs_Duration = 1\<rparr>"

text \<open>An executor whose first call fails and whose second one succeeds.\<close>

definition second_try :: run_env where
  "second_try = \<lparr>x_registry = [''http'' \<mapsto> CapProbe OR CapExec], x_bus = True, x_dispatches = True, x_records = True, x_wheel = False, x_node = ''node'',
     x_triggered = 0, x_start = 1, x_duration = 1, x_finished = 2, x_opened = True, x_saved = True, x_published = True,
     x_call = (\<lambda>k. if k = 0 then Returned None (Some (DispatchFailed ''refused'')) else Returned (Some ok_result) None),
     x_judge = (\<lambda>_ _. None), x_ctx = \<lparr>before = \<lambda>_. None, during = \<lambda>_. None\<rparr>, x_delivered = (\<lambda>_. True)\<rparr>"

definition triggered_payload :: ExecutionPayload where
  "triggered_payload = \<lparr>p_ExecutionID = ''7'', p_TenantID = ''0'', p_AssetID = ''0'', p_ExecutorType = ''http'', p_Operation = ''execute'',
     p_Action = ''triggered'', p_TimeoutSeconds = 30, p_MaxRetries = 1, p_RetryIntervalSeconds = 0, p_RunID = ''ab1'', p_TriggerType = ''schedule'',
     p_ReportStatus = False, p_Config = []\<rparr>"

definition idle_runner :: runner where
  "idle_runner = \<lparr>ru_started = True, ru_sub = True, ru_wg = 0, ru_db = empty_db, ru_completed = []\<rparr>"

lemma second_try_lookup: "LookupWithOp ''http'' OpExecute (x_registry second_try) = Inr (CapProbe OR CapExec)"
  by (simp add: second_try_def LookupWithOp_def Lookup_def isSupportedBy_def OpProbe_def OpExecute_def HasWrite_def CapProbe_def CapExec_def
      CapWrite_def CapMutate_def CapNotify_def)

lemma second_try_ok: "run_ok second_try (run_request second_try triggered_payload None OpExecute)"
proof -
  have "call_ok second_try (run_request second_try triggered_payload None OpExecute) 1"
    by (simp add: call_ok_def outcome_after_def second_try_def inferStatus_def judged_def ApplyJudgment_def ok_result_def)
  moreover have "execFn second_try (run_request second_try triggered_payload None OpExecute) 0 \<noteq> None" by (simp add: execFn_def second_try_def)
  ultimately show ?thesis unfolding run_ok_def by (intro exI [of _ 1]) (simp add: triggered_payload_def)
qed

lemma idle_ok: "exec_ok (ru_db idle_runner) []" by (simp add: idle_runner_def exec_ok_def empty_db_def)

subsection \<open>Properties\<close>



text \<open>With a time wheel, an executor that panics is lost. The attempts then run as callbacks of the
  wheel after \<^verbatim>\<open>doExecute\<close> has returned, so its recovery does not see the panic: the execution is
  neither recorded nor announced, the task keeps its mark of a running execution, and the wait group, which
  nothing takes down again, keeps \<^verbatim>\<open>Stop\<close> waiting until its deadline.\<close>

theorem async_panic_lost:
  assumes "x_wheel x" "x_delivered x 0" "before (x_ctx x) 0 = None" "x_call x 0 = Panics msg" "ru_started r" "\<not> p_ReportStatus p"
    "ParseOperation (p_Operation p) = Some oper" "LookupWithOp (p_ExecutorType p) oper (x_registry x) = Inr caps"
    "0 \<le> p_MaxRetries p" "p_MaxRetries p < max_int"
  shows "run_dispatch x p md r = r\<lparr>ru_wg := ru_wg r + 1\<rparr>"
proof -
  define req where "req = (run_request x p md oper)\<lparr>rq_Config := expandDispatchVars (rq_Config (run_request x p md oper)) (er_RunID (run_request x p md oper))\<rparr>"
  obtain cfg where c: "buildRetry req = Inr cfg" using buildRetry_ok [of req] assms(9,10) by (auto simp: req_def)
  have "execFn x req 0 = None" by (simp add: execFn_def assms(4))
  then have "scheduleAttempt cfg (x_delivered x) (before (x_ctx x)) (execFn x req) 0 = ([None], 1, [])"
    using assms(2,3) by (subst scheduleAttempt.simps) simp
  then have "runWithRetry x req q = q" for q using assms(1,4) by (simp add: runWithRetry_def c panicked_def)
  then show ?thesis
    using assms(5-8) by (simp add: run_dispatch_def doExecute_def open_dispatch_def Let_def req_def)
qed

theorem async_panic_lost_witness:
  "run_dispatch (second_try\<lparr>x_wheel := True, x_call := \<lambda>_. Panics ''nil map''\<rparr>) triggered_payload None idle_runner = idle_runner\<lparr>ru_wg := 1\<rparr>"
proof -
  let ?x = "second_try\<lparr>x_wheel := True, x_call := \<lambda>_. Panics ''nil map''\<rparr>"
  have "LookupWithOp ''http'' OpExecute (x_registry ?x) = Inr (CapProbe OR CapExec)" using second_try_lookup by simp
  then show ?thesis
    using async_panic_lost [of ?x "''nil map''" idle_runner triggered_payload OpExecute "CapProbe OR CapExec" None]
    by (simp add: second_try_def triggered_payload_def ParseOperation_def max_int_def idle_runner_def)
qed

end
