(* ===== verification/TaskService.thy ===== *)
theory TaskService
  imports TaskRecovery Runner
begin

text \<open>
  The task service, \<^verbatim>\<open>pkg/task/service.go\<close>, on the table of tasks of \<^verbatim>\<open>store.go\<close> and the
  coding of its list columns, \<^verbatim>\<open>pkg/db/comma.go\<close>. The service validates requests, assigns numbers,
  and hands tasks to the task engine, which writes them to the table; without an engine it writes them
  itself. Requests are atomic. JSON coding of the configuration and the metadata is a parameter, as are the
  quota, the registry and the table of assets. Errors of the database are left out, except for the listing
  that seeds the numbers. The statistics of executions are not modelled.
\<close>

subsection \<open>Lists in a column\<close>

definition commaList_Value :: "string list \<Rightarrow> string" where
  "commaList_Value xs = (if xs = [] then [] else Join xs '','')"

definition commaList_Scan :: "string \<Rightarrow> string list" where
  "commaList_Scan raw = (if raw = [] then [] else filter (\<lambda>s. s \<noteq> []) (map TrimSpace (Split raw CHR '','')))"

subsection \<open>The table of tasks\<close>

text \<open>How the configuration and the metadata read back after they were written as JSON.\<close>

record 'c json_coding =
  j_config :: "'c \<Rightarrow> 'c option"
  j_metadata :: "(string \<rightharpoonup> string) \<Rightarrow> (string \<rightharpoonup> string) option"

text \<open>
  A task as its row reads back: an empty column with a default gets the default, lists and JSON are coded, the
  operation has no column. Zero times would be set by the database layer; the service never passes one.
\<close>

definition stored_row :: "'c json_coding \<Rightarrow> 'c Task \<Rightarrow> 'c Task" where
  "stored_row j t = t\<lparr>t_Config := Option.bind (t_Config t) (j_config j), t_Metadata := Option.bind (t_Metadata t) (j_metadata j),
     t_TimeoutSeconds := (if t_TimeoutSeconds t = 0 then 30 else t_TimeoutSeconds t),
     t_Tags := commaList_Scan (commaList_Value (t_Tags t)),
     t_RetryPolicy := (if t_RetryPolicy t = [] then ''fixed'' else t_RetryPolicy t),
     t_CatchupPolicy := (if t_CatchupPolicy t = [] then CatchupPolicySkip else t_CatchupPolicy t), t_Operation := 0\<rparr>"

definition tasks_Get :: "int \<Rightarrow> 'c Task list \<Rightarrow> 'c Task option" where
  "tasks_Get i rows = find (\<lambda>t. t_ID t = i) rows"

text \<open>
  The columns that are not written, and therefore keep their value on a conflict: the creation time, the
  deletion mark and the watermark.
\<close>

definition keep_columns :: "'c Task \<Rightarrow> 'c Task \<Rightarrow> 'c Task" where
  "keep_columns old t = t\<lparr>t_LastScheduledAt := t_LastScheduledAt old, t_CreatedAt := t_CreatedAt old, t_DeletedAt := t_DeletedAt old\<rparr>"

definition tasks_Save :: "'c json_coding \<Rightarrow> 'c Task \<Rightarrow> 'c Task list \<Rightarrow> 'c Task list" where
  "tasks_Save j t rows =
     (if tasks_Get (t_ID t) rows = None then rows @ [(stored_row j t)\<lparr>t_LastScheduledAt := None, t_DeletedAt := None\<rparr>]
      else map (\<lambda>r. if t_ID r = t_ID t then keep_columns r (stored_row j t) else r) rows)"

definition tasks_Delete :: "int \<Rightarrow> 'c Task list \<Rightarrow> 'c Task list" where
  "tasks_Delete i rows = filter (\<lambda>t. t_ID t \<noteq> i) rows"

definition AdvanceScheduleWatermark :: "int \<Rightarrow> ltime \<Rightarrow> 'c Task list \<Rightarrow> 'c Task list" where
  "AdvanceScheduleWatermark i tm rows =
     map (\<lambda>t. if t_ID t = i \<and> (case t_LastScheduledAt t of None \<Rightarrow> True | Some wm \<Rightarrow> fst wm < fst tm)
              then t\<lparr>t_LastScheduledAt := Some tm\<rparr> else t) rows"

record ListOptions =
  lo_Group :: string
  lo_IDs :: "int list option"
  lo_Tags :: "string list"
  lo_NameLike :: string
  lo_AssetID :: int
  lo_ExcludeSynthetic :: bool

definition all_tasks :: ListOptions where
  "all_tasks = \<lparr>lo_Group = [], lo_IDs = None, lo_Tags = [], lo_NameLike = [], lo_AssetID = 0, lo_ExcludeSynthetic = False\<rparr>"

definition matchAnyTag :: "string list \<Rightarrow> string list \<Rightarrow> bool" where
  "matchAnyTag taskTags requested \<longleftrightarrow> requested = [] \<or> list_ex (\<lambda>r. r \<in> set taskTags) requested"

text \<open>Wildcards of \<^verbatim>\<open>LIKE\<close> are escaped; \<open>like\<close> is \<^verbatim>\<open>LIKE\<close> with the backslash as escape character.\<close>

fun likeEscape :: "string \<Rightarrow> string" where
  "likeEscape [] = []"
| "likeEscape (c # cs) =
     (if c = CHR 0x5C \<or> c = CHR ''%'' \<or> c = CHR ''_'' then CHR 0x5C # c # likeEscape cs else c # likeEscape cs)"

function like :: "string \<Rightarrow> string \<Rightarrow> bool" where
  "like [] s \<longleftrightarrow> s = []"
| "like (c # p) s \<longleftrightarrow>
     (if c = CHR ''%'' then like p s \<or> (if s = [] then False else like (c # p) (tl s))
      else if c = CHR 0x5C then (p \<noteq> [] \<and> s \<noteq> [] \<and> hd s = hd p \<and> like (tl p) (tl s))
      else s \<noteq> [] \<and> (c = CHR ''_'' \<or> hd s = c) \<and> like p (tl s))"
  by pat_completeness auto
termination by (relation "measure (\<lambda>(p, s). length p + length s)") auto

declare like.simps(2) [simp del]

definition name_like :: "string \<Rightarrow> string \<Rightarrow> bool" where
  "name_like needle name \<longleftrightarrow> like (''%'' @ likeEscape (ToLower needle) @ ''%'') (ToLower name)"

definition option_matches :: "ListOptions \<Rightarrow> 'c Task \<Rightarrow> bool" where
  "option_matches lo t \<longleftrightarrow>
     (lo_Group lo \<noteq> [] \<longrightarrow> t_Group t = lo_Group lo) \<and>
     (case lo_IDs lo of None \<Rightarrow> True | Some ids \<Rightarrow> t_ID t \<in> set ids) \<and>
     (lo_NameLike lo \<noteq> [] \<longrightarrow> name_like (lo_NameLike lo) (t_Name t)) \<and>
     (lo_AssetID lo > 0 \<longrightarrow> t_AssetID t = lo_AssetID lo) \<and>
     (lo_ExcludeSynthetic lo \<longrightarrow> t_ID t > 0)"

definition tasks_List :: "ListOptions \<Rightarrow> 'c Task list \<Rightarrow> 'c Task list" where
  "tasks_List lo rows = filter (\<lambda>t. matchAnyTag (t_Tags t) (lo_Tags lo)) (filter (option_matches lo) rows)"

definition tasks_Count :: "'c Task list \<Rightarrow> int" where
  "tasks_Count rows = int (length (filter (\<lambda>t. t_ID t > 0) rows))"

text \<open>What the task engine has written, applied to the table.\<close>

fun store_apply :: "'c json_coding \<Rightarrow> 'c store_op \<Rightarrow> 'c Task list \<Rightarrow> 'c Task list" where
  "store_apply j (StoreSave t) rows = tasks_Save j t rows"
| "store_apply j (StoreDelete i) rows = tasks_Delete i rows"
| "store_apply j (StoreAdvance i tm) rows = AdvanceScheduleWatermark i tm rows"

subsection \<open>The service\<close>

record ('c, 'g) task_service =
  sv_engine :: "('c, 'g) task_engine option"
  sv_rows :: "'c Task list"
  sv_nextID :: int
  sv_seeded :: bool
  sv_seedErr :: bool

record 'c service_env =
  sv_task :: "'c task_env"
  sv_registry :: "Registry option"
  sv_assets :: "(int \<Rightarrow> bool) option"
  sv_maxTasks :: int

datatype depends_error = DependsNegative | DependsCycle | DependsUnknown | DependsOutOfFuel

datatype svc_error =
    SvcInvalidRequest | SvcExecutorRequired | SvcExecutorType registry_error | SvcSchedule schedule_error | SvcIntervalTooSmall
  | SvcCatchup catchup_error | SvcDependsOn depends_error | SvcUnknownAsset | SvcQuotaExceeded | SvcTaskNotFound
  | SvcExecutionNotFound | SvcConflict task_error | SvcInternal

fun svc_status :: "svc_error \<Rightarrow> int" where
  "svc_status SvcQuotaExceeded = 409"
| "svc_status (SvcConflict _) = 409"
| "svc_status SvcTaskNotFound = 404"
| "svc_status SvcExecutionNotFound = 404"
| "svc_status SvcInternal = 500"
| "svc_status _ = 400"

fun mapError :: "task_error \<Rightarrow> svc_error" where
  "mapError ErrTaskNotFound = SvcTaskNotFound"
| "mapError ErrIntervalTooSmall = SvcIntervalTooSmall"
| "mapError ErrTaskAlreadyPaused = SvcConflict ErrTaskAlreadyPaused"
| "mapError ErrTaskNotPaused = SvcConflict ErrTaskNotPaused"
| "mapError _ = SvcInternal"

definition validateExecutorType :: "'c service_env \<Rightarrow> string \<Rightarrow> svc_error option" where
  "validateExecutorType sv ty =
     (case sv_registry sv of
        None \<Rightarrow> None
      | Some g \<Rightarrow> (case LookupWithOp ty OpExecute g of Inl err \<Rightarrow> Some (SvcExecutorType err) | Inr _ \<Rightarrow> None))"

definition validateSchedule :: "'c task_env \<Rightarrow> string \<Rightarrow> svc_error option" where
  "validateSchedule v schedule =
     (case ClassifySchedule (v_go v) schedule of
        (_, _, Some err) \<Rightarrow> Some (SvcSchedule err)
      | (st, interval, None) \<Rightarrow>
          if st \<noteq> ScheduleTypeInterval then None
          else if v_ceiling v \<le> 0 then None
          else if interval < wrap64 (v_ceiling v * time_Second) then Some SvcIntervalTooSmall
          else None)"

text \<open>The walk up the dependencies.\<close>

fun depends_loop :: "nat \<Rightarrow> 'c Task list \<Rightarrow> int list \<Rightarrow> int \<Rightarrow> depends_error option" where
  "depends_loop 0 rows visited cur = Some DependsOutOfFuel"
| "depends_loop (Suc n) rows visited cur =
     (if cur = 0 then None
      else if cur \<in> set visited then Some DependsCycle
      else case tasks_Get cur rows of
        None \<Rightarrow> Some DependsUnknown
      | Some t \<Rightarrow> depends_loop n rows (cur # visited) (t_DependsOn t))"

definition validateDependency :: "'c Task list \<Rightarrow> int \<Rightarrow> depends_error option" where
  "validateDependency rows dependsOn =
     (if dependsOn = 0 then None
      else if dependsOn < 0 then Some DependsNegative
      else depends_loop (length rows + 2) rows [] dependsOn)"

definition validateAsset :: "'c service_env \<Rightarrow> int \<Rightarrow> svc_error option" where
  "validateAsset sv assetID =
     (if assetID = 0 then None
      else case sv_assets sv of None \<Rightarrow> None | Some known \<Rightarrow> if known assetID then None else Some SvcUnknownAsset)"

text \<open>The first error, and the checks that a request to create and to update a task share.\<close>

fun first_error :: "'e option list \<Rightarrow> 'e option" where
  "first_error [] = None"
| "first_error (Some e # es) = Some e"
| "first_error (None # es) = first_error es"

definition check_task :: "'c service_env \<Rightarrow> 'c Task \<Rightarrow> svc_error option" where
  "check_task sv req =
     first_error [if t_ExecutorType req = [] then Some SvcExecutorRequired else None, validateExecutorType sv (t_ExecutorType req),
       validateSchedule (sv_task sv) (t_Schedule req), map_option SvcCatchup (ValidateCatchupConfig (t_CatchupPolicy req) (t_SleepWindows req))]"

definition validateCreateRequest :: "'c service_env \<Rightarrow> 'c Task option \<Rightarrow> 'c Task list \<Rightarrow> svc_error option" where
  "validateCreateRequest sv req rows =
     (case req of
        None \<Rightarrow> Some SvcInvalidRequest
      | Some t \<Rightarrow>
          first_error [check_task sv t, map_option SvcDependsOn (validateDependency rows (t_DependsOn t)), validateAsset sv (t_AssetID t)])"

text \<open>Numbers: the first call seeds the counter from the table; \<open>listed\<close> says whether the listing succeeded.\<close>

definition assignID :: "bool \<Rightarrow> ('c, 'g) task_service \<Rightarrow> int option \<times> ('c, 'g) task_service" where
  "assignID listed s =
     (let s1 = (if sv_seeded s then s
                else if \<not> listed then s\<lparr>sv_seeded := True, sv_seedErr := True\<rparr>
                else s\<lparr>sv_seeded := True, sv_nextID := fold (\<lambda>t m. max m (t_ID t)) (sv_rows s) 0\<rparr>)
      in if sv_seedErr s1 then (None, s1)
         else let i = wrap64 (sv_nextID s1 + 1) in (Some i, s1\<lparr>sv_nextID := i\<rparr>))"

text \<open>An operation of the engine: what it has written goes to the table.\<close>

definition with_engine ::
  "'c json_coding \<Rightarrow> ('c, 'g) task_engine \<Rightarrow> ('c, 'g) task_service \<Rightarrow> ('c, 'g) task_service" where
  "with_engine j e s = s\<lparr>sv_engine := Some (e\<lparr>te_store := []\<rparr>), sv_rows := fold (store_apply j) (te_store e) (sv_rows s)\<rparr>"

definition defaultTaskTimeoutSeconds :: int where "defaultTaskTimeoutSeconds = 30"

definition created_task :: "gotime \<Rightarrow> int \<Rightarrow> 'c Task \<Rightarrow> 'c Task" where
  "created_task now i req = req\<lparr>t_ID := i, t_CreatedAt := now, t_UpdatedAt := now,
     t_TimeoutSeconds := (if t_TimeoutSeconds req \<le> 0 then defaultTaskTimeoutSeconds else t_TimeoutSeconds req),
     t_CatchupPolicy := (if t_CatchupPolicy req = [] then CatchupPolicySkip else t_CatchupPolicy req), t_LastScheduledAt := None\<rparr>"

text \<open>Handing a task to the engine, or to the table when there is none.\<close>

definition put_task ::
  "'c json_coding \<Rightarrow> (('c, 'g) task_engine \<Rightarrow> task_error option \<times> ('c, 'g) task_engine) \<Rightarrow> 'c Task \<Rightarrow> ('c, 'g) task_service \<Rightarrow>
   (svc_error + 'c Task) \<times> ('c, 'g) task_service" where
  "put_task j oper t s =
     (case sv_engine s of
        Some e \<Rightarrow>
          (case oper e of
             (Some err, e') \<Rightarrow> (Inl (mapError err), with_engine j e' s)
           | (None, e') \<Rightarrow> (Inr t, with_engine j e' s))
      | None \<Rightarrow> (Inr t, s\<lparr>sv_rows := tasks_Save j t (sv_rows s)\<rparr>))"

definition CreateTask ::
  "'g engine_ops \<Rightarrow> 'c service_env \<Rightarrow> 'c json_coding \<Rightarrow> gotime \<Rightarrow> bool \<Rightarrow> 'c Task option \<Rightarrow> ('c, 'g) task_service \<Rightarrow>
   (svc_error + 'c Task) \<times> ('c, 'g) task_service" where
  "CreateTask ops sv j now listed req s =
     (case validateCreateRequest sv req (sv_rows s) of
        Some err \<Rightarrow> (Inl err, s)
      | None \<Rightarrow>
          if sv_maxTasks sv > 0 \<and> tasks_Count (sv_rows s) \<ge> sv_maxTasks sv then (Inl SvcQuotaExceeded, s)
          else
            (case assignID listed s of
               (None, s1) \<Rightarrow> (Inl SvcInternal, s1)
             | (Some i, s1) \<Rightarrow>
                 let t = created_task now i (the req) in put_task j (Register ops (sv_task sv) t) t s1))"

text \<open>\<open>windows\<close> says whether the request carries sleep windows at all.\<close>

definition updated_task :: "gotime \<Rightarrow> bool \<Rightarrow> 'c Task \<Rightarrow> 'c Task \<Rightarrow> 'c Task" where
  "updated_task now windows existing req = req\<lparr>t_ID := t_ID existing, t_TenantID := t_TenantID existing, t_AssetID := t_AssetID existing,
     t_Priority := t_Priority existing, t_DependsOn := t_DependsOn existing, t_Metadata := t_Metadata existing,
     t_TimeoutSeconds := (if t_TimeoutSeconds req \<le> 0 then t_TimeoutSeconds existing else t_TimeoutSeconds req),
     t_CatchupPolicy := (if t_CatchupPolicy req \<noteq> [] then t_CatchupPolicy req
                         else if t_CatchupPolicy existing \<noteq> [] then t_CatchupPolicy existing else CatchupPolicySkip),
     t_SleepWindows := (if windows then t_SleepWindows req else t_SleepWindows existing),
     t_LastScheduledAt := t_LastScheduledAt existing, t_CreatedAt := t_CreatedAt existing, t_UpdatedAt := now\<rparr>"

definition UpdateTask ::
  "'g engine_ops \<Rightarrow> 'c service_env \<Rightarrow> 'c json_coding \<Rightarrow> gotime \<Rightarrow> bool \<Rightarrow> int \<Rightarrow> 'c Task option \<Rightarrow> ('c, 'g) task_service \<Rightarrow>
   (svc_error + 'c Task) \<times> ('c, 'g) task_service" where
  "UpdateTask ops sv j now windows i req s =
     (case req of
        None \<Rightarrow> (Inl SvcInvalidRequest, s)
      | Some rq \<Rightarrow>
          (case check_task sv rq of
             Some err \<Rightarrow> (Inl err, s)
           | None \<Rightarrow>
               (case tasks_Get i (sv_rows s) of
                  None \<Rightarrow> (Inl SvcTaskNotFound, s)
                | Some existing \<Rightarrow>
                    let t = updated_task now windows existing rq in put_task j (Update ops (sv_task sv) t) t s)))"

definition DeleteTask ::
  "'g engine_ops \<Rightarrow> 'c service_env \<Rightarrow> 'c json_coding \<Rightarrow> int \<Rightarrow> ('c, 'g) task_service \<Rightarrow> ('c, 'g) task_service" where
  "DeleteTask ops sv j i s =
     (case sv_engine s of
        Some e \<Rightarrow> with_engine j (Unschedule ops (sv_task sv) i e) s
      | None \<Rightarrow> s\<lparr>sv_rows := tasks_Delete i (sv_rows s)\<rparr>)"

text \<open>A call of the engine whose only result is an error.\<close>

definition engine_call ::
  "'c json_coding \<Rightarrow> (('c, 'g) task_engine \<Rightarrow> task_error option \<times> ('c, 'g) task_engine) \<Rightarrow> ('c, 'g) task_engine \<Rightarrow>
   ('c, 'g) task_service \<Rightarrow> svc_error option \<times> ('c, 'g) task_service" where
  "engine_call j oper e s = (case oper e of (err, e') \<Rightarrow> (map_option mapError err, with_engine j e' s))"

definition TriggerTask ::
  "'c service_env \<Rightarrow> 'c json_coding \<Rightarrow> gotime \<Rightarrow> int \<Rightarrow> ('c, 'g) task_service \<Rightarrow> svc_error option \<times> ('c, 'g) task_service" where
  "TriggerTask sv j now i s =
     (case tasks_Get i (sv_rows s) of
        None \<Rightarrow> (Some SvcTaskNotFound, s)
      | Some _ \<Rightarrow>
          (case sv_engine s of None \<Rightarrow> (None, s) | Some e \<Rightarrow> engine_call j (Schedule_task (sv_task sv) now i) e s))"

definition setEnabled :: "'c json_coding \<Rightarrow> int \<Rightarrow> bool \<Rightarrow> ('c, 'g) task_service \<Rightarrow> svc_error option \<times> ('c, 'g) task_service" where
  "setEnabled j i enabled s =
     (case tasks_Get i (sv_rows s) of
        None \<Rightarrow> (Some SvcTaskNotFound, s)
      | Some t \<Rightarrow> (None, s\<lparr>sv_rows := tasks_Save j (t\<lparr>t_Enabled := enabled\<rparr>) (sv_rows s)\<rparr>))"

definition PauseTask ::
  "'g engine_ops \<Rightarrow> 'c service_env \<Rightarrow> 'c json_coding \<Rightarrow> int \<Rightarrow> ('c, 'g) task_service \<Rightarrow> svc_error option \<times> ('c, 'g) task_service" where
  "PauseTask ops sv j i s =
     (case sv_engine s of None \<Rightarrow> setEnabled j i False s | Some e \<Rightarrow> engine_call j (Pause ops (sv_task sv) i) e s)"

definition ResumeTask ::
  "'g engine_ops \<Rightarrow> 'c service_env \<Rightarrow> 'c json_coding \<Rightarrow> gotime \<Rightarrow> int \<Rightarrow> ('c, 'g) task_service \<Rightarrow> svc_error option \<times> ('c, 'g) task_service" where
  "ResumeTask ops sv j now i s =
     (case sv_engine s of None \<Rightarrow> setEnabled j i True s | Some e \<Rightarrow> engine_call j (Resume ops (sv_task sv) now i) e s)"

definition copied_task :: "string \<Rightarrow> 'c Task \<Rightarrow> 'c Task" where
  "copied_task newName source = source\<lparr>t_ID := 0, t_Name := (if newName = [] then t_Name source @ '' (copy)'' else newName),
     t_ReportStatus := False, t_RunID := [], t_LastScheduledAt := None, t_Operation := 0, t_CreatedAt := 0, t_UpdatedAt := 0, t_DeletedAt := None\<rparr>"

definition CopyTask ::
  "'g engine_ops \<Rightarrow> 'c service_env \<Rightarrow> 'c json_coding \<Rightarrow> gotime \<Rightarrow> bool \<Rightarrow> int \<Rightarrow> string \<Rightarrow> ('c, 'g) task_service \<Rightarrow>
   (svc_error + 'c Task) \<times> ('c, 'g) task_service" where
  "CopyTask ops sv j now listed i newName s =
     (case tasks_Get i (sv_rows s) of
        None \<Rightarrow> (Inl SvcTaskNotFound, s)
      | Some source \<Rightarrow> CreateTask ops sv j now listed (Some (copied_task newName source)) s)"

subsection \<open>Reading\<close>

definition GetTask :: "int \<Rightarrow> 'c Task list \<Rightarrow> svc_error + 'c Task" where
  "GetTask i rows = (case tasks_Get i rows of None \<Rightarrow> Inl SvcTaskNotFound | Some t \<Rightarrow> Inr t)"

record Filter =
  f_Group :: string
  f_Tags :: "string list"
  f_AssetID :: int

definition ListTasks :: "int \<Rightarrow> int \<Rightarrow> Filter \<Rightarrow> 'c Task list \<Rightarrow> 'c Task list \<times> int" where
  "ListTasks page n f rows =
     (let matching = sort_key t_ID (tasks_List \<lparr>lo_Group = f_Group f, lo_IDs = None, lo_Tags = f_Tags f, lo_NameLike = [],
            lo_AssetID = f_AssetID f, lo_ExcludeSynthetic = True\<rparr> rows);
          tot = int (length matching);
          (pg, sz) = Clamp page n;
          (i, k) = Window pg sz tot
      in (take (nat (k - i)) (drop (nat i) matching), tot))"

definition enrichTaskNames :: "'c Task list \<Rightarrow> Execution list \<Rightarrow> Execution list" where
  "enrichTaskNames rows xs =
     (let owners = tasks_List (all_tasks\<lparr>lo_IDs := Some (map ex_TaskID xs)\<rparr>) rows
      in map (\<lambda>x. x\<lparr>ex_TaskName := (case tasks_Get (ex_TaskID x) owners of None \<Rightarrow> [] | Some t \<Rightarrow> t_Name t)\<rparr>) xs)"

record ExecutionFilter =
  ef_Status :: string
  ef_ExecutorType :: string
  ef_TaskName :: string
  ef_TriggerType :: string

definition ListExecutions :: "int \<Rightarrow> int \<Rightarrow> int \<Rightarrow> ExecutionFilter \<Rightarrow> 'c Task list \<Rightarrow> exec_db \<Rightarrow> Execution list \<times> int" where
  "ListExecutions taskID page n f rows d =
     (let matches = tasks_List (all_tasks\<lparr>lo_NameLike := ef_TaskName f, lo_ExcludeSynthetic := True\<rparr>) rows
      in if ef_TaskName f \<noteq> [] \<and> matches = [] then ([], 0)
         else
           let (pg, sz) = Clamp page n;
               (xs, tot) = exec_Query \<lparr>eq_TaskID = taskID, eq_TaskIDs = (if ef_TaskName f = [] then None else Some (map t_ID matches)),
                 eq_Status = ef_Status f, eq_ExecutorType = ef_ExecutorType f, eq_TriggerType = ef_TriggerType f\<rparr> pg sz d
           in (enrichTaskNames rows xs, tot))"

definition GetExecution :: "int \<Rightarrow> int \<Rightarrow> 'c Task list \<Rightarrow> exec_db \<Rightarrow> svc_error + Execution" where
  "GetExecution taskID i rows d =
     (case exec_Get i d of
        None \<Rightarrow> Inl SvcExecutionNotFound
      | Some x \<Rightarrow>
          if taskID > 0 \<and> ex_TaskID x \<noteq> taskID then Inl SvcExecutionNotFound
          else Inr (case tasks_Get (ex_TaskID x) rows of None \<Rightarrow> x | Some t \<Rightarrow> x\<lparr>ex_TaskName := t_Name t\<rparr>))"

subsection \<open>The column of tags\<close>

lemma split_pred_free: "x \<in> set (split_pred p s) \<Longrightarrow> c \<in> set x \<Longrightarrow> \<not> p c"
  by (induction p s arbitrary: x rule: split_pred.induct) (fastforce split: if_splits list.splits)+

lemma dropWhile_hd: "s = [] \<or> \<not> p (hd s) \<Longrightarrow> dropWhile p s = s"
  by (cases s) auto

lemma TrimSpace_subset: "set (TrimSpace s) \<subseteq> set s"
  unfolding TrimSpace_def by (auto dest!: set_dropWhileD)

lemma TrimSpace_ends: "TrimSpace s = [] \<or> \<not> is_space (hd (TrimSpace s)) \<and> \<not> is_space (last (TrimSpace s))"
proof -
  define u where "u = dropWhile is_space s"
  have t: "TrimSpace s = rev (dropWhile is_space (rev u))" by (simp add: TrimSpace_def u_def)
  show ?thesis
  proof (cases "dropWhile is_space (rev u) = []")
    case False
    have "\<not> is_space (last (TrimSpace s))" using hd_dropWhile [OF False] False by (simp add: t last_rev)
    moreover obtain w where w: "rev u = w @ dropWhile is_space (rev u)" using takeWhile_dropWhile_id by metis
    then have "u = TrimSpace s @ rev w" unfolding t by (metis rev_append rev_rev_ident)
    then have "hd (TrimSpace s) = hd u" "u \<noteq> []" using False t hd_append2 [of "TrimSpace s" "rev w"] by auto
    then have "\<not> is_space (hd (TrimSpace s))" using hd_dropWhile [of is_space s] by (simp add: u_def)
    ultimately show ?thesis by blast
  qed (simp add: t)
qed

lemma TrimSpace_id: "s = [] \<or> \<not> is_space (hd s) \<and> \<not> is_space (last s) \<Longrightarrow> TrimSpace s = s"
  by (cases s rule: rev_cases) (auto simp: TrimSpace_def dropWhile_hd hd_append split: if_splits)

text \<open>A list of tags that the column can hold.\<close>

definition clean_tags :: "string list \<Rightarrow> bool" where
  "clean_tags xs \<longleftrightarrow> (\<forall>x\<in>set xs. x \<noteq> [] \<and> \<not> is_space (hd x) \<and> \<not> is_space (last x) \<and> CHR '','' \<notin> set x)"

lemma tags_round_trip: "clean_tags xs \<Longrightarrow> commaList_Scan (commaList_Value xs) = xs"
proof (cases xs)
  case (Cons a as)
  assume c: "clean_tags xs"
  then have "Split (Join xs '','') CHR '','' = xs" by (intro Split_Join) (auto simp: Cons clean_tags_def)
  moreover have "map TrimSpace xs = xs" using c by (intro map_idI TrimSpace_id) (auto simp: clean_tags_def)
  moreover have "filter (\<lambda>s. s \<noteq> []) xs = xs" using c by (auto simp: filter_id_conv clean_tags_def)
  moreover have "Join xs '','' \<noteq> []" using c by (cases as) (auto simp: Cons clean_tags_def)
  ultimately show ?thesis using Cons by (simp add: commaList_Scan_def commaList_Value_def)
qed (simp add: commaList_Scan_def commaList_Value_def)

lemma scan_clean: "clean_tags (commaList_Scan raw)"
proof -
  have "CHR '','' \<notin> set (TrimSpace y)" if "y \<in> set (Split raw CHR '','')" for y
    using that split_pred_free [of y "\<lambda>x. x = CHR '',''" raw] TrimSpace_subset [of y] by (auto simp: Split_def)
  then show ?thesis using TrimSpace_ends by (auto simp: clean_tags_def commaList_Scan_def) 
qed

subsection \<open>Searching for names\<close>

lemma HasPrefix_Cons [simp]: "HasPrefix (c # cs) (d # ds) \<longleftrightarrow> c = d \<and> HasPrefix cs ds" "HasPrefix s []" "\<not> HasPrefix [] (d # ds)"
  by (auto simp: HasPrefix_def)

lemma like_star: "like ''%'' s"
  by (induction s) (simp_all add: like.simps(2))

lemma like_literal: "like (likeEscape cs @ ''%'') s \<longleftrightarrow> HasPrefix s cs"
proof (induction cs arbitrary: s)
  case Nil
  show ?case by (simp add: like_star)
next
  case (Cons c cs)
  show ?case using Cons.IH [of "tl s"] by (cases s) (auto simp: like.simps(2))
qed

lemma like_contains: "like (''%'' @ likeEscape cs @ ''%'') s \<longleftrightarrow> Contains s cs"
proof (induction s)
  case Nil
  show ?case using like_literal [of cs "[]"] by (cases cs) (simp_all add: like.simps(2))
next
  case (Cons c s)
  have "like (''%'' @ likeEscape cs @ ''%'') (c # s) \<longleftrightarrow> like (likeEscape cs @ ''%'') (c # s) \<or> like (''%'' @ likeEscape cs @ ''%'') s"
    using like.simps(2) [of "CHR ''%''" "likeEscape cs @ ''%''" "c # s"] by simp
  then show ?case using Cons.IH like_literal [of cs "c # s"] by simp
qed

text \<open>The escaped pattern finds exactly the names that contain the text, without regard to case.\<close>

lemma name_like_contains: "name_like needle name \<longleftrightarrow> Contains (ToLower name) (ToLower needle)"
  unfolding name_like_def by (rule like_contains)

lemma ListTasks_page:
  assumes "page * 100 \<le> max_int" "int (length rows) \<le> max_int - 100"
  shows "ListTasks page n f rows =
    (let matching = sort_key t_ID (tasks_List \<lparr>lo_Group = f_Group f, lo_IDs = None, lo_Tags = f_Tags f, lo_NameLike = [],
       lo_AssetID = f_AssetID f, lo_ExcludeSynthetic = True\<rparr> rows)
     in (page_of (max page 1) (ClampSize n) matching, int (length matching)))"
proof -
  define ms where "ms = sort_key t_ID (tasks_List \<lparr>lo_Group = f_Group f, lo_IDs = None, lo_Tags = f_Tags f, lo_NameLike = [],
       lo_AssetID = f_AssetID f, lo_ExcludeSynthetic = True\<rparr> rows)"
  have "length ms \<le> length rows" by (auto simp: ms_def tasks_List_def intro: order_trans [OF length_filter_le length_filter_le])
  then have l: "int (length ms) \<le> max_int - ClampSize n" using assms(2) ClampSize_range(2) [of n] by linarith
  have "max page 1 * ClampSize n \<le> max page 1 * 100" by (rule mult_left_mono) simp_all
  also have "\<dots> \<le> max_int" using assms(1) by (simp add: max_def max_int_def)
  finally have p: "max page 1 * ClampSize n \<le> max_int" .
  obtain i k where w: "Window (max page 1) (ClampSize n) (int (length ms)) = (i, k)" by fastforce
  have "0 < ClampSize n" using ClampSize_range(1) [of n] by linarith
  from Window_page [OF _ this p l] w have v: "0 \<le> i" "i \<le> k" "take (nat k - nat i) (drop (nat i) ms) = page_of (max page 1) (ClampSize n) ms" by simp_all
  have "nat (k - i) = nat k - nat i" using v(1,2) by linarith
  then show ?thesis unfolding ListTasks_def ms_def [symmetric] Let_def Clamp_def prod.case w using v(3) by simp
qed

subsection \<open>Dependencies\<close>

text \<open>The chain from a task ends at a task without a dependency, or breaks at a task that is missing.\<close>

inductive chain_ends :: "'c Task list \<Rightarrow> int \<Rightarrow> bool" for rows where
  ends_zero: "chain_ends rows 0"
| ends_step: "c \<noteq> 0 \<Longrightarrow> tasks_Get c rows = Some t \<Longrightarrow> chain_ends rows (t_DependsOn t) \<Longrightarrow> chain_ends rows c"

inductive chain_breaks :: "'c Task list \<Rightarrow> int \<Rightarrow> bool" for rows where
  breaks_here: "c \<noteq> 0 \<Longrightarrow> tasks_Get c rows = None \<Longrightarrow> chain_breaks rows c"
| breaks_step: "c \<noteq> 0 \<Longrightarrow> tasks_Get c rows = Some t \<Longrightarrow> chain_breaks rows (t_DependsOn t) \<Longrightarrow> chain_breaks rows c"

definition upstream :: "'c Task list \<Rightarrow> int \<Rightarrow> int \<Rightarrow> bool" where
  "upstream rows c c' \<longleftrightarrow> c \<noteq> 0 \<and> (\<exists>t. tasks_Get c rows = Some t \<and> c' = t_DependsOn t)"

lemma upstream_det: "upstream rows c a \<Longrightarrow> upstream rows c b \<Longrightarrow> a = b"
  by (auto simp: upstream_def)

text \<open>From a task on a cycle the chain neither ends nor breaks.\<close>

lemma cycle_rotate: "(upstream rows)\<^sup>+\<^sup>+ c c \<Longrightarrow> upstream rows c c' \<Longrightarrow> (upstream rows)\<^sup>+\<^sup>+ c' c'"
proof -
  assume c: "(upstream rows)\<^sup>+\<^sup>+ c c" and s: "upstream rows c c'"
  from c obtain d where "upstream rows c d" "(upstream rows)\<^sup>*\<^sup>* d c" by (blast dest: tranclpD)
  then have "(upstream rows)\<^sup>*\<^sup>* c' c" using upstream_det [OF s] by blast
  then show ?thesis using s by (rule rtranclp_into_tranclp1)
qed

lemma ends_no_cycle: "chain_ends rows c \<Longrightarrow> \<not> (upstream rows)\<^sup>+\<^sup>+ c c"
proof (induction rule: chain_ends.induct)
  case (ends_step c t)
  moreover from this(1,2) have "upstream rows c (t_DependsOn t)" by (simp add: upstream_def)
  ultimately show ?case using cycle_rotate by blast
qed (auto dest!: tranclpD simp: upstream_def)

lemma breaks_no_cycle: "chain_breaks rows c \<Longrightarrow> \<not> (upstream rows)\<^sup>+\<^sup>+ c c"
proof (induction rule: chain_breaks.induct)
  case (breaks_step c t)
  moreover from this(1,2) have "upstream rows c (t_DependsOn t)" by (simp add: upstream_def)
  ultimately show ?case using cycle_rotate by blast
qed (auto dest!: tranclpD simp: upstream_def)

lemma chain_cases:
  "chain_ends rows 0" "\<not> chain_breaks rows 0"
  "c \<noteq> 0 \<Longrightarrow> tasks_Get c rows = None \<Longrightarrow> \<not> chain_ends rows c \<and> chain_breaks rows c"
  "c \<noteq> 0 \<Longrightarrow> tasks_Get c rows = Some t \<Longrightarrow> chain_ends rows c \<longleftrightarrow> chain_ends rows (t_DependsOn t)"
  "c \<noteq> 0 \<Longrightarrow> tasks_Get c rows = Some t \<Longrightarrow> chain_breaks rows c \<longleftrightarrow> chain_breaks rows (t_DependsOn t)"
  by (auto intro: chain_ends.intros chain_breaks.intros elim: chain_ends.cases chain_breaks.cases)

lemma Get_ID: "tasks_Get i rows = Some t \<Longrightarrow> t_ID t = i \<and> t \<in> set rows"
  by (auto simp: tasks_Get_def find_Some_iff)

text \<open>One round for each row, and one more, is enough.\<close>

lemma depends_loop_eq:
  assumes "distinct visited" "set visited \<subseteq> t_ID ` set rows" "\<forall>c\<in>set visited. (upstream rows)\<^sup>+\<^sup>+ c cur" "length rows + 2 \<le> n + length visited"
  shows "depends_loop n rows visited cur =
    (if chain_ends rows cur then None else if chain_breaks rows cur then Some DependsUnknown else Some DependsCycle)"
  using assms
proof (induction n arbitrary: visited cur)
  case 0
  have "length visited \<le> card (t_ID ` set rows)" using 0(1,2) by (metis card_mono distinct_card finite_imageI finite_set)
  also have "\<dots> \<le> length rows" by (meson card_image_le card_length finite_set le_trans)
  finally show ?case using 0(4) by simp
next
  case (Suc n)
  consider "cur = 0" | "cur \<noteq> 0" "cur \<in> set visited" | "cur \<noteq> 0" "cur \<notin> set visited" "tasks_Get cur rows = None"
    | t where "cur \<noteq> 0" "cur \<notin> set visited" "tasks_Get cur rows = Some t" by blast
  then show ?case
  proof cases
    case 2
    then show ?thesis using Suc.prems(3) ends_no_cycle [of rows cur] breaks_no_cycle [of rows cur] by auto
  next
    case (4 t)
    have up: "upstream rows cur (t_DependsOn t)" using 4 by (simp add: upstream_def)
    have "depends_loop n rows (cur # visited) (t_DependsOn t) =
        (if chain_ends rows (t_DependsOn t) then None else if chain_breaks rows (t_DependsOn t) then Some DependsUnknown else Some DependsCycle)"
    proof (rule Suc.IH)
      show "set (cur # visited) \<subseteq> t_ID ` set rows" using Suc.prems(2) Get_ID [OF 4(3)] by auto
      show "\<forall>c\<in>set (cur # visited). (upstream rows)\<^sup>+\<^sup>+ c (t_DependsOn t)" using Suc.prems(3) up by auto
    qed (use Suc.prems 4 in auto)
    then show ?thesis using 4 chain_cases(4,5) [OF 4(1,3)] by simp
  qed (simp_all add: chain_cases)
qed

subsection \<open>The table and the memory of the engine\<close>

lemma stored_fields [simp]:
  "t_ID (stored_row j t) = t_ID t" "t_LastScheduledAt (stored_row j t) = t_LastScheduledAt t" "t_CreatedAt (stored_row j t) = t_CreatedAt t"
  "t_DeletedAt (stored_row j t) = t_DeletedAt t" "t_DependsOn (stored_row j t) = t_DependsOn t"
  "stored_row j (t\<lparr>t_LastScheduledAt := w\<rparr>) = (stored_row j t)\<lparr>t_LastScheduledAt := w\<rparr>"
  by (simp_all add: stored_row_def)

lemma keep_columns_ID [simp]: "t_ID (keep_columns r t) = t_ID t"
  by (simp add: keep_columns_def)

lemma Get_map: "(\<And>t. t_ID (f t) = t_ID t) \<Longrightarrow> tasks_Get i (map f rows) = map_option f (tasks_Get i rows)"
  by (induction rows) (auto simp: tasks_Get_def)

lemma Get_Save: "tasks_Get i (tasks_Save j t rows) =
    (if i = t_ID t then
       Some (case tasks_Get i rows of None \<Rightarrow> (stored_row j t)\<lparr>t_LastScheduledAt := None, t_DeletedAt := None\<rparr> | Some r \<Rightarrow> keep_columns r (stored_row j t))
     else tasks_Get i rows)"
proof (cases "tasks_Get (t_ID t) rows")
  case None
  have app: "find P (xs @ [y]) = (case find P xs of None \<Rightarrow> if P y then Some y else None | Some x \<Rightarrow> Some x)" for P :: "'a Task \<Rightarrow> bool" and xs y
    by (induction xs) auto
  show ?thesis using None by (auto simp: tasks_Save_def tasks_Get_def app split: option.split)
next
  case (Some r)
  have "tasks_Get i (map (\<lambda>r. if t_ID r = t_ID t then keep_columns r (stored_row j t) else r) rows) =
      map_option (\<lambda>r. if t_ID r = t_ID t then keep_columns r (stored_row j t) else r) (tasks_Get i rows)" by (rule Get_map) simp
  then show ?thesis using Some Get_ID [of i rows] by (cases "tasks_Get i rows") (auto simp: tasks_Save_def)
qed

lemma Get_Delete: "tasks_Get k (tasks_Delete i rows) = (if k = i then None else tasks_Get k rows)"
  by (induction rows) (auto simp: tasks_Get_def tasks_Delete_def)

lemma Get_Advance: "tasks_Get k (AdvanceScheduleWatermark i tm rows) =
    map_option (\<lambda>t. if t_ID t = i \<and> (case t_LastScheduledAt t of None \<Rightarrow> True | Some wm \<Rightarrow> fst wm < fst tm)
      then t\<lparr>t_LastScheduledAt := Some tm\<rparr> else t) (tasks_Get k rows)"
  unfolding AdvanceScheduleWatermark_def by (rule Get_map) simp

definition synced :: "'c json_coding \<Rightarrow> 'c Task list \<Rightarrow> ('c, 'g) task_engine \<Rightarrow> bool" where
  "synced j rows e \<longleftrightarrow>
     (\<forall>i. tasks_Get i (fold (store_apply j) (te_store e) rows) = map_option (stored_row j) (te_tasks e i)) \<and>
     (\<forall>i t. te_tasks e i = Some t \<longrightarrow> t_ID t = i \<and> t_DeletedAt t = None)"

text \<open>What a task that is saved has to have in common with the one it replaces.\<close>

definition same_origin :: "'c Task option \<Rightarrow> 'c Task \<Rightarrow> bool" where
  "same_origin old t \<longleftrightarrow> t_DeletedAt t = None \<and>
     (case old of None \<Rightarrow> t_LastScheduledAt t = None | Some t0 \<Rightarrow> t_LastScheduledAt t = t_LastScheduledAt t0 \<and> t_CreatedAt t = t_CreatedAt t0)"

lemma synced_upd [simp]:
  "synced j R (e\<lparr>te_engine := g\<rparr>) \<longleftrightarrow> synced j R e" "synced j R (e\<lparr>te_scheds := ss\<rparr>) \<longleftrightarrow> synced j R e"
  "synced j R (e\<lparr>te_types := tys\<rparr>) \<longleftrightarrow> synced j R e" "synced j R (e\<lparr>te_eventDriven := evs\<rparr>) \<longleftrightarrow> synced j R e"
  "synced j R (e\<lparr>te_deps := ds\<rparr>) \<longleftrightarrow> synced j R e" "synced j R (e\<lparr>te_running := rs\<rparr>) \<longleftrightarrow> synced j R e"
  "synced j R (e\<lparr>te_published := ps\<rparr>) \<longleftrightarrow> synced j R e" "synced j R (e\<lparr>te_attempts := n\<rparr>) \<longleftrightarrow> synced j R e"
  by (simp_all add: synced_def)

lemma synced_ops [simp]:
  "synced j R (unscheduleInternal ops i e) \<longleftrightarrow> synced j R e" "synced j R (forget_sched i e) \<longleftrightarrow> synced j R e"
  "synced j R (forget_event i e) \<longleftrightarrow> synced j R e" "synced j R (note_sched i s st e) \<longleftrightarrow> synced j R e"
  "synced j R (releaseRunning i e) \<longleftrightarrow> synced j R e" "synced j R (deps_UpdateStatus i ds e) \<longleftrightarrow> synced j R e"
  by (simp_all add: unscheduleInternal_def deps_Reset_def forget_sched_def forget_event_def note_sched_def releaseRunning_def deps_UpdateStatus_def)

lemma synced_setTask:
  assumes "synced j R e" "v_store v" "same_origin (te_tasks e (t_ID t)) t"
  shows "synced j R (setTask v t e)"
proof -
  let ?rows = "fold (store_apply j) (te_store e) R"
  have g: "tasks_Get i ?rows = map_option (stored_row j) (te_tasks e i)" for i using assms(1) by (simp add: synced_def)
  have row: "(case tasks_Get (t_ID t) ?rows of None \<Rightarrow> (stored_row j t)\<lparr>t_LastScheduledAt := None, t_DeletedAt := None\<rparr>
      | Some r \<Rightarrow> keep_columns r (stored_row j t)) = stored_row j t"
  proof (cases "te_tasks e (t_ID t)")
    case None
    then show ?thesis using assms(3) g by (simp add: same_origin_def)
  next
    case (Some t0)
    then have "t_DeletedAt t0 = None" using assms(1) by (simp add: synced_def)
    then show ?thesis using assms(3) g Some by (simp add: same_origin_def keep_columns_def)
  qed
  have "tasks_Get i (fold (store_apply j) (te_store (setTask v t e)) R) = map_option (stored_row j) (te_tasks (setTask v t e) i)" for i
    using row g assms(2) by (simp add: setTask_def store_write_def Get_Save)
  moreover have "\<forall>i t'. te_tasks (setTask v t e) i = Some t' \<longrightarrow> t_ID t' = i \<and> t_DeletedAt t' = None"
    using assms(1,3) by (simp add: setTask_def synced_def same_origin_def)
  ultimately show ?thesis by (simp add: synced_def)
qed

lemma synced_deleteTask: "synced j R e \<Longrightarrow> v_store v \<Longrightarrow> synced j R (deleteTask v i e)"
  by (auto simp: synced_def deleteTask_def store_write_def Get_Delete)

lemma synced_advance:
  assumes "synced j R e" "v_store v"
  shows "synced j R (advanceWatermark v i tm e)"
proof (cases "te_tasks e i")
  case (Some t)
  let ?late = "case t_LastScheduledAt t of None \<Rightarrow> True | Some wm \<Rightarrow> fst wm < fst tm"
  have eq: "advanceWatermark v i tm e =
      (if ?late then store_write v (StoreAdvance i tm) (e\<lparr>te_tasks := (te_tasks e)(i \<mapsto> t\<lparr>t_LastScheduledAt := Some tm\<rparr>)\<rparr>) else e)"
    by (auto simp: advanceWatermark_def Some split: option.split)
  have id: "t_ID t' = k" if "te_tasks e k = Some t'" for k t' using assms(1) that by (simp add: synced_def)
  show ?thesis
  proof (cases ?late)
    case True
    have "tasks_Get k (AdvanceScheduleWatermark i tm (fold (store_apply j) (te_store e) R)) =
        map_option (stored_row j) (((te_tasks e)(i \<mapsto> t\<lparr>t_LastScheduledAt := Some tm\<rparr>)) k)" for k
    proof (cases "te_tasks e k")
      case None
      then show ?thesis using assms(1) Some by (auto simp: synced_def Get_Advance)
    next
      case (Some t')
      then have "tasks_Get k (fold (store_apply j) (te_store e) R) = Some (stored_row j t')" using assms(1) by (simp add: synced_def)
      then show ?thesis using id [OF Some] Some True \<open>te_tasks e i = Some t\<close> by (auto simp: Get_Advance)
    qed
    then show ?thesis unfolding eq if_P [OF True] using assms Some id [OF Some] by (auto simp: synced_def store_write_def)
  qed (simp add: eq assms(1))
qed (simp add: advanceWatermark_def assms(1))

lemma synced_trigger: "synced j R e \<Longrightarrow> v_store v \<Longrightarrow> synced j R (trigger v now t tt e)"
  using trigger_cases [of v now t tt e] synced_advance [of j R "published v t tt e"] by (auto simp: published_def)

lemma synced_dispatch: "synced j R e \<Longrightarrow> v_store v \<Longrightarrow> synced j R (dispatchGated v now t slot tt e)"
  by (auto simp: dispatchGated_def tryClaimRunning_def synced_trigger synced_advance split: prod.splits)

lemma synced_onFire: "synced j R e \<Longrightarrow> v_store v \<Longrightarrow> synced j R (task_onFire v now i e)"
  by (simp add: task_onFire_def synced_dispatch split: sum.split)

lemma synced_catchup:
  assumes "synced j R e" "v_store v"
  shows "synced j R (runCatchup v t now e)"
proof -
  have "synced j R (fold (\<lambda>slot e. dispatchGated v now t slot TriggerTypeCatchup e) slots e)" for slots
    using assms by (induction slots arbitrary: e) (simp_all add: synced_dispatch)
  then show ?thesis using assms by (auto simp: runCatchup_def synced_advance split: option.split)
qed

lemma synced_event: "synced j R e \<Longrightarrow> v_store v \<Longrightarrow> synced j R (fire_event_task v now k i e)"
  by (auto simp: fire_event_task_def tryClaimRunning_def synced_trigger split: sum.split prod.splits)

lemma synced_events: "synced j R e \<Longrightarrow> v_store v \<Longrightarrow> synced j R (fold (fire_event_task v now k) order e)"
  by (induction order arbitrary: e) (simp_all add: synced_event)

lemma synced_status: "synced j R e \<Longrightarrow> v_store v \<Longrightarrow> synced j R (handleStatusChange v now order a st e)"
  by (simp add: handleStatusChange_def Let_def synced_events)

lemma synced_completed: "synced j R e \<Longrightarrow> synced j R (handleCompleted x st e)"
  by (simp add: handleCompleted_def Let_def)

lemma synced_Schedule: "synced j R e \<Longrightarrow> v_store v \<Longrightarrow> synced j R (snd (Schedule_task v now i e))"
  by (simp add: Schedule_task_def synced_trigger split: sum.split)

lemma synced_Register:
  assumes "synced j R e" "v_store v" "same_origin (te_tasks e (t_ID t)) t"
  shows "synced j R (snd (Register ops v t e))"
proof -
  define t1 where "t1 = (if t_CatchupPolicy t = [] then t\<lparr>t_CatchupPolicy := CatchupPolicySkip\<rparr> else t)"
  have "same_origin (te_tasks e (t_ID t1)) t1" using assms(3) by (simp add: t1_def same_origin_def split: option.splits)
  then have "synced j R (setTask v t1 e)" by (rule synced_setTask [OF assms(1,2)])
  then show ?thesis
    unfolding Register_def t1_def [symmetric] Let_def
    by (auto split: prod.splits option.splits sum.splits bool.splits simp: assms(1,2) synced_deleteTask)
qed

lemma synced_Update: "synced j R e \<Longrightarrow> v_store v \<Longrightarrow> same_origin (te_tasks e (t_ID t)) t \<Longrightarrow> synced j R (snd (Update ops v t e))"
  unfolding Update_def by (rule synced_Register) (simp_all add: unscheduleInternal_def deps_Reset_def)

lemma synced_Unschedule: "synced j R e \<Longrightarrow> v_store v \<Longrightarrow> synced j R (Unschedule ops v i e)"
  by (simp add: Unschedule_def synced_deleteTask)

lemma synced_task: "synced j R e \<Longrightarrow> te_tasks e i = Some t \<Longrightarrow> t_ID t = i \<and> same_origin (te_tasks e i) (t\<lparr>t_Enabled := b\<rparr>)"
  by (simp add: synced_def same_origin_def)

lemma synced_Pause: "synced j R e \<Longrightarrow> v_store v \<Longrightarrow> synced j R (snd (Pause ops v i e))"
proof (cases "te_tasks e i")
  case (Some t)
  assume a: "synced j R e" "v_store v"
  then have "synced j R (setTask v (t\<lparr>t_Enabled := False\<rparr>) (forget_sched i (unscheduleInternal ops i e)))"
    using synced_task [OF a(1) Some, of False] Some
    by (intro synced_setTask) (simp_all add: forget_sched_def unscheduleInternal_def deps_Reset_def)
  then show ?thesis using a by (simp add: Pause_def getTask_def Some)
qed (simp add: Pause_def getTask_def)

lemma synced_finish:
  assumes "synced j R e" "v_store v" "te_tasks e i = Some t"
  shows "synced j R (finish_resume v now t e)"
proof -
  have "synced j R (setTask v (t\<lparr>t_Enabled := True\<rparr>) e)" using assms synced_task [OF assms(1,3), of True] by (intro synced_setTask) simp_all
  then show ?thesis by (simp add: finish_resume_def Let_def synced_catchup assms(2))
qed

lemma synced_Resume: "synced j R e \<Longrightarrow> v_store v \<Longrightarrow> synced j R (snd (Resume ops v now i e))"
proof (cases "te_tasks e i")
  case (Some t)
  assume a: "synced j R e" "v_store v"
  have r: "synced j R (snd (rearm ops v now i t s e'))" if "synced j R e'" "te_tasks e' i = Some t" for s e'
    using that a(2) by (auto simp: rearm_def Let_def synced_finish [of j R "e'\<lparr>te_engine := _\<rparr>" v i t] split: prod.splits)
  show ?thesis unfolding Resume_def getTask_def Some option.case sum.case
    using a Some by (auto split: prod.splits option.splits sum.splits intro!: r synced_finish [of j R _ v i t])
qed (simp add: Resume_def getTask_def)

lemma synced_restore: "synced j R e \<Longrightarrow> v_store v \<Longrightarrow> synced j R (fold (restore_task ops v now) ts e)"
proof (induction ts arbitrary: e)
  case (Cons t ts)
  have "synced j R (restore_task ops v now t e)"
    using Cons.prems by (auto simp: restore_task_def Let_def synced_catchup split: prod.splits option.splits sum.splits bool.splits)
  then show ?case using Cons by simp
qed simp

text \<open>The tasks of a table with distinct numbers, as \<^verbatim>\<open>Restore\<close> loads them.\<close>

lemma listed_Get: "distinct (map t_ID rows) \<Longrightarrow> fold (\<lambda>t m. m(t_ID t \<mapsto> t)) rows m i = (case tasks_Get i rows of None \<Rightarrow> m i | Some t \<Rightarrow> Some t)"
proof (induction rows arbitrary: m)
  case (Cons a rows)
  then have "t_ID a \<notin> t_ID ` set rows" by simp
  then have "tasks_Get (t_ID a) rows = None" unfolding tasks_Get_def find_None_iff by (metis imageI)
  then show ?case using Cons by (auto simp: tasks_Get_def split: option.split)
qed (simp add: tasks_Get_def)

lemma synced_Restore:
  assumes "v_store v" "distinct (map t_ID rows)" "\<And>t. t \<in> set rows \<Longrightarrow> stored_row j t = t \<and> t_DeletedAt t = None"
  shows "synced j rows (snd (Restore ops v now order (Some rows) (NewTaskEngine g)))"
proof -
  have "synced j rows e" if "te_tasks e = fold (\<lambda>t m. m(t_ID t \<mapsto> t)) rows Map.empty" "te_store e = []" for e :: "('a, 'b) task_engine"
    using assms(3) Get_ID [of _ rows] that by (auto simp: synced_def listed_Get [OF assms(2)] split: option.split)
  then show ?thesis using assms(1) by (simp add: Restore_def Let_def) (intro synced_restore, simp_all add: NewTaskEngine_def)
qed

lemmas synced_engine = synced_Register synced_Update synced_Unschedule synced_Pause synced_Resume synced_Schedule synced_onFire
  synced_completed synced_status

subsection \<open>The service at work\<close>

text \<open>What JSON gives back is given back unchanged.\<close>

definition stable_json :: "'c json_coding \<Rightarrow> bool" where
  "stable_json j \<longleftrightarrow> (\<forall>c c'. j_config j c = Some c' \<longrightarrow> j_config j c' = Some c') \<and> (\<forall>m m'. j_metadata j m = Some m' \<longrightarrow> j_metadata j m' = Some m')"

text \<open>The process is started anew: the engine is built from the table and the counter is not seeded.\<close>

definition restart_service ::
  "'g engine_ops \<Rightarrow> 'c task_env \<Rightarrow> 'c json_coding \<Rightarrow> gotime \<Rightarrow> int list \<Rightarrow> 'g \<Rightarrow> ('c, 'g) task_service \<Rightarrow> ('c, 'g) task_service" where
  "restart_service ops v j now order g s =
     with_engine j (snd (Restore ops v now order (Some (sv_rows s)) (NewTaskEngine g))) (s\<lparr>sv_nextID := 0, sv_seeded := False, sv_seedErr := False\<rparr>)"

definition new_service :: "'g option \<Rightarrow> ('c, 'g) task_service" where
  "new_service g = \<lparr>sv_engine = map_option NewTaskEngine g, sv_rows = [], sv_nextID = 0, sv_seeded = False, sv_seedErr = False\<rparr>"

text \<open>The numbers have not run out.\<close>

definition room :: "('c, 'g) task_service \<Rightarrow> bool" where
  "room s \<longleftrightarrow> 0 \<le> sv_nextID s \<and> sv_nextID s < max_int \<and> (\<forall>t\<in>set (sv_rows s). t_ID t < max_int)"

text \<open>
  A request never carries a deletion mark. Other components register tasks under negative numbers. The
  subscribers and the timers of the engine run between the requests.
\<close>

inductive service_reach :: "'c json_coding \<Rightarrow> 'g option \<Rightarrow> ('c, 'g) task_service \<Rightarrow> bool" for j g0 where
  sr_new: "service_reach j g0 (new_service g0)"
| sr_create: "service_reach j g0 s \<Longrightarrow> v_store (sv_task sv) \<Longrightarrow> room s \<Longrightarrow> (\<forall>t. req = Some t \<longrightarrow> t_DeletedAt t = None) \<Longrightarrow>
    service_reach j g0 (snd (CreateTask ops sv j now listed req s))"
| sr_update: "service_reach j g0 s \<Longrightarrow> v_store (sv_task sv) \<Longrightarrow> (\<forall>t. req = Some t \<longrightarrow> t_DeletedAt t = None) \<Longrightarrow>
    service_reach j g0 (snd (UpdateTask ops sv j now windows i req s))"
| sr_delete: "service_reach j g0 s \<Longrightarrow> v_store (sv_task sv) \<Longrightarrow> service_reach j g0 (DeleteTask ops sv j i s)"
| sr_trigger: "service_reach j g0 s \<Longrightarrow> v_store (sv_task sv) \<Longrightarrow> service_reach j g0 (snd (TriggerTask sv j now i s))"
| sr_pause: "service_reach j g0 s \<Longrightarrow> v_store (sv_task sv) \<Longrightarrow> service_reach j g0 (snd (PauseTask ops sv j i s))"
| sr_resume: "service_reach j g0 s \<Longrightarrow> v_store (sv_task sv) \<Longrightarrow> service_reach j g0 (snd (ResumeTask ops sv j now i s))"
| sr_copy: "service_reach j g0 s \<Longrightarrow> v_store (sv_task sv) \<Longrightarrow> room s \<Longrightarrow> service_reach j g0 (snd (CopyTask ops sv j now listed i newName s))"
| sr_register: "service_reach j g0 s \<Longrightarrow> v_store v \<Longrightarrow> sv_engine s = Some e \<Longrightarrow> te_tasks e (t_ID t) = None \<Longrightarrow> t_ID t < 0 \<Longrightarrow> same_origin None t \<Longrightarrow>
    service_reach j g0 (with_engine j (snd (Register ops v t e)) s)"
| sr_fire: "service_reach j g0 s \<Longrightarrow> v_store v \<Longrightarrow> sv_engine s = Some e \<Longrightarrow> service_reach j g0 (with_engine j (task_onFire v now i e) s)"
| sr_completed: "service_reach j g0 s \<Longrightarrow> sv_engine s = Some e \<Longrightarrow> service_reach j g0 (with_engine j (handleCompleted x st e) s)"
| sr_status: "service_reach j g0 s \<Longrightarrow> v_store v \<Longrightarrow> sv_engine s = Some e \<Longrightarrow>
    service_reach j g0 (with_engine j (handleStatusChange v now order a st e) s)"
| sr_restart: "service_reach j g0 s \<Longrightarrow> v_store v \<Longrightarrow> g0 = Some g \<Longrightarrow> service_reach j g0 (restart_service ops v j now order g' s)"

definition rows_ok :: "'c json_coding \<Rightarrow> 'c Task list \<Rightarrow> bool" where
  "rows_ok j rows \<longleftrightarrow> distinct (map t_ID rows) \<and> (\<forall>t\<in>set rows. stored_row j t = t \<and> t_DeletedAt t = None)"

definition ids_below :: "('c, 'g) task_service \<Rightarrow> bool" where
  "ids_below s \<longleftrightarrow> 0 \<le> sv_nextID s \<and> (sv_seeded s \<and> \<not> sv_seedErr s \<longrightarrow> (\<forall>t\<in>set (sv_rows s). t_ID t \<le> sv_nextID s))"

definition service_ok :: "'c json_coding \<Rightarrow> ('c, 'g) task_service \<Rightarrow> bool" where
  "service_ok j s \<longleftrightarrow> rows_ok j (sv_rows s) \<and> ids_below s \<and>
     (\<forall>e. sv_engine s = Some e \<longrightarrow> te_store e = [] \<and> synced j (sv_rows s) e)"

lemma stored_upd:
  "stored_row j (t\<lparr>t_CreatedAt := c\<rparr>) = (stored_row j t)\<lparr>t_CreatedAt := c\<rparr>"
  "stored_row j (t\<lparr>t_DeletedAt := dl\<rparr>) = (stored_row j t)\<lparr>t_DeletedAt := dl\<rparr>"
  by (simp_all add: stored_row_def)

lemma stored_idem:
  assumes "stable_json j"
  shows "stored_row j (stored_row j t) = stored_row j t"
proof -
  have "Option.bind (Option.bind (t_Config t) (j_config j)) (j_config j) = Option.bind (t_Config t) (j_config j)"
    "Option.bind (Option.bind (t_Metadata t) (j_metadata j)) (j_metadata j) = Option.bind (t_Metadata t) (j_metadata j)"
    using assms by (cases "t_Config t"; cases "t_Metadata t"; auto simp: stable_json_def bind_eq_None_conv bind_eq_Some_conv split: bind_splits)+
  moreover have "CatchupPolicySkip \<noteq> []" by (simp add: CatchupPolicySkip_def)
  ultimately show ?thesis by (simp add: stored_row_def tags_round_trip [OF scan_clean])
qed

lemma Get_None_iff: "tasks_Get i rows = None \<longleftrightarrow> i \<notin> t_ID ` set rows"
  unfolding tasks_Get_def find_None_iff by auto

lemma apply_ok:
  assumes "stable_json j" "rows_ok j rows"
  shows "rows_ok j (store_apply j oper rows)"
proof (cases oper)
  case (StoreSave t)
  have new: "stored_row j ((stored_row j t)\<lparr>t_LastScheduledAt := w, t_CreatedAt := c, t_DeletedAt := None\<rparr>) =
      (stored_row j t)\<lparr>t_LastScheduledAt := w, t_CreatedAt := c, t_DeletedAt := None\<rparr>" for w c
    by (simp add: stored_upd stored_idem [OF assms(1)])
  show ?thesis
  proof (cases "tasks_Get (t_ID t) rows")
    case None
    have "stored_row j ((stored_row j t)\<lparr>t_LastScheduledAt := None, t_DeletedAt := None\<rparr>) = (stored_row j t)\<lparr>t_LastScheduledAt := None, t_DeletedAt := None\<rparr>"
      by (simp add: stored_upd stored_idem [OF assms(1)])
    then show ?thesis using assms(2) None by (simp add: StoreSave tasks_Save_def rows_ok_def Get_None_iff image_iff)
  next
    case (Some r)
    have "map t_ID (tasks_Save j t rows) = map t_ID rows" using Some by (simp add: tasks_Save_def)
    moreover have "stored_row j x = x \<and> t_DeletedAt x = None" if "x \<in> set (tasks_Save j t rows)" for x
      using that assms(2) Some new by (auto simp: tasks_Save_def rows_ok_def keep_columns_def split: if_splits)
    ultimately show ?thesis using assms(2) by (simp add: StoreSave rows_ok_def)
  qed
next
  case (StoreDelete i)
  then show ?thesis using assms(2) by (auto simp: rows_ok_def tasks_Delete_def distinct_map_filter)
next
  case (StoreAdvance i tm)
  have "map t_ID (AdvanceScheduleWatermark i tm rows) = map t_ID rows" by (simp add: AdvanceScheduleWatermark_def)
  then show ?thesis using assms(2) by (auto simp: StoreAdvance rows_ok_def) (auto simp: AdvanceScheduleWatermark_def)
qed

lemma applies_ok: "stable_json j \<Longrightarrow> rows_ok j rows \<Longrightarrow> rows_ok j (fold (store_apply j) opers rows)"
  by (induction opers arbitrary: rows) (simp_all add: apply_ok)

text \<open>The numbers of the tasks that an operation of the engine can add.\<close>

definition grows :: "int set \<Rightarrow> ('c, 'g) task_engine \<Rightarrow> ('c, 'g) task_engine \<Rightarrow> bool" where
  "grows S e e' \<longleftrightarrow> dom (te_tasks e') \<subseteq> dom (te_tasks e) \<union> S"

lemma grows_refl [simp]: "grows S e e" "grows S e (e\<lparr>te_engine := g\<rparr>)"
  by (auto simp: grows_def)

lemma grows_frame: "te_frame e e' \<Longrightarrow> grows {} e e'"
proof -
  assume f: "te_frame e e'"
  have "te_tasks e i = None \<longleftrightarrow> te_tasks e' i = None" for i
    using f by (intro later_task_None) (simp add: te_frame_def)
  then show ?thesis by (auto simp: grows_def dom_def)
qed

lemma grows_trans: "grows S e e' \<Longrightarrow> grows {} e' e'' \<Longrightarrow> grows S e e''"
  by (auto simp: grows_def)

lemma grows_ops [simp]:
  "grows S e (unscheduleInternal ops i e') \<longleftrightarrow> grows S e e'" "grows S e (forget_sched i e') \<longleftrightarrow> grows S e e'"
  "grows S e (forget_event i e') \<longleftrightarrow> grows S e e'" "grows S e (note_sched i s st e') \<longleftrightarrow> grows S e e'"
  "grows S e (e'\<lparr>te_engine := g\<rparr>) \<longleftrightarrow> grows S e e'" "grows S (unscheduleInternal ops i e) e' \<longleftrightarrow> grows S e e'"
  by (simp_all add: grows_def unscheduleInternal_def deps_Reset_def forget_sched_def forget_event_def note_sched_def)

lemma grows_delete: "grows S e e' \<Longrightarrow> grows S e (deleteTask v i e')"
  by (auto simp: grows_def deleteTask_def)

lemma grows_setTask: "grows {t_ID t} e (setTask v t e)" "te_tasks e (t_ID t) \<noteq> None \<Longrightarrow> grows {} e (setTask v t e)"
  by (auto simp: grows_def setTask_def)

lemma grows_Register: "grows {t_ID t} e (snd (Register ops v t e))"
proof -
  define t1 where "t1 = (if t_CatchupPolicy t = [] then t\<lparr>t_CatchupPolicy := CatchupPolicySkip\<rparr> else t)"
  have "t_ID t1 = t_ID t" by (simp add: t1_def)
  then have "grows {t_ID t} e (setTask v t1 e)" using grows_setTask(1) [of t1 e v] by simp
  then show ?thesis
    unfolding Register_def t1_def [symmetric] Let_def
    by (auto split: prod.splits option.splits sum.splits bool.splits simp: grows_delete)
qed

lemma grows_Update: "grows {t_ID t} e (snd (Update ops v t e))"
  using grows_Register [of t "unscheduleInternal ops (t_ID t) e" ops v] by (simp add: Update_def)

lemma grows_Unschedule: "grows {} e (Unschedule ops v i e)"
  by (simp add: Unschedule_def grows_delete)

lemma grows_Pause: "synced j R e \<Longrightarrow> grows {} e (snd (Pause ops v i e))"
  by (auto simp: Pause_def getTask_def synced_def grows_def setTask_def forget_sched_def unscheduleInternal_def deps_Reset_def split: option.splits)

lemma grows_finish: "te_tasks e (t_ID t) \<noteq> None \<Longrightarrow> grows {} e (finish_resume v now t e)"
  unfolding finish_resume_def Let_def by (rule grows_trans [OF grows_setTask(2) grows_frame [OF catchup_frame]]) simp

lemma grows_Resume: "synced j R e \<Longrightarrow> grows {} e (snd (Resume ops v now i e))"
proof (cases "te_tasks e i")
  case (Some t)
  assume "synced j R e"
  then have id: "t_ID t = i" using Some by (simp add: synced_def)
  have f: "grows {} e (finish_resume v now t e')" if "te_tasks e' = te_tasks e" for e'
    using grows_finish [of e' t v now] that Some id by (simp add: grows_def)
  then have r: "grows {} e (snd (rearm ops v now i t s e'))" if "te_tasks e' = te_tasks e" for s e'
    using that by (auto simp: rearm_def Let_def grows_def split: prod.splits)
  show ?thesis unfolding Resume_def getTask_def Some option.case sum.case
    by (auto split: prod.splits option.splits sum.splits intro!: r f)
qed (simp add: Resume_def getTask_def)

lemma grows_Schedule: "grows {} e (snd (Schedule_task v now i e))"
  by (auto simp: Schedule_task_def split: sum.split intro: grows_frame [OF trigger_frame])

text \<open>An operation of the engine on a service in order.\<close>

lemma with_engine_ok:
  assumes "stable_json j" "service_ok j s" "sv_engine s = Some e" "synced j (sv_rows s) e'" "grows S e e'"
    "\<And>i. i \<in> S \<Longrightarrow> sv_seeded s \<and> \<not> sv_seedErr s \<Longrightarrow> i \<le> sv_nextID s"
  shows "service_ok j (with_engine j e' s)"
proof -
  let ?rows = "fold (store_apply j) (te_store e') (sv_rows s)"
  have e: "te_store e = []" "synced j (sv_rows s) e" using assms(2,3) by (simp_all add: service_ok_def)
  have "t_ID t \<le> sv_nextID s" if t: "t \<in> set ?rows" and c: "sv_seeded s \<and> \<not> sv_seedErr s" for t
  proof -
    have "tasks_Get (t_ID t) ?rows \<noteq> None" using t by (auto simp: Get_None_iff)
    then have "t_ID t \<in> dom (te_tasks e')" using assms(4) by (auto simp: synced_def dom_def)
    then have "t_ID t \<in> S \<or> t_ID t \<in> dom (te_tasks e)" using assms(5) by (auto simp: grows_def)
    moreover have "i \<in> t_ID ` set (sv_rows s)" if "i \<in> dom (te_tasks e)" for i
      using e that Get_None_iff [of i "sv_rows s"] by (fastforce simp: synced_def)
    moreover have "\<forall>i\<in>t_ID ` set (sv_rows s). i \<le> sv_nextID s" using assms(2) c by (simp add: service_ok_def ids_below_def)
    ultimately show ?thesis using assms(6) c by blast
  qed
  moreover have "rows_ok j ?rows" using assms(1,2) applies_ok by (auto simp: service_ok_def)
  moreover have "0 \<le> sv_nextID s" using assms(2) by (simp add: service_ok_def ids_below_def)
  moreover have "synced j ?rows (e'\<lparr>te_store := []\<rparr>)" using assms(4) by (simp add: synced_def)
  ultimately show ?thesis by (simp add: service_ok_def ids_below_def with_engine_def)
qed

lemma put_ok:
  assumes "stable_json j" "service_ok j s" "sv_seeded s \<and> \<not> sv_seedErr s \<Longrightarrow> t_ID t \<le> sv_nextID s"
    "\<And>e. sv_engine s = Some e \<Longrightarrow> synced j (sv_rows s) (snd (oper e)) \<and> grows {t_ID t} e (snd (oper e))"
  shows "service_ok j (snd (put_task j oper t s))"
proof (cases "sv_engine s")
  case (Some e)
  have "snd (put_task j oper t s) = with_engine j (snd (oper e)) s"
    by (cases "oper e"; cases "fst (oper e)") (simp_all add: put_task_def Some)
  then show ?thesis using with_engine_ok [OF assms(1,2) Some, of "snd (oper e)" "{t_ID t}"] assms(3,4) Some by auto
next
  case None
  have "rows_ok j (tasks_Save j t (sv_rows s))" using apply_ok [OF assms(1), of "sv_rows s" "StoreSave t"] assms(2) by (simp add: service_ok_def)
  moreover have "t_ID x = t_ID t \<or> (\<exists>y\<in>set (sv_rows s). t_ID x = t_ID y)" if "x \<in> set (tasks_Save j t (sv_rows s))" for x
    using that by (auto simp: tasks_Save_def split: if_splits)
  ultimately show ?thesis using assms(2,3) None by (fastforce simp: put_task_def service_ok_def ids_below_def)
qed

lemma max_fold:
  fixes rows :: "'c Task list" and m :: int
  shows "m \<le> fold (\<lambda>t m. max m (t_ID t)) rows m" "t \<in> set rows \<Longrightarrow> t_ID t \<le> fold (\<lambda>t m. max m (t_ID t)) rows m"
    "m < b \<Longrightarrow> \<forall>t\<in>set rows. t_ID t < b \<Longrightarrow> fold (\<lambda>t m. max m (t_ID t)) rows m < b"
proof (induction rows arbitrary: m)
  case (Cons a rows)
  { case 1 show ?case using Cons.IH(1) [of "max m (t_ID a)"] by simp }
  { case 2 then show ?case using Cons.IH(1) [of "max m (t_ID a)"] Cons.IH(2) [of "max m (t_ID a)"] by auto }
  { case 3 then show ?case using Cons.IH(3) [of "max m (t_ID a)"] by simp }
qed simp_all

lemma assign_ok:
  assumes "service_ok j s" "room s" "assignID listed s = (res, s1)"
  shows "service_ok j s1 \<and> sv_engine s1 = sv_engine s \<and> sv_rows s1 = sv_rows s \<and>
    (\<forall>i. res = Some i \<longrightarrow> i = sv_nextID s1 \<and> 0 < i \<and> i \<notin> t_ID ` set (sv_rows s))"
proof -
  define s0 where "s0 = (if sv_seeded s then s else if \<not> listed then s\<lparr>sv_seeded := True, sv_seedErr := True\<rparr>
      else s\<lparr>sv_seeded := True, sv_nextID := fold (\<lambda>t m. max m (t_ID t)) (sv_rows s) 0\<rparr>)"
  let ?m = "fold (\<lambda>t m. max m (t_ID t)) (sv_rows s) 0"
  have m: "0 \<le> ?m" "\<forall>t\<in>set (sv_rows s). t_ID t \<le> ?m" "?m < max_int"
    using max_fold(1) [of 0 "sv_rows s"] max_fold(2) [of _ "sv_rows s" 0] max_fold(3) [of 0 max_int "sv_rows s"] assms(2)
    by (auto simp: room_def max_int_def)
  have f: "sv_engine s0 = sv_engine s" "sv_rows s0 = sv_rows s" by (simp_all add: s0_def)
  have b: "0 \<le> sv_nextID s0" "sv_nextID s0 < max_int" using m assms(2) by (simp_all add: s0_def room_def)
  have ids: "\<forall>t\<in>set (sv_rows s). t_ID t \<le> sv_nextID s0" if "\<not> sv_seedErr s0"
    using that m(2) assms(1) by (auto simp: s0_def service_ok_def ids_below_def split: if_splits)
  have ok: "service_ok j s0" using assms(1) f b(1) ids by (auto simp: service_ok_def ids_below_def)
  have w: "wrap64 (sv_nextID s0 + 1) = sv_nextID s0 + 1" using b by (intro wrap64_id) (simp_all add: min_int_def)
  have eq: "(res, s1) = (if sv_seedErr s0 then (None, s0) else (Some (sv_nextID s0 + 1), s0\<lparr>sv_nextID := sv_nextID s0 + 1\<rparr>))"
    using assms(3) w unfolding assignID_def s0_def [symmetric] by (simp add: Let_def split: if_splits)
  show ?thesis
  proof (cases "sv_seedErr s0")
    case False
    then have "i \<notin> t_ID ` set (sv_rows s)" if "i = sv_nextID s0 + 1" for i using ids that by fastforce
    moreover have "service_ok j (s0\<lparr>sv_nextID := sv_nextID s0 + 1\<rparr>)" using ok b(1) by (fastforce simp: service_ok_def ids_below_def)
    ultimately show ?thesis using False eq f b(1) by simp
  qed (use eq ok f in simp)
qed

lemma create_ok:
  assumes "stable_json j" "service_ok j s" "room s" "v_store (sv_task sv)" "\<forall>t. req = Some t \<longrightarrow> t_DeletedAt t = None"
  shows "service_ok j (snd (CreateTask ops sv j now listed req s))"
proof (cases "validateCreateRequest sv req (sv_rows s) = None \<and> \<not> (sv_maxTasks sv > 0 \<and> tasks_Count (sv_rows s) \<ge> sv_maxTasks sv)")
  case True
  then obtain rq where rq: "req = Some rq" by (cases req) (simp_all add: validateCreateRequest_def)
  obtain res s1 where a: "assignID listed s = (res, s1)" by fastforce
  note ok = assign_ok [OF assms(2,3) a]
  show ?thesis
  proof (cases res)
    case (Some i)
    let ?t = "created_task now i rq"
    have t: "t_ID ?t = i" "t_LastScheduledAt ?t = None" "t_DeletedAt ?t = None" using assms(5) rq by (simp_all add: created_task_def)
    have "synced j (sv_rows s1) (snd (Register ops (sv_task sv) ?t e))" if e: "sv_engine s1 = Some e" for e
    proof (rule synced_Register [OF _ assms(4)])
      have sy: "te_store e = []" "synced j (sv_rows s1) e" using ok e unfolding service_ok_def by blast+
      show "synced j (sv_rows s1) e" by (rule sy(2))
      have "i \<notin> t_ID ` set (sv_rows s1)" using ok Some by metis
      then have "tasks_Get i (sv_rows s1) = None" by (simp only: Get_None_iff not_False_eq_True)
      then have "te_tasks e i = None" using sy by (simp add: synced_def)
      then show "same_origin (te_tasks e (t_ID ?t)) ?t" using t by (simp add: same_origin_def)
    qed
    then have "service_ok j (snd (put_task j (Register ops (sv_task sv) ?t) ?t s1))"
    proof (intro put_ok [OF assms(1)] conjI)
      show "t_ID ?t \<le> sv_nextID s1" using ok Some t by simp
      show "service_ok j s1" using ok by blast
    qed (blast, rule grows_Register)
    then show ?thesis using True a Some rq by (auto simp: CreateTask_def Let_def)
  qed (use True a ok in \<open>auto simp: CreateTask_def\<close>)
qed (use assms(2) in \<open>auto simp: CreateTask_def split: option.splits\<close>)

lemma update_ok:
  assumes "stable_json j" "service_ok j s" "v_store (sv_task sv)" "\<forall>t. req = Some t \<longrightarrow> t_DeletedAt t = None"
  shows "service_ok j (snd (UpdateTask ops sv j now windows i req s))"
proof (cases "\<exists>rq existing. req = Some rq \<and> check_task sv rq = None \<and> tasks_Get i (sv_rows s) = Some existing")
  case True
  then obtain rq old where q: "req = Some rq" "check_task sv rq = None" "tasks_Get i (sv_rows s) = Some old" by blast
  let ?t = "updated_task now windows old rq"
  have t: "t_ID ?t = t_ID old" "t_LastScheduledAt ?t = t_LastScheduledAt old" "t_CreatedAt ?t = t_CreatedAt old" "t_DeletedAt ?t = None"
    using assms(4) q(1) by (simp_all add: updated_task_def)
  have old: "t_ID old = i" "old \<in> set (sv_rows s)" using Get_ID [OF q(3)] by simp_all
  have "synced j (sv_rows s) (snd (Update ops (sv_task sv) ?t e))" if e: "sv_engine s = Some e" for e
  proof (rule synced_Update [OF _ assms(3)])
    show sy: "synced j (sv_rows s) e" using assms(2) e by (simp add: service_ok_def)
    have "te_store e = []" using assms(2) e by (simp add: service_ok_def)
    then have "Some old = map_option (stored_row j) (te_tasks e i)" using sy q(3) by (auto simp: synced_def)
    then show "same_origin (te_tasks e (t_ID ?t)) ?t" using t old by (auto simp: same_origin_def split: option.split)
  qed
  then have "service_ok j (snd (put_task j (Update ops (sv_task sv) ?t) ?t s))"
    using assms(1,2) t old by (intro put_ok) (auto simp: grows_Update service_ok_def ids_below_def)
  then show ?thesis using q by (simp add: UpdateTask_def Let_def)
qed (use assms(2) in \<open>auto simp: UpdateTask_def split: option.splits\<close>)

lemma enabled_ok: "stable_json j \<Longrightarrow> service_ok j s \<Longrightarrow> sv_engine s = None \<Longrightarrow> service_ok j (snd (setEnabled j i b s))"
proof (cases "tasks_Get i (sv_rows s)")
  case (Some t)
  assume a: "stable_json j" "service_ok j s" "sv_engine s = None"
  have "service_ok j (snd (put_task j (\<lambda>e. (None, e)) (t\<lparr>t_Enabled := b\<rparr>) s))"
    using a Get_ID [OF Some] by (intro put_ok) (auto simp: service_ok_def ids_below_def)
  then show ?thesis using a Some by (simp add: setEnabled_def put_task_def)
qed (simp add: setEnabled_def)

lemma call_engine_ok:
  assumes "stable_json j" "service_ok j s" "sv_engine s = Some e" "synced j (sv_rows s) (snd (oper e))" "grows {} e (snd (oper e))"
  shows "service_ok j (snd (engine_call j oper e s))"
  using with_engine_ok [OF assms] by (simp add: engine_call_def case_prod_beta)

lemma delete_ok:
  assumes "stable_json j" "service_ok j s" "v_store (sv_task sv)"
  shows "service_ok j (DeleteTask ops sv j i s)"
proof (cases "sv_engine s")
  case None
  have "rows_ok j (tasks_Delete i (sv_rows s))" using apply_ok [OF assms(1), of "sv_rows s" "StoreDelete i"] assms(2) by (simp add: service_ok_def)
  then show ?thesis using assms(2) None by (auto simp: DeleteTask_def service_ok_def ids_below_def tasks_Delete_def)
next
  case (Some e)
  then have "synced j (sv_rows s) e" using assms(2) by (simp add: service_ok_def)
  then show ?thesis
    using with_engine_ok [OF assms(1,2) Some, of _ "{}"] Some assms(3) by (simp add: DeleteTask_def synced_Unschedule grows_Unschedule)
qed

lemma restart_ok:
  assumes "stable_json j" "service_ok j s" "v_store v"
  shows "service_ok j (restart_service ops v j now order g s)"
proof -
  let ?e = "snd (Restore ops v now order (Some (sv_rows s)) (NewTaskEngine g))"
  have "rows_ok j (sv_rows s)" using assms(2) by (simp add: service_ok_def)
  then have "synced j (sv_rows s) ?e" using assms(3) by (intro synced_Restore) (auto simp: rows_ok_def)
  moreover have "rows_ok j (fold (store_apply j) (te_store ?e) (sv_rows s))" using assms(1) \<open>rows_ok j (sv_rows s)\<close> by (rule applies_ok)
  ultimately show ?thesis by (simp add: restart_service_def with_engine_def service_ok_def ids_below_def synced_def)
qed

lemma service_reach_ok: "service_reach j g0 s \<Longrightarrow> stable_json j \<Longrightarrow> service_ok j s"
proof (induction rule: service_reach.induct)
  case sr_new
  show ?case by (auto simp: new_service_def service_ok_def rows_ok_def ids_below_def synced_def NewTaskEngine_def tasks_Get_def)
next
  case (sr_create s sv req)
  then show ?case by (intro create_ok) auto
next
  case (sr_update s sv req)
  then show ?case by (intro update_ok) auto
next
  case (sr_delete s sv)
  then show ?case by (intro delete_ok) auto
next
  case (sr_trigger s sv)
  then have sy: "sv_engine s = Some e \<Longrightarrow> synced j (sv_rows s) e" for e by (simp add: service_ok_def)
  show ?case using sr_trigger sy
    by (auto simp: TriggerTask_def split: option.split intro!: call_engine_ok synced_Schedule grows_Schedule)
next
  case (sr_pause s sv)
  then have sy: "sv_engine s = Some e \<Longrightarrow> synced j (sv_rows s) e" for e by (simp add: service_ok_def)
  show ?case using sr_pause sy
    by (auto simp: PauseTask_def split: option.split intro!: call_engine_ok synced_Pause grows_Pause enabled_ok)
next
  case (sr_resume s sv)
  then have sy: "sv_engine s = Some e \<Longrightarrow> synced j (sv_rows s) e" for e by (simp add: service_ok_def)
  show ?case using sr_resume sy
    by (auto simp: ResumeTask_def split: option.split intro!: call_engine_ok synced_Resume grows_Resume enabled_ok)
next
  case (sr_copy s sv)
  then show ?case by (auto simp: CopyTask_def copied_task_def split: option.split intro!: create_ok)
next
  case (sr_register s v e t ops)
  then have "synced j (sv_rows s) e" "0 \<le> sv_nextID s" by (simp_all add: service_ok_def ids_below_def)
  then show ?case using sr_register by (intro with_engine_ok [where S = "{t_ID t}"]) (auto intro: synced_Register grows_Register)
next
  case (sr_fire s v e now i)
  then have "synced j (sv_rows s) e" by (simp add: service_ok_def)
  then show ?case using sr_fire by (intro with_engine_ok [where S = "{}"]) (auto intro: synced_onFire grows_frame onFire_frame)
next
  case (sr_completed s e x st)
  then have "synced j (sv_rows s) e" by (simp add: service_ok_def)
  then show ?case using sr_completed by (intro with_engine_ok [where S = "{}"]) (auto intro: synced_completed grows_frame completed_frame)
next
  case (sr_status s v e now order a st)
  then have "synced j (sv_rows s) e" by (simp add: service_ok_def)
  then show ?case using sr_status by (intro with_engine_ok [where S = "{}"]) (auto intro: synced_status grows_frame status_frame)
next
  case (sr_restart s v g)
  then show ?case by (intro restart_ok) auto
qed

subsection \<open>Updating\<close>

lemma Register_tasks:
  assumes "fst (Register ops v t e) = None" "t_CatchupPolicy t \<noteq> []"
  shows "te_tasks (snd (Register ops v t e)) = (te_tasks e)(t_ID t \<mapsto> t)"
  using assms unfolding Register_def Let_def
  by (auto split: prod.splits option.splits sum.splits bool.splits if_splits simp: setTask_def note_sched_def)

lemma Update_tasks:
  assumes "fst (Update ops v t e) = None" "t_CatchupPolicy t \<noteq> []"
  shows "te_tasks (snd (Update ops v t e)) = (te_tasks e)(t_ID t \<mapsto> t)"
  using Register_tasks [of ops v t "unscheduleInternal ops (t_ID t) e"] assms by (simp add: Update_def unscheduleInternal_def deps_Reset_def)

lemma update_cases:
  assumes "UpdateTask ops sv j now windows i req s = (Inr t, s')"
  obtains rq old where "req = Some rq" "tasks_Get i (sv_rows s) = Some old" "t = updated_task now windows old rq"
    "put_task j (Update ops (sv_task sv) t) t s = (Inr t, s')"
proof -
  obtain rq old where q: "req = Some rq" "check_task sv rq = None" "tasks_Get i (sv_rows s) = Some old"
    using assms by (auto simp: UpdateTask_def split: option.splits)
  then have p: "put_task j (Update ops (sv_task sv) (updated_task now windows old rq)) (updated_task now windows old rq) s = (Inr t, s')"
    using assms by (simp add: UpdateTask_def Let_def)
  then have "t = updated_task now windows old rq" by (auto simp: put_task_def split: option.splits prod.splits)
  with p q that show thesis by blast
qed

lemma put_Inr:
  assumes "put_task j oper t s = (Inr t, s')" "sv_engine s = Some e"
  shows "fst (oper e) = None \<and> s' = with_engine j (snd (oper e)) s"
  using assms by (auto simp: put_task_def split: prod.splits option.splits)

subsection \<open>Tasks whose dependency is gone\<close>

lemma blocked_step:
  assumes "te_tasks e k = Some t" "t_ID t = k" "t_DependsOn t = i" "i \<noteq> 0" "\<not> CanExecute i e"
  shows "te_published (task_onFire v now k e) = te_published e \<and> \<not> CanExecute i (task_onFire v now k e) \<and>
    (\<exists>t'. te_tasks (task_onFire v now k e) k = Some t' \<and> t_ID t' = k \<and> t_DependsOn t' = i)"
proof -
  have "te_published (task_onFire v now k e) = te_published e" "te_deps (task_onFire v now k e) = te_deps e"
    using assms by (simp_all add: task_onFire_def getTask_def dispatchGated_def)
  moreover have "later_task (Some t) (te_tasks (task_onFire v now k e) k)"
    using onFire_frame [of e v now k] assms(1) unfolding te_frame_def by metis
  then have "\<exists>t'. te_tasks (task_onFire v now k e) k = Some t' \<and> t_ID t' = k \<and> t_DependsOn t' = i"
    using assms(2,3) unfolding later_task_def option.case by auto
  ultimately show ?thesis using assms(5) by (simp add: CanExecute_def)
qed

lemma blocked_run:
  assumes "te_tasks e k = Some t" "t_ID t = k" "t_DependsOn t = i" "i \<noteq> 0" "\<not> CanExecute i e"
  shows "te_published (fold (\<lambda>(v, now). task_onFire v now k) later e) = te_published e"
  using assms
proof (induction later arbitrary: e t)
  case (Cons f later)
  obtain v now where f: "f = (v, now)" by fastforce
  from blocked_step [OF Cons.prems, of v now] obtain t' where "te_published (task_onFire v now k e) = te_published e"
      "\<not> CanExecute i (task_onFire v now k e)" "te_tasks (task_onFire v now k e) k = Some t'" "t_ID t' = k" "t_DependsOn t' = i" by blast
  with Cons.IH [of "task_onFire v now k e" t'] Cons.prems(4) show ?case by (simp add: f)
qed simp

subsection \<open>Numbers after a restart\<close>

lemma service_ids: "service_ok j s \<Longrightarrow> sv_engine s = Some e \<Longrightarrow> t_ID ` set (sv_rows s) = dom (te_tasks e)"
proof -
  assume "service_ok j s" "sv_engine s = Some e"
  then have "te_store e = []" "synced j (sv_rows s) e" by (simp_all add: service_ok_def)
  then have "tasks_Get i (sv_rows s) = None \<longleftrightarrow> te_tasks e i = None" for i by (simp add: synced_def)
  then show ?thesis unfolding Get_None_iff by (metis (no_types, lifting) domIff set_eqI)
qed

lemma restore_dom: "dom (te_tasks (fold (restore_task ops v now) ts e)) = dom (te_tasks e)"
proof (induction ts arbitrary: e)
  case (Cons t ts)
  have c: "dom (te_tasks (runCatchup v t now q)) = dom (te_tasks q)" for q :: "('a, 'b) task_engine"
  proof -
    have "te_tasks q i = None \<longleftrightarrow> te_tasks (runCatchup v t now q) i = None" for i
      using catchup_frame [of q v t now] by (intro later_task_None) (simp add: te_frame_def)
    then show ?thesis by (simp add: dom_def)
  qed
  have "dom (te_tasks (restore_task ops v now t e)) = dom (te_tasks e)"
    unfolding restore_task_def Let_def by (auto simp: c note_sched_def split: prod.splits option.splits sum.splits bool.splits)
  then show ?case using Cons.IH by simp
qed simp

subsection \<open>A service to try things on\<close>

definition plain_json :: "unit json_coding" where
  "plain_json = \<lparr>j_config = Some, j_metadata = Some\<rparr>"

definition sample_sv :: "unit service_env" where
  "sample_sv = \<lparr>sv_task = sample_env, sv_registry = None, sv_assets = None, sv_maxTasks = 0\<rparr>"

definition sample_request :: "unit Task" where
  "sample_request = sample_task\<lparr>t_ID := 0, t_Schedule := [], t_Enabled := False\<rparr>"

text \<open>Two event-driven tasks, the second of which depends on the first.\<close>

definition one_task :: "(unit, unit engine) task_service" where
  "one_task = snd (CreateTask sample_ops sample_sv plain_json 1 True (Some sample_request) (new_service (Some new_engine)))"

definition two_tasks :: "(unit, unit engine) task_service" where
  "two_tasks = snd (CreateTask sample_ops sample_sv plain_json 2 True (Some (sample_request\<lparr>t_DependsOn := 1\<rparr>)) one_task)"

lemma stable_plain: "stable_json plain_json"
  by (simp add: stable_json_def plain_json_def)

lemma sample_store: "v_store (sv_task sample_sv)"
  by (simp add: sample_sv_def sample_env_def)

lemma sample_values:
  "map t_ID (sv_rows one_task) = [1]" "sv_nextID one_task = 1" "map t_ID (sv_rows two_tasks) = [1, 2]" "sv_nextID two_tasks = 2"
  "\<not> Option.is_none (sv_engine two_tasks)" "map_option t_ID (te_tasks (the (sv_engine two_tasks)) 2) = Some 2"
  "map_option t_DependsOn (te_tasks (the (sv_engine two_tasks)) 2) = Some 1"
  by code_simp+

lemma sample_service: "service_reach plain_json (Some new_engine) two_tasks"
proof -
  have "service_reach plain_json (Some new_engine) one_task"
    unfolding one_task_def by (rule sr_create [OF sr_new sample_store])
      (simp_all add: room_def new_service_def max_int_def sample_request_def sample_task_def)
  moreover have "room one_task"
  proof -
    have "t_ID t = 1" if "t \<in> set (sv_rows one_task)" for t
      using imageI [OF that, of t_ID] arg_cong [OF sample_values(1), of set] by simp
    then show ?thesis by (simp add: room_def sample_values(2) max_int_def)
  qed
  ultimately show ?thesis
    unfolding two_tasks_def by (intro sr_create sample_store) (simp_all add: sample_request_def sample_task_def)
qed

subsection \<open>Properties\<close>



text \<open>C32. The check of a dependency ends and is exact: a request may depend on a task exactly when the number is not
  negative and the chain of dependencies from it ends; the chain is otherwise reported to break at a missing task
  or to form a cycle, whichever is the case.\<close>

theorem dependency_exact:
  "validateDependency rows d =
     (if d < 0 then Some DependsNegative
      else if chain_ends rows d then None
      else if chain_breaks rows d then Some DependsUnknown
      else Some DependsCycle)"
  using depends_loop_eq [of "[]" rows d "length rows + 2"] chain_cases(1) [of rows] by (simp add: validateDependency_def del: depends_loop.simps)

text \<open>The column of tags gives back a list of tags exactly when no tag is empty, contains a comma or begins or ends with
  a space; any other list is changed by storing it, which the service does not check.\<close>

theorem tags_survive: "commaList_Scan (commaList_Value xs) = xs \<longleftrightarrow> clean_tags xs"
  using tags_round_trip [of xs] scan_clean [of "commaList_Value xs"] by metis

text \<open>What an update changes. It is made on the stored task; its tenant, asset, priority, dependency, metadata, creation
  time and watermark are those of the stored task whatever the request says, and the row then holds the
  updated task. No other row changes.\<close>

theorem update_keeps:
  assumes "service_reach j g0 s" "stable_json j" "v_store (sv_task sv)" "\<forall>t. req = Some t \<longrightarrow> t_DeletedAt t = None"
    "sv_engine s = Some e" "UpdateTask ops sv j now windows i req s = (Inr t, s')"
  shows "\<exists>old. tasks_Get i (sv_rows s) = Some old \<and> tasks_Get i (sv_rows s') = Some (stored_row j t) \<and>
    (t_ID t, t_TenantID t, t_AssetID t, t_Priority t, t_DependsOn t, t_Metadata t, t_CreatedAt t, t_LastScheduledAt t) =
      (i, t_TenantID old, t_AssetID old, t_Priority old, t_DependsOn old, t_Metadata old, t_CreatedAt old, t_LastScheduledAt old) \<and>
    (\<forall>k. k \<noteq> i \<longrightarrow> tasks_Get k (sv_rows s') = tasks_Get k (sv_rows s))"
proof -
  note ok = service_reach_ok [OF assms(1,2)]
  from assms(6) obtain rq old where q: "req = Some rq" "tasks_Get i (sv_rows s) = Some old" "t = updated_task now windows old rq"
    "put_task j (Update ops (sv_task sv) t) t s = (Inr t, s')" by (rule update_cases)
  have old: "t_ID old = i" using Get_ID [OF q(2)] by simp
  let ?e = "snd (Update ops (sv_task sv) t e)"
  have p: "fst (Update ops (sv_task sv) t e) = None" "s' = with_engine j ?e s" using put_Inr [OF q(4) assms(5)] by simp_all
  have cp: "t_CatchupPolicy t \<noteq> []" by (simp add: q(3) updated_task_def CatchupPolicySkip_def)
  have ok': "service_ok j s'" using update_ok [OF assms(2) ok assms(3,4), of ops now windows i] assms(6) by simp
  have tasks: "te_tasks ?e = (te_tasks e)(i \<mapsto> t)" using Update_tasks [OF p(1) cp] q(3) old by (simp add: updated_task_def)
  have get: "tasks_Get k (sv_rows s') = map_option (stored_row j) (te_tasks ?e k)" for k
    using ok' p(2) by (auto simp: service_ok_def with_engine_def synced_def)
  have get0: "tasks_Get k (sv_rows s) = map_option (stored_row j) (te_tasks e k)" for k
    using ok assms(5) by (auto simp: service_ok_def synced_def)
  show ?thesis
  proof (intro exI [of _ old] conjI allI impI)
    show "tasks_Get i (sv_rows s') = Some (stored_row j t)" by (simp add: get tasks)
    show "tasks_Get k (sv_rows s') = tasks_Get k (sv_rows s)" if "k \<noteq> i" for k using that by (simp add: get get0 tasks)
  qed (simp_all add: q(2) q(3) old updated_task_def)
qed

theorem update_keeps_witness:
  "map_option t_DependsOn (tasks_Get 2 (sv_rows (snd (UpdateTask sample_ops sample_sv plain_json 3 False 2
     (Some (sample_request\<lparr>t_Name := ''new'', t_DependsOn := 2\<rparr>)) two_tasks)))) = Some 1"
proof -
  let ?u = "UpdateTask sample_ops sample_sv plain_json 3 False 2 (Some (sample_request\<lparr>t_Name := ''new'', t_DependsOn := 2\<rparr>)) two_tasks"
  obtain e where e: "sv_engine two_tasks = Some e" using sample_values(5) by (cases "sv_engine two_tasks") auto
  have "case fst ?u of Inl _ \<Rightarrow> False | Inr _ \<Rightarrow> True" by code_simp
  then obtain t where t: "?u = (Inr t, snd ?u)" by (cases "fst ?u") (auto simp: prod_eq_iff)
  have rows: "map_option t_DependsOn (tasks_Get 2 (sv_rows two_tasks)) = Some 1" by code_simp
  have req: "\<forall>t. Some (sample_request\<lparr>t_Name := ''new'', t_DependsOn := 2\<rparr>) = Some t \<longrightarrow> t_DeletedAt t = None"
    by (simp add: sample_request_def sample_task_def)
  obtain old where "tasks_Get 2 (sv_rows two_tasks) = Some old" "tasks_Get 2 (sv_rows (snd ?u)) = Some (stored_row plain_json t)" "t_DependsOn t = t_DependsOn old"
    using update_keeps [OF sample_service stable_plain sample_store req e t] by auto
  then show ?thesis using rows by simp
qed



text \<open>A number is assigned twice. When the newest task is deleted and the process restarts, the next task that is
  created gets the number of the deleted one, and with it its execution history and the tasks that
  depend on that number.\<close>

theorem number_reused:
  assumes "service_reach j g0 s" "stable_json j" "sv_engine s = Some e" "v_store (sv_task sv)" "1 < i" "i \<le> max_int"
    "i - 1 \<in> t_ID ` set (sv_rows s)" "\<forall>t\<in>set (sv_rows s). t_ID t \<le> i"
  shows "fst (assignID True (restart_service ops (sv_task sv) j now order g (DeleteTask ops sv j i s))) = Some i"
proof -
  note ok = service_reach_ok [OF assms(1,2)]
  let ?d = "DeleteTask ops sv j i s" and ?e = "(Unschedule ops (sv_task sv) i e)\<lparr>te_store := []\<rparr>"
  let ?r = "restart_service ops (sv_task sv) j now order g ?d"
  have okd: "service_ok j ?d" by (rule delete_ok [OF assms(2) ok assms(4)])
  have okr: "service_ok j ?r" by (rule restart_ok [OF assms(2) okd assms(4)])
  have "sv_engine ?d = Some ?e" by (simp add: DeleteTask_def assms(3) with_engine_def)
  then have idd: "t_ID ` set (sv_rows ?d) = t_ID ` set (sv_rows s) - {i}"
    using service_ids [OF okd] service_ids [OF ok assms(3)] by (auto simp: Unschedule_def forget_event_def forget_sched_def deleteTask_def unscheduleInternal_def deps_Reset_def)
  let ?n = "snd (Restore ops (sv_task sv) now order (Some (sv_rows ?d)) (NewTaskEngine g))"
  have "dom (te_tasks ?n) = t_ID ` set (sv_rows ?d)"
  proof -
    have "dom (fold (\<lambda>t m. m(t_ID t \<mapsto> t)) (sv_rows ?d) Map.empty) = t_ID ` set (sv_rows ?d)"
      using listed_dom [of _ Map.empty "sv_rows ?d"] listed_map [of "sv_rows ?d" Map.empty] by (force simp: dom_def)
    then show ?thesis using assms(4) by (simp add: Restore_def Let_def restore_dom)
  qed
  then have idr: "t_ID ` set (sv_rows ?r) = t_ID ` set (sv_rows s) - {i}"
    using service_ids [OF okr, of "?n\<lparr>te_store := []\<rparr>"] idd by (simp add: restart_service_def with_engine_def)
  let ?m = "fold (\<lambda>t m. max m (t_ID t)) (sv_rows ?r) 0"
  have "t_ID t < i" if "t \<in> set (sv_rows ?r)" for t
  proof -
    have "t_ID t \<in> t_ID ` set (sv_rows s) - {i}" using that unfolding idr [symmetric] by (rule imageI)
    then show ?thesis using assms(8) by auto
  qed
  then have "?m < i" using assms(5) by (intro max_fold(3)) simp_all
  moreover have "i - 1 \<le> ?m"
  proof -
    have "i - 1 \<in> t_ID ` set (sv_rows ?r)" unfolding idr using assms(7) by simp
    then show ?thesis using max_fold(2) [of _ "sv_rows ?r" 0] by (elim imageE) simp
  qed
  ultimately have "?m = i - 1" by simp
  moreover have "sv_seeded ?r = False" "sv_seedErr ?r = False" by (simp_all add: restart_service_def with_engine_def)
  moreover have "wrap64 i = i" using assms(5,6) by (intro wrap64_id) (simp_all add: min_int_def)
  ultimately show ?thesis by (simp add: assignID_def Let_def)
qed

theorem number_reused_witness:
  "fst (assignID True (restart_service sample_ops sample_env plain_json 5 [] new_engine (DeleteTask sample_ops sample_sv plain_json 2 two_tasks))) = Some 2"
proof -
  obtain e where e: "sv_engine two_tasks = Some e" using sample_values(5) by (cases "sv_engine two_tasks") auto
  have ids: "t_ID ` set (sv_rows two_tasks) = {1, 2}" using arg_cong [OF sample_values(3), of set] by simp
  have "t_ID t \<le> 2" if "t \<in> set (sv_rows two_tasks)" for t using imageI [OF that, of t_ID] unfolding ids by auto
  then show ?thesis
    using number_reused [OF sample_service stable_plain e sample_store, of 2 sample_ops 5 "[]" new_engine] ids
    by (simp add: max_int_def sample_sv_def)
qed

end
